(* ===== verification/SH_Prelude.thy ===== *)
theory SH_Prelude
  imports Main "HOL-Library.Word"
begin

text \<open>
  Shared vocabulary of the StreamHash development: the machine-integer type names, the error
  sentinels of \<^verbatim>\<open>internal/sherr/errors.go\<close>, results that may fail, bounded counting loops,
  and byte buffers with their little-endian accessors. Buffers are lists of bytes; the one view
  that all codecs share is \<open>data_bit\<close>, the bit of a buffer at an absolute bit position.
\<close>

unbundle bit_operations_syntax

named_theorems codec_simps \<open>bit-level facts about the byte accessors\<close>
named_theorems res_simps \<open>rewriting of results that may fail\<close>

section \<open>Machine integers and results\<close>

type_synonym u8 = "8 word"
type_synonym u16 = "16 word"
type_synonym u32 = "32 word"
type_synonym u64 = "64 word"
type_synonym u128 = "128 word"
type_synonym bytes = "u8 list"

text \<open>
  One constructor per sentinel; \<open>ErrOther\<close> carries an error the code makes with a plain
  \<^verbatim>\<open>fmt.Errorf\<close>, and \<open>GoPanic\<close> is a run-time panic (index or slice out of range, or an
  explicit call of \<^verbatim>\<open>panic\<close>).
\<close>

datatype sherr =
    ErrBuilderClosed | ErrTooManyKeys | ErrKeyTooShort | ErrKeyTooLong | ErrPayloadOverflow
  | ErrDuplicateKey | ErrUnsortedInput | ErrKeyCountMismatch
  | ErrPayloadTooLarge | ErrFingerprintTooLarge | ErrSplitBucketSeedSearchFailed
  | ErrIndistinguishableHashes
  | ErrInvalidMagic | ErrInvalidVersion | ErrChecksumFailed | ErrTruncatedFile | ErrCorruptedIndex
  | ErrIndexClosed | ErrNoPayload | ErrNotFound
  | ErrInvalidGeometry | ErrBlockOverflow
  | ErrOther string
  | GoPanic string

type_synonym 'a res = "sherr + 'a"

definition rbind :: "'a res \<Rightarrow> ('a \<Rightarrow> 'b res) \<Rightarrow> 'b res" where
  "rbind m f = (case m of Inl e \<Rightarrow> Inl e | Inr x \<Rightarrow> f x)"

lemma rbind_Inl [simp]: "rbind (Inl e) f = Inl e"
  by (simp add: rbind_def)

lemma rbind_Inr [simp]: "rbind (Inr x) f = f x"
  by (simp add: rbind_def)

lemma rbind_eq_Inr [res_simps]: "rbind m f = Inr y \<longleftrightarrow> (\<exists>x. m = Inr x \<and> f x = Inr y)"
  by (simp add: rbind_def split: sum.splits)

lemma rbind_pair_Inr: "rbind m (\<lambda>(a, b). f a b) = Inr y \<longleftrightarrow> (\<exists>a b. m = Inr (a, b) \<and> f a b = Inr y)"
  by (auto simp: rbind_eq_Inr)

lemma rbind_eq_Inl [res_simps]:
  "rbind m f = Inl e \<longleftrightarrow> m = Inl e \<or> (\<exists>x. m = Inr x \<and> f x = Inl e)"
  by (auto simp add: rbind_def split: sum.splits)

lemma rbind_cong [fundef_cong]:
  "m = m' \<Longrightarrow> (\<And>x. m' = Inr x \<Longrightarrow> f x = f' x) \<Longrightarrow> rbind m f = rbind m' f'"
  by (simp add: rbind_def split: sum.splits)

text \<open>A panic is told apart from an error the code returns.\<close>

fun is_panic :: "'a res \<Rightarrow> bool" where
  "is_panic (Inl (GoPanic _)) = True"
| "is_panic _ = False"

section \<open>Counting loops\<close>

text \<open>
  \<open>first_upto p i n\<close> is the loop \<^verbatim>\<open>for s := i; s < n; s++ { if p(s) { return s } }\<close>:
  the least \<open>s\<close> of \<open>{i..<n}\<close> with \<open>p s\<close>, if there is one.
\<close>

function first_upto :: "(nat \<Rightarrow> bool) \<Rightarrow> nat \<Rightarrow> nat \<Rightarrow> nat option" where
  "first_upto p i n = (if i < n then if p i then Some i else first_upto p (Suc i) n else None)"
  by pat_completeness auto
termination
  by (relation "measure (\<lambda>(p, i, n). n - i)") auto

declare first_upto.simps [simp del]

lemma first_upto_Some:
  "first_upto p i n = Some s \<Longrightarrow> i \<le> s \<and> s < n \<and> p s \<and> (\<forall>t. i \<le> t \<longrightarrow> t < s \<longrightarrow> \<not> p t)"
proof (induction p i n rule: first_upto.induct)
  case (1 p i n)
  show ?case
  proof (cases "i < n \<and> \<not> p i")
    case True
    with "1.prems" have "first_upto p (Suc i) n = Some s"
      by (simp add: first_upto.simps [of p i n])
    with True "1.IH" have IH: "Suc i \<le> s \<and> s < n \<and> p s \<and> (\<forall>t. Suc i \<le> t \<longrightarrow> t < s \<longrightarrow> \<not> p t)"
      by simp
    moreover have "\<forall>t. i \<le> t \<longrightarrow> t < s \<longrightarrow> \<not> p t"
      using IH True by (metis Suc_leI le_neq_implies_less)
    ultimately show ?thesis
      by simp
  next
    case False
    with "1.prems" show ?thesis
      by (auto simp: first_upto.simps [of p i n] split: if_splits)
  qed
qed

lemma first_upto_None: "first_upto p i n = None \<longleftrightarrow> (\<forall>t. i \<le> t \<longrightarrow> t < n \<longrightarrow> \<not> p t)"
proof (induction p i n rule: first_upto.induct)
  case (1 p i n)
  show ?case
  proof (cases "i < n \<and> \<not> p i")
    case True
    with "1.IH" show ?thesis
      by (auto simp: first_upto.simps [of p i n]) (metis Suc_leI le_neq_implies_less)
  next
    case False
    then show ?thesis
      by (auto simp: first_upto.simps [of p i n])
  qed
qed

lemma first_upto_cong:
  "(\<And>t. i \<le> t \<Longrightarrow> t < n \<Longrightarrow> p t = q t) \<Longrightarrow> first_upto p i n = first_upto q i n"
proof (induction p i n rule: first_upto.induct)
  case (1 p i n)
  then show ?case
    by (simp add: first_upto.simps [of p i n] first_upto.simps [of q i n])
qed

lemma first_upto_hit [simp]: "i < n \<Longrightarrow> p i \<Longrightarrow> first_upto p i n = Some i"
  by (simp add: first_upto.simps)

text \<open>The same loop when the test itself may fail.\<close>

function first_upto_res :: "(nat \<Rightarrow> bool res) \<Rightarrow> nat \<Rightarrow> nat \<Rightarrow> nat option res" where
  "first_upto_res p i n =
    (if i < n then rbind (p i) (\<lambda>b. if b then Inr (Some i) else first_upto_res p (Suc i) n)
     else Inr None)"
  by pat_completeness auto
termination
  by (relation "measure (\<lambda>(p, i, n). n - i)") auto

declare first_upto_res.simps [simp del]

lemma first_upto_res_total:
  "(\<And>t. i \<le> t \<Longrightarrow> t < n \<Longrightarrow> p t = Inr (q t)) \<Longrightarrow> first_upto_res p i n = Inr (first_upto q i n)"
proof (induction p i n rule: first_upto_res.induct)
  case (1 p i n)
  then show ?case
    by (simp add: first_upto_res.simps [of p i n] first_upto.simps [of q i n])
qed

text \<open>Indexing a slice panics out of range.\<close>

definition get_at :: "'a list \<Rightarrow> nat \<Rightarrow> 'a res" where
  "get_at xs i = (if i < length xs then Inr (xs ! i) else Inl (GoPanic ''index out of range''))"

definition set_at :: "'a list \<Rightarrow> nat \<Rightarrow> 'a \<Rightarrow> 'a list res" where
  "set_at xs i v = (if i < length xs then Inr (xs[i := v]) else Inl (GoPanic ''index out of range''))"

lemma get_at_ok [simp]: "i < length xs \<Longrightarrow> get_at xs i = Inr (xs ! i)"
  by (simp add: get_at_def)

lemma set_at_ok [simp]: "i < length xs \<Longrightarrow> set_at xs i v = Inr (xs[i := v])"
  by (simp add: set_at_def)

text \<open>A loop over the elements of a list whose body may fail.\<close>

fun rfold :: "('a \<Rightarrow> 's \<Rightarrow> 's res) \<Rightarrow> 'a list \<Rightarrow> 's \<Rightarrow> 's res" where
  "rfold f [] s = Inr s"
| "rfold f (x # xs) s = rbind (f x s) (rfold f xs)"

lemma rfold_append: "rfold f (xs @ ys) s = rbind (rfold f xs s) (rfold f ys)"
  by (induction xs arbitrary: s) (auto simp: rbind_def split: sum.splits)

text \<open>A loop whose body never fails is an ordinary fold, and an invariant is carried from step to step.\<close>

lemma rfold_fold: "(\<And>x s. x \<in> set xs \<Longrightarrow> f x s = Inr (g x s)) \<Longrightarrow> rfold f xs s = Inr (fold g xs s)"
  by (induction xs arbitrary: s) simp_all

lemma rfold_upt_inv:
  assumes "I 0 s" and "\<And>i s. i < n \<Longrightarrow> I i s \<Longrightarrow> \<exists>s'. f i s = Inr s' \<and> I (Suc i) s'"
  shows "\<exists>s'. rfold f [0..<n] s = Inr s' \<and> I n s'"
  using assms
proof (induction n)
  case (Suc n)
  then obtain s' where "rfold f [0..<n] s = Inr s'" "I n s'"
    by (meson less_Suc_eq)
  then show ?case
    using Suc.prems(2) [of n s'] by (auto simp: rfold_append)
qed simp

section \<open>Words and lists\<close>

lemma word_of_unat: "unat (w :: 'a::len word) = n \<Longrightarrow> w = of_nat n"
  by auto

lemma unat_lt2p: "unat (w :: 'a::len word) < 2 ^ LENGTH('a)"
  by (rule unsigned_less)

lemma unat_ucast_lt [simp]:
  fixes w :: "'a::len word"
  assumes "unat w < 2 ^ LENGTH('b)"
  shows "unat (ucast w :: 'b::len word) = unat w"
  using assms by (simp add: unsigned_ucast_eq take_bit_nat_eq_self)

lemma unat_of_nat_lt [simp]:
  "n < 2 ^ LENGTH('a) \<Longrightarrow> unat (of_nat n :: 'a::len word) = n"
  by (simp add: unat_of_nat)

lemma unat_drop_bit_div: "unat (drop_bit n (w :: 'a::len word)) = unat w div 2 ^ n"
  by (metis unat_drop_bit_eq drop_bit_eq_div)

lemma fold_or_bit:
  fixes v :: "'a::len word"
  shows "bit (fold (\<lambda>i v. v OR g i) is v) k \<longleftrightarrow> bit v k \<or> (\<exists>i\<in>set is. bit (g i) k)"
  by (induction "is" arbitrary: v) (auto simp: bit_or_iff)

lemma nth_concat_map_const:
  assumes "\<And>x. x \<in> set xs \<Longrightarrow> length (f x) = k" and "i < length xs" and "j < k"
  shows "concat (map f xs) ! (i * k + j) = f (xs ! i) ! j"
  using assms
proof (induction xs arbitrary: i)
  case (Cons x xs)
  then show ?case
  proof (cases i)
    case (Suc i')
    with Cons.prems have "concat (map f xs) ! (i' * k + j) = f (xs ! i') ! j"
      by (intro Cons.IH) auto
    moreover have "i * k + j = length (f x) + (i' * k + j)"
      using Cons.prems(1) Suc by simp
    ultimately show ?thesis
      using Suc by (simp add: nth_append)
  qed (simp add: nth_append)
qed simp

lemma length_concat_const:
  "(\<And>x. x \<in> set xs \<Longrightarrow> length (f x) = k) \<Longrightarrow> length (concat (map f xs)) = k * length xs"
  by (induction xs) auto

text \<open>Overwriting part of a buffer: \<^verbatim>\<open>copy(dst[off:], src)\<close> where \<^verbatim>\<open>src\<close> fits.\<close>

definition copy_at :: "'a list \<Rightarrow> nat \<Rightarrow> 'a list \<Rightarrow> 'a list" where
  "copy_at dst off src = take off dst @ take (length dst - off) src @ drop (off + length src) dst"

lemma length_copy_at [simp]: "off \<le> length dst \<Longrightarrow> length (copy_at dst off src) = length dst"
  by (simp add: copy_at_def)

lemma take_copy_at:
  "off + length src \<le> length dst \<Longrightarrow> take (off + length src) (copy_at dst off src) = take off dst @ src"
  by (simp add: copy_at_def)

lemma nth_copy_at:
  assumes "off + length src \<le> length dst" and "i < length dst"
  shows "copy_at dst off src ! i =
    (if off \<le> i \<and> i < off + length src then src ! (i - off) else dst ! i)"
  using assms by (auto simp: copy_at_def nth_append min_def)

lemma slice_copy_at:
  "off + length src \<le> length dst \<Longrightarrow> take (length src) (drop off (copy_at dst off src)) = src"
  by (simp add: copy_at_def)

lemma slice_copy_at_other:
  assumes "off + length src \<le> length dst" and "a + n \<le> off \<or> off + length src \<le> a"
    and "a + n \<le> length dst"
  shows "take n (drop a (copy_at dst off src)) = take n (drop a dst)"
  using assms by (intro nth_equalityI) (auto simp: nth_copy_at)

section \<open>Bits of a byte buffer and little-endian access\<close>

definition data_bit :: "bytes \<Rightarrow> nat \<Rightarrow> bool" where
  "data_bit bs i \<longleftrightarrow> i div 8 < length bs \<and> bit (bs ! (i div 8)) (i mod 8)"

lemma data_bit_Nil [simp]: "\<not> data_bit [] i"
  by (simp add: data_bit_def)

lemma data_bit_beyond: "8 * length bs \<le> i \<Longrightarrow> \<not> data_bit bs i"
  by (auto simp: data_bit_def)

lemma data_bit_less: "data_bit bs i \<Longrightarrow> i < 8 * length bs"
  using data_bit_beyond [of bs i] by (cases "i < 8 * length bs") auto

lemma data_bit_append [codec_simps]:
  "data_bit (xs @ ys) i =
    (if i < 8 * length xs then data_bit xs i else data_bit ys (i - 8 * length xs))"
proof (cases "i < 8 * length xs")
  case True
  then have "i div 8 < length xs"
    by (simp add: div_less_iff_less_mult mult.commute)
  with True show ?thesis
    by (simp add: data_bit_def nth_append)
next
  case False
  then obtain j where j: "i = 8 * length xs + j"
    by (metis le_Suc_ex linorder_not_less)
  then have "i div 8 = length xs + j div 8" and "i mod 8 = j mod 8"
    by simp_all
  with j show ?thesis
    by (simp add: data_bit_def)
qed

lemma data_bit_drop [codec_simps]: "data_bit (drop k xs) i = data_bit xs (8 * k + i)"
proof -
  have "k + i div 8 = (8 * k + i) div 8"
    by simp
  moreover have "i mod 8 = (8 * k + i) mod 8"
    by simp
  ultimately show ?thesis
    by (auto simp: data_bit_def)
qed

lemma data_bit_take [codec_simps]: "data_bit (take k xs) i \<longleftrightarrow> i < 8 * k \<and> data_bit xs i"
  by (auto simp: data_bit_def div_less_iff_less_mult mult.commute)

lemma data_bit_replicate_0 [simp]: "\<not> data_bit (replicate n 0) i"
  by (simp add: data_bit_def)

lemma bytes_eqI:
  assumes "length xs = length ys" and "\<And>i. i < 8 * length xs \<Longrightarrow> data_bit xs i = data_bit ys i"
  shows "xs = ys"
proof (rule nth_equalityI)
  fix j assume j: "j < length xs"
  show "xs ! j = ys ! j"
  proof (rule bit_word_eqI)
    fix n assume "n < LENGTH(8)"
    then have "n < 8" by simp
    then have "(8 * j + n) div 8 = j" and "(8 * j + n) mod 8 = n" and "8 * j + n < 8 * length xs"
      using j by simp_all
    with assms(2) [of "8 * j + n"] assms(1) j show "bit (xs ! j) n = bit (ys ! j) n"
      by (simp add: data_bit_def)
  qed
qed (rule assms(1))

lemma data_bit_update [codec_simps]:
  assumes "j < length bs"
  shows "data_bit (bs[j := v]) i \<longleftrightarrow> (if i div 8 = j then bit v (i mod 8) else data_bit bs i)"
  using assms by (auto simp: data_bit_def nth_list_update)

text \<open>
  \<open>le_get\<close> assembles a word from bytes as \<^verbatim>\<open>binary.LittleEndian.Uint16/32/64\<close> and the
  hand-written loops \<^verbatim>\<open>v |= uint64(src[i]) << (i*8)\<close> do; \<open>le_put n\<close> gives the low \<open>n\<close> bytes
  of a word, as \<^verbatim>\<open>PutUint16/32/64\<close> and the loops \<^verbatim>\<open>dst[i] = byte(v >> (i*8))\<close> do.
\<close>

definition le_get :: "bytes \<Rightarrow> 'a::len word" where
  "le_get bs = fold (\<lambda>i v. v OR push_bit (8 * i) (ucast (bs ! i))) [0..<length bs] 0"

definition le_put :: "nat \<Rightarrow> 'a::len word \<Rightarrow> bytes" where
  "le_put n w = map (\<lambda>i. ucast (drop_bit (8 * i) w)) [0..<n]"

lemma length_le_put [simp]: "length (le_put n w) = n"
  by (simp add: le_put_def)

lemma bit_le_get [codec_simps]:
  "bit (le_get bs :: 'a::len word) k \<longleftrightarrow> k < LENGTH('a) \<and> data_bit bs k"
proof -
  have "bit (le_get bs :: 'a word) k \<longleftrightarrow>
      (\<exists>i. (8 * i \<le> k \<and> k - 8 * i < 8) \<and> i < length bs \<and> k < LENGTH('a) \<and> bit (bs ! i) (k - 8 * i))"
    by (auto simp: le_get_def fold_or_bit bit_push_bit_iff bit_word_ucast_iff dest: bit_imp_le_length)
  also have "\<dots> \<longleftrightarrow> k < LENGTH('a) \<and> data_bit bs k"
  proof -
    have "8 * i \<le> k \<and> k - 8 * i < 8 \<longleftrightarrow> i = k div 8" for i
      by auto
    moreover have "k - 8 * (k div 8) = k mod 8"
      by (simp add: minus_mult_div_eq_mod)
    ultimately show ?thesis
      by (simp only: simp_thms) (auto simp: data_bit_def)
  qed
  finally show ?thesis .
qed

lemma data_bit_le_put [codec_simps]: "data_bit (le_put n w) k \<longleftrightarrow> k < 8 * n \<and> bit w k"
  by (auto simp: data_bit_def le_put_def bit_ucast_iff bit_drop_bit_eq
      div_less_iff_less_mult mult.commute)

lemma le_get_le_put: "le_get (le_put n w) = take_bit (8 * n) w"
  by (rule bit_word_eqI) (simp add: codec_simps bit_take_bit_iff)

lemma le_get_le_put_id [simp]:
  fixes w :: "'a::len word"
  assumes "LENGTH('a) \<le> 8 * n"
  shows "le_get (le_put n w) = w"
  by (rule bit_word_eqI) (use assms in \<open>simp add: codec_simps\<close>)

lemma le_put_le_get [simp]:
  assumes "length bs = n" and "8 * n \<le> LENGTH('a::len)"
  shows "le_put n (le_get bs :: 'a word) = bs"
  by (rule bytes_eqI) (use assms in \<open>auto simp: codec_simps\<close>)

lemma take_bit_le_get [simp]:
  "8 * length bs \<le> m \<Longrightarrow> take_bit m (le_get bs :: 'a::len word) = le_get bs"
  by (rule bit_word_eqI) (auto simp: codec_simps bit_take_bit_iff dest: data_bit_less)

lemma ucast_le_get [codec_simps]:
  assumes "8 * length bs \<le> LENGTH('b)"
  shows "ucast (le_get bs :: 'b::len word) = (le_get bs :: 'a::len word)"
proof (rule bit_word_eqI)
  fix n
  have "data_bit bs n \<Longrightarrow> n < LENGTH('b)"
    using assms by (auto dest: data_bit_less)
  then show "bit (ucast (le_get bs :: 'b word) :: 'a word) n = bit (le_get bs :: 'a word) n"
    if "n < LENGTH('a)" using that by (auto simp: bit_ucast_iff bit_le_get)
qed

lemma le_put_ucast [codec_simps]:
  assumes "8 * n \<le> LENGTH('b)"
  shows "le_put n (ucast (w :: 'a::len word) :: 'b::len word) = le_put n w"
  by (rule bytes_eqI) (use assms in \<open>auto simp: data_bit_le_put bit_ucast_iff\<close>)

text \<open>
  The accessors of \<^verbatim>\<open>encoding/binary\<close> panic on a short slice; a store at an offset writes
  within the slice or panics. \<open>put_bytes dst off src\<close> is the store of all of \<open>src\<close>.
\<close>

definition get_le :: "nat \<Rightarrow> bytes \<Rightarrow> 'a::len word res" where
  "get_le n bs = (if length bs < n then Inl (GoPanic ''index out of range'') else Inr (le_get (take n bs)))"

definition put_bytes :: "bytes \<Rightarrow> nat \<Rightarrow> bytes \<Rightarrow> bytes res" where
  "put_bytes dst off src =
    (if off + length src \<le> length dst then Inr (copy_at dst off src)
     else Inl (GoPanic ''index out of range''))"

definition slice_from :: "nat \<Rightarrow> bytes \<Rightarrow> bytes res" where
  "slice_from off bs = (if off \<le> length bs then Inr (drop off bs) else Inl (GoPanic ''slice bounds out of range''))"

definition slice :: "nat \<Rightarrow> nat \<Rightarrow> bytes \<Rightarrow> bytes res" where
  "slice lo hi bs =
    (if lo \<le> hi \<and> hi \<le> length bs then Inr (take (hi - lo) (drop lo bs))
     else Inl (GoPanic ''slice bounds out of range''))"

lemma get_le_ok [simp]: "n \<le> length bs \<Longrightarrow> get_le n bs = Inr (le_get (take n bs))"
  by (simp add: get_le_def)

lemma put_bytes_ok [simp]: "off + length src \<le> length dst \<Longrightarrow> put_bytes dst off src = Inr (copy_at dst off src)"
  by (simp add: put_bytes_def)

lemma slice_from_ok [simp]: "off \<le> length bs \<Longrightarrow> slice_from off bs = Inr (drop off bs)"
  by (simp add: slice_from_def)

lemma slice_ok [simp]: "lo \<le> hi \<Longrightarrow> hi \<le> length bs \<Longrightarrow> slice lo hi bs = Inr (take (hi - lo) (drop lo bs))"
  by (simp add: slice_def)

lemma put_bytes_Inr:
  "put_bytes dst off src = Inr dst' \<longleftrightarrow> off + length src \<le> length dst \<and> dst' = copy_at dst off src"
  by (auto simp: put_bytes_def)

end
