(* ===== verification/Bits_Mix.thy ===== *)
theory Bits_Mix
  imports SH_Prelude
begin

text \<open>
  Hash arithmetic: \<^verbatim>\<open>math/bits.Mul64\<close> and \<^verbatim>\<open>ReverseBytes64\<close>, the range reduction of
  \<^verbatim>\<open>internal/bits/bits.go\<close> that routes keys to blocks and buckets, and the seeded mixer of
  \<^verbatim>\<open>internal/bijection/mix.go\<close>.
\<close>

definition Mul64 :: "u64 \<Rightarrow> u64 \<Rightarrow> u64 \<times> u64" where
  "Mul64 a b = (let p = ucast a * ucast b :: u128 in (ucast (drop_bit 64 p), ucast p))"

definition ReverseBytes64 :: "u64 \<Rightarrow> u64" where
  "ReverseBytes64 w = le_get (rev (le_put 8 w))"

definition FastRange32 :: "u64 \<Rightarrow> u32 \<Rightarrow> u32" where
  "FastRange32 hash n = (if n = 0 then 0 else ucast (fst (Mul64 hash (ucast n))))"

record mixParts =
  xoredK0 :: u64
  xoredK1 :: u64

definition wymix :: "u64 \<Rightarrow> u64 \<Rightarrow> u64" where
  "wymix a b = (case Mul64 a b of (hi, lo) \<Rightarrow> hi XOR lo)"

definition mixFromParts :: "mixParts \<Rightarrow> u32 \<Rightarrow> u32 \<Rightarrow> u32" where
  "mixFromParts parts seed bucketSize =
    (if bucketSize \<le> 1 then 0
     else FastRange32 (wymix (xoredK0 parts XOR ucast seed) (xoredK1 parts)) bucketSize)"

lemma Mul64_hi: "unat (fst (Mul64 a b)) = unat a * unat b div 2 ^ 64"
proof -
  have ua: "unat a < 2 ^ 64" and ub: "unat b < 2 ^ 64"
    using unat_lt2p [of a] unat_lt2p [of b] by simp_all
  then have m: "unat a * unat b < 2 ^ 64 * 2 ^ 64"
    by (intro mult_strict_mono) auto
  have "unat (ucast a :: u128) = unat a" "unat (ucast b :: u128) = unat b"
    using ua ub by simp_all
  with m have p: "unat (ucast a * ucast b :: u128) = unat a * unat b"
    by (simp add: unat_word_ariths)
  have "unat a * unat b div 2 ^ 64 < 2 ^ 64"
    using m by (simp add: div_less_iff_less_mult)
  moreover have "unat (drop_bit 64 (ucast a * ucast b :: u128)) = unat a * unat b div 2 ^ 64"
    using p by (metis unat_drop_bit_eq drop_bit_eq_div)
  ultimately show ?thesis
    by (simp add: Mul64_def Let_def)
qed

lemma unat_FastRange32: "unat (FastRange32 h n) = unat h * unat n div 2 ^ 64"
proof (cases "n = 0")
  case False
  have n: "unat (ucast n :: u64) = unat n"
    using unat_lt2p [of n] by simp
  have "unat h * unat n div 2 ^ 64 < unat n"
    using unat_lt2p [of h] False by (simp add: div_less_iff_less_mult unat_gt_0)
  moreover have "unat n < 2 ^ 32"
    using unat_lt2p [of n] by simp
  ultimately have "unat h * unat n div 2 ^ 64 < 2 ^ 32"
    by linarith
  with False n show ?thesis
    by (simp add: FastRange32_def Mul64_hi)
qed (simp add: FastRange32_def)

lemma unat_FastRange32_less: "0 < unat n \<Longrightarrow> unat (FastRange32 h n) < unat n"
  using unat_lt2p [of h] by (simp add: unat_FastRange32 div_less_iff_less_mult)

lemma FastRange32_less: "n \<noteq> 0 \<Longrightarrow> FastRange32 h n < n"
  by (simp add: word_less_nat_alt unat_FastRange32_less unat_gt_0)

lemma FastRange32_mono: "h \<le> h' \<Longrightarrow> FastRange32 h n \<le> FastRange32 h' n"
  by (simp add: word_le_nat_alt unat_FastRange32 div_le_mono)

lemma mixFromParts_less: "0 < bucketSize \<Longrightarrow> mixFromParts p seed bucketSize < bucketSize"
  by (auto simp: mixFromParts_def intro: FastRange32_less)

lemma unat_mixFromParts_less:
  "0 < n \<Longrightarrow> n < 2 ^ 32 \<Longrightarrow> unat (mixFromParts p seed (of_nat n)) < n"
  using mixFromParts_less [of "of_nat n" p seed]
  by (simp add: word_less_nat_alt unat_of_nat)

section \<open>Block routing\<close>

text \<open>
  The big-endian value of a byte string, and the order-preserving route from a key to its block:
  \<^verbatim>\<open>FastRange32(ReverseBytes64(LittleEndian.Uint64(key[0:8])), numBlocks)\<close>, as written in
  \<^verbatim>\<open>AddKey\<close>, \<^verbatim>\<open>prefetch\<close> and \<^verbatim>\<open>lookup\<close>.
\<close>

definition blockRoute :: "u64 \<Rightarrow> u32 \<Rightarrow> u32" where
  "blockRoute k0 nblocks = FastRange32 (ReverseBytes64 k0) nblocks"

primrec be_val :: "bytes \<Rightarrow> nat" where
  "be_val [] = 0"
| "be_val (b # bs) = unat b * 256 ^ length bs + be_val bs"

lemma be_val_less: "be_val bs < 256 ^ length bs"
proof (induction bs)
  case (Cons b bs)
  have "unat b \<le> 255"
    using unat_lt2p [of b] by simp
  then have "unat b * 256 ^ length bs \<le> 255 * 256 ^ length bs"
    by (rule mult_right_mono) simp
  then have "unat b * 256 ^ length bs + be_val bs < 255 * 256 ^ length bs + 256 ^ length bs"
    using Cons by (rule add_le_less_mono)
  then show ?case
    by simp
qed simp

lemma be_val_mono: "lexordp_eq xs ys \<Longrightarrow> length xs = length ys \<Longrightarrow> be_val xs \<le> be_val ys"
proof (induction rule: lexordp_eq.induct)
  case (Cons x y xs ys)
  have "be_val xs + unat x * 256 ^ length xs < (unat x + 1) * 256 ^ length xs"
    using be_val_less [of xs] by simp
  also have "\<dots> \<le> unat y * 256 ^ length ys"
    using Cons by (intro mult_mono) (auto simp: word_less_nat_alt)
  finally show ?case
    by simp
next
  case (Cons_eq x y xs ys)
  then show ?case
    by simp
qed simp

lemma unat_le_get_append:
  "8 * Suc (length bs) \<le> LENGTH('a) \<Longrightarrow>
   unat (le_get (bs @ [b]) :: 'a::len word) = unat b * 256 ^ length bs + unat (le_get bs :: 'a word)"
proof -
  assume len: "8 * Suc (length bs) \<le> LENGTH('a)"
  let ?w = "le_get bs :: 'a word"
  let ?h = "push_bit (8 * length bs) (ucast b) :: 'a word"
  have eq: "le_get (bs @ [b]) = ?w OR ?h"
    by (simp add: le_get_def nth_append) (auto intro!: arg_cong2 [where f = "(OR)"] fold_cong simp: nth_append)
  have disj: "?w AND ?h = 0"
    by (rule bit_word_eqI)
      (auto simp: bit_and_iff bit_push_bit_iff codec_simps dest: data_bit_beyond)
  have w: "unat ?w < 2 ^ (8 * length bs)"
    using len take_bit_le_get [of bs "8 * length bs", where 'a = 'a]
    by (metis le_refl unsigned_take_bit_eq take_bit_nat_less_exp)
  have h: "unat ?h = unat b * 256 ^ length bs"
  proof -
    have b: "unat b < 2 ^ 8" using unat_lt2p [of b] by simp
    have "unat b * 2 ^ (8 * length bs) < 2 ^ 8 * 2 ^ (8 * length bs)"
      using b by simp
    also have "\<dots> \<le> 2 ^ LENGTH('a)"
      using len power_increasing [of "8 + 8 * length bs" "LENGTH('a)" "2::nat"] by (simp add: power_add)
    finally have lt: "unat b * 2 ^ (8 * length bs) < 2 ^ LENGTH('a)" .
    have "unat b < 2 ^ LENGTH('a)"
      by (rule le_less_trans [OF _ lt]) simp
    then have "unat (ucast b :: 'a word) = unat b"
      by simp
    then have "unat ?h = take_bit LENGTH('a) (push_bit (8 * length bs) (unat b))"
      by (simp only: unsigned_push_bit_eq)
    also have "\<dots> = unat b * 2 ^ (8 * length bs)"
      using lt by (simp only: push_bit_eq_mult take_bit_nat_eq_self)
    finally have "unat ?h = unat b * 2 ^ (8 * length bs)" .
    then show ?thesis
      by (simp add: power_mult)
  qed
  have "unat (?w OR ?h) = unat ?w + unat ?h"
  proof -
    have "unat ?w AND unat ?h = 0"
      using disj by (simp flip: unsigned_and_eq)
    then show ?thesis
      by (simp add: unsigned_or_eq disjunctive_add_eq_or)
  qed
  with eq h show ?thesis
    by simp
qed

lemma unat_le_get_rev: "8 * length bs \<le> LENGTH('a) \<Longrightarrow> unat (le_get (rev bs) :: 'a::len word) = be_val bs"
proof (induction bs)
  case Nil
  show ?case
    by (simp add: le_get_def)
next
  case (Cons b bs)
  then show ?case
    using unat_le_get_append [of "rev bs" b, where 'a = 'a] by simp
qed

lemma ReverseBytes64_le_get:
  "length bs = 8 \<Longrightarrow> unat (ReverseBytes64 (le_get bs)) = be_val bs"
  by (simp add: ReverseBytes64_def unat_le_get_rev)

lemma blockRoute_less: "0 < unat n \<Longrightarrow> unat (blockRoute k0 n) < unat n"
  by (simp add: blockRoute_def unat_FastRange32_less)

lemma lexordp_eq_take: "lexordp_eq xs ys \<Longrightarrow> lexordp_eq (take n xs) (take n ys)"
proof (induction arbitrary: n rule: lexordp_eq.induct)
  case (Cons x y xs ys)
  then show ?case
    by (cases n) auto
next
  case (Cons_eq x y xs ys)
  then show ?case
    by (cases n) auto
qed simp

lemma blockRoute_mono:
  assumes "lexordp_eq xs ys" and "8 \<le> length xs" and "8 \<le> length ys"
  shows "blockRoute (le_get (take 8 xs)) n \<le> blockRoute (le_get (take 8 ys)) n"
proof -
  have "be_val (take 8 xs) \<le> be_val (take 8 ys)"
    using assms by (intro be_val_mono lexordp_eq_take) auto
  then have "ReverseBytes64 (le_get (take 8 xs)) \<le> ReverseBytes64 (le_get (take 8 ys))"
    using assms(2,3) by (simp add: word_le_nat_alt ReverseBytes64_le_get)
  then show ?thesis
    by (simp add: blockRoute_def FastRange32_mono)
qed

end
