(* ===== verification/Entry_Codec.thy ===== *)
theory Entry_Codec
  imports Bits_Mix
begin

text \<open>
  Fingerprints and payload entries: \<^verbatim>\<open>key.go\<close> and \<^verbatim>\<open>internal/encoding/encoding.go\<close>.
  The unsafe pointer stores of the encoding package have no bounds check; here a store outside
  the buffer is a \<open>GoPanic\<close> value, and the lemmas show that it does not occur. \<open>entry_bytes\<close> is
  the layout all writers share: the fingerprint bytes followed by the payload bytes.
\<close>

section \<open>key.go\<close>

definition MinKeySize :: nat where "MinKeySize = 16"
definition maxFingerprintSize :: nat where "maxFingerprintSize = 4"
definition maxPayloadSize :: nat where "maxPayloadSize = 8"

definition unpackFingerprintFromBytes :: "bytes \<Rightarrow> nat \<Rightarrow> u32 res" where
  "unpackFingerprintFromBytes src sz =
    (if sz = 0 then Inr 0
     else if sz = 1 then rbind (get_le 1 src) (\<lambda>b :: u8. Inr (ucast b))
     else if sz = 2 then rbind (get_le 2 src) (\<lambda>v :: u16. Inr (ucast v))
     else if sz = 4 then get_le 4 src
     else get_le (min sz 4) src)"

definition packPayloadToBytes :: "bytes \<Rightarrow> u64 \<Rightarrow> nat \<Rightarrow> bytes res" where
  "packPayloadToBytes dst payload sz =
    (if sz = 4 then put_bytes dst 0 (le_put 4 (ucast payload :: u32))
     else if sz = 8 then put_bytes dst 0 (le_put 8 payload)
     else put_bytes dst 0 (le_put sz payload))"

definition unpackPayloadFromBytes :: "bytes \<Rightarrow> nat \<Rightarrow> u64 res" where
  "unpackPayloadFromBytes src sz =
    (if sz = 4 then rbind (get_le 4 src) (\<lambda>v :: u32. Inr (ucast v))
     else if sz = 8 then get_le 8 src
     else get_le sz src)"

definition fingerprintMixer :: u64 where "fingerprintMixer = 0x517cc1b727220a95"

definition extractFingerprint :: "u64 \<Rightarrow> u64 \<Rightarrow> nat \<Rightarrow> u32" where
  "extractFingerprint k0 k1 fpSize =
    (if fpSize = 0 then 0
     else let h = k0 XOR (k1 * fingerprintMixer);
              fp = ucast (drop_bit 32 h) :: u32;
              m = ucast (push_bit (fpSize * 8) 1 - 1 :: u64) :: u32
          in fp AND m)"

definition Fingerprint :: "bytes \<Rightarrow> u32 res" where
  "Fingerprint key =
    (if length key < MinKeySize then Inl ErrKeyTooShort
     else let k0 = le_get (take 8 key); k1 = le_get (take 8 (drop 8 key))
          in Inr (extractFingerprint k0 k1 maxFingerprintSize))"

section \<open>encoding.go\<close>

definition WriteEntry :: "bytes \<Rightarrow> nat \<Rightarrow> nat \<Rightarrow> u32 \<Rightarrow> u64 \<Rightarrow> nat \<Rightarrow> bytes res" where
  "WriteEntry buf pos entrySize fp payload fpShift =
    (let val = ucast fp OR push_bit fpShift payload :: u64 in
     if entrySize = 1 then put_bytes buf pos (le_put 1 (ucast val :: u8))
     else if entrySize = 4 then put_bytes buf (pos * 4) (le_put 4 (ucast val :: u32))
     else if entrySize = 5 then
       rbind (put_bytes buf (pos * 5) (le_put 4 (ucast val :: u32)))
         (\<lambda>buf. put_bytes buf (pos * 5 + 4) (le_put 1 (ucast (drop_bit 32 val) :: u8)))
     else if entrySize = 8 then put_bytes buf (pos * 8) (le_put 8 val)
     else Inl (GoPanic ''encoding: WriteEntry: unsupported entrySize''))"

definition WriteEntryGeneric :: "bytes \<Rightarrow> nat \<Rightarrow> nat \<Rightarrow> u32 \<Rightarrow> u64 \<Rightarrow> nat \<Rightarrow> bytes res" where
  "WriteEntryGeneric buf pos entrySize fp payload fpShift =
    (let fpSize = fpShift div 8; ptr = pos * entrySize in
     rbind
      (if fpSize = 0 then Inr buf
       else if fpSize = 1 then put_bytes buf ptr (le_put 1 (ucast fp :: u8))
       else if fpSize = 2 then put_bytes buf ptr (le_put 2 (ucast fp :: u16))
       else if fpSize = 4 then put_bytes buf ptr (le_put 4 fp)
       else put_bytes buf ptr (le_put fpSize fp))
      (\<lambda>buf.
        let payloadSize = entrySize - fpSize; payloadPtr = ptr + fpSize in
        if payloadSize = 0 then Inr buf
        else if payloadSize = 4 then put_bytes buf payloadPtr (le_put 4 (ucast payload :: u32))
        else if payloadSize = 8 then put_bytes buf payloadPtr (le_put 8 payload)
        else put_bytes buf payloadPtr (le_put payloadSize payload)))"

definition ReadFP :: "bytes \<Rightarrow> nat \<Rightarrow> u32 res" where
  "ReadFP buf fpSize = get_le fpSize buf"

definition ReadPayload :: "bytes \<Rightarrow> nat \<Rightarrow> u64 res" where
  "ReadPayload buf payloadSize = get_le payloadSize buf"

definition ReadEntry :: "bytes \<Rightarrow> nat \<Rightarrow> nat \<Rightarrow> nat \<Rightarrow> nat \<Rightarrow> (u32 \<times> u64) res" where
  "ReadEntry buf slot entrySize fpSize payloadSize =
    (let off = slot * entrySize in
     rbind (slice_from off buf) (\<lambda>b.
     rbind (ReadFP b fpSize) (\<lambda>fp.
     rbind (slice_from (off + fpSize) buf) (\<lambda>b.
     rbind (ReadPayload b payloadSize) (\<lambda>payload. Inr (fp, payload))))))"

section \<open>Properties\<close>

text \<open>The common layout, and when a fingerprint fits its bytes.\<close>

definition entry_bytes :: "nat \<Rightarrow> nat \<Rightarrow> u32 \<Rightarrow> u64 \<Rightarrow> bytes" where
  "entry_bytes fpSize payloadSize fp payload = le_put fpSize fp @ le_put payloadSize payload"

lemma length_entry_bytes [simp]: "length (entry_bytes f p fp payload) = f + p"
  by (simp add: entry_bytes_def)

lemma copy_at_append:
  assumes "off + length xs + length ys \<le> length dst"
  shows "copy_at (copy_at dst off xs) (off + length xs) ys = copy_at dst off (xs @ ys)"
  using assms by (simp add: copy_at_def add.assoc add.commute add.left_commute)

lemma copy_at_Nil [simp]: "off \<le> length dst \<Longrightarrow> copy_at dst off [] = dst"
  by (simp add: copy_at_def)

lemma le_put_0 [simp]: "le_put 0 w = []"
  by (simp add: le_put_def)

lemma put_fingerprint_cases:
  assumes "ptr + n \<le> length buf"
  shows "(if n = 0 then Inr buf
       else if n = 1 then put_bytes buf ptr (le_put 1 (ucast fp :: u8))
       else if n = 2 then put_bytes buf ptr (le_put 2 (ucast fp :: u16))
       else if n = 4 then put_bytes buf ptr (le_put 4 fp)
       else put_bytes buf ptr (le_put n fp)) = Inr (copy_at buf ptr (le_put n (fp :: u32)))"
  using assms by (auto simp: le_put_ucast)

lemma put_payload_cases:
  assumes "ptr + n \<le> length buf"
  shows "(if n = 0 then Inr buf
       else if n = 4 then put_bytes buf ptr (le_put 4 (ucast payload :: u32))
       else if n = 8 then put_bytes buf ptr (le_put 8 payload)
       else put_bytes buf ptr (le_put n payload)) = Inr (copy_at buf ptr (le_put n (payload :: u64)))"
  using assms by (auto simp: le_put_ucast)

lemma WriteEntryGeneric_eq:
  assumes "entrySize = fpSize + payloadSize" and "pos * entrySize + entrySize \<le> length buf"
  shows "WriteEntryGeneric buf pos entrySize fp payload (fpSize * 8) =
    Inr (copy_at buf (pos * entrySize) (entry_bytes fpSize payloadSize fp payload))"
proof -
  define ptr where "ptr = pos * entrySize"
  have len: "ptr + fpSize + payloadSize \<le> length buf"
    using assms by (simp add: ptr_def)
  let ?b = "copy_at buf ptr (le_put fpSize fp)"
  have eq: "copy_at ?b (ptr + fpSize) (le_put payloadSize payload) =
      copy_at buf ptr (entry_bytes fpSize payloadSize fp payload)"
    using copy_at_append [of ptr "le_put fpSize fp" "le_put payloadSize payload" buf] len
    by (simp add: entry_bytes_def)
  have sz: "fpSize * 8 div 8 = fpSize" "entrySize - fpSize = payloadSize"
    using assms(1) by simp_all
  have l1: "ptr + fpSize \<le> length buf" and l2: "ptr + fpSize + payloadSize \<le> length ?b"
    using len by simp_all
  show ?thesis
    unfolding WriteEntryGeneric_def Let_def ptr_def [symmetric] sz
    by (simp only: put_fingerprint_cases [OF l1] put_payload_cases [OF l2] rbind_Inr eq)
qed

lemma entry_bytes_le_put:
  assumes "take_bit (fpSize * 8) fp = fp" and "fpSize + payloadSize \<le> 8"
  shows "entry_bytes fpSize payloadSize fp payload =
    le_put (fpSize + payloadSize) (ucast fp OR push_bit (fpSize * 8) payload :: u64)"
proof (rule bytes_eqI)
  fix i assume i: "i < 8 * length (entry_bytes fpSize payloadSize fp payload)"
  have "bit fp i \<Longrightarrow> i < fpSize * 8"
    by (metis assms(1) bit_take_bit_iff)
  then show "data_bit (entry_bytes fpSize payloadSize fp payload) i =
      data_bit (le_put (fpSize + payloadSize) (ucast fp OR push_bit (fpSize * 8) payload :: u64)) i"
    using i assms(2)
    by (auto simp: entry_bytes_def codec_simps bit_or_iff bit_push_bit_iff bit_ucast_iff mult.commute)
qed simp

lemma le_put_split: "le_put (m + n) w = le_put m w @ le_put n (drop_bit (8 * m) w)"
  by (rule bytes_eqI) (auto simp: codec_simps bit_drop_bit_eq)

lemma WriteEntry_eq:
  assumes "entrySize = fpSize + payloadSize" and "pos * entrySize + entrySize \<le> length buf"
    and "take_bit (fpSize * 8) fp = fp" and "entrySize \<in> {1, 4, 5, 8}"
  shows "WriteEntry buf pos entrySize fp payload (fpSize * 8) =
    Inr (copy_at buf (pos * entrySize) (entry_bytes fpSize payloadSize fp payload))"
proof -
  let ?val = "ucast fp OR push_bit (fpSize * 8) payload :: u64"
  have e: "entry_bytes fpSize payloadSize fp payload = le_put entrySize ?val"
    using assms(1,3,4) entry_bytes_le_put [of fpSize fp payloadSize payload] by auto
  from assms(4) consider "entrySize = 1" | "entrySize = 4" | "entrySize = 5" | "entrySize = 8"
    by blast
  then show ?thesis
  proof cases
    case 3
    have "le_put 5 ?val = le_put 4 ?val @ le_put 1 (drop_bit 32 ?val)"
      using le_put_split [of 4 1 ?val] by simp
    then show ?thesis
      using 3 assms(2) copy_at_append [of "pos * 5" "le_put 4 ?val" "le_put 1 (drop_bit 32 ?val)" buf]
      unfolding e by (simp add: WriteEntry_def Let_def le_put_ucast)
  qed (use assms(2) in \<open>simp_all add: WriteEntry_def Let_def le_put_ucast e\<close>)
qed

lemma unpackFingerprintFromBytes_eq:
  "sz \<le> 4 \<Longrightarrow> sz \<le> length src \<Longrightarrow> unpackFingerprintFromBytes src sz = Inr (le_get (take sz src))"
  by (simp add: unpackFingerprintFromBytes_def ucast_le_get min_def) (auto simp: le_get_def)

lemma unpackPayloadFromBytes_eq:
  "sz \<le> 8 \<Longrightarrow> sz \<le> length src \<Longrightarrow> unpackPayloadFromBytes src sz = Inr (le_get (take sz src))"
  by (simp add: unpackPayloadFromBytes_def ucast_le_get)

lemma extractFingerprint_bits:
  assumes "fpSize \<le> 4"
  shows "extractFingerprint k0 k1 fpSize =
    take_bit (8 * fpSize) (ucast (drop_bit 32 (k0 XOR (k1 * fingerprintMixer))))"
proof (cases "fpSize = 0")
  case False
  have "(push_bit (fpSize * 8) 1 - 1 :: u64) = mask (fpSize * 8)"
    by (simp add: mask_eq_exp_minus_1 push_bit_eq_mult)
  with False assms show ?thesis
    by (intro bit_word_eqI)
      (auto simp: extractFingerprint_def Let_def bit_and_iff bit_take_bit_iff bit_ucast_iff
        bit_mask_iff mult.commute)
qed (simp add: extractFingerprint_def)

lemma extractFingerprint_fits:
  "fpSize \<le> 4 \<Longrightarrow> take_bit (fpSize * 8) (extractFingerprint k0 k1 fpSize) = extractFingerprint k0 k1 fpSize"
  by (simp add: extractFingerprint_bits mult.commute)

end
