(* ===== verification/Header_Codec.thy ===== *)
theory Header_Codec
  imports Entry_Codec
begin

text \<open>
  The fixed-size on-disk structures of \<^verbatim>\<open>header.go\<close>: the 64-byte header with its validation,
  the 32-byte footer and the 10-byte RAM-index entries with their two 40-bit fields.
\<close>

definition magic :: u32 where "magic = 0x53544D48"
definition version :: u16 where "version = 1"
definition headerSize :: nat where "headerSize = 64"
definition footerSize :: nat where "footerSize = 32"
definition ramIndexEntrySize :: nat where "ramIndexEntrySize = 10"

lemmas layout_sizes = headerSize_def footerSize_def ramIndexEntrySize_def

record header =
  Magic :: u32
  Version :: u16
  TotalKeys :: u64
  NumBlocks :: u32
  PayloadSize :: u32
  FingerprintSize :: u8
  Seed :: u64
  BlockAlgorithm :: u16
  Reserved :: bytes

definition encodeHeaderTo :: "header \<Rightarrow> bytes \<Rightarrow> bytes res" where
  "encodeHeaderTo h buf =
    rbind (put_bytes buf 0 (le_put 4 (Magic h))) (\<lambda>buf.
    rbind (put_bytes buf 4 (le_put 2 (Version h))) (\<lambda>buf.
    rbind (put_bytes buf 6 (le_put 8 (TotalKeys h))) (\<lambda>buf.
    rbind (put_bytes buf 14 (le_put 4 (NumBlocks h))) (\<lambda>buf.
    rbind (put_bytes buf 18 (le_put 4 (PayloadSize h))) (\<lambda>buf.
    rbind (put_bytes buf 22 [FingerprintSize h]) (\<lambda>buf.
    rbind (put_bytes buf 23 (le_put 8 (Seed h))) (\<lambda>buf.
    rbind (put_bytes buf 31 (le_put 2 (BlockAlgorithm h))) (\<lambda>buf.
    put_bytes buf 33 (take 31 (Reserved h))))))))))"

definition decodeHeader :: "bytes \<Rightarrow> header res" where
  "decodeHeader buf =
    (if length buf < headerSize then Inl ErrTruncatedFile
     else
       let h = \<lparr>Magic = le_get (take 4 buf),
                Version = le_get (take 2 (drop 4 buf)),
                TotalKeys = le_get (take 8 (drop 6 buf)),
                NumBlocks = le_get (take 4 (drop 14 buf)),
                PayloadSize = le_get (take 4 (drop 18 buf)),
                FingerprintSize = buf ! 22,
                Seed = le_get (take 8 (drop 23 buf)),
                BlockAlgorithm = le_get (take 2 (drop 31 buf)),
                Reserved = take 31 (drop 33 buf)\<rparr>
       in if Magic h \<noteq> magic then Inl ErrInvalidMagic
          else if Version h \<noteq> version then Inl ErrInvalidVersion
          else if PayloadSize h > of_nat maxPayloadSize then Inl ErrCorruptedIndex
          else if FingerprintSize h > of_nat maxFingerprintSize then Inl ErrCorruptedIndex
          else if NumBlocks h = 0 \<and> TotalKeys h > 0 then Inl ErrCorruptedIndex
          else if NumBlocks h = NOT 0 then Inl ErrCorruptedIndex
          else Inr h)"

definition payloadSizeInt :: "header \<Rightarrow> nat" where "payloadSizeInt h = unat (PayloadSize h)"
definition hasFingerprint :: "header \<Rightarrow> bool" where "hasFingerprint h \<longleftrightarrow> FingerprintSize h > 0"
definition fingerprintSizeInt :: "header \<Rightarrow> nat" where "fingerprintSizeInt h = unat (FingerprintSize h)"
definition header_entrySize :: "header \<Rightarrow> nat" where
  "header_entrySize h = unat (PayloadSize h) + unat (FingerprintSize h)"

record footer =
  PayloadRegionHash :: u64
  MetadataRegionHash :: u64
  fReserved :: bytes

definition encodeFooterTo :: "footer \<Rightarrow> bytes \<Rightarrow> bytes res" where
  "encodeFooterTo f buf =
    rbind (put_bytes buf 0 (le_put 8 (PayloadRegionHash f))) (\<lambda>buf.
    rbind (put_bytes buf 8 (le_put 8 (MetadataRegionHash f))) (\<lambda>buf.
    put_bytes buf 16 (take 16 (fReserved f))))"

definition decodeFooter :: "bytes \<Rightarrow> footer res" where
  "decodeFooter buf =
    (if length buf < footerSize then Inl ErrTruncatedFile
     else Inr \<lparr>PayloadRegionHash = le_get (take 8 buf),
               MetadataRegionHash = le_get (take 8 (drop 8 buf)),
               fReserved = take 16 (drop 16 buf)\<rparr>)"

record ramIndexEntry =
  KeysBefore :: u64
  MetadataOffset :: u64

definition encodeRAMIndexEntryTo :: "ramIndexEntry \<Rightarrow> bytes \<Rightarrow> bytes res" where
  "encodeRAMIndexEntryTo e buf =
    put_bytes buf 0
      ([ucast (KeysBefore e), ucast (drop_bit 8 (KeysBefore e)), ucast (drop_bit 16 (KeysBefore e)),
        ucast (drop_bit 24 (KeysBefore e)), ucast (drop_bit 32 (KeysBefore e))] @
       [ucast (MetadataOffset e), ucast (drop_bit 8 (MetadataOffset e)),
        ucast (drop_bit 16 (MetadataOffset e)), ucast (drop_bit 24 (MetadataOffset e)),
        ucast (drop_bit 32 (MetadataOffset e))])"

definition decodeRAMIndexEntry :: "bytes \<Rightarrow> ramIndexEntry res" where
  "decodeRAMIndexEntry buf =
    (if length buf < ramIndexEntrySize then Inl (GoPanic ''index out of range'')
     else Inr \<lparr>
       KeysBefore = ucast (buf ! 0) OR push_bit 8 (ucast (buf ! 1)) OR push_bit 16 (ucast (buf ! 2)) OR
         push_bit 24 (ucast (buf ! 3)) OR push_bit 32 (ucast (buf ! 4)),
       MetadataOffset = ucast (buf ! 5) OR push_bit 8 (ucast (buf ! 6)) OR push_bit 16 (ucast (buf ! 7)) OR
         push_bit 24 (ucast (buf ! 8)) OR push_bit 32 (ucast (buf ! 9))\<rparr>)"

section \<open>Round trips\<close>

text \<open>What \<open>decodeHeader\<close> accepts, beside the exact length of the reserved field.\<close>

definition header_valid :: "header \<Rightarrow> bool" where
  "header_valid h \<longleftrightarrow>
    Magic h = magic \<and> Version h = version \<and> unat (PayloadSize h) \<le> 8 \<and> unat (FingerprintSize h) \<le> 4 \<and>
    \<not> (NumBlocks h = 0 \<and> TotalKeys h > 0) \<and> NumBlocks h \<noteq> NOT 0 \<and> length (Reserved h) = 31"

text \<open>The 64 header bytes, field by field in file order.\<close>

definition header_bytes :: "header \<Rightarrow> bytes" where
  "header_bytes h = le_put 4 (Magic h) @ le_put 2 (Version h) @ le_put 8 (TotalKeys h) @
     le_put 4 (NumBlocks h) @ le_put 4 (PayloadSize h) @ [FingerprintSize h] @ le_put 8 (Seed h) @
     le_put 2 (BlockAlgorithm h) @ Reserved h"

lemma length_header_bytes [simp]: "length (Reserved h) = 31 \<Longrightarrow> length (header_bytes h) = 64"
  by (simp add: header_bytes_def)

lemma copy_at_next:
  assumes "k = length xs" and "k + length ys \<le> length buf"
  shows "copy_at (copy_at buf 0 xs) k ys = copy_at buf 0 (xs @ ys)"
  using copy_at_append [of 0 xs ys buf] assms by simp

lemma encodeHeaderTo_eq:
  assumes "length (Reserved h) = 31" and "64 \<le> length buf"
  shows "encodeHeaderTo h buf = Inr (copy_at buf 0 (header_bytes h))"
  using assms by (simp add: encodeHeaderTo_def header_bytes_def copy_at_next)

lemma decodeHeader_bytes:
  assumes "header_valid h"
  shows "decodeHeader (header_bytes h @ rest) = Inr h"
proof -
  have len: "length (Reserved h) = 31" and ps: "\<not> 8 < PayloadSize h" and fs: "\<not> 4 < FingerprintSize h"
    using assms by (auto simp: header_valid_def word_less_nat_alt)
  let ?buf = "header_bytes h @ rest"
  have fields: "take 4 ?buf = le_put 4 (Magic h)" "take 2 (drop 4 ?buf) = le_put 2 (Version h)"
    "take 8 (drop 6 ?buf) = le_put 8 (TotalKeys h)" "take 4 (drop 14 ?buf) = le_put 4 (NumBlocks h)"
    "take 4 (drop 18 ?buf) = le_put 4 (PayloadSize h)" "?buf ! 22 = FingerprintSize h"
    "take 8 (drop 23 ?buf) = le_put 8 (Seed h)" "take 2 (drop 31 ?buf) = le_put 2 (BlockAlgorithm h)"
    "take 31 (drop 33 ?buf) = Reserved h"
    using len by (simp_all add: header_bytes_def nth_append)
  show ?thesis
    using assms ps fs len unfolding decodeHeader_def fields
    by (simp add: headerSize_def header_valid_def Let_def maxPayloadSize_def maxFingerprintSize_def)
qed

lemma decodeHeader_valid:
  assumes "decodeHeader buf = Inr h"
  shows "header_valid h"
  using assms
  by (auto simp: decodeHeader_def header_valid_def Let_def headerSize_def maxPayloadSize_def
      maxFingerprintSize_def word_less_nat_alt not_less split: if_splits)

lemma header_bytes_decode:
  assumes "decodeHeader buf = Inr h"
  shows "header_bytes h = take 64 buf"
proof -
  have len: "64 \<le> length buf"
    using assms by (simp add: decodeHeader_def headerSize_def split: if_splits)
  have split_at: "take m buf = take n buf @ take (m - n) (drop n buf)" if "n \<le> m" for m n
    using that by (metis le_add_diff_inverse take_add)
  have "take 64 buf = take 4 buf @ take 2 (drop 4 buf) @ take 8 (drop 6 buf) @ take 4 (drop 14 buf) @
      take 4 (drop 18 buf) @ take 1 (drop 22 buf) @ take 8 (drop 23 buf) @ take 2 (drop 31 buf) @
      take 31 (drop 33 buf)"
    using split_at [of 33 64] split_at [of 31 33] split_at [of 23 31] split_at [of 22 23]
      split_at [of 18 22] split_at [of 14 18] split_at [of 6 14] split_at [of 4 6] by simp
  moreover have "take 1 (drop 22 buf) = [buf ! 22]"
    using len by (simp add: take_Suc hd_drop_conv_nth)
  moreover have "h = \<lparr>Magic = le_get (take 4 buf), Version = le_get (take 2 (drop 4 buf)),
      TotalKeys = le_get (take 8 (drop 6 buf)), NumBlocks = le_get (take 4 (drop 14 buf)),
      PayloadSize = le_get (take 4 (drop 18 buf)), FingerprintSize = buf ! 22,
      Seed = le_get (take 8 (drop 23 buf)), BlockAlgorithm = le_get (take 2 (drop 31 buf)),
      Reserved = take 31 (drop 33 buf)\<rparr>"
    using assms by (simp add: decodeHeader_def Let_def split: if_splits)
  ultimately show ?thesis
    using len by (simp add: header_bytes_def)
qed

definition footer_bytes :: "footer \<Rightarrow> bytes" where
  "footer_bytes f = le_put 8 (PayloadRegionHash f) @ le_put 8 (MetadataRegionHash f) @ fReserved f"

lemma encodeFooterTo_eq:
  "length (fReserved f) = 16 \<Longrightarrow> 32 \<le> length buf \<Longrightarrow>
   encodeFooterTo f buf = Inr (copy_at buf 0 (footer_bytes f))"
  by (simp add: encodeFooterTo_def footer_bytes_def copy_at_next)

lemma decodeFooter_bytes:
  "length (fReserved f) = 16 \<Longrightarrow> decodeFooter (footer_bytes f @ rest) = Inr f"
  by (simp add: decodeFooter_def footer_bytes_def footerSize_def)

definition ram_bytes :: "ramIndexEntry \<Rightarrow> bytes" where
  "ram_bytes e = le_put 5 (KeysBefore e) @ le_put 5 (MetadataOffset e)"

lemma length_ram_bytes [simp]: "length (ram_bytes e) = 10"
  by (simp add: ram_bytes_def)

lemma le_put_5: "le_put 5 w = [ucast w, ucast (drop_bit 8 w), ucast (drop_bit 16 w),
    ucast (drop_bit 24 w), ucast (drop_bit 32 w)]"
  by (simp add: le_put_def upt_rec numeral_eq_Suc)

lemma le_get_5:
  "le_get [a, b, c, d, e] = ucast a OR push_bit 8 (ucast b) OR push_bit 16 (ucast c) OR
     push_bit 24 (ucast d) OR push_bit 32 (ucast e)"
  by (simp add: le_get_def upt_rec or.assoc)

lemma encodeRAMIndexEntryTo_eq:
  "10 \<le> length buf \<Longrightarrow> encodeRAMIndexEntryTo e buf = Inr (copy_at buf 0 (ram_bytes e))"
  by (simp add: encodeRAMIndexEntryTo_def ram_bytes_def le_put_5)

lemma decodeRAMIndexEntry_eq:
  assumes "10 \<le> length buf"
  shows "decodeRAMIndexEntry buf =
    Inr \<lparr>KeysBefore = le_get (take 5 buf), MetadataOffset = le_get (take 5 (drop 5 buf))\<rparr>"
proof -
  have "take 5 buf = [buf ! 0, buf ! 1, buf ! 2, buf ! 3, buf ! 4]"
    and "take 5 (drop 5 buf) = [buf ! 5, buf ! 6, buf ! 7, buf ! 8, buf ! 9]"
    using assms by (auto intro!: nth_equalityI simp: nth_Cons' less_Suc_eq numeral_eq_Suc)
  then show ?thesis
    using assms by (simp add: decodeRAMIndexEntry_def ramIndexEntrySize_def le_get_5)
qed

lemma decodeRAMIndexEntry_bytes:
  "decodeRAMIndexEntry (ram_bytes e @ rest) =
    Inr \<lparr>KeysBefore = take_bit 40 (KeysBefore e), MetadataOffset = take_bit 40 (MetadataOffset e)\<rparr>"
  by (simp add: decodeRAMIndexEntry_eq ram_bytes_def le_get_le_put)

end
