(* ===== verification/Bit_IO.thy ===== *)
theory Bit_IO
  imports SH_Prelude
begin

text \<open>
  The bit writer and bit reader of \<^verbatim>\<open>internal/bijection/bitio.go\<close>. The writer batches bits in a
  64-bit word; its abstraction \<open>bw_bits\<close> is the list of bits written so far, and every write
  appends to it. The reader holds one 64-bit window; \<open>br_at br p\<close> says that it stands at bit
  position \<open>p\<close> of its data (positions beyond the data read as zero).
\<close>

section \<open>Bit writer\<close>

record bitWriter =
  bw_buf :: bytes
  bw_current :: u64
  bw_bitPos :: nat

definition newBitWriterBuffer :: bitWriter where
  "newBitWriterBuffer = \<lparr>bw_buf = [], bw_current = 0, bw_bitPos = 0\<rparr>"

definition flushWord :: "bitWriter \<Rightarrow> bitWriter" where
  "flushWord bw = bw\<lparr>bw_buf := bw_buf bw @ le_put 8 (bw_current bw), bw_current := 0, bw_bitPos := 0\<rparr>"

definition writeBit :: "bitWriter \<Rightarrow> u8 \<Rightarrow> bitWriter" where
  "writeBit bw b =
    (let cur = (if b \<noteq> 0 then bw_current bw OR push_bit (bw_bitPos bw) 1 else bw_current bw);
         bw = bw\<lparr>bw_current := cur, bw_bitPos := bw_bitPos bw + 1\<rparr>
     in if bw_bitPos bw = 64 then flushWord bw else bw)"

definition writeBits :: "bitWriter \<Rightarrow> u64 \<Rightarrow> nat \<Rightarrow> bitWriter" where
  "writeBits bw v0 n =
    (if n = 0 then bw
     else let v = v0 AND (push_bit n 1 - 1) in
       if bw_bitPos bw + n \<le> 64 then
         let bw = bw\<lparr>bw_current := bw_current bw OR push_bit (bw_bitPos bw) v,
                     bw_bitPos := bw_bitPos bw + n\<rparr>
         in if bw_bitPos bw = 64 then flushWord bw else bw
       else
         let bitsInCurrent = 64 - bw_bitPos bw;
             bw1 = flushWord (bw\<lparr>bw_current := bw_current bw OR
               push_bit (bw_bitPos bw) (v AND (push_bit bitsInCurrent 1 - 1))\<rparr>)
         in bw1\<lparr>bw_current := drop_bit bitsInCurrent v, bw_bitPos := n - bitsInCurrent\<rparr>)"

function writeOnes_loop :: "bitWriter \<Rightarrow> nat \<Rightarrow> bitWriter" where
  "writeOnes_loop bw n =
    (if n \<ge> 64 then writeOnes_loop (flushWord (bw\<lparr>bw_current := NOT 0\<rparr>)) (n - 64)
     else if n > 0 then bw\<lparr>bw_current := push_bit n 1 - 1, bw_bitPos := n\<rparr>
     else bw)"
  by pat_completeness auto
termination
  by (relation "measure snd") auto

declare writeOnes_loop.simps [simp del]

definition writeOnes :: "bitWriter \<Rightarrow> nat \<Rightarrow> bitWriter" where
  "writeOnes bw n =
    (if n = 0 then bw
     else if bw_bitPos bw + n \<le> 64 then
       let bw = bw\<lparr>bw_current := bw_current bw OR push_bit (bw_bitPos bw) (push_bit n 1 - 1),
                   bw_bitPos := bw_bitPos bw + n\<rparr>
       in if bw_bitPos bw = 64 then flushWord bw else bw
     else
       let remaining = 64 - bw_bitPos bw;
           bw = flushWord (bw\<lparr>bw_current := bw_current bw OR push_bit (bw_bitPos bw) (NOT 0)\<rparr>)
       in writeOnes_loop bw (n - remaining))"

definition bw_flush :: "bitWriter \<Rightarrow> bytes \<times> bitWriter" where
  "bw_flush bw =
    (if bw_bitPos bw > 0 then
       let numBytes = (bw_bitPos bw + 7) div 8;
           bw = bw\<lparr>bw_buf := bw_buf bw @ take numBytes (le_put 8 (bw_current bw)),
                   bw_current := 0, bw_bitPos := 0\<rparr>
       in (bw_buf bw, bw)
     else (bw_buf bw, bw))"

definition bw_reset :: "bitWriter \<Rightarrow> bitWriter" where
  "bw_reset bw = bw\<lparr>bw_buf := [], bw_current := 0, bw_bitPos := 0\<rparr>"

definition bitsWritten :: "bitWriter \<Rightarrow> nat" where
  "bitsWritten bw = length (bw_buf bw) * 8 + bw_bitPos bw"

subsection \<open>The bits written\<close>

definition byte_bits :: "bytes \<Rightarrow> bool list" where
  "byte_bits bs = map (data_bit bs) [0..<8 * length bs]"

definition word_bits :: "'a::len word \<Rightarrow> nat \<Rightarrow> bool list" where
  "word_bits w n = map (bit w) [0..<n]"

definition bw_bits :: "bitWriter \<Rightarrow> bool list" where
  "bw_bits bw = byte_bits (bw_buf bw) @ word_bits (bw_current bw) (bw_bitPos bw)"

definition bw_inv :: "bitWriter \<Rightarrow> bool" where
  "bw_inv bw \<longleftrightarrow> bw_bitPos bw < 64 \<and> (\<forall>i\<ge>bw_bitPos bw. \<not> bit (bw_current bw) i)"

lemma length_word_bits [simp]: "length (word_bits w n) = n"
  by (simp add: word_bits_def)

lemma nth_word_bits [simp]: "i < n \<Longrightarrow> word_bits w n ! i = bit w i"
  by (simp add: word_bits_def)

lemma word_bits_0 [simp]: "word_bits w 0 = []"
  by (simp add: word_bits_def)

lemma length_byte_bits [simp]: "length (byte_bits bs) = 8 * length bs"
  by (simp add: byte_bits_def)

lemma nth_byte_bits [simp]: "i < 8 * length bs \<Longrightarrow> byte_bits bs ! i = data_bit bs i"
  by (simp add: byte_bits_def)

lemma byte_bits_append: "byte_bits (xs @ ys) = byte_bits xs @ byte_bits ys"
  by (rule nth_equalityI) (auto simp: nth_append data_bit_append)

lemma byte_bits_le_put: "byte_bits (le_put 8 w) = word_bits w 64"
  by (rule nth_equalityI) (auto simp: data_bit_le_put)

lemma length_bw_bits: "length (bw_bits bw) = bitsWritten bw"
  by (simp add: bw_bits_def bitsWritten_def mult.commute)

lemma bw_bits_new [simp]: "bw_bits newBitWriterBuffer = []" "bw_inv newBitWriterBuffer"
  by (simp_all add: bw_bits_def newBitWriterBuffer_def byte_bits_def bw_inv_def)

lemma bw_bits_reset [simp]: "bw_bits (bw_reset bw) = []" "bw_inv (bw_reset bw)"
  by (simp_all add: bw_bits_def bw_reset_def byte_bits_def bw_inv_def)

lemma flushWord_fields [simp]:
  "bw_buf (flushWord bw) = bw_buf bw @ le_put 8 (bw_current bw)"
  "bw_current (flushWord bw) = 0" "bw_bitPos (flushWord bw) = 0"
  by (simp_all add: flushWord_def)

lemma bw_bits_flushWord: "bw_bits (flushWord bw) = byte_bits (bw_buf bw) @ word_bits (bw_current bw) 64"
  by (simp add: bw_bits_def byte_bits_append byte_bits_le_put)

lemma bw_inv_flushWord [simp]: "bw_inv (flushWord bw)"
  by (simp add: bw_inv_def)

lemma ones_eq_mask: "(push_bit n 1 - 1 :: 'a::len word) = mask n" "(2 ^ n - 1 :: 'a::len word) = mask n"
  by (simp_all add: mask_eq_exp_minus_1 push_bit_eq_mult)

lemma word_bits_or:
  fixes cur v :: u64
  assumes "\<forall>i\<ge>p. \<not> bit cur i" and "p + n \<le> 64"
  shows "word_bits (cur OR push_bit p v) (p + n) = word_bits cur p @ word_bits v n"
  using assms by (intro nth_equalityI) (auto simp: nth_append bit_or_iff bit_push_bit_iff)

lemma word_bits_and_mask: "n \<le> m \<Longrightarrow> word_bits (v AND mask m) n = word_bits v n"
  by (auto simp: word_bits_def bit_and_iff bit_mask_iff intro: bit_imp_le_length)

lemma word_bits_mask: "n \<le> 64 \<Longrightarrow> word_bits (mask n :: u64) n = replicate n True"
  by (rule nth_equalityI) (auto simp: bit_mask_iff)

text \<open>The writer after \<open>n\<close> more bits that fit the current word.\<close>

lemma bw_append_fits:
  assumes "bw_inv bw" and "bw_bitPos bw + n \<le> 64" and "\<forall>i\<ge>n. \<not> bit v i"
    and "bw' = bw\<lparr>bw_current := bw_current bw OR push_bit (bw_bitPos bw) v, bw_bitPos := bw_bitPos bw + n\<rparr>"
    and "bw'' = (if bw_bitPos bw' = 64 then flushWord bw' else bw')"
  shows "bw_bits bw'' = bw_bits bw @ word_bits v n \<and> bw_inv bw''"
proof -
  have w: "word_bits (bw_current bw') (bw_bitPos bw') = word_bits (bw_current bw) (bw_bitPos bw) @ word_bits v n"
    using assms(1,2,4) by (simp add: bw_inv_def word_bits_or)
  show ?thesis
  proof (cases "bw_bitPos bw' = 64")
    case True
    with w assms(4,5) show ?thesis
      by (simp add: bw_bits_flushWord) (simp add: bw_bits_def)
  next
    case False
    have "\<forall>i\<ge>bw_bitPos bw'. \<not> bit (bw_current bw') i"
      using assms(1,3,4) by (auto simp: bw_inv_def bit_or_iff bit_push_bit_iff)
    with False w assms(2,4,5) show ?thesis
      by (simp add: bw_bits_def bw_inv_def)
  qed
qed

lemma writeBit_bits:
  assumes "bw_inv bw"
  shows "bw_bits (writeBit bw b) = bw_bits bw @ [b \<noteq> 0] \<and> bw_inv (writeBit bw b)"
proof -
  let ?v = "(if b \<noteq> 0 then 1 else 0) :: u64"
  have v: "\<forall>i\<ge>1. \<not> bit ?v i" "word_bits ?v 1 = [b \<noteq> 0]"
    by (auto simp: word_bits_def bit_1_iff)
  have "bw_bitPos bw + 1 \<le> 64"
    using assms by (simp add: bw_inv_def)
  from bw_append_fits [OF assms this v(1) refl refl] v(2) show ?thesis
    by (simp add: writeBit_def Let_def split: if_splits)
qed

lemma writeBits_bits:
  assumes inv: "bw_inv bw" and n: "n \<le> 64"
  shows "bw_bits (writeBits bw v n) = bw_bits bw @ word_bits v n \<and> bw_inv (writeBits bw v n)"
proof (cases "n = 0")
  case True
  then show ?thesis
    using inv by (simp add: writeBits_def)
next
  case nz: False
  define v' where "v' = v AND mask n"
  have v': "\<forall>i\<ge>n. \<not> bit v' i" "word_bits v' n = word_bits v n"
    by (auto simp: v'_def bit_and_iff bit_mask_iff word_bits_and_mask)
  show ?thesis
  proof (cases "bw_bitPos bw + n \<le> 64")
    case True
    from bw_append_fits [OF inv this v'(1) refl refl] nz True v'(2) show ?thesis
      unfolding writeBits_def Let_def ones_eq_mask v'_def [symmetric] by simp
  next
    case False
    define b where "b = 64 - bw_bitPos bw"
    have b: "bw_bitPos bw + b = 64" "b < n"
      using False inv by (auto simp: b_def bw_inv_def)
    let ?bw1 = "flushWord (bw\<lparr>bw_current := bw_current bw OR push_bit (bw_bitPos bw) (v' AND mask b)\<rparr>)"
    have eq: "writeBits bw v n = ?bw1\<lparr>bw_current := drop_bit b v', bw_bitPos := n - b\<rparr>"
      using nz False unfolding writeBits_def Let_def ones_eq_mask v'_def [symmetric] b_def by simp
    have "bw_bits ?bw1 = bw_bits bw @ word_bits v' b"
      using word_bits_or [of "bw_bitPos bw" "bw_current bw" b "v' AND mask b"] inv b(1)
      by (simp add: bw_inv_def bw_bits_def word_bits_and_mask byte_bits_append byte_bits_le_put)
    moreover have "word_bits v' b @ word_bits (drop_bit b v') (n - b) = word_bits v n"
    proof -
      have "bit v' i = bit v i" if "i < n" for i
        using v'(2) that by (metis nth_word_bits)
      then show ?thesis
        using b(2) by (intro nth_equalityI) (auto simp: nth_append bit_drop_bit_eq)
    qed
    moreover have "bw_bits (writeBits bw v n) = bw_bits ?bw1 @ word_bits (drop_bit b v') (n - b)"
      by (simp add: eq bw_bits_def)
    moreover have "bw_inv (writeBits bw v n)"
      using b n v'(1) inv by (auto simp: eq bw_inv_def bit_drop_bit_eq)
    ultimately show ?thesis
      by simp
  qed
qed

lemma writeOnes_loop_bits:
  "bw_bitPos bw = 0 \<Longrightarrow> bw_current bw = 0 \<Longrightarrow>
   bw_bits (writeOnes_loop bw n) = bw_bits bw @ replicate n True \<and> bw_inv (writeOnes_loop bw n)"
proof (induction bw n rule: writeOnes_loop.induct)
  case (1 bw n)
  show ?case
  proof (cases "n \<ge> 64")
    case True
    let ?bw = "flushWord (bw\<lparr>bw_current := NOT 0\<rparr>)"
    have "word_bits (NOT 0 :: u64) 64 = replicate 64 True"
      by (rule nth_equalityI) auto
    then have "bw_bits ?bw = bw_bits bw @ replicate 64 True"
      using "1.prems" by (simp add: bw_bits_flushWord) (simp add: bw_bits_def)
    with "1.IH" [OF True] True show ?thesis
      by (simp add: writeOnes_loop.simps [of bw n] flip: replicate_add)
  next
    case False
    with "1.prems" show ?thesis
      by (auto simp: writeOnes_loop.simps [of bw n] bw_bits_def bw_inv_def ones_eq_mask
          word_bits_mask bit_mask_iff)
  qed
qed

lemma writeOnes_bits:
  assumes inv: "bw_inv bw"
  shows "bw_bits (writeOnes bw n) = bw_bits bw @ replicate n True \<and> bw_inv (writeOnes bw n)"
proof (cases "n = 0")
  case True
  then show ?thesis
    using inv by (simp add: writeOnes_def)
next
  case nz: False
  show ?thesis
  proof (cases "bw_bitPos bw + n \<le> 64")
    case True
    have "\<forall>i\<ge>n. \<not> bit (mask n :: u64) i"
      by (simp add: bit_mask_iff)
    from bw_append_fits [OF inv True this refl refl] nz True show ?thesis
      by (simp add: writeOnes_def Let_def ones_eq_mask word_bits_mask)
  next
    case False
    define b where "b = 64 - bw_bitPos bw"
    have b: "bw_bitPos bw + b = 64" "b < n"
      using False inv by (auto simp: b_def bw_inv_def)
    let ?bw1 = "flushWord (bw\<lparr>bw_current := bw_current bw OR push_bit (bw_bitPos bw) (NOT 0)\<rparr>)"
    have "word_bits (NOT 0 :: u64) b = replicate b True"
      using b by (intro nth_equalityI) auto
    then have "bw_bits ?bw1 = bw_bits bw @ replicate b True"
      using word_bits_or [of "bw_bitPos bw" "bw_current bw" b "NOT 0"] inv b(1)
      by (simp add: bw_bits_flushWord bw_inv_def) (simp add: bw_bits_def)
    with writeOnes_loop_bits [of ?bw1 "n - b"] b nz False show ?thesis
      by (simp add: writeOnes_def Let_def b_def flip: replicate_add)
  qed
qed

lemma bw_flush_data:
  assumes "bw_inv bw" and "fst (bw_flush bw) = data"
  shows "length data = (length (bw_bits bw) + 7) div 8"
    and "data_bit data i \<longleftrightarrow> i < length (bw_bits bw) \<and> bw_bits bw ! i"
proof -
  let ?p = "bw_bitPos bw"
  let ?t = "take ((?p + 7) div 8) (le_put 8 (bw_current bw))"
  have data: "data = bw_buf bw @ ?t"
    using assms(2) by (cases "?p = 0") (auto simp: bw_flush_def Let_def)
  have p: "?p < 64"
    using assms(1) by (simp add: bw_inv_def)
  then have "(?p + 7) div 8 \<le> 8"
    by simp
  then show "length data = (length (bw_bits bw) + 7) div 8"
    by (simp add: data bw_bits_def)
  have t: "data_bit ?t j \<longleftrightarrow> j < ?p \<and> bit (bw_current bw) j" for j
    using assms(1) by (auto simp: bw_inv_def codec_simps) (metis linorder_not_less)
  show "data_bit data i \<longleftrightarrow> i < length (bw_bits bw) \<and> bw_bits bw ! i"
    by (auto simp: data data_bit_append t bw_bits_def nth_append)
qed

section \<open>Bit reader\<close>

record bitReaderFast =
  br_data :: bytes
  br_current :: u64
  br_bitPos :: nat
  br_bytePos :: nat

definition refill :: "bitReaderFast \<Rightarrow> bitReaderFast" where
  "refill br =
    (let remaining = length (br_data br) - br_bytePos br in
     if remaining \<ge> 8 then
       br\<lparr>br_current := le_get (take 8 (drop (br_bytePos br) (br_data br))),
          br_bytePos := br_bytePos br + 8, br_bitPos := 0\<rparr>
     else if remaining > 0 then
       br\<lparr>br_current := le_get (take remaining (drop (br_bytePos br) (br_data br))),
          br_bytePos := br_bytePos br + remaining, br_bitPos := 0\<rparr>
     else br\<lparr>br_current := 0, br_bitPos := 0\<rparr>)"

definition newBitReaderFast :: "bytes \<Rightarrow> bitReaderFast" where
  "newBitReaderFast data = refill \<lparr>br_data = data, br_current = 0, br_bitPos = 0, br_bytePos = 0\<rparr>"

definition readBits :: "bitReaderFast \<Rightarrow> nat \<Rightarrow> u64 \<times> bitReaderFast" where
  "readBits br n =
    (if n = 0 then (0, br)
     else if br_bitPos br + n > 64 then
       let bitsFromCurrent = 64 - br_bitPos br;
           lowBits = drop_bit (br_bitPos br) (br_current br);
           br1 = refill br;
           bitsFromNext = n - bitsFromCurrent;
           highBits = br_current br1 AND (push_bit bitsFromNext 1 - 1)
       in (lowBits OR push_bit bitsFromCurrent highBits, br1\<lparr>br_bitPos := bitsFromNext\<rparr>)
     else
       (drop_bit (br_bitPos br) (br_current br) AND (push_bit n 1 - 1),
        br\<lparr>br_bitPos := br_bitPos br + n\<rparr>))"

lemma br_bitPos_refill [simp]: "br_bitPos (refill br) = 0"
  by (simp add: refill_def Let_def)

lemma br_data_refill [simp]: "br_data (refill br) = br_data br"
  by (simp add: refill_def Let_def)

function skipBits :: "bitReaderFast \<Rightarrow> nat \<Rightarrow> bitReaderFast" where
  "skipBits br n =
    (if n > 0 then
       let available = 64 - br_bitPos br in
       if n \<le> available then br\<lparr>br_bitPos := br_bitPos br + n\<rparr>
       else skipBits (refill br) (n - available)
     else br)"
  by pat_completeness auto
termination
  by (relation "measure (\<lambda>(br, n). 2 * n + (if br_bitPos br \<ge> 64 then 1 else 0))") (auto split: if_splits)

declare skipBits.simps [simp del]

definition TrailingZeros64 :: "u64 \<Rightarrow> nat" where
  "TrailingZeros64 w = (case first_upto (bit w) 0 64 of Some i \<Rightarrow> i | None \<Rightarrow> 64)"

definition grMaxQuotient :: nat where "grMaxQuotient = 16"

function readUnary_loop :: "bitReaderFast \<Rightarrow> nat \<Rightarrow> nat \<times> bitReaderFast" where
  "readUnary_loop br0 count =
    (let br = (if br_bitPos br0 \<ge> 64 then refill br0 else br0);
         remaining = drop_bit (br_bitPos br) (br_current br);
         zeros = TrailingZeros64 (NOT remaining);
         availableBits = 64 - br_bitPos br
     in if zeros < availableBits then
          let newCount = count + zeros in
          if newCount \<ge> grMaxQuotient
          then (grMaxQuotient, br\<lparr>br_bitPos := br_bitPos br + (grMaxQuotient - count)\<rparr>)
          else (newCount, br\<lparr>br_bitPos := br_bitPos br + zeros + 1\<rparr>)
        else if count + availableBits \<ge> grMaxQuotient
          then (grMaxQuotient, br\<lparr>br_bitPos := br_bitPos br + (grMaxQuotient - count)\<rparr>)
          else readUnary_loop (br\<lparr>br_bitPos := 64\<rparr>) (count + availableBits))"
  by pat_completeness auto
termination
  by (relation "measure (\<lambda>(br, count). grMaxQuotient - count)") (auto split: if_splits)

declare readUnary_loop.simps [simp del]

definition readUnaryMax16 :: "bitReaderFast \<Rightarrow> nat \<times> bitReaderFast" where
  "readUnaryMax16 br = readUnary_loop br 0"

subsection \<open>Reader positions\<close>

definition br_word :: "bitReaderFast \<Rightarrow> nat \<Rightarrow> bool" where
  "br_word br w \<longleftrightarrow> br_bytePos br = min (8 * (w + 1)) (length (br_data br)) \<and>
     (\<forall>j<64. bit (br_current br) j = data_bit (br_data br) (64 * w + j))"

definition br_at :: "bitReaderFast \<Rightarrow> nat \<Rightarrow> bool" where
  "br_at br p \<longleftrightarrow> br_bitPos br \<le> 64 \<and> (\<exists>w. p = 64 * w + br_bitPos br \<and> br_word br w)"

lemma refill_current:
  "br_bytePos br \<le> length (br_data br) \<Longrightarrow>
   br_current (refill br) = le_get (take 8 (drop (br_bytePos br) (br_data br)))"
  by (auto simp: refill_def Let_def le_get_def)

lemma refill_bytePos: "br_bytePos br \<le> length (br_data br) \<Longrightarrow>
   br_bytePos (refill br) = min (br_bytePos br + 8) (length (br_data br))"
  by (auto simp: refill_def Let_def)

lemma refill_word_gen:
  assumes "br_bytePos br = min (8 * w) (length (br_data br))"
  shows "br_word (refill br) w"
proof -
  have "bit (br_current (refill br)) j = data_bit (br_data br) (64 * w + j)" if "j < 64" for j
    using assms that by (auto simp: refill_current codec_simps min_def dest: data_bit_less)
  then show ?thesis
    using assms by (simp add: br_word_def refill_bytePos)
qed

lemma refill_word: "br_word br w \<Longrightarrow> br_word (refill br) (w + 1)"
  by (intro refill_word_gen) (simp add: br_word_def)

lemma br_at_refill: "br_word br w \<Longrightarrow> br_at (refill br) (64 * (w + 1))"
  unfolding br_at_def by (intro conjI exI [of _ "w + 1"]) (simp_all add: refill_word del: add_Suc_right One_nat_def)

lemma newBitReaderFast_at [simp]:
  "br_at (newBitReaderFast data) 0" "br_data (newBitReaderFast data) = data"
  by (auto simp: newBitReaderFast_def br_at_def intro!: exI [of _ 0] refill_word_gen)

lemma br_at_bitPos: "br_word br w \<Longrightarrow> k \<le> 64 \<Longrightarrow> br_at (br\<lparr>br_bitPos := k\<rparr>) (64 * w + k)"
  by (auto simp: br_at_def br_word_def)

lemma readBits_at:
  assumes at: "br_at br p" and n: "n \<le> 64" and rd: "readBits br n = (v, br')"
  shows "br_at br' (p + n)" and "br_data br' = br_data br"
    and "bit v j \<longleftrightarrow> j < n \<and> data_bit (br_data br) (p + j)"
proof -
  obtain w where w: "p = 64 * w + br_bitPos br" "br_word br w" and bp: "br_bitPos br \<le> 64"
    using at by (auto simp: br_at_def)
  have bits: "bit (drop_bit (br_bitPos br) (br_current br)) i \<longleftrightarrow>
      br_bitPos br + i < 64 \<and> data_bit (br_data br) (p + i)" for i
    using w by (cases "br_bitPos br + i < 64")
      (auto simp: bit_drop_bit_eq br_word_def add.assoc dest: bit_imp_le_length)
  consider "n = 0" | "n > 0" "br_bitPos br + n \<le> 64" | "n > 0" "br_bitPos br + n > 64"
    by linarith
  then have "br_at br' (p + n) \<and> br_data br' = br_data br \<and>
      (\<forall>j. bit v j \<longleftrightarrow> j < n \<and> data_bit (br_data br) (p + j))"
  proof cases
    case 1
    with at rd show ?thesis
      by (auto simp: readBits_def)
  next
    case 2
    then have br': "br' = br\<lparr>br_bitPos := br_bitPos br + n\<rparr>"
      and v: "v = drop_bit (br_bitPos br) (br_current br) AND mask n"
      using rd unfolding readBits_def ones_eq_mask by (auto simp: Let_def)
    have "br_at br' (p + n)"
      using br_at_bitPos [OF w(2), of "br_bitPos br + n"] 2 w(1) by (simp add: br' add.assoc)
    with 2 n show ?thesis
      by (auto simp: v bit_and_iff bits bit_mask_iff br')
  next
    case 3
    define b where "b = 64 - br_bitPos br"
    have b: "br_bitPos br + b = 64" "b < n"
      using 3 bp by (auto simp: b_def)
    have br': "br' = (refill br)\<lparr>br_bitPos := n - b\<rparr>"
      and v: "v = drop_bit (br_bitPos br) (br_current br) OR
        push_bit b (br_current (refill br) AND mask (n - b))"
      using rd 3 unfolding readBits_def ones_eq_mask b_def by (auto simp: Let_def)
    have w': "br_word (refill br) (w + 1)"
      by (rule refill_word) (rule w(2))
    have "br_at br' (p + n)"
    proof -
      have "64 * (w + 1) + (n - b) = p + n"
        using b w(1) by arith
      then show ?thesis
        using br_at_bitPos [OF w', of "n - b"] n by (simp add: br')
    qed
    moreover have "bit v j \<longleftrightarrow> j < n \<and> data_bit (br_data br) (p + j)" for j
    proof (cases "j < b")
      case True
      with b show ?thesis
        by (auto simp: v bit_or_iff bit_and_iff bits bit_push_bit_iff)
    next
      case False
      have "bit (br_current (refill br)) (j - b) = data_bit (br_data br) (p + j)" if "j < n"
      proof -
        have "64 * (w + 1) + (j - b) = p + j"
          using False b w(1) by simp
        then show ?thesis
          using w' that n by (simp add: br_word_def)
      qed
      with False b n show ?thesis
        by (auto simp: v bit_or_iff bits bit_push_bit_iff bit_and_iff bit_mask_iff)
    qed
    ultimately show ?thesis
      by (simp add: br')
  qed
  then show "br_at br' (p + n)" "br_data br' = br_data br"
    "bit v j \<longleftrightarrow> j < n \<and> data_bit (br_data br) (p + j)"
    by blast+
qed

lemma skipBits_at:
  "br_at br p \<Longrightarrow> br_at (skipBits br n) (p + n) \<and> br_data (skipBits br n) = br_data br"
proof (induction br n arbitrary: p rule: skipBits.induct)
  case (1 br n)
  obtain w where w: "p = 64 * w + br_bitPos br" "br_word br w" and bp: "br_bitPos br \<le> 64"
    using "1.prems" by (auto simp: br_at_def)
  show ?case
  proof (cases "n > 0 \<and> n > 64 - br_bitPos br")
    case True
    have "br_at (refill br) (64 * (w + 1))"
      by (rule br_at_refill) (rule w(2))
    from "1.IH" [OF _ refl _ this] True
    have "br_at (skipBits (refill br) (n - (64 - br_bitPos br))) (64 * (w + 1) + (n - (64 - br_bitPos br)))
      \<and> br_data (skipBits (refill br) (n - (64 - br_bitPos br))) = br_data br"
      by simp
    moreover have "64 * (w + 1) + (n - (64 - br_bitPos br)) = p + n"
      using True bp w(1) by arith
    ultimately show ?thesis
      using True by (simp add: skipBits.simps [of br n] Let_def)
  next
    case False
    then have "skipBits br n = br\<lparr>br_bitPos := br_bitPos br + n\<rparr>"
      by (auto simp: skipBits.simps [of br n] Let_def)
    moreover have "br_bitPos br + n \<le> 64"
      using False bp by linarith
    ultimately show ?thesis
      using br_at_bitPos [OF w(2), of "br_bitPos br + n"] w(1) by (simp add: add.assoc)
  qed
qed

lemma TrailingZeros64_less:
  "TrailingZeros64 w < 64 \<Longrightarrow> bit w (TrailingZeros64 w) \<and> (\<forall>j<TrailingZeros64 w. \<not> bit w j)"
  by (auto simp: TrailingZeros64_def dest: first_upto_Some split: option.splits)

lemma TrailingZeros64_le: "TrailingZeros64 w \<le> 64"
  by (auto simp: TrailingZeros64_def dest: first_upto_Some split: option.splits)

lemma TrailingZeros64_below: "j < TrailingZeros64 w \<Longrightarrow> \<not> bit w j"
  by (auto simp: TrailingZeros64_def first_upto_None dest: first_upto_Some split: option.splits)

text \<open>\<open>unary_at data p r\<close>: from bit \<open>p\<close> on there are \<open>r < 16\<close> ones and a zero, or at least \<open>r = 16\<close> ones.\<close>

definition unary_at :: "bytes \<Rightarrow> nat \<Rightarrow> nat \<Rightarrow> bool" where
  "unary_at data p r \<longleftrightarrow> (\<forall>j<r. data_bit data (p + j)) \<and> (r < 16 \<and> \<not> data_bit data (p + r) \<or> r = 16)"

definition unary_len :: "nat \<Rightarrow> nat" where
  "unary_len r = (if r < 16 then r + 1 else 16)"

lemma readUnary_loop_at:
  assumes "br_at br (p + count)" and "\<forall>j<count. data_bit (br_data br) (p + j)" and "count < 16"
    and "readUnary_loop br count = (r, br')"
  shows "unary_at (br_data br) p r \<and> br_at br' (p + unary_len r) \<and> br_data br' = br_data br"
  using assms
proof (induction br count rule: readUnary_loop.induct)
  case (1 br0 count)
  define br where "br = (if br_bitPos br0 \<ge> 64 then refill br0 else br0)"
  obtain w0 where w0: "p + count = 64 * w0 + br_bitPos br0" "br_word br0 w0" "br_bitPos br0 \<le> 64"
    using "1.prems"(1) by (auto simp: br_at_def)
  obtain w where w: "p + count = 64 * w + br_bitPos br" "br_word br w" and bp: "br_bitPos br < 64"
  proof (cases "br_bitPos br0 \<ge> 64")
    case True
    then show ?thesis
      using that [of "w0 + 1"] refill_word [OF w0(2)] w0 by (simp add: br_def)
  next
    case False
    then show ?thesis
      using that [of w0] w0 by (simp add: br_def)
  qed
  have data: "br_data br = br_data br0"
    by (simp add: br_def)
  define zeros where "zeros = TrailingZeros64 (NOT (drop_bit (br_bitPos br) (br_current br)))"
  define avail where "avail = 64 - br_bitPos br"
  have bits: "data_bit (br_data br0) (p + count + i) = bit (drop_bit (br_bitPos br) (br_current br)) i"
    if "i < avail" for i
    using w that data by (simp add: avail_def bit_drop_bit_eq br_word_def add.assoc)
  have ones: "data_bit (br_data br0) (p + j)" if "j < count + min zeros avail" for j
  proof (cases "j < count")
    case True
    with "1.prems"(2) show ?thesis by simp
  next
    case False
    then have i: "j - count < zeros" "j - count < avail"
      using that by auto
    then have "\<not> bit (NOT (drop_bit (br_bitPos br) (br_current br))) (j - count)"
      unfolding zeros_def by (intro TrailingZeros64_below)
    then show ?thesis
      using bits [OF i(2)] i False by (simp add: bit_not_iff avail_def)
  qed
  have stop: "\<not> data_bit (br_data br0) (p + count + zeros)" if "zeros < avail"
    using TrailingZeros64_less [of "NOT (drop_bit (br_bitPos br) (br_current br))"] bits [OF that] that
    by (auto simp: zeros_def [symmetric] avail_def bit_not_iff)
  have step: "readUnary_loop br0 count =
     (if zeros < avail then
        if count + zeros \<ge> 16 then (16, br\<lparr>br_bitPos := br_bitPos br + (16 - count)\<rparr>)
        else (count + zeros, br\<lparr>br_bitPos := br_bitPos br + zeros + 1\<rparr>)
      else if count + avail \<ge> 16 then (16, br\<lparr>br_bitPos := br_bitPos br + (16 - count)\<rparr>)
      else readUnary_loop (br\<lparr>br_bitPos := 64\<rparr>) (count + avail))"
    by (subst readUnary_loop.simps) (simp add: Let_def br_def zeros_def avail_def grMaxQuotient_def)
  consider (full) "count + min zeros avail \<ge> 16" | (zero) "count + zeros < 16" "zeros < avail"
    | (more) "count + avail < 16" "\<not> zeros < avail"
    by linarith
  then show ?case
  proof cases
    case full
    then have "r = 16" "br' = br\<lparr>br_bitPos := br_bitPos br + (16 - count)\<rparr>"
      using step "1.prems"(4) by (auto split: if_splits)
    moreover have "br_bitPos br + (16 - count) \<le> 64"
      using full bp by (auto simp: avail_def)
    moreover have "64 * w + (br_bitPos br + (16 - count)) = p + 16"
      using w(1) "1.prems"(3) by arith
    ultimately show ?thesis
      using ones full br_at_bitPos [OF w(2), of "br_bitPos br + (16 - count)"] data
      by (auto simp: unary_at_def unary_len_def)
  next
    case zero
    then have "r = count + zeros" "br' = br\<lparr>br_bitPos := br_bitPos br + zeros + 1\<rparr>"
      using step "1.prems"(4) by auto
    moreover have "br_at (br\<lparr>br_bitPos := br_bitPos br + zeros + 1\<rparr>) (p + (count + zeros + 1))"
    proof -
      have eq: "p + (count + zeros + 1) = 64 * w + (br_bitPos br + zeros + 1)"
        using w(1) by arith
      show ?thesis
        unfolding eq by (rule br_at_bitPos [OF w(2)]) (use zero bp in \<open>simp add: avail_def\<close>)
    qed
    ultimately show ?thesis
      using zero stop ones data by (auto simp: unary_at_def unary_len_def add.assoc)
  next
    case more
    have at: "br_at (br\<lparr>br_bitPos := 64\<rparr>) (p + (count + avail))"
    proof -
      have eq: "p + (count + avail) = 64 * w + 64"
        using w(1) bp by (simp add: avail_def)
      show ?thesis
        unfolding eq by (rule br_at_bitPos [OF w(2)]) simp
    qed
    have ne: "\<not> TrailingZeros64 (NOT (drop_bit (br_bitPos br) (br_current br))) < 64 - br_bitPos br"
      "\<not> grMaxQuotient \<le> count + (64 - br_bitPos br)"
      using more by (auto simp: zeros_def avail_def grMaxQuotient_def)
    have "unary_at (br_data br) p r \<and> br_at br' (p + unary_len r) \<and> br_data br' = br_data br"
      using "1.IH" [OF br_def refl zeros_def avail_def] at more ones step "1.prems"(4) data
      by (simp add: zeros_def avail_def grMaxQuotient_def)
    then show ?thesis
      by (simp add: data)
  qed
qed

lemma readUnaryMax16_at:
  assumes "br_at br p" and "readUnaryMax16 br = (r, br')"
  shows "unary_at (br_data br) p r" and "br_at br' (p + unary_len r)" and "br_data br' = br_data br"
  using readUnary_loop_at [of br p 0 r br'] assms by (simp_all add: readUnaryMax16_def)

lemma unary_at_unique: "unary_at data p r \<Longrightarrow> unary_at data p s \<Longrightarrow> r = s"
  unfolding unary_at_def by (metis linorder_neqE_nat order_less_irrefl)

end
