(* ===== verification/Elias_Fano.thy ===== *)
theory Elias_Fano
  imports Bit_IO
begin

text \<open>
  Elias-Fano coding of a block's cumulative bucket counts: the encoder of
  \<^verbatim>\<open>internal/bijection/encoding.go\<close> and the checkpointed range decoder of
  \<^verbatim>\<open>internal/bijection/decode.go\<close>. \<open>ef_spec\<close> says which bit positions are set in the encoding of a
  sequence; the encoder produces exactly these, and the decoder inverts them from any checkpoint.
\<close>

section \<open>Sizes\<close>

text \<open>\<^verbatim>\<open>math/bits.Len\<close>: the number of bits of a non-negative integer.\<close>

fun bits_Len :: "nat \<Rightarrow> nat" where
  "bits_Len n = (if n = 0 then 0 else Suc (bits_Len (n div 2)))"

declare bits_Len.simps [simp del]

definition computeEFLowBits :: "nat \<Rightarrow> nat \<Rightarrow> nat" where
  "computeEFLowBits n U = (if U \<le> n \<or> n = 0 then 0 else bits_Len (U div n) - 1)"

definition efHighBound :: "nat \<Rightarrow> nat \<Rightarrow> nat" where
  "efHighBound lowBits U = (if lowBits < 16 then drop_bit lowBits U else 0)"

definition eliasFanoSize :: "nat \<Rightarrow> nat \<Rightarrow> nat" where
  "eliasFanoSize n U =
    (if n = 0 then 0
     else let lowBits = computeEFLowBits n U;
              highBitsSize = n + efHighBound lowBits U;
              lowBitsSize = n * lowBits
          in (highBitsSize + lowBitsSize + 7) div 8)"

section \<open>Encoder\<close>

text \<open>One iteration of the low-bits loop; the state is (buffer, word, wordBitPos, bytePos).\<close>

definition ef_low_step :: "nat \<Rightarrow> bytes \<times> u64 \<times> nat \<times> nat \<Rightarrow> u16 \<Rightarrow> (bytes \<times> u64 \<times> nat \<times> nat) res" where
  "ef_low_step lowBits st v =
    (case st of (b, word, wordBitPos, bytePos) \<Rightarrow>
      let lowMask = push_bit lowBits 1 - 1 :: u16;
          lowVal = ucast (v AND lowMask) :: u64
      in if wordBitPos + lowBits \<le> 64
         then Inr (b, word OR push_bit wordBitPos lowVal, wordBitPos + lowBits, bytePos)
         else let bitsInCurrent = 64 - wordBitPos;
                  word1 = word OR push_bit wordBitPos lowVal
              in rbind (put_bytes b bytePos (le_put 8 word1)) (\<lambda>b.
                   Inr (b, drop_bit bitsInCurrent lowVal, lowBits - bitsInCurrent, bytePos + 8)))"

fun ef_low_loop :: "nat \<Rightarrow> bytes \<times> u64 \<times> nat \<times> nat \<Rightarrow> u16 list \<Rightarrow> (bytes \<times> u64 \<times> nat \<times> nat) res" where
  "ef_low_loop lowBits st [] = Inr st"
| "ef_low_loop lowBits st (v # vs) = rbind (ef_low_step lowBits st v) (\<lambda>st. ef_low_loop lowBits st vs)"

definition ef_write_low :: "nat \<Rightarrow> bytes \<Rightarrow> u16 list \<Rightarrow> bytes res" where
  "ef_write_low lowBits b cumulative =
    (if lowBits > 0 then
       rbind (ef_low_loop lowBits (b, 0, 0, 0) cumulative) (\<lambda>(b, word, wordBitPos, bytePos).
         if wordBitPos > 0
         then let numBytes = (wordBitPos + 7) div 8
              in put_bytes b bytePos (take numBytes (le_put 8 word))
         else Inr b)
     else Inr b)"

text \<open>The unary high-bits loop: \<open>bitPos\<close> and \<open>prevHigh\<close> are Go ints, a negative gap would panic.\<close>

fun ef_high_loop :: "nat \<Rightarrow> bytes \<Rightarrow> int \<Rightarrow> int \<Rightarrow> u16 list \<Rightarrow> bytes res" where
  "ef_high_loop lowBits b bitPos prevHigh [] = Inr b"
| "ef_high_loop lowBits b bitPos prevHigh (v # vs) =
    (let high = int (drop_bit lowBits (unat v));
         gap = high - prevHigh;
         bitPos = bitPos + gap
     in if 0 \<le> bitPos \<and> nat bitPos div 8 < length b
        then let j = nat bitPos div 8
             in ef_high_loop lowBits (b[j := b ! j OR push_bit (nat bitPos mod 8) 1]) (bitPos + 1) high vs
        else Inl (GoPanic ''index out of range''))"

definition encodeEliasFanoInto :: "u16 list \<Rightarrow> nat \<Rightarrow> bytes res" where
  "encodeEliasFanoInto cumulative U =
    (let n = length cumulative in
     if n = 0 then Inr []
     else let lowBits = computeEFLowBits n U;
              highBitsSize = n + efHighBound lowBits U;
              lowBitsSize = n * lowBits;
              totalBytes = (highBitsSize + lowBitsSize + 7) div 8;
              b = replicate totalBytes 0
          in rbind (ef_write_low lowBits b cumulative) (\<lambda>b.
               ef_high_loop lowBits b (int lowBitsSize) 0 cumulative))"

section \<open>Range decoder\<close>

definition readEFLowBits :: "bytes \<Rightarrow> nat \<Rightarrow> nat \<Rightarrow> u16" where
  "readEFLowBits efData element lowBits =
    (if lowBits = 0 then 0
     else let bitPos = element * lowBits; byteIdx = bitPos div 8; bitIdx = bitPos mod 8 in
       if byteIdx \<ge> length efData then 0
       else let lowMask = push_bit lowBits 1 - 1 :: u64 in
         if byteIdx + 8 \<le> length efData
         then ucast (drop_bit bitIdx (le_get (take 8 (drop byteIdx efData)) :: u64) AND lowMask)
         else let val = ucast (efData ! byteIdx) :: u64;
                  val = (if byteIdx + 1 < length efData
                         then val OR push_bit 8 (ucast (efData ! (byteIdx + 1))) else val);
                  val = (if byteIdx + 2 < length efData \<and> lowBits + bitIdx > 8
                         then val OR push_bit 16 (ucast (efData ! (byteIdx + 2))) else val)
              in ucast (drop_bit bitIdx val AND lowMask))"

definition loadWindow64Safe :: "bytes \<Rightarrow> nat \<Rightarrow> u64" where
  "loadWindow64Safe data byteIdx =
    (let remaining = length data - byteIdx in
     if remaining \<ge> 8 then le_get (take 8 (drop byteIdx data))
     else fold (\<lambda>i w. w OR push_bit (8 * i) 0xFF) [remaining..<8] (le_get (drop byteIdx data)))"

text \<open>The scan for the next set bit of the high part; it returns (bitPos, currentHigh).\<close>

function ef_scan :: "bytes \<Rightarrow> nat \<Rightarrow> nat \<Rightarrow> u16 \<Rightarrow> nat \<times> u16" where
  "ef_scan efData lowBitsTotal bitPos currentHigh =
    (let absBitPos = lowBitsTotal + bitPos;
         byteIdx = absBitPos div 8;
         bitInByte = absBitPos mod 8
     in if byteIdx \<ge> length efData then (bitPos, currentHigh)
        else let window = drop_bit bitInByte
                   (if byteIdx + 8 \<le> length efData then le_get (take 8 (drop byteIdx efData))
                    else loadWindow64Safe efData byteIdx)
             in if window = 0
                then let bitsAvailable = 64 - bitInByte
                     in ef_scan efData lowBitsTotal (bitPos + bitsAvailable)
                          (currentHigh + of_nat bitsAvailable)
                else let zeros = TrailingZeros64 window
                     in (bitPos + zeros + 1, currentHigh + of_nat zeros))"
  by pat_completeness auto
termination
proof (relation "measure (\<lambda>(d, t, b, h). 8 * length d - (t + b))", goal_cases)
  case (2 efData lowBitsTotal bitPos currentHigh abs byteIdx bitInByte window bitsAvailable)
  then have "lowBitsTotal + bitPos < 8 * length efData"
    by (simp add: div_less_iff_less_mult mult.commute)
  moreover have "0 < bitsAvailable"
    using 2 by simp
  ultimately show ?case
    by simp
qed simp

declare ef_scan.simps [simp del]

fun ef_range_loop :: "bytes \<Rightarrow> nat \<Rightarrow> nat \<Rightarrow> nat \<Rightarrow> nat \<Rightarrow> nat \<Rightarrow> u16 \<Rightarrow> nat \<Rightarrow> u16 list res" where
  "ef_range_loop efData lowBits lowBitsTotal elem 0 bitPos currentHigh outLen = Inr []"
| "ef_range_loop efData lowBits lowBitsTotal elem (Suc k) bitPos currentHigh outLen =
    (let lowVal = (if lowBits > 0 then readEFLowBits efData elem lowBits else 0) in
     case ef_scan efData lowBitsTotal bitPos currentHigh of (bitPos, currentHigh) \<Rightarrow>
       if outLen = 0 then Inl (GoPanic ''index out of range'')
       else rbind (ef_range_loop efData lowBits lowBitsTotal (Suc elem) k bitPos currentHigh (outLen - 1))
              (\<lambda>vs. Inr ((push_bit lowBits currentHigh OR lowVal) # vs)))"

text \<open>The decoded values in order; the caller's \<open>out\<close> slice has length \<open>outLen\<close>.\<close>

definition decodeEFRangeInline :: "bytes \<Rightarrow> nat \<Rightarrow> nat \<Rightarrow> nat \<Rightarrow> nat \<Rightarrow> nat \<Rightarrow> nat \<Rightarrow> u16 list res" where
  "decodeEFRangeInline efData numBuckets keysInBlock startElement endElement0 startBitInHighBits outLen =
    (if startElement > endElement0 \<or> startElement \<ge> numBuckets then Inr []
     else let endElement = (if endElement0 \<ge> numBuckets then numBuckets - 1 else endElement0) in
       if length efData < 8 then Inr []
       else let lowBits = computeEFLowBits numBuckets keysInBlock;
                lowBitsTotal = numBuckets * lowBits;
                bitPos = startBitInHighBits;
                currentHigh = (if startElement > 0 \<and> bitPos \<ge> startElement
                               then of_nat (bitPos - startElement) else 0) :: u16
            in ef_range_loop efData lowBits lowBitsTotal startElement (endElement + 1 - startElement)
                 bitPos currentHigh outLen)"

end
