(* ===== verification/EF_Correct.thy ===== *)
theory EF_Correct
  imports Elias_Fano
begin

text \<open>
  Correctness of the Elias-Fano coder: the exact set bits of the encoder's output and its size,
  and the range decoder as its inverse from every checkpoint position.
\<close>

section \<open>Sizes\<close>

lemma bits_Len_bounds: "0 < n \<Longrightarrow> 0 < bits_Len n \<and> 2 ^ (bits_Len n - 1) \<le> n \<and> n < 2 ^ bits_Len n"
proof (induction n rule: bits_Len.induct)
  case (1 n)
  show ?case
  proof (cases "n div 2 = 0")
    case True
    with "1.prems" have "n = 1"
      by simp
    then show ?thesis
      by (simp add: bits_Len.simps)
  next
    case False
    with "1.IH" "1.prems" have IH: "0 < bits_Len (n div 2)" "2 ^ (bits_Len (n div 2) - 1) \<le> n div 2"
      "n div 2 < 2 ^ bits_Len (n div 2)"
      by auto
    then obtain l where l: "bits_Len (n div 2) = Suc l"
      by (metis gr0_implies_Suc)
    have "bits_Len n = Suc (Suc l)"
      using "1.prems" l by (simp add: bits_Len.simps [of n])
    moreover have "2 * 2 ^ l \<le> n" and "n < 2 * (2 * 2 ^ l)"
      using IH l by auto
    ultimately show ?thesis
      by simp
  qed
qed

lemma bits_Len_le: "n < 2 ^ k \<Longrightarrow> bits_Len n \<le> k"
proof (induction n arbitrary: k rule: bits_Len.induct)
  case (1 n)
  show ?case
  proof (cases "n = 0")
    case False
    with "1.prems" obtain k' where k: "k = Suc k'"
      by (cases k) auto
    with "1.prems" have "n div 2 < 2 ^ k'"
      by simp
    from "1.IH" [OF False this] show ?thesis
      using False k by (simp add: bits_Len.simps [of n])
  qed (simp add: bits_Len.simps)
qed

lemma computeEFLowBits_high:
  assumes "0 < n"
  shows "drop_bit (computeEFLowBits n U) U < 2 * n \<or> (U \<le> n \<and> drop_bit (computeEFLowBits n U) U = U)"
proof (cases "U \<le> n")
  case False
  with assms have pos: "0 < U div n"
    by (simp add: div_greater_zero_iff)
  define l where "l = bits_Len (U div n)"
  have l: "0 < l" "U div n < 2 ^ l"
    using bits_Len_bounds [OF pos] by (simp_all add: l_def)
  then have "U < 2 ^ l * n"
    using assms by (simp add: div_less_iff_less_mult)
  also have "\<dots> = 2 ^ (l - 1) * (2 * n)"
    using l(1) by (cases l) auto
  finally have "U div 2 ^ (l - 1) < 2 * n"
    by (simp add: div_less_iff_less_mult mult.commute)
  then show ?thesis
    using False assms by (simp add: computeEFLowBits_def l_def drop_bit_eq_div)
qed (simp add: computeEFLowBits_def)

lemma computeEFLowBits_le: "U < 65536 \<Longrightarrow> computeEFLowBits n U \<le> 15"
proof -
  assume "U < 65536"
  then have "U div n < 2 ^ 16"
    using le_less_trans [OF div_le_dividend [of U n]] by simp
  then have "bits_Len (U div n) \<le> 16"
    by (rule bits_Len_le)
  then show ?thesis
    by (auto simp: computeEFLowBits_def)
qed

lemma efHighBound_eq: "U < 65536 \<Longrightarrow> efHighBound (computeEFLowBits n U) U = drop_bit (computeEFLowBits n U) U"
  using computeEFLowBits_le [of U n] by (simp add: efHighBound_def)

section \<open>Encoder\<close>

definition ef_bit :: "u16 list \<Rightarrow> nat \<Rightarrow> nat \<Rightarrow> bool" where
  "ef_bit cum L i \<longleftrightarrow>
    (i < length cum * L \<and> bit (cum ! (i div L)) (i mod L)) \<or>
    (\<exists>t<length cum. i = length cum * L + drop_bit L (unat (cum ! t)) + t)"

text \<open>The low-bits loop appends the low \<open>L\<close> bits of each value to the bits written so far.\<close>

fun ef_st_bits :: "bytes \<times> u64 \<times> nat \<times> nat \<Rightarrow> bool list" where
  "ef_st_bits (b, word, wp, bp) = byte_bits (take bp b) @ word_bits word wp"

fun ef_st_inv :: "bytes \<times> u64 \<times> nat \<times> nat \<Rightarrow> bool" where
  "ef_st_inv (b, word, wp, bp) \<longleftrightarrow> wp \<le> 64 \<and> (\<forall>i\<ge>wp. \<not> bit word i) \<and> bp \<le> length b \<and>
     (\<forall>i\<ge>8 * bp. \<not> data_bit b i)"

lemma data_bit_copy_at:
  assumes "off + length src \<le> length dst"
  shows "data_bit (copy_at dst off src) i =
    (if 8 * off \<le> i \<and> i < 8 * (off + length src) then data_bit src (i - 8 * off) else data_bit dst i)"
  using assms by (auto simp: copy_at_def codec_simps)

lemma ef_low_step_ok:
  assumes inv: "ef_st_inv st" and L: "L \<le> 16" and sp: "length (ef_st_bits st) + L \<le> 8 * length (fst st)"
  shows "\<exists>st'. ef_low_step L st v = Inr st' \<and> ef_st_inv st' \<and> length (fst st') = length (fst st) \<and>
    ef_st_bits st' = ef_st_bits st @ word_bits v L"
proof -
  obtain b word wp bp where st: "st = (b, word, wp, bp)"
    by (cases st)
  define lv where "lv = (ucast (v AND mask L) :: u64)"
  have lv_bit: "bit lv i \<longleftrightarrow> i < L \<and> bit v i" for i
    using L by (auto simp: lv_def bit_ucast_iff bit_and_iff bit_mask_iff dest: bit_imp_le_length)
  then have lv: "word_bits lv k = word_bits v k" if "k \<le> L" for k
    using that by (auto simp: word_bits_def)
  have inv': "wp \<le> 64" "\<forall>i\<ge>wp. \<not> bit word i" "bp \<le> length b" "\<forall>i\<ge>8 * bp. \<not> data_bit b i"
    using inv by (auto simp: st)
  show ?thesis
  proof (cases "wp + L \<le> 64")
    case True
    have "word_bits (word OR push_bit wp lv) (wp + L) = word_bits word wp @ word_bits v L"
      using word_bits_or [OF inv'(2) True, of lv] lv by simp
    moreover have "\<forall>i\<ge>wp + L. \<not> bit (word OR push_bit wp lv) i"
      using inv'(2) by (auto simp: bit_or_iff bit_push_bit_iff lv_bit)
    ultimately show ?thesis
      using True inv' unfolding st ef_low_step_def ones_eq_mask
      by (simp add: Let_def flip: lv_def)
  next
    case False
    define c where "c = 64 - wp"
    have c: "wp + c = 64" "c < L"
      using False inv'(1) by (auto simp: c_def)
    have len: "bp + 8 \<le> length b"
      using sp c inv'(3) by (simp add: st min_absorb2)
    let ?w = "word OR push_bit wp lv"
    let ?b = "copy_at b bp (le_put 8 ?w)"
    have bits1: "byte_bits (take (bp + 8) ?b) = byte_bits (take bp b) @ word_bits word wp @ word_bits v c"
      using take_copy_at [of bp "le_put 8 ?w" b] len word_bits_or [OF inv'(2), of c lv] c lv [of c]
      by (simp add: byte_bits_append byte_bits_le_put)
    have bits2: "word_bits v c @ word_bits (drop_bit c lv) (L - c) = word_bits v L"
      using c(2) by (intro nth_equalityI) (auto simp: nth_append bit_drop_bit_eq lv_bit)
    have step: "ef_low_step L st v = Inr (?b, drop_bit c lv, L - c, bp + 8)"
      using False len unfolding st ef_low_step_def ones_eq_mask
      by (simp add: Let_def c_def flip: lv_def)
    moreover have "ef_st_inv (?b, drop_bit c lv, L - c, bp + 8)"
      using len L inv'(4) c by (auto simp: bit_drop_bit_eq lv_bit data_bit_copy_at)
    moreover have "ef_st_bits (?b, drop_bit c lv, L - c, bp + 8) = ef_st_bits st @ word_bits v L"
      using bits1 bits2 by (simp add: st)
    ultimately show ?thesis
      using len by (simp add: st)
  qed
qed

lemma ef_low_loop_ok:
  assumes "ef_st_inv st" and "L \<le> 16" and "length (ef_st_bits st) + L * length vs \<le> 8 * length (fst st)"
  shows "\<exists>st'. ef_low_loop L st vs = Inr st' \<and> ef_st_inv st' \<and> length (fst st') = length (fst st) \<and>
    ef_st_bits st' = ef_st_bits st @ concat (map (\<lambda>v. word_bits v L) vs)"
  using assms
proof (induction vs arbitrary: st)
  case (Cons v vs)
  from ef_low_step_ok [of st L v] Cons.prems
  obtain st1 where st1: "ef_low_step L st v = Inr st1" "ef_st_inv st1" "length (fst st1) = length (fst st)"
    "ef_st_bits st1 = ef_st_bits st @ word_bits v L"
    by auto
  with Cons.IH [of st1] Cons.prems show ?case
    by auto
qed auto

lemma ef_write_low_ok:
  assumes "L \<le> 16" and "length cum * L \<le> 8 * length b" and "\<forall>i. \<not> data_bit b i"
  shows "\<exists>b'. ef_write_low L b cum = Inr b' \<and> length b' = length b \<and>
    (\<forall>i. data_bit b' i \<longleftrightarrow> i < length cum * L \<and> bit (cum ! (i div L)) (i mod L))"
proof (cases "L = 0")
  case True
  then show ?thesis
    using assms(3) by (simp add: ef_write_low_def)
next
  case False
  have "ef_st_inv (b, 0, 0, 0)" "ef_st_bits (b, 0, 0, 0) = []"
    using assms(3) by (auto simp: byte_bits_def)
  with ef_low_loop_ok [of "(b, 0, 0, 0)" L cum] assms(1,2)
  obtain b1 w wp bp where loop: "ef_low_loop L (b, 0, 0, 0) cum = Inr (b1, w, wp, bp)"
    and inv: "ef_st_inv (b1, w, wp, bp)" and len: "length b1 = length b"
    and bits: "byte_bits (take bp b1) @ word_bits w wp = concat (map (\<lambda>v. word_bits v L) cum)"
    by (fastforce simp: mult.commute)
  have total: "8 * bp + wp = length cum * L"
    using arg_cong [OF bits, of length] inv
    by (simp add: length_concat_const [where k = L] min_absorb2 mult.commute)
  let ?t = "take ((wp + 7) div 8) (le_put 8 w)"
  have fits: "bp + length ?t \<le> length b1"
    using total assms(2) len inv by simp
  have lt: "8 * length ?t \<ge> wp"
  proof -
    have "wp \<le> 8 * ((wp + 7) div 8)" by arith
    then show ?thesis
      using inv by (simp add: min_def)
  qed
  have eq: "ef_write_low L b cum = Inr (copy_at b1 bp ?t)"
    using False loop fits inv by (auto simp: ef_write_low_def Let_def copy_at_def)
  have "data_bit (copy_at b1 bp ?t) i \<longleftrightarrow> i < length cum * L \<and> bit (cum ! (i div L)) (i mod L)" for i
  proof -
    have d: "data_bit (copy_at b1 bp ?t) i \<longleftrightarrow> i < length cum * L \<and> (byte_bits (take bp b1) @ word_bits w wp) ! i"
    proof (cases "i < 8 * bp")
      case True
      then show ?thesis
        using fits total inv by (simp add: data_bit_copy_at nth_append codec_simps min_absorb2)
    next
      case False
      define j where "j = i - 8 * bp"
      have i: "i = 8 * bp + j"
        using False by (simp add: j_def)
      have "data_bit (copy_at b1 bp ?t) i \<longleftrightarrow> j < 8 * length ?t \<and> bit w j"
        using inv fits by (auto simp: i data_bit_copy_at codec_simps dest: bit_imp_le_length)
      also have "\<dots> \<longleftrightarrow> j < wp \<and> bit w j"
        using inv lt by (meson ef_st_inv.simps linorder_not_less order_less_le_trans)
      finally show ?thesis
        using inv total by (auto simp: i nth_append min_absorb2)
    qed
    have "concat (map (\<lambda>v. word_bits v L) cum) ! i = bit (cum ! (i div L)) (i mod L)" if "i < length cum * L"
      using nth_concat_map_const [of cum "\<lambda>v. word_bits v L" L "i div L" "i mod L"] that False
      by (simp add: div_less_iff_less_mult)
    then show ?thesis
      using d bits by auto
  qed
  then show ?thesis
    using eq len fits by auto
qed

lemma ef_high_loop_ok:
  assumes "k \<le> length cum" and "\<forall>t<length cum. m + drop_bit L (unat (cum ! t)) + t < 8 * length b"
    and "h = (if k = 0 then 0 else drop_bit L (unat (cum ! (k - 1))))"
  shows "\<exists>b'. ef_high_loop L b (int (m + h + k)) (int h) (drop k cum) = Inr b' \<and> length b' = length b \<and>
    (\<forall>i. data_bit b' i \<longleftrightarrow> data_bit b i \<or>
      (\<exists>t. k \<le> t \<and> t < length cum \<and> i = m + drop_bit L (unat (cum ! t)) + t))"
  using assms
proof (induction "length cum - k" arbitrary: k b h)
  case 0
  then show ?case
    by auto
next
  case (Suc x)
  then have k: "k < length cum" by simp
  define hk where "hk = drop_bit L (unat (cum ! k))"
  define p where "p = m + hk + k"
  define b1 where "b1 = b[p div 8 := b ! (p div 8) OR push_bit (p mod 8) 1]"
  have p8: "p div 8 < length b"
    using Suc.prems(2) k by (simp add: p_def hk_def div_less_iff_less_mult mult.commute)
  have b1: "data_bit b1 i \<longleftrightarrow> data_bit b i \<or> i = p" for i
  proof -
    have "i div 8 = p div 8 \<Longrightarrow> i mod 8 = p mod 8 \<longleftrightarrow> i = p"
      by (metis div_mult_mod_eq)
    moreover have "bit (push_bit (p mod 8) 1 :: u8) (i mod 8) \<longleftrightarrow> i mod 8 = p mod 8"
      by (auto simp: bit_exp_iff)
    ultimately show ?thesis
      using p8 unfolding b1_def data_bit_update [OF p8] bit_or_iff by (auto simp: data_bit_def)
  qed
  have dk: "drop k cum = cum ! k # drop (Suc k) cum"
    using k by (simp add: Cons_nth_drop_Suc)
  have e: "int (m + h + k) + (int hk - int h) = int p"
    by (simp add: p_def)
  have e1: "int p + 1 = int (m + hk + Suc k)"
    by (simp add: p_def)
  have step: "ef_high_loop L b (int (m + h + k)) (int h) (drop k cum) =
      ef_high_loop L b1 (int (m + hk + Suc k)) (int hk) (drop (Suc k) cum)"
    unfolding dk ef_high_loop.simps Let_def hk_def [symmetric] e e1 nat_int
    using p8 by (simp add: b1_def)
  have "x = length cum - Suc k" and "Suc k \<le> length cum"
    using Suc.hyps(2) k by simp_all
  moreover have "\<forall>t<length cum. m + drop_bit L (unat (cum ! t)) + t < 8 * length b1"
    using Suc.prems(2) by (simp add: b1_def)
  ultimately obtain b' where b': "ef_high_loop L b1 (int (m + hk + Suc k)) (int hk) (drop (Suc k) cum) = Inr b'"
    "length b' = length b1"
    "\<forall>i. data_bit b' i \<longleftrightarrow> data_bit b1 i \<or>
      (\<exists>t. Suc k \<le> t \<and> t < length cum \<and> i = m + drop_bit L (unat (cum ! t)) + t)"
    using Suc.hyps(1) [of "Suc k" b1 hk] by (auto simp: hk_def)
  have "(\<exists>t. k \<le> t \<and> t < length cum \<and> i = m + drop_bit L (unat (cum ! t)) + t) \<longleftrightarrow>
      i = p \<or> (\<exists>t. Suc k \<le> t \<and> t < length cum \<and> i = m + drop_bit L (unat (cum ! t)) + t)" for i
    using k unfolding p_def hk_def by (metis Suc_leD Suc_leI le_neq_implies_less order_refl)
  with b' step show ?case
    by (auto simp: b1 b1_def [symmetric]) (simp_all add: b1_def)
qed

lemma encodeEliasFanoInto_ok:
  assumes "cum \<noteq> []" and "\<forall>v\<in>set cum. unat v \<le> U" and "U < 65536"
    and "L = computeEFLowBits (length cum) U"
  shows "\<exists>data. encodeEliasFanoInto cum U = Inr data \<and> length data = eliasFanoSize (length cum) U \<and>
    (\<forall>i. data_bit data i \<longleftrightarrow> ef_bit cum L i)"
proof -
  define n where "n = length cum"
  define total where "total = (n + drop_bit L U + n * L + 7) div 8"
  have n: "0 < n" using assms(1) by (simp add: n_def)
  have L: "L \<le> 16" and hb: "efHighBound L U = drop_bit L U"
    using computeEFLowBits_le [OF assms(3), of n] efHighBound_eq [OF assms(3), of n] assms(4)
    by (simp_all add: n_def)
  have t8: "n + drop_bit L U + n * L \<le> 8 * total"
    unfolding total_def by arith
  have size: "eliasFanoSize (length cum) U = total"
    using n hb assms(4) unfolding eliasFanoSize_def Let_def total_def n_def by simp
  obtain b1 where b1: "ef_write_low L (replicate total 0) cum = Inr b1" "length b1 = total"
    "\<forall>i. data_bit b1 i \<longleftrightarrow> i < n * L \<and> bit (cum ! (i div L)) (i mod L)"
    using ef_write_low_ok [OF L, of cum "replicate total 0"] t8 by (auto simp: n_def)
  have "\<forall>t<n. n * L + drop_bit L (unat (cum ! t)) + t < 8 * length b1"
  proof (intro allI impI)
    fix t assume t: "t < n"
    then have "drop_bit L (unat (cum ! t)) \<le> drop_bit L U"
      using assms(2) by (auto simp: drop_bit_eq_div n_def intro: div_le_mono)
    then show "n * L + drop_bit L (unat (cum ! t)) + t < 8 * length b1"
      using t8 t b1(2) by linarith
  qed
  from ef_high_loop_ok [of 0 cum "n * L" L b1 0] this
  obtain b2 where b2: "ef_high_loop L b1 (int (n * L)) 0 cum = Inr b2" "length b2 = total"
    "\<forall>i. data_bit b2 i \<longleftrightarrow> data_bit b1 i \<or> (\<exists>t<n. i = n * L + drop_bit L (unat (cum ! t)) + t)"
    by (auto simp: n_def [symmetric] b1(2))
  have "encodeEliasFanoInto cum U = Inr b2"
    using n b1(1) b2(1) hb assms(4)
    by (simp add: encodeEliasFanoInto_def Let_def flip: n_def) (simp add: total_def n_def)
  then show ?thesis
    using b1(3) b2(2,3) by (auto simp: size ef_bit_def n_def)
qed

section \<open>Decoder\<close>

lemma bit_byte_word: "bit (ucast (b :: u8) :: u64) k \<longleftrightarrow> k < 8 \<and> bit b k"
  by (auto simp: bit_ucast_iff dest: bit_imp_le_length)

lemma data_bit_nth: "k < 8 \<Longrightarrow> data_bit d (8 * m + k) \<longleftrightarrow> m < length d \<and> bit (d ! m) k"
  by (simp add: data_bit_def)

lemma readEFLowBits_bit:
  assumes "L \<le> 16"
  shows "bit (readEFLowBits d e L) j \<longleftrightarrow> j < L \<and> data_bit d (e * L + j)"
proof -
  define m where "m = e * L div 8"
  define r where "r = e * L mod 8"
  have eL: "e * L = 8 * m + r" and r8: "r < 8"
    by (simp_all add: m_def r_def)
  define val where "val = (let val = ucast (d ! m) :: u64;
      val = (if m + 1 < length d then val OR push_bit 8 (ucast (d ! (m + 1))) else val)
      in if m + 2 < length d \<and> L + r > 8 then val OR push_bit 16 (ucast (d ! (m + 2))) else val)"
  have val: "bit val (r + j) \<longleftrightarrow> data_bit d (e * L + j)" if "j < L" "m < length d"
  proof -
    define k where "k = r + j"
    have "k < 24" and "k \<ge> 16 \<Longrightarrow> L + r > 8" and ek: "e * L + j = 8 * m + k"
      using that assms r8 eL by (auto simp: k_def)
    then consider "k < 8" | "8 \<le> k" "k < 16" | "16 \<le> k" "k < 24" "L + r > 8"
      by linarith
    then have "bit val k \<longleftrightarrow> data_bit d (8 * m + k)"
    proof cases
      case 1
      then show ?thesis
        using that by (auto simp: val_def Let_def data_bit_nth bit_or_iff bit_push_bit_iff bit_byte_word)
    next
      case 2
      then show ?thesis
        using data_bit_nth [of "k - 8" d "m + 1"] that
        by (auto simp: val_def Let_def bit_or_iff bit_push_bit_iff bit_byte_word)
    next
      case 3
      then show ?thesis
        using data_bit_nth [of "k - 16" d "m + 2"] that
        by (auto simp: val_def Let_def bit_or_iff bit_push_bit_iff bit_byte_word)
    qed
    then show ?thesis
      by (simp add: k_def [symmetric] ek)
  qed
  have eq: "readEFLowBits d e L = (if L = 0 then 0 else if m \<ge> length d then 0
      else if m + 8 \<le> length d then ucast (drop_bit r (le_get (take 8 (drop m d)) :: u64) AND mask L)
      else ucast (drop_bit r val AND mask L))"
    unfolding readEFLowBits_def ones_eq_mask m_def r_def val_def Let_def ..
  consider "L = 0" | "L > 0" "m \<ge> length d" | "L > 0" "m + 8 \<le> length d"
    | "L > 0" "m < length d" "m + 8 > length d"
    by linarith
  then show ?thesis
  proof cases
    case 2
    then have "\<not> data_bit d (e * L + j)"
      by (intro data_bit_beyond) (simp add: eL)
    with 2 show ?thesis
      by (simp add: eq)
  next
    case 3
    then show ?thesis
      using assms r8
      by (auto simp: eq bit_ucast_iff bit_and_iff bit_mask_iff bit_drop_bit_eq codec_simps eL add.assoc)
  next
    case 4
    then show ?thesis
      using assms r8 val by (auto simp: eq bit_ucast_iff bit_and_iff bit_mask_iff bit_drop_bit_eq)
  qed (simp add: readEFLowBits_def)
qed

lemma loadWindow64Safe_bit:
  assumes "m < length d" and "k < 64"
  shows "bit (loadWindow64Safe d m) k \<longleftrightarrow> (8 * m + k < 8 * length d \<longrightarrow> data_bit d (8 * m + k))"
proof (cases "length d - m \<ge> 8")
  case True
  then show ?thesis
    using assms by (auto simp: loadWindow64Safe_def codec_simps)
next
  case False
  define r where "r = length d - m"
  have "bit (push_bit (8 * i) 0xFF :: u64) k \<longleftrightarrow> k div 8 = i" if "i < 8" for i
  proof -
    have m8: "(0xFF :: u64) = mask 8"
      by (simp add: mask_eq_exp_minus_1)
    show ?thesis
      unfolding m8 bit_push_bit_iff bit_mask_iff using assms(2) by auto
  qed
  then have pad: "(\<exists>i\<in>{r..<8}. bit (push_bit (8 * i) 0xFF :: u64) k) \<longleftrightarrow> r \<le> k div 8"
    using assms(2) by (auto simp: Bex_def)
  have "8 * m + k < 8 * length d \<longleftrightarrow> \<not> r \<le> k div 8"
    using assms by (auto simp: r_def)
  with pad False assms show ?thesis
    by (auto simp: loadWindow64Safe_def fold_or_bit codec_simps simp flip: r_def)
qed

text \<open>The scan stops at the next set bit \<open>q\<close> and adds the zeros it skipped.\<close>

lemma ef_scan_next:
  assumes "p \<le> q" and "\<forall>i. p \<le> i \<longrightarrow> i < q \<longrightarrow> \<not> data_bit d (m + i)" and "data_bit d (m + q)"
  shows "ef_scan d m p h = (q + 1, h + of_nat (q - p))"
  using assms
proof (induction d m p h rule: ef_scan.induct)
  case (1 d m p h)
  define byteIdx where "byteIdx = (m + p) div 8"
  define r where "r = (m + p) mod 8"
  have mp: "m + p = 8 * byteIdx + r" and r8: "r < 8"
    by (simp_all add: byteIdx_def r_def)
  define window where "window = drop_bit r (if byteIdx + 8 \<le> length d then le_get (take 8 (drop byteIdx d))
      else loadWindow64Safe d byteIdx)"
  have mq: "m + q < 8 * length d"
    using "1.prems"(3) by (rule data_bit_less)
  then have bi: "byteIdx < length d"
    using "1.prems"(1) mp by linarith
  have wbit: "bit window i \<longleftrightarrow> i < 64 - r \<and> (m + p + i < 8 * length d \<longrightarrow> data_bit d (m + p + i))" for i
  proof (cases "r + i < 64")
    case True
    then show ?thesis
      using bi loadWindow64Safe_bit [of byteIdx d "r + i"]
      by (auto simp: window_def bit_drop_bit_eq codec_simps mp add.assoc)
  next
    case False
    then show ?thesis
      by (auto simp: window_def bit_drop_bit_eq dest: bit_imp_le_length)
  qed
  have step: "ef_scan d m p h = (if window = 0 then ef_scan d m (p + (64 - r)) (h + of_nat (64 - r))
      else (p + TrailingZeros64 window + 1, h + of_nat (TrailingZeros64 window)))"
    using bi by (subst ef_scan.simps) (simp add: Let_def window_def byteIdx_def r_def)
  show ?case
  proof (cases "q - p < 64 - r")
    case True
    have "bit window (q - p)" and low: "\<forall>i<q - p. \<not> bit window i"
      using True "1.prems" mq by (auto simp: wbit add.assoc)
    then have "TrailingZeros64 window = q - p" "window \<noteq> 0"
    proof -
      have "\<not> TrailingZeros64 window < q - p"
      proof
        assume lt: "TrailingZeros64 window < q - p"
        then have "TrailingZeros64 window < 64"
          using True by linarith
        then show False
          using TrailingZeros64_less [of window] low lt by blast
      qed
      moreover have "\<not> q - p < TrailingZeros64 window"
        using \<open>bit window (q - p)\<close> TrailingZeros64_below by blast
      ultimately show "TrailingZeros64 window = q - p"
        by simp
      show "window \<noteq> 0"
        using \<open>bit window (q - p)\<close> by auto
    qed
    then show ?thesis
      using step "1.prems"(1) by simp
  next
    case False
    have "\<not> bit window i" for i
      using False "1.prems"(2) mq r8 by (auto simp: wbit add.assoc)
    then have "window = 0"
      by (intro bit_word_eqI) simp
    moreover have "ef_scan d m (p + (64 - r)) (h + of_nat (64 - r)) =
        (q + 1, h + of_nat (64 - r) + of_nat (q - (p + (64 - r))))"
      using "1.IH" [OF refl byteIdx_def r_def _ window_def \<open>window = 0\<close> refl] bi False "1.prems"
      by (simp add: r_def)
    moreover have "of_nat (64 - r) + of_nat (q - (p + (64 - r))) = (of_nat (q - p) :: u16)"
    proof -
      have "64 - r + (q - (p + (64 - r))) = q - p"
        using False by arith
      then show ?thesis
        unfolding of_nat_add [symmetric] by (rule arg_cong)
    qed
    ultimately show ?thesis
      using step by (simp add: add.assoc)
  qed
qed

text \<open>\<open>ef_data d cum L U\<close>: the buffer \<open>d\<close> starts with the encoding of \<open>cum\<close>; more bytes may follow.\<close>

definition ef_data :: "bytes \<Rightarrow> u16 list \<Rightarrow> nat \<Rightarrow> nat \<Rightarrow> bool" where
  "ef_data d cum L U \<longleftrightarrow> L \<le> 15 \<and> U < 65536 \<and> sorted (map unat cum) \<and> (\<forall>v\<in>set cum. unat v \<le> U) \<and>
     (\<forall>i<length cum * L + length cum + drop_bit L U. data_bit d i \<longleftrightarrow> ef_bit cum L i)"

definition ef_high :: "u16 list \<Rightarrow> nat \<Rightarrow> nat \<Rightarrow> nat" where
  "ef_high cum L e = (if e = 0 then 0 else drop_bit L (unat (cum ! (e - 1))))"

lemma ef_high_mono:
  assumes "ef_data d cum L U" and "a \<le> b" and "b \<le> length cum"
  shows "ef_high cum L a \<le> ef_high cum L b"
proof -
  have "unat (cum ! (a - 1)) \<le> unat (cum ! (b - 1))" if "0 < a"
    using assms that sorted_nth_mono [of "map unat cum" "a - 1" "b - 1"] by (auto simp: ef_data_def)
  with assms(2) show ?thesis
    by (auto simp: ef_high_def drop_bit_eq_div intro: div_le_mono)
qed

lemma ef_high_le:
  assumes "ef_data d cum L U" and "e \<le> length cum"
  shows "ef_high cum L e \<le> drop_bit L U"
  using assms by (auto simp: ef_high_def ef_data_def drop_bit_eq_div intro!: div_le_mono)

lemma ef_data_high:
  assumes "ef_data d cum L U" and "i < length cum + drop_bit L U"
  shows "data_bit d (length cum * L + i) \<longleftrightarrow> (\<exists>t<length cum. i = ef_high cum L (Suc t) + t)"
  using assms by (auto simp: ef_data_def ef_bit_def ef_high_def)

lemma ef_data_scan:
  assumes ef: "ef_data d cum L U" and e: "e < length cum"
  shows "ef_scan d (length cum * L) (ef_high cum L e + e) h =
    (ef_high cum L (Suc e) + Suc e, h + of_nat (ef_high cum L (Suc e) - ef_high cum L e))"
proof -
  have le: "ef_high cum L e \<le> ef_high cum L (Suc e)" and lt: "ef_high cum L (Suc e) + e < length cum + drop_bit L U"
    using ef_high_mono [OF ef, of e "Suc e"] ef_high_le [OF ef, of "Suc e"] e by auto
  have "\<not> data_bit d (length cum * L + i)" if i: "ef_high cum L e + e \<le> i" "i < ef_high cum L (Suc e) + e" for i
  proof
    assume "data_bit d (length cum * L + i)"
    moreover have "i < length cum + drop_bit L U"
      using i lt by simp
    ultimately obtain t where t: "t < length cum" "i = ef_high cum L (Suc t) + t"
      using ef_data_high [OF ef] by blast
    show False
    proof (cases "t < e")
      case True
      then have "ef_high cum L (Suc t) \<le> ef_high cum L e"
        using ef_high_mono [OF ef, of "Suc t" e] e by simp
      with True t i show False by simp
    next
      case False
      then have "ef_high cum L (Suc e) \<le> ef_high cum L (Suc t)"
        using ef_high_mono [OF ef, of "Suc e" "Suc t"] t by simp
      with False t i show False by simp
    qed
  qed
  moreover have "data_bit d (length cum * L + (ef_high cum L (Suc e) + e))"
    using ef_data_high [OF ef lt] e by blast
  ultimately show ?thesis
    using ef_scan_next [of "ef_high cum L e + e" "ef_high cum L (Suc e) + e" d "length cum * L" h] le by simp
qed

lemma ef_data_value:
  assumes ef: "ef_data d cum L U" and e: "e < length cum"
  shows "push_bit L (of_nat (ef_high cum L (Suc e))) OR readEFLowBits d e L = cum ! e"
proof (rule bit_word_eqI)
  fix j assume "j < LENGTH(16)"
  then have j: "j < 16" by simp
  have L: "L \<le> 15" and bits: "\<And>i. i < length cum * L \<Longrightarrow> data_bit d i \<longleftrightarrow> ef_bit cum L i"
    using ef by (auto simp: ef_data_def)
  have high: "bit (push_bit L (of_nat (ef_high cum L (Suc e))) :: u16) j \<longleftrightarrow> L \<le> j \<and> bit (cum ! e) j"
    using j by (auto simp: ef_high_def bit_push_bit_iff bit_of_nat_iff bit_drop_bit_eq bit_unsigned_iff)
  have low: "data_bit d (e * L + j) \<longleftrightarrow> bit (cum ! e) j" if "j < L"
  proof -
    have lt: "e * L + j < length cum * L"
      using that e by (metis Suc_leI add_less_cancel_left less_le_trans mult_Suc mult_le_mono1 add.commute)
    then show ?thesis
      using that bits [OF lt] by (auto simp: ef_bit_def)
  qed
  show "bit (push_bit L (of_nat (ef_high cum L (Suc e))) OR readEFLowBits d e L) j = bit (cum ! e) j"
    using L high low readEFLowBits_bit [of L d e j] by (auto simp: bit_or_iff)
qed

lemma ef_range_loop_ok:
  assumes ef: "ef_data d cum L U" and "e + k \<le> length cum" and "k \<le> outLen"
  shows "ef_range_loop d L (length cum * L) e k (ef_high cum L e + e) (of_nat (ef_high cum L e)) outLen =
    Inr (take k (drop e cum))"
  using assms(2,3)
proof (induction k arbitrary: e outLen)
  case (Suc k)
  then have e: "e < length cum" by simp
  have "of_nat (ef_high cum L e) + of_nat (ef_high cum L (Suc e) - ef_high cum L e) = (of_nat (ef_high cum L (Suc e)) :: u16)"
    using ef_high_mono [OF ef, of e "Suc e"] e unfolding of_nat_add [symmetric] by simp
  then have scan: "ef_scan d (length cum * L) (ef_high cum L e + e) (of_nat (ef_high cum L e)) =
      (ef_high cum L (Suc e) + Suc e, of_nat (ef_high cum L (Suc e)))"
    using ef_data_scan [OF ef e] by simp
  have low: "(if L > 0 then readEFLowBits d e L else 0) = readEFLowBits d e L"
    by (simp add: readEFLowBits_def)
  show ?case
    using Suc.IH [of "Suc e" "outLen - 1"] Suc.prems e
    by (simp add: scan low ef_data_value [OF ef e] Cons_nth_drop_Suc [symmetric] Let_def del: of_nat_Suc)
qed simp

lemma decodeEFRangeInline_ok:
  assumes ef: "ef_data d cum (computeEFLowBits n U) U" and n: "length cum = n" and se: "s \<le> e" "e < n"
    and len: "8 \<le> length d" "e - s < outLen"
    and pos: "pos = ef_high cum (computeEFLowBits n U) s + s"
  shows "decodeEFRangeInline d n U s e pos outLen = Inr (take (e + 1 - s) (drop s cum))"
proof -
  have "(if s > 0 \<and> pos \<ge> s then of_nat (pos - s) else 0) =
      (of_nat (ef_high cum (computeEFLowBits n U) s) :: u16)"
    by (simp add: pos ef_high_def)
  then have "decodeEFRangeInline d n U s e pos outLen =
      ef_range_loop d (computeEFLowBits n U) (n * computeEFLowBits n U) s (e + 1 - s) pos
        (of_nat (ef_high cum (computeEFLowBits n U) s)) outLen"
    using se len(1) by (simp only: decodeEFRangeInline_def Let_def) simp
  also have "\<dots> = Inr (take (e + 1 - s) (drop s cum))"
    unfolding pos using ef_range_loop_ok [OF ef, of s "e + 1 - s" outLen] se len(2) n by simp
  finally show ?thesis .
qed

lemma encodeEliasFanoInto_ef_data:
  assumes "cum \<noteq> []" and "sorted (map unat cum)" and "\<forall>v\<in>set cum. unat v \<le> U" and "U < 65536"
  shows "\<exists>d. encodeEliasFanoInto cum U = Inr d \<and> length d = eliasFanoSize (length cum) U \<and>
    ef_data (d @ rest) cum (computeEFLowBits (length cum) U) U"
proof -
  let ?L = "computeEFLowBits (length cum) U"
  obtain d where d: "encodeEliasFanoInto cum U = Inr d" "length d = eliasFanoSize (length cum) U"
    "\<forall>i. data_bit d i \<longleftrightarrow> ef_bit cum ?L i"
    using encodeEliasFanoInto_ok [OF assms(1,3,4) refl] by blast
  have "length cum * ?L + length cum + drop_bit ?L U \<le> 8 * length d"
    using assms(1,4) unfolding d(2) eliasFanoSize_def Let_def efHighBound_eq [OF assms(4)] by simp
  then have "\<forall>i<length cum * ?L + length cum + drop_bit ?L U. data_bit (d @ rest) i \<longleftrightarrow> ef_bit cum ?L i"
    using d(3) by (auto simp: data_bit_append)
  with d assms computeEFLowBits_le [OF assms(4)] show ?thesis
    by (auto simp: ef_data_def)
qed

end
