(* ===== verification/Golomb_Rice.thy ===== *)
theory Golomb_Rice
  imports Bit_IO
begin

text \<open>
  The seed stream of a block: Golomb-Rice codes with a 16-bit escape marker, and the fallback list
  that holds the seeds the codes cannot express. Encoder from
  \<^verbatim>\<open>internal/bijection/encoding.go\<close>, decoder from \<^verbatim>\<open>internal/bijection/decode.go\<close>. The code of a
  seed is stated as a bit list (\<open>seed_code\<close>); the writer appends it and the reader inverts it.
\<close>

section \<open>Seed codes\<close>

definition golombParameterTable :: "nat list" where
  "golombParameterTable = [0, 0, 1, 2, 3, 4, 5, 7, 8]"

definition golombParameter :: "nat \<Rightarrow> nat" where
  "golombParameter bucketSize =
    (if bucketSize < length golombParameterTable then golombParameterTable ! bucketSize else 8)"

definition maxEncodableSeed :: "nat \<Rightarrow> u32" where
  "maxEncodableSeed bucketSize =
    (let k = golombParameter bucketSize in if k = 0 then 0 else push_bit k (of_nat grMaxQuotient))"

definition fallbackMarker :: u32 where
  "fallbackMarker = 0xFFFFFFFF"

definition encodeSeed :: "bitWriter \<Rightarrow> u32 \<Rightarrow> nat \<Rightarrow> bitWriter" where
  "encodeSeed bw seed bucketSize =
    (if bucketSize \<le> 1 then bw
     else let k = golombParameter bucketSize;
              q = drop_bit k seed;
              r = seed AND (push_bit k 1 - 1)
          in if q \<ge> of_nat grMaxQuotient \<or> bucketSize > 8 then writeOnes bw grMaxQuotient
             else let bw = (if q > 0 then writeOnes bw (unat q) else bw);
                      bw = writeBit bw 0
                  in if k > 0 then writeBits bw (ucast r) k else bw)"

definition encodeFallbackMarker :: "bitWriter \<Rightarrow> bitWriter" where
  "encodeFallbackMarker bw = writeOnes bw grMaxQuotient"

definition decodeGRSeedFast :: "bitReaderFast \<Rightarrow> nat \<Rightarrow> u32 \<times> bitReaderFast" where
  "decodeGRSeedFast br bucketSize =
    (if bucketSize \<le> 1 then (0, br)
     else case readUnaryMax16 br of (q, br) \<Rightarrow>
       if q \<ge> grMaxQuotient then (fallbackMarker, br)
       else let k = golombParameter bucketSize in
         if k > 0 then case readBits br k of (r, br) \<Rightarrow> (push_bit k (of_nat q) OR ucast r, br)
         else (push_bit k (of_nat q) OR 0, br))"

text \<open>The skip over one seed in step 12 of \<^verbatim>\<open>QuerySlot\<close>.\<close>

definition skipSeed :: "bitReaderFast \<Rightarrow> nat \<Rightarrow> bitReaderFast" where
  "skipSeed br bucketSize =
    (case readUnaryMax16 br of (q, br) \<Rightarrow>
       if q < 16
       then let k = golombParameter bucketSize in if k > 0 then skipBits br k else br
       else br)"

subsection \<open>The code of a seed\<close>

text \<open>\<open>escaped\<close>: the code of the seed is the marker, so that its value is not in the stream.\<close>

definition escaped :: "u32 \<Rightarrow> nat \<Rightarrow> bool" where
  "escaped seed sz \<longleftrightarrow> 16 \<le> unat (drop_bit (golombParameter sz) seed) \<or> 8 < sz"

definition seed_code :: "u32 \<Rightarrow> nat \<Rightarrow> bool list" where
  "seed_code seed sz =
    (if sz \<le> 1 then []
     else if escaped seed sz then replicate 16 True
     else replicate (unat (drop_bit (golombParameter sz) seed)) True @ [False] @
       word_bits seed (golombParameter sz))"

lemma golombParameter_le: "golombParameter sz \<le> 8"
proof -
  have "sz = 0 \<or> sz = 1 \<or> sz = 2 \<or> sz = 3 \<or> sz = 4 \<or> sz = 5 \<or> sz = 6 \<or> sz = 7 \<or> sz = 8 \<or> 9 \<le> sz"
    by arith
  then show ?thesis
    by (elim disjE) (simp_all add: golombParameter_def golombParameterTable_def)
qed

lemma golombParameter_pos: "2 \<le> sz \<Longrightarrow> 0 < golombParameter sz"
proof -
  assume "2 \<le> sz"
  then have "sz = 2 \<or> sz = 3 \<or> sz = 4 \<or> sz = 5 \<or> sz = 6 \<or> sz = 7 \<or> sz = 8 \<or> 9 \<le> sz"
    by arith
  then show ?thesis
    by (elim disjE) (simp_all add: golombParameter_def golombParameterTable_def)
qed

lemma escaped_marker [simp]: "escaped fallbackMarker sz"
proof -
  have "unat (drop_bit (golombParameter sz) fallbackMarker) = 4294967295 div 2 ^ golombParameter sz"
    unfolding unat_drop_bit_div by (simp add: fallbackMarker_def)
  moreover have "(4294967295 :: nat) div 2 ^ 8 \<le> 4294967295 div 2 ^ golombParameter sz"
    using golombParameter_le [of sz] power_increasing [of "golombParameter sz" 8 "2 :: nat"]
    by (intro div_le_mono2) auto
  ultimately show ?thesis
    by (simp add: escaped_def)
qed

lemma not_escaped_iff:
  assumes "2 \<le> sz" and "sz \<le> 8"
  shows "\<not> escaped seed sz \<longleftrightarrow> seed < maxEncodableSeed sz"
proof -
  let ?k = "golombParameter sz"
  have k: "0 < ?k" "?k \<le> 8"
    using golombParameter_pos golombParameter_le assms by auto
  have max: "unat (maxEncodableSeed sz) = 16 * 2 ^ ?k"
  proof -
    have "maxEncodableSeed sz = of_nat (16 * 2 ^ ?k)"
      using k by (simp add: maxEncodableSeed_def grMaxQuotient_def push_bit_eq_mult)
    moreover have "16 * 2 ^ ?k \<le> 16 * (2 :: nat) ^ 8"
      using k by (intro mult_left_mono power_increasing) auto
    ultimately show ?thesis
      by (simp del: of_nat_mult)
  qed
  have "unat (drop_bit ?k seed) = unat seed div 2 ^ ?k"
    by (rule unat_drop_bit_div)
  then show ?thesis
    using assms(2) max by (auto simp: escaped_def word_less_nat_alt not_le div_less_iff_less_mult mult.commute)
qed

lemma length_seed_code_le: "length (seed_code seed sz) \<le> 24"
  using golombParameter_le [of sz] by (auto simp: seed_code_def escaped_def)

lemma encodeFallbackMarker_bits:
  assumes "bw_inv bw" and "2 \<le> sz"
  shows "bw_bits (encodeFallbackMarker bw) = bw_bits bw @ seed_code fallbackMarker sz \<and>
    bw_inv (encodeFallbackMarker bw)"
  using assms writeOnes_bits [OF assms(1), of 16]
  by (simp add: encodeFallbackMarker_def seed_code_def grMaxQuotient_def)

lemma encodeSeed_bits:
  assumes inv: "bw_inv bw"
  shows "bw_bits (encodeSeed bw seed sz) = bw_bits bw @ seed_code seed sz \<and> bw_inv (encodeSeed bw seed sz)"
proof (cases "sz \<le> 1")
  case True
  with inv show ?thesis
    by (simp add: encodeSeed_def seed_code_def)
next
  case sz: False
  let ?k = "golombParameter sz"
  let ?q = "drop_bit ?k seed"
  have esc: "?q \<ge> of_nat grMaxQuotient \<or> 8 < sz \<longleftrightarrow> escaped seed sz"
    by (auto simp: escaped_def grMaxQuotient_def word_le_nat_alt)
  have k: "0 < ?k" "?k \<le> 8"
    using golombParameter_pos golombParameter_le sz by auto
  show ?thesis
  proof (cases "escaped seed sz")
    case True
    then show ?thesis
      using sz writeOnes_bits [OF inv, of 16] esc
      by (simp add: encodeSeed_def seed_code_def grMaxQuotient_def Let_def)
  next
    case False
    define bw1 where "bw1 = (if ?q > 0 then writeOnes bw (unat ?q) else bw)"
    have 1: "bw_bits bw1 = bw_bits bw @ replicate (unat ?q) True" "bw_inv bw1"
      using writeOnes_bits [OF inv, of "unat ?q"] inv by (auto simp: bw1_def word_gt_0)
    have 2: "bw_bits (writeBit bw1 0) = bw_bits bw1 @ [False]" "bw_inv (writeBit bw1 0)"
      using writeBit_bits [OF 1(2), of 0] by auto
    have "word_bits (ucast (seed AND mask ?k) :: u64) ?k = word_bits seed ?k"
      using k by (intro nth_equalityI) (auto simp: bit_ucast_iff bit_and_iff bit_mask_iff)
    then show ?thesis
      using writeBits_bits [OF 2(2), of ?k "ucast (seed AND mask ?k)"] 1 2 False sz k esc
      by (simp add: encodeSeed_def seed_code_def ones_eq_mask Let_def flip: bw1_def)
  qed
qed

subsection \<open>Reading a code back\<close>

definition bits_at :: "bytes \<Rightarrow> nat \<Rightarrow> bool list \<Rightarrow> bool" where
  "bits_at data p bs \<longleftrightarrow> (\<forall>i<length bs. data_bit data (p + i) = bs ! i)"

lemma bits_at_append: "bits_at data p (xs @ ys) \<longleftrightarrow> bits_at data p xs \<and> bits_at data (p + length xs) ys"
proof -
  have "(\<forall>i<length xs + length ys. P i) \<longleftrightarrow> (\<forall>i<length xs. P i) \<and> (\<forall>i<length ys. P (length xs + i))" for P
    by (metis add_less_cancel_left le_Suc_ex not_le trans_less_add1)
  then show ?thesis
    by (auto simp: bits_at_def nth_append add.assoc)
qed

lemma bits_at_Nil [simp]: "bits_at data p []"
  by (simp add: bits_at_def)

lemma bits_at_Cons: "bits_at data p (b # bs) \<longleftrightarrow> data_bit data p = b \<and> bits_at data (Suc p) bs"
  using bits_at_append [of data p "[b]" bs] by (simp add: bits_at_def)

lemma bits_at_replicate: "bits_at data p (replicate n b) \<longleftrightarrow> (\<forall>i<n. data_bit data (p + i) = b)"
  by (auto simp: bits_at_def)

lemma seed_code_unary:
  assumes "bits_at data p (seed_code seed sz)" and "2 \<le> sz"
  shows "unary_at data p (if escaped seed sz then 16 else unat (drop_bit (golombParameter sz) seed))"
  using assms by (auto simp: seed_code_def unary_at_def bits_at_append bits_at_replicate bits_at_Cons escaped_def)

lemma readUnary_seed_code:
  assumes "br_at br p" and "bits_at (br_data br) p (seed_code seed sz)" and "2 \<le> sz"
    and "readUnaryMax16 br = (q, br')"
  shows "q = (if escaped seed sz then 16 else unat (drop_bit (golombParameter sz) seed))"
    and "br_at br' (p + unary_len q)" and "br_data br' = br_data br"
    and "length (seed_code seed sz) = unary_len q + (if escaped seed sz then 0 else golombParameter sz)"
proof -
  show q: "q = (if escaped seed sz then 16 else unat (drop_bit (golombParameter sz) seed))"
    by (rule unary_at_unique [OF readUnaryMax16_at(1) [OF assms(1,4)] seed_code_unary [OF assms(2,3)]])
  show "br_at br' (p + unary_len q)" "br_data br' = br_data br"
    using readUnaryMax16_at [OF assms(1,4)] by auto
  show "length (seed_code seed sz) = unary_len q + (if escaped seed sz then 0 else golombParameter sz)"
    using assms(3) q by (auto simp: seed_code_def unary_len_def escaped_def)
qed

lemma skipSeed_code:
  assumes "br_at br p" and "bits_at (br_data br) p (seed_code seed sz)" and "2 \<le> sz"
  shows "br_at (skipSeed br sz) (p + length (seed_code seed sz)) \<and> br_data (skipSeed br sz) = br_data br"
proof -
  obtain q br' where r: "readUnaryMax16 br = (q, br')"
    by (cases "readUnaryMax16 br")
  note rd = readUnary_seed_code [OF assms r]
  show ?thesis
    using rd r skipBits_at [OF rd(2), of "golombParameter sz"] golombParameter_pos [OF assms(3)]
    by (auto simp: skipSeed_def Let_def escaped_def unary_len_def add.assoc)
qed

lemma decodeGRSeedFast_code:
  assumes "br_at br p" and "bits_at (br_data br) p (seed_code seed sz)"
    and "decodeGRSeedFast br sz = (s, br')"
  shows "s = (if sz \<le> 1 then 0 else if escaped seed sz then fallbackMarker else seed)"
    and "br_at br' (p + length (seed_code seed sz))" and "br_data br' = br_data br"
proof -
  have "s = (if sz \<le> 1 then 0 else if escaped seed sz then fallbackMarker else seed) \<and>
    br_at br' (p + length (seed_code seed sz)) \<and> br_data br' = br_data br"
  proof (cases "sz \<le> 1")
    case True
    with assms show ?thesis
      by (auto simp: decodeGRSeedFast_def seed_code_def)
  next
    case sz: False
    then have sz2: "2 \<le> sz" by simp
    let ?k = "golombParameter sz"
    obtain q br1 where r: "readUnaryMax16 br = (q, br1)"
      by (cases "readUnaryMax16 br")
    note rd = readUnary_seed_code [OF assms(1,2) sz2 r]
    show ?thesis
    proof (cases "escaped seed sz")
      case True
      with rd r sz assms(3) show ?thesis
        by (auto simp: decodeGRSeedFast_def grMaxQuotient_def)
    next
      case False
      obtain v br2 where v: "readBits br1 ?k = (v, br2)"
        by (cases "readBits br1 ?k")
      have k: "0 < ?k" "?k \<le> 8"
        using golombParameter_pos golombParameter_le sz2 by auto
      have q: "q = unat (drop_bit ?k seed)" "q < 16"
        using rd(1) False by (auto simp: escaped_def)
      have len: "length (seed_code seed sz) = unary_len q + ?k"
        using rd(4) False by simp
      have low: "data_bit (br_data br) (p + unary_len q + j) = bit seed j" if "j < ?k" for j
      proof -
        have "bits_at (br_data br) (p + Suc q) (word_bits seed ?k)"
          using assms(2) False sz q by (simp add: seed_code_def bits_at_append bits_at_Cons)
        then show ?thesis
          using that q by (simp add: bits_at_def unary_len_def)
      qed
      note rb = readBits_at [OF rd(2) _ v]
      have "bit (push_bit ?k (of_nat q) OR ucast v :: u32) j = bit seed j" if "j < 32" for j
        using that low [of j] rb(3) [of j] k rd(3) q(1)
        by (cases "j < ?k") (auto simp: bit_or_iff bit_push_bit_iff bit_ucast_iff bit_drop_bit_eq)
      then have "push_bit ?k (of_nat q) OR ucast v = seed"
        by (intro bit_word_eqI) simp
      then show ?thesis
        using assms(3) r v sz q k rb(1,2) rd(3) len False
        by (auto simp: decodeGRSeedFast_def grMaxQuotient_def Let_def add.assoc)
    qed
  qed
  then show "s = (if sz \<le> 1 then 0 else if escaped seed sz then fallbackMarker else seed)"
    "br_at br' (p + length (seed_code seed sz))" "br_data br' = br_data br"
    by auto
qed

end
