(* ===== verification/Fallback_List.thy ===== *)
theory Fallback_List
  imports Golomb_Rice
begin

text \<open>
  The fallback list at the end of a block's metadata: \<^verbatim>\<open>[count][4-byte entries][count XOR 0x55]\<close>.
  The decoder finds it by a backward search from the end; the validation byte fixes the count, so
  that the search can only stop at the true start of the list.
\<close>

definition compactFallbackEntrySize :: nat where "compactFallbackEntrySize = 4"
definition fallbackValidationXOR :: u8 where "fallbackValidationXOR = 0x55"
definition maxFallbackEntries :: nat where "maxFallbackEntries = 255"
definition blockBits :: nat where "blockBits = 10"

record fallbackEntry =
  bucketIndex :: u16
  subBucket :: u8
  fe_seed :: u32

definition packFallback :: "nat \<Rightarrow> fallbackEntry \<Rightarrow> u32" where
  "packFallback blkBits e =
    (let seedBits = 31 - blkBits in
     push_bit (1 + seedBits) (ucast (bucketIndex e)) OR
     push_bit seedBits (ucast (subBucket e AND 1)) OR
     (fe_seed e AND (push_bit seedBits 1 - 1)))"

definition encodeFallbackListIntoWithB :: "fallbackEntry list \<Rightarrow> nat \<Rightarrow> bytes res" where
  "encodeFallbackListIntoWithB entries blkBits =
    (if length entries > maxFallbackEntries
     then Inl (GoPanic ''bijection: fallback list exceeds maximum entries'')
     else let count = of_nat (length entries) :: u8
          in Inr ([count] @ concat (map (\<lambda>e. le_put 4 (packFallback blkBits e)) entries) @
               [count XOR fallbackValidationXOR]))"

definition maxExtendedSeedForB :: "nat \<Rightarrow> u32" where
  "maxExtendedSeedForB blkBits = push_bit (31 - blkBits) 1"

definition unpackFallback :: "nat \<Rightarrow> u32 \<Rightarrow> fallbackEntry" where
  "unpackFallback blkBits packed =
    (let seedBits = 31 - blkBits;
         seedMask = push_bit seedBits 1 - 1;
         bucketMask = push_bit blkBits 1 - 1
     in \<lparr>bucketIndex = ucast (drop_bit (1 + seedBits) packed AND bucketMask),
         subBucket = ucast (drop_bit seedBits packed AND 1),
         fe_seed = packed AND seedMask\<rparr>)"

definition decodeFallbackListWithB :: "bytes \<Rightarrow> nat \<Rightarrow> fallbackEntry list" where
  "decodeFallbackListWithB data blkBits =
    (if length data < 2 then []
     else let count = unat (data ! 0) in
       if count = 0 \<or> length data < 2 + count * compactFallbackEntrySize then []
       else map (\<lambda>i. let offset = 1 + i * compactFallbackEntrySize
                     in unpackFallback blkBits (le_get (take 4 (drop offset data)))) [0..<count])"

text \<open>The backward search of \<^verbatim>\<open>resolveFallbackSeeds\<close>; offsets are Go ints.\<close>

function fallback_scan :: "bytes \<Rightarrow> nat \<Rightarrow> int \<Rightarrow> nat option" where
  "fallback_scan metadata seedStreamOffset tryOffset =
    (let maxFallbackSize = 2 + maxFallbackEntries * compactFallbackEntrySize in
     if tryOffset \<ge> int seedStreamOffset \<and> tryOffset \<ge> int (length metadata) - int maxFallbackSize
     then let count = unat (metadata ! nat tryOffset);
              expectedSize = 2 + count * compactFallbackEntrySize;
              remaining = int (length metadata) - tryOffset
          in if int expectedSize = remaining \<and>
                last metadata = of_nat count XOR fallbackValidationXOR
             then Some (nat tryOffset)
             else fallback_scan metadata seedStreamOffset (tryOffset - 1)
     else None)"
  by pat_completeness auto
termination
  by (relation "measure (\<lambda>(m, s, t). nat (t + 1))") auto

declare fallback_scan.simps [simp del]

definition resolve_entry :: "nat \<Rightarrow> fallbackEntry \<Rightarrow> u32 \<times> u32 \<Rightarrow> u32 \<times> u32" where
  "resolve_entry bucketIdx fe seeds =
    (case seeds of (seed0, seed1) \<Rightarrow>
      if bucketIndex fe = of_nat bucketIdx then
        if subBucket fe = 0 \<and> seed0 = fallbackMarker then (fe_seed fe, seed1)
        else if subBucket fe = 1 \<and> seed1 = fallbackMarker then (seed0, fe_seed fe)
        else (seed0, seed1)
      else (seed0, seed1))"

definition resolveFallbackSeeds :: "bytes \<Rightarrow> nat \<Rightarrow> nat \<Rightarrow> u32 \<Rightarrow> u32 \<Rightarrow> u32 \<times> u32" where
  "resolveFallbackSeeds metadata seedStreamOffset bucketIdx seed0 seed1 =
    (let fallbackOffset =
       (if length metadata > seedStreamOffset
        then fallback_scan metadata seedStreamOffset (int (length metadata) - 2) else None)
     in case fallbackOffset of
          None \<Rightarrow> (seed0, seed1)
        | Some off \<Rightarrow>
            fold (resolve_entry bucketIdx) (decodeFallbackListWithB (drop off metadata) blockBits) (seed0, seed1))"

section \<open>Round trip\<close>

definition fe_ok :: "fallbackEntry \<Rightarrow> bool" where
  "fe_ok e \<longleftrightarrow> unat (bucketIndex e) < 1024 \<and> unat (subBucket e) < 2 \<and> unat (fe_seed e) < 2 ^ 21"

lemma bit_beyond: "unat (w :: 'a::len word) < 2 ^ n \<Longrightarrow> n \<le> j \<Longrightarrow> \<not> bit w j"
proof
  assume "unat w < 2 ^ n" "n \<le> j" "bit w j"
  then have "bit (unat w) j"
    by (simp add: bit_unsigned_iff)
  moreover have "unat w = take_bit n (unat w)"
    using \<open>unat w < 2 ^ n\<close> by (simp add: take_bit_nat_eq_self)
  ultimately show False
    using \<open>n \<le> j\<close> by (metis bit_take_bit_iff not_le)
qed

lemma unpack_packFallback:
  assumes "fe_ok e"
  shows "unpackFallback blockBits (packFallback blockBits e) = e"
proof -
  have b: "\<not> bit (bucketIndex e) j" if "10 \<le> j" for j
    using assms that bit_beyond [of "bucketIndex e" 10 j] by (simp add: fe_ok_def)
  have s: "\<not> bit (subBucket e) j" if "1 \<le> j" for j
    using assms that bit_beyond [of "subBucket e" 1 j] by (simp add: fe_ok_def)
  have d: "\<not> bit (fe_seed e) j" if "21 \<le> j" for j
    using assms that bit_beyond [of "fe_seed e" 21 j] by (simp add: fe_ok_def)
  have p: "bit (packFallback blockBits e) j \<longleftrightarrow>
      22 \<le> j \<and> j < 32 \<and> bit (bucketIndex e) (j - 22) \<or> j = 21 \<and> bit (subBucket e) 0 \<or> j < 21 \<and> bit (fe_seed e) j" for j
    unfolding packFallback_def blockBits_def Let_def ones_eq_mask
    by (auto simp: bit_or_iff bit_push_bit_iff bit_ucast_iff bit_and_iff bit_mask_iff bit_1_iff
        dest: bit_imp_le_length)
  have 1: "bucketIndex (unpackFallback blockBits (packFallback blockBits e)) = bucketIndex e"
    unfolding unpackFallback_def blockBits_def [symmetric] Let_def ones_eq_mask
  proof (simp only: fallbackEntry.simps, rule bit_word_eqI)
    fix j assume "j < LENGTH(16)"
    then show "bit (ucast (drop_bit (1 + (31 - blockBits)) (packFallback blockBits e) AND mask blockBits) :: u16) j =
        bit (bucketIndex e) j"
      using b [of j] by (cases "j < 10") (auto simp: bit_ucast_iff bit_and_iff bit_mask_iff bit_drop_bit_eq p [unfolded blockBits_def] blockBits_def)
  qed
  have 2: "subBucket (unpackFallback blockBits (packFallback blockBits e)) = subBucket e"
    unfolding unpackFallback_def Let_def
  proof (simp only: fallbackEntry.simps, rule bit_word_eqI)
    fix j assume "j < LENGTH(8)"
    then show "bit (ucast (drop_bit (31 - blockBits) (packFallback blockBits e) AND 1) :: u8) j = bit (subBucket e) j"
      using s [of j] by (cases "j = 0") (auto simp: bit_ucast_iff bit_and_iff bit_1_iff bit_drop_bit_eq p [unfolded blockBits_def] blockBits_def)
  qed
  have 3: "fe_seed (unpackFallback blockBits (packFallback blockBits e)) = fe_seed e"
    unfolding unpackFallback_def Let_def ones_eq_mask
  proof (simp only: fallbackEntry.simps, rule bit_word_eqI)
    fix j assume "j < LENGTH(32)"
    then show "bit (packFallback blockBits e AND mask (31 - blockBits)) j = bit (fe_seed e) j"
      using d [of j] by (cases "j < 21") (auto simp: bit_and_iff bit_mask_iff p [unfolded blockBits_def] blockBits_def)
  qed
  from 1 2 3 show ?thesis
    by simp
qed

definition fallback_bytes :: "fallbackEntry list \<Rightarrow> bytes" where
  "fallback_bytes es = [of_nat (length es)] @ concat (map (\<lambda>e. le_put 4 (packFallback blockBits e)) es) @
     [of_nat (length es) XOR fallbackValidationXOR]"

lemma encodeFallbackListIntoWithB_eq:
  "length es \<le> 255 \<Longrightarrow> encodeFallbackListIntoWithB es blockBits = Inr (fallback_bytes es)"
  by (simp add: encodeFallbackListIntoWithB_def fallback_bytes_def maxFallbackEntries_def Let_def)

lemma length_fallback_bytes: "length (fallback_bytes es) = 2 + 4 * length es"
  by (simp add: fallback_bytes_def length_concat_const [where k = 4])

lemma unat_of_nat_u8: "n \<le> 255 \<Longrightarrow> unat (of_nat n :: u8) = n"
  by simp

lemma decode_fallback_bytes:
  assumes "length es \<le> 255" and "\<forall>e\<in>set es. fe_ok e"
  shows "decodeFallbackListWithB (fallback_bytes es) blockBits = es"
proof (cases "es = []")
  case True
  then show ?thesis
    by (simp add: decodeFallbackListWithB_def fallback_bytes_def)
next
  case False
  let ?f = "\<lambda>e. le_put 4 (packFallback blockBits e)"
  have hd: "fallback_bytes es ! 0 = of_nat (length es)"
    by (simp add: fallback_bytes_def)
  have entry: "take 4 (drop (1 + i * 4) (fallback_bytes es)) = ?f (es ! i)" if i: "i < length es" for i
  proof -
    have len: "length (concat (map ?f es)) = 4 * length es"
      by (simp add: length_concat_const [where k = 4])
    have "take 4 (drop (1 + i * 4) (fallback_bytes es)) = take 4 (drop (i * 4) (concat (map ?f es)))"
      using i by (simp add: fallback_bytes_def len)
    also have "\<dots> = ?f (es ! i)"
      using i len by (intro nth_equalityI) (auto simp: nth_concat_map_const [where k = 4])
    finally show ?thesis .
  qed
  have "decodeFallbackListWithB (fallback_bytes es) blockBits =
      map (\<lambda>i. unpackFallback blockBits (le_get (take 4 (drop (1 + i * 4) (fallback_bytes es))))) [0..<length es]"
    using False assms(1) hd
    by (simp add: decodeFallbackListWithB_def length_fallback_bytes compactFallbackEntrySize_def Let_def unat_of_nat_u8)
  also have "\<dots> = map (\<lambda>i. es ! i) [0..<length es]"
    using entry assms(2) by (intro map_cong) (auto simp: unpack_packFallback)
  finally show ?thesis
    by (simp add: map_nth)
qed

text \<open>The validation byte determines the count, and the count the offset.\<close>

lemma xor_cancel_right: "(a :: 'a::len word) XOR c = b XOR c \<longleftrightarrow> a = b"
  by (metis xor.assoc xor.right_neutral xor_self_eq)

lemma fallback_scan_finds:
  assumes es: "length es \<le> 255" and sso: "sso \<le> length pre" and md: "md = pre @ fallback_bytes es"
    and t: "int (length pre) \<le> t" "t \<le> int (length md) - 2"
  shows "fallback_scan md sso t = Some (length pre)"
  using t
proof (induction "nat (t - int (length pre))" arbitrary: t)
  case 0
  then have t: "t = int (length pre)"
    by simp
  have "md ! length pre = of_nat (length es)" "last md = of_nat (length es) XOR fallbackValidationXOR"
    by (simp_all add: md fallback_bytes_def nth_append)
  then show ?case
    using es sso t by (subst fallback_scan.simps)
      (simp add: md length_fallback_bytes compactFallbackEntrySize_def maxFallbackEntries_def Let_def unat_of_nat_u8)
next
  case (Suc n)
  then have gt: "int (length pre) < t" "n = nat (t - 1 - int (length pre))"
    by simp_all
  have last: "last md = of_nat (length es) XOR fallbackValidationXOR"
    by (simp add: md fallback_bytes_def)
  have len: "length md = length pre + 2 + 4 * length es"
    by (simp add: md length_fallback_bytes)
  have no: "\<not> (int (2 + unat (md ! nat t) * compactFallbackEntrySize) = int (length md) - t \<and>
      last md = of_nat (unat (md ! nat t)) XOR fallbackValidationXOR)"
  proof
    assume a: "int (2 + unat (md ! nat t) * compactFallbackEntrySize) = int (length md) - t \<and>
      last md = of_nat (unat (md ! nat t)) XOR fallbackValidationXOR"
    then have "md ! nat t = of_nat (length es)"
      by (simp add: last xor_cancel_right)
    then have "unat (md ! nat t) = length es"
      using es by (simp add: unat_of_nat_u8)
    with a gt show False
      by (simp add: len compactFallbackEntrySize_def)
  qed
  have guard: "int sso \<le> t" "int (length md) - int (2 + maxFallbackEntries * compactFallbackEntrySize) \<le> t"
    using gt sso es by (simp_all add: len maxFallbackEntries_def compactFallbackEntrySize_def)
  have "fallback_scan md sso t = fallback_scan md sso (t - 1)"
    using guard no by (subst fallback_scan.simps) (simp only: Let_def if_False simp_thms if_True split: if_splits)
  also have "\<dots> = Some (length pre)"
    using Suc.hyps(1) [OF gt(2)] gt Suc.prems by simp
  finally show ?case .
qed

lemma resolveFallbackSeeds_eq:
  assumes es: "length es \<le> 255" "\<forall>e\<in>set es. fe_ok e" and sso: "sso \<le> length pre"
  shows "resolveFallbackSeeds (pre @ fallback_bytes es) sso idx s0 s1 = fold (resolve_entry idx) es (s0, s1)"
proof -
  have "fallback_scan (pre @ fallback_bytes es) sso (int (length (pre @ fallback_bytes es)) - 2) = Some (length pre)"
    by (rule fallback_scan_finds [OF es(1) sso refl]) (simp_all add: length_fallback_bytes)
  then show ?thesis
    using sso by (simp add: resolveFallbackSeeds_def length_fallback_bytes decode_fallback_bytes [OF es])
qed

text \<open>What the decoder finds for a bucket: the first entry of its sub-bucket, if its seed is a marker.\<close>

definition fb_lookup :: "fallbackEntry list \<Rightarrow> nat \<Rightarrow> u8 \<Rightarrow> u32 option" where
  "fb_lookup es idx sub =
    map_option fe_seed (find (\<lambda>e. bucketIndex e = of_nat idx \<and> subBucket e = sub) es)"

definition fb_resolve :: "fallbackEntry list \<Rightarrow> nat \<Rightarrow> u8 \<Rightarrow> u32 \<Rightarrow> u32" where
  "fb_resolve es idx sub s =
    (if s = fallbackMarker then case fb_lookup es idx sub of Some v \<Rightarrow> v | None \<Rightarrow> s else s)"

lemma fe_ok_not_marker: "fe_ok e \<Longrightarrow> fe_seed e \<noteq> fallbackMarker"
  by (auto simp: fe_ok_def fallbackMarker_def)

lemma fold_resolve_entry:
  assumes "\<forall>e\<in>set es. fe_ok e"
  shows "fold (resolve_entry idx) es (s0, s1) = (fb_resolve es idx 0 s0, fb_resolve es idx 1 s1)"
  using assms
proof (induction es arbitrary: s0 s1)
  case Nil
  then show ?case
    by (simp add: fb_resolve_def fb_lookup_def)
next
  case (Cons e es)
  have ne: "fe_seed e \<noteq> fallbackMarker"
    using Cons.prems fe_ok_not_marker by simp
  show ?case
    using Cons ne by (auto simp: resolve_entry_def fb_resolve_def fb_lookup_def)
qed

end
