(* ===== verification/Bij_Solver.thy ===== *)
theory Bij_Solver
  imports Bits_Mix Fallback_List
begin

text \<open>
  The bucket solvers of \<^verbatim>\<open>internal/bijection/solver.go\<close> and \<^verbatim>\<open>solver_build.go\<close>: the unrolled
  searches for sizes 2 to 8, the bitmask and array searches, and the extended search of the
  fallback path. Each is proved equal to one reference, the first seed below the limit whose slots
  are pairwise distinct (\<open>solve_ref\<close>).
\<close>

record bucketEntry =
  be_mix :: mixParts
  be_payload :: u64
  be_fingerprint :: u32

section \<open>Solvers\<close>

text \<open>\<^verbatim>\<open>for seed := range maxSeed { ... return seed, false }; return 0, true\<close>\<close>

definition seed_search :: "u32 \<Rightarrow> (u32 \<Rightarrow> bool) \<Rightarrow> u32 \<times> bool" where
  "seed_search maxSeed ok =
    (case first_upto (\<lambda>s. ok (of_nat s)) 0 (unat maxSeed) of
       Some s \<Rightarrow> (of_nat s, False) | None \<Rightarrow> (0, True))"

definition index_panic :: "'a res" where
  "index_panic = Inl (GoPanic ''index out of range'')"

definition solveBucket2 :: "bucketEntry list \<Rightarrow> u32 \<Rightarrow> (u32 \<times> bool) res" where
  "solveBucket2 bucket maxSeed =
    (case map be_mix bucket of
       p0 # p1 # _ \<Rightarrow> Inr (
         if p0 = p1 then (0, True)
         else seed_search maxSeed (\<lambda>seed.
           let s0 = mixFromParts p0 seed 2; s1 = mixFromParts p1 seed 2 in s0 \<noteq> s1))
     | _ \<Rightarrow> index_panic)"

definition solveBucket3 :: "bucketEntry list \<Rightarrow> u32 \<Rightarrow> (u32 \<times> bool) res" where
  "solveBucket3 bucket maxSeed =
    (case map be_mix bucket of
       p0 # p1 # p2 # _ \<Rightarrow> Inr (
         if p0 = p1 \<or> p0 = p2 \<or> p1 = p2 then (0, True)
         else seed_search maxSeed (\<lambda>seed.
           let s0 = mixFromParts p0 seed 3; s1 = mixFromParts p1 seed 3 in
           if s0 = s1 then False
           else let s2 = mixFromParts p2 seed 3 in s2 \<noteq> s0 \<and> s2 \<noteq> s1))
     | _ \<Rightarrow> index_panic)"

definition solveBucket4 :: "bucketEntry list \<Rightarrow> u32 \<Rightarrow> (u32 \<times> bool) res" where
  "solveBucket4 bucket maxSeed =
    (case map be_mix bucket of
       p0 # p1 # p2 # p3 # _ \<Rightarrow> Inr (
         if p0 = p1 \<or> p0 = p2 \<or> p0 = p3 \<or> p1 = p2 \<or> p1 = p3 \<or> p2 = p3 then (0, True)
         else seed_search maxSeed (\<lambda>seed.
           let s0 = mixFromParts p0 seed 4; s1 = mixFromParts p1 seed 4 in
           if s0 = s1 then False
           else let s2 = mixFromParts p2 seed 4 in
           if s2 = s0 \<or> s2 = s1 then False
           else let s3 = mixFromParts p3 seed 4 in s3 \<noteq> s0 \<and> s3 \<noteq> s1 \<and> s3 \<noteq> s2))
     | _ \<Rightarrow> index_panic)"

definition solveBucket5 :: "bucketEntry list \<Rightarrow> u32 \<Rightarrow> (u32 \<times> bool) res" where
  "solveBucket5 bucket maxSeed =
    (case map be_mix bucket of
       p0 # p1 # p2 # p3 # p4 # _ \<Rightarrow> Inr (
         if p0 = p1 \<or> p0 = p2 \<or> p0 = p3 \<or> p0 = p4 \<or> p1 = p2 \<or> p1 = p3 \<or> p1 = p4 \<or>
            p2 = p3 \<or> p2 = p4 \<or> p3 = p4 then (0, True)
         else seed_search maxSeed (\<lambda>seed.
           let s0 = mixFromParts p0 seed 5; s1 = mixFromParts p1 seed 5 in
           if s0 = s1 then False
           else let s2 = mixFromParts p2 seed 5 in
           if s2 = s0 \<or> s2 = s1 then False
           else let s3 = mixFromParts p3 seed 5 in
           if s3 = s0 \<or> s3 = s1 \<or> s3 = s2 then False
           else let s4 = mixFromParts p4 seed 5 in s4 \<noteq> s0 \<and> s4 \<noteq> s1 \<and> s4 \<noteq> s2 \<and> s4 \<noteq> s3))
     | _ \<Rightarrow> index_panic)"

definition solveBucket6 :: "bucketEntry list \<Rightarrow> u32 \<Rightarrow> (u32 \<times> bool) res" where
  "solveBucket6 bucket maxSeed =
    (case map be_mix bucket of
       p0 # p1 # p2 # p3 # p4 # p5 # _ \<Rightarrow> Inr (
         if p0 = p1 \<or> p0 = p2 \<or> p0 = p3 \<or> p0 = p4 \<or> p0 = p5 \<or> p1 = p2 \<or> p1 = p3 \<or> p1 = p4 \<or> p1 = p5 \<or>
            p2 = p3 \<or> p2 = p4 \<or> p2 = p5 \<or> p3 = p4 \<or> p3 = p5 \<or> p4 = p5 then (0, True)
         else seed_search maxSeed (\<lambda>seed.
           let s0 = mixFromParts p0 seed 6; s1 = mixFromParts p1 seed 6 in
           if s0 = s1 then False
           else let s2 = mixFromParts p2 seed 6 in
           if s2 = s0 \<or> s2 = s1 then False
           else let s3 = mixFromParts p3 seed 6 in
           if s3 = s0 \<or> s3 = s1 \<or> s3 = s2 then False
           else let s4 = mixFromParts p4 seed 6 in
           if s4 = s0 \<or> s4 = s1 \<or> s4 = s2 \<or> s4 = s3 then False
           else let s5 = mixFromParts p5 seed 6 in
             s5 \<noteq> s0 \<and> s5 \<noteq> s1 \<and> s5 \<noteq> s2 \<and> s5 \<noteq> s3 \<and> s5 \<noteq> s4))
     | _ \<Rightarrow> index_panic)"

text \<open>Sizes 7 and 8 track the taken slots in a byte.\<close>

definition slot8 :: "u32 \<Rightarrow> u8" where
  "slot8 s = push_bit (unat s) 1"

definition solveBucket7 :: "bucketEntry list \<Rightarrow> u32 \<Rightarrow> (u32 \<times> bool) res" where
  "solveBucket7 bucket maxSeed =
    (case map be_mix bucket of
       p0 # p1 # p2 # p3 # p4 # p5 # p6 # _ \<Rightarrow> Inr (
         seed_search maxSeed (\<lambda>seed.
           let occupied = 0 OR slot8 (mixFromParts p0 seed 7);
               s1 = mixFromParts p1 seed 7 in
           if occupied AND slot8 s1 \<noteq> 0 then False
           else let occupied = occupied OR slot8 s1; s2 = mixFromParts p2 seed 7 in
           if occupied AND slot8 s2 \<noteq> 0 then False
           else let occupied = occupied OR slot8 s2; s3 = mixFromParts p3 seed 7 in
           if occupied AND slot8 s3 \<noteq> 0 then False
           else let occupied = occupied OR slot8 s3; s4 = mixFromParts p4 seed 7 in
           if occupied AND slot8 s4 \<noteq> 0 then False
           else let occupied = occupied OR slot8 s4; s5 = mixFromParts p5 seed 7 in
           if occupied AND slot8 s5 \<noteq> 0 then False
           else let occupied = occupied OR slot8 s5; s6 = mixFromParts p6 seed 7 in
           occupied AND slot8 s6 = 0))
     | _ \<Rightarrow> index_panic)"

definition solveBucket8 :: "bucketEntry list \<Rightarrow> u32 \<Rightarrow> (u32 \<times> bool) res" where
  "solveBucket8 bucket maxSeed =
    (case map be_mix bucket of
       p0 # p1 # p2 # p3 # p4 # p5 # p6 # p7 # _ \<Rightarrow> Inr (
         seed_search maxSeed (\<lambda>seed.
           let occupied = 0 OR slot8 (mixFromParts p0 seed 8);
               s1 = mixFromParts p1 seed 8 in
           if occupied AND slot8 s1 \<noteq> 0 then False
           else let occupied = occupied OR slot8 s1; s2 = mixFromParts p2 seed 8 in
           if occupied AND slot8 s2 \<noteq> 0 then False
           else let occupied = occupied OR slot8 s2; s3 = mixFromParts p3 seed 8 in
           if occupied AND slot8 s3 \<noteq> 0 then False
           else let occupied = occupied OR slot8 s3; s4 = mixFromParts p4 seed 8 in
           if occupied AND slot8 s4 \<noteq> 0 then False
           else let occupied = occupied OR slot8 s4; s5 = mixFromParts p5 seed 8 in
           if occupied AND slot8 s5 \<noteq> 0 then False
           else let occupied = occupied OR slot8 s5; s6 = mixFromParts p6 seed 8 in
           if occupied AND slot8 s6 \<noteq> 0 then False
           else let occupied = occupied OR slot8 s6; s7 = mixFromParts p7 seed 8 in
           occupied AND slot8 s7 = 0))
     | _ \<Rightarrow> index_panic)"

text \<open>The inner loop over the bucket with a 64-bit mask; \<open>True\<close> means no collision.\<close>

fun bitmask_try :: "bucketEntry list \<Rightarrow> u32 \<Rightarrow> u32 \<Rightarrow> u64 \<Rightarrow> bool" where
  "bitmask_try [] seed bucketSize occupied = True"
| "bitmask_try (entry # es) seed bucketSize occupied =
    (let slot = mixFromParts (be_mix entry) seed bucketSize;
         msk = push_bit (unat slot) 1
     in if occupied AND msk \<noteq> 0 then False
        else bitmask_try es seed bucketSize (occupied OR msk))"

definition solveBucketBitmask :: "bucketEntry list \<Rightarrow> nat \<Rightarrow> u32 \<Rightarrow> u32 \<times> bool" where
  "solveBucketBitmask bucket sz maxSeed =
    seed_search maxSeed (\<lambda>seed. bitmask_try bucket seed (of_nat sz) 0)"

text \<open>The inner loop over the bucket with an array of flags.\<close>

fun array_try :: "bucketEntry list \<Rightarrow> u32 \<Rightarrow> u32 \<Rightarrow> bool list \<Rightarrow> bool res" where
  "array_try [] seed bucketSize slots = Inr True"
| "array_try (entry # es) seed bucketSize slots =
    (let slot = unat (mixFromParts (be_mix entry) seed bucketSize) in
     rbind (get_at slots slot) (\<lambda>taken.
       if taken then Inr False
       else rbind (set_at slots slot True) (\<lambda>slots. array_try es seed bucketSize slots)))"

definition solveDirectBucketArray :: "bucketEntry list \<Rightarrow> nat \<Rightarrow> u32 \<Rightarrow> (u32 \<times> bool) res" where
  "solveDirectBucketArray bucket sz maxSeed =
    rbind (first_upto_res (\<lambda>s. array_try bucket (of_nat s) (of_nat sz) (replicate sz False)) 0 (unat maxSeed))
      (\<lambda>r. case r of Some s \<Rightarrow> Inr (of_nat s, False) | None \<Rightarrow> Inr (0, True))"

definition solveDirectBucket :: "bucketEntry list \<Rightarrow> nat \<Rightarrow> (u32 \<times> bool) res" where
  "solveDirectBucket bucket sz =
    (if sz \<le> 1 then Inr (0, False)
     else let maxSeed = maxEncodableSeed sz in
       if sz = 2 then solveBucket2 bucket maxSeed
       else if sz = 3 then solveBucket3 bucket maxSeed
       else if sz = 4 then solveBucket4 bucket maxSeed
       else if sz = 5 then solveBucket5 bucket maxSeed
       else if sz = 6 then solveBucket6 bucket maxSeed
       else if sz = 7 then solveBucket7 bucket maxSeed
       else if sz = 8 then solveBucket8 bucket maxSeed
       else if sz \<le> 64 then Inr (solveBucketBitmask bucket sz maxSeed)
       else solveDirectBucketArray bucket sz maxSeed)"

fun hasDuplicateMixParts :: "bucketEntry list \<Rightarrow> bool" where
  "hasDuplicateMixParts [] = False"
| "hasDuplicateMixParts (e # es) = (list_ex (\<lambda>e'. be_mix e = be_mix e') es \<or> hasDuplicateMixParts es)"

definition solveExtendedBitmask :: "bucketEntry list \<Rightarrow> nat \<Rightarrow> u32 res" where
  "solveExtendedBitmask bucket sz =
    (case first_upto (\<lambda>s. bitmask_try bucket (of_nat s) (of_nat sz) 0) 0 (unat (maxExtendedSeedForB blockBits)) of
       Some s \<Rightarrow> Inr (of_nat s)
     | None \<Rightarrow> Inl ErrIndistinguishableHashes)"

definition solveExtendedArray :: "bucketEntry list \<Rightarrow> nat \<Rightarrow> u32 res" where
  "solveExtendedArray bucket sz =
    rbind (first_upto_res (\<lambda>s. array_try bucket (of_nat s) (of_nat sz) (replicate sz False))
             0 (unat (maxExtendedSeedForB blockBits)))
      (\<lambda>r. case r of Some s \<Rightarrow> Inr (of_nat s) | None \<Rightarrow> Inl ErrIndistinguishableHashes)"

definition solveExtended :: "bucketEntry list \<Rightarrow> nat \<Rightarrow> u32 res" where
  "solveExtended bucket sz =
    (if sz \<le> 1 then Inr 0
     else if sz > length bucket then Inl (GoPanic ''slice bounds out of range'')
     else if hasDuplicateMixParts (take sz bucket) then Inl ErrDuplicateKey
     else if sz \<le> 64 then solveExtendedBitmask bucket sz
     else solveExtendedArray bucket sz)"

section \<open>Reference and equivalence\<close>

definition slots_of :: "bucketEntry list \<Rightarrow> nat \<Rightarrow> u32 \<Rightarrow> u32 list" where
  "slots_of bucket sz seed = map (\<lambda>e. mixFromParts (be_mix e) seed (of_nat sz)) bucket"

definition solve_ref :: "bucketEntry list \<Rightarrow> u32 \<Rightarrow> u32 \<times> bool" where
  "solve_ref bucket maxSeed = seed_search maxSeed (\<lambda>seed. distinct (slots_of bucket (length bucket) seed))"

lemma seed_search_found:
  assumes "seed_search maxSeed ok = (s, False)"
  shows "ok s \<and> s < maxSeed \<and> (\<forall>t < s. \<not> ok t)"
proof -
  obtain n where n: "first_upto (\<lambda>s. ok (of_nat s)) 0 (unat maxSeed) = Some n" "s = of_nat n"
    using assms by (auto simp: seed_search_def split: option.splits)
  note f = first_upto_Some [OF n(1)]
  have "n < 2 ^ 32"
    using f unat_lt2p [of maxSeed] by simp
  then have un: "unat s = n"
    by (simp add: n(2))
  have "\<not> ok t" if "t < s" for t
  proof -
    have "unat t < n"
      using that un by (simp add: word_less_nat_alt)
    with f have "\<not> ok (of_nat (unat t))"
      by blast
    then show ?thesis by simp
  qed
  with f un n(2) show ?thesis
    by (auto simp: word_less_nat_alt)
qed

lemma seed_search_none: "seed_search maxSeed ok = (s, True) \<longleftrightarrow> s = 0 \<and> (\<forall>t<maxSeed. \<not> ok t)"
proof -
  have "(\<forall>n. n < unat maxSeed \<longrightarrow> \<not> ok (of_nat n)) \<longleftrightarrow> (\<forall>t<maxSeed. \<not> ok t)"
  proof safe
    fix t assume "\<forall>n. n < unat maxSeed \<longrightarrow> \<not> ok (of_nat n)" "t < maxSeed" "ok t"
    then show False
      by (metis word_less_nat_alt of_nat_unat ucast_id)
  next
    fix n assume n: "\<forall>t<maxSeed. \<not> ok t" "n < unat maxSeed" "ok (of_nat n)"
    then have "n < 2 ^ 32"
      using unat_lt2p [of maxSeed] by simp
    then have "(of_nat n :: u32) < maxSeed"
      using n(2) by (simp add: word_less_nat_alt)
    with n show False by blast
  qed
  then show ?thesis
    by (auto simp: seed_search_def first_upto_None dest: first_upto_Some split: option.splits)
qed

lemma seed_search_never: "(\<And>t. \<not> ok t) \<Longrightarrow> seed_search maxSeed ok = (0, True)"
  by (simp add: seed_search_none)

lemma seed_search_cong: "(\<And>t. ok t = ok' t) \<Longrightarrow> seed_search maxSeed ok = seed_search maxSeed ok'"
  by presburger

lemma slots_dup:
  assumes "\<not> distinct (map be_mix bucket)"
  shows "\<not> distinct (slots_of bucket sz seed)"
proof -
  have "slots_of bucket sz seed = map (\<lambda>p. mixFromParts p seed (of_nat sz)) (map be_mix bucket)"
    by (simp add: slots_of_def)
  with assms show ?thesis
    by (metis distinct_map)
qed

lemma solve_ref_dup: "\<not> distinct (map be_mix bucket) \<Longrightarrow> solve_ref bucket maxSeed = (0, True)"
  unfolding solve_ref_def by (rule seed_search_never) (rule slots_dup)

text \<open>Every solver runs the reference search; the duplicate pre-check of sizes 2 to 6 only saves time.\<close>

lemma solve_ref_precheck:
  assumes "\<And>seed. ok seed \<longleftrightarrow> distinct (slots_of bucket (length bucket) seed)"
    and "dup \<Longrightarrow> \<not> distinct (map be_mix bucket)"
  shows "(if dup then (0, True) else seed_search maxSeed ok) = solve_ref bucket maxSeed"
proof (cases dup)
  case True
  with assms(2) show ?thesis
    by (simp add: solve_ref_dup)
next
  case False
  then show ?thesis
    unfolding solve_ref_def if_not_P [OF False] by (intro seed_search_cong assms(1))
qed

lemma solveBucket2_ref:
  assumes "length bucket = 2"
  shows "solveBucket2 bucket maxSeed = Inr (solve_ref bucket maxSeed)"
proof -
  obtain e0 e1 where b: "bucket = [e0, e1]"
    using assms by (auto simp: numeral_eq_Suc length_Suc_conv)
  show ?thesis
    unfolding b solveBucket2_def
    by (simp only: list.map list.case sum.inject, rule solve_ref_precheck) (auto simp: slots_of_def Let_def)
qed

lemma solveBucket3_ref:
  assumes "length bucket = 3"
  shows "solveBucket3 bucket maxSeed = Inr (solve_ref bucket maxSeed)"
proof -
  obtain e0 e1 e2 where b: "bucket = [e0, e1, e2]"
    using assms by (auto simp: numeral_eq_Suc length_Suc_conv)
  show ?thesis
    unfolding b solveBucket3_def
    by (simp only: list.map list.case sum.inject, rule solve_ref_precheck) (auto simp: slots_of_def Let_def)
qed

lemma solveBucket4_ref:
  assumes "length bucket = 4"
  shows "solveBucket4 bucket maxSeed = Inr (solve_ref bucket maxSeed)"
proof -
  obtain e0 e1 e2 e3 where b: "bucket = [e0, e1, e2, e3]"
    using assms by (auto simp: numeral_eq_Suc length_Suc_conv)
  show ?thesis
    unfolding b solveBucket4_def
    by (simp only: list.map list.case sum.inject, rule solve_ref_precheck) (auto simp: slots_of_def Let_def)
qed

lemma solveBucket5_ref:
  assumes "length bucket = 5"
  shows "solveBucket5 bucket maxSeed = Inr (solve_ref bucket maxSeed)"
proof -
  obtain e0 e1 e2 e3 e4 where b: "bucket = [e0, e1, e2, e3, e4]"
    using assms by (auto simp: numeral_eq_Suc length_Suc_conv)
  show ?thesis
    unfolding b solveBucket5_def
    by (simp only: list.map list.case sum.inject, rule solve_ref_precheck) (auto simp: slots_of_def Let_def)
qed

lemma solveBucket6_ref:
  assumes "length bucket = 6"
  shows "solveBucket6 bucket maxSeed = Inr (solve_ref bucket maxSeed)"
proof -
  obtain e0 e1 e2 e3 e4 e5 where b: "bucket = [e0, e1, e2, e3, e4, e5]"
    using assms by (auto simp: numeral_eq_Suc length_Suc_conv)
  show ?thesis
    unfolding b solveBucket6_def
    by (simp only: list.map list.case sum.inject, rule solve_ref_precheck) (auto simp: slots_of_def Let_def)
qed

text \<open>Slots tracked in the bits of a word.\<close>

lemma and_push_bit_eq_0:
  "(w :: 'a::len word) AND push_bit m 1 = 0 \<longleftrightarrow> m \<ge> LENGTH('a) \<or> \<not> bit w m"
  using bit_imp_le_length [of w m] by (auto simp: and_exp_eq_0_iff_not_bit)

lemma bit_or_push_bit_1:
  "bit ((w :: 'a::len word) OR push_bit m 1) j \<longleftrightarrow> bit w j \<or> j = m \<and> m < LENGTH('a)"
  by (auto simp: bit_or_iff bit_exp_iff)

lemma slots_of_Cons: "slots_of (e # es) n seed = mixFromParts (be_mix e) seed (of_nat n) # slots_of es n seed"
  by (simp add: slots_of_def)

lemma slot8_and: "s < 8 \<Longrightarrow> (w AND slot8 s = 0) \<longleftrightarrow> \<not> bit w (unat s)"
  unfolding slot8_def and_push_bit_eq_0 by (auto simp: word_less_nat_alt)

lemma slot8_or: "s < 8 \<Longrightarrow> bit (w OR slot8 s) j \<longleftrightarrow> bit w j \<or> j = unat s"
  unfolding slot8_def bit_or_iff bit_push_bit_iff by (auto simp: word_less_nat_alt bit_1_iff)

text \<open>The unrolled tests as a recursion over the slots.\<close>

fun try8 :: "u32 list \<Rightarrow> u8 \<Rightarrow> bool" where
  "try8 [] occ = True"
| "try8 (s # ss) occ = (occ AND slot8 s = 0 \<and> try8 ss (occ OR slot8 s))"

lemma try8_first: "try8 (s # ss) 0 = try8 ss (0 OR slot8 s)"
  by simp

lemma try8_single: "try8 [s] occ = (occ AND slot8 s = 0)"
  by simp

lemma try8_step: "try8 (s # t # ss) occ = (if occ AND slot8 s \<noteq> 0 then False else try8 (t # ss) (occ OR slot8 s))"
  by simp

lemma try8_iff:
  "\<forall>s\<in>set ss. s < 8 \<Longrightarrow> try8 ss occ \<longleftrightarrow> distinct ss \<and> (\<forall>s\<in>set ss. \<not> bit occ (unat s))"
proof (induction ss arbitrary: occ)
  case (Cons s ss)
  then show ?case
    by (auto simp: slot8_and slot8_or simp flip: word_unat_eq_iff)
qed simp

lemma solveBucket7_ref:
  assumes "length bucket = 7"
  shows "solveBucket7 bucket maxSeed = Inr (solve_ref bucket maxSeed)"
proof -
  obtain e0 e1 e2 e3 e4 e5 e6 where b: "bucket = [e0, e1, e2, e3, e4, e5, e6]"
    using assms by (auto simp: numeral_eq_Suc length_Suc_conv)
  have lt: "mixFromParts p seed 7 < 8" for p seed
    using mixFromParts_less [of 7 p seed] by (simp add: word_less_nat_alt)
  have "solveBucket7 bucket maxSeed = Inr (seed_search maxSeed (\<lambda>seed. try8 (slots_of bucket 7 seed) 0))"
    unfolding b solveBucket7_def slots_of_def list.map list.case try8_first try8_step try8_single Let_def
    by simp
  also have "\<dots> = Inr (solve_ref bucket maxSeed)"
    unfolding solve_ref_def assms
    by (intro arg_cong [of _ _ Inr] seed_search_cong) (subst try8_iff, auto simp: slots_of_def lt)
  finally show ?thesis .
qed

lemma solveBucket8_ref:
  assumes "length bucket = 8"
  shows "solveBucket8 bucket maxSeed = Inr (solve_ref bucket maxSeed)"
proof -
  obtain e0 e1 e2 e3 e4 e5 e6 e7 where b: "bucket = [e0, e1, e2, e3, e4, e5, e6, e7]"
    using assms by (auto simp: numeral_eq_Suc length_Suc_conv)
  have lt: "mixFromParts p seed 8 < 8" for p seed
    using mixFromParts_less [of 8 p seed] by (simp add: word_less_nat_alt)
  have "solveBucket8 bucket maxSeed = Inr (seed_search maxSeed (\<lambda>seed. try8 (slots_of bucket 8 seed) 0))"
    unfolding b solveBucket8_def slots_of_def list.map list.case try8_first try8_step try8_single Let_def
    by simp
  also have "\<dots> = Inr (solve_ref bucket maxSeed)"
    unfolding solve_ref_def assms
    by (intro arg_cong [of _ _ Inr] seed_search_cong) (subst try8_iff, auto simp: slots_of_def lt)
  finally show ?thesis .
qed

lemma bitmask_try_iff:
  assumes "0 < n" and "n \<le> 64"
  shows "bitmask_try es seed (of_nat n) occ \<longleftrightarrow>
    distinct (slots_of es n seed) \<and> (\<forall>s\<in>set (slots_of es n seed). \<not> bit occ (unat s))"
proof (induction es arbitrary: occ)
  case (Cons e es)
  have "unat (mixFromParts (be_mix e) seed (of_nat n)) < 64"
    using unat_mixFromParts_less [of n "be_mix e" seed] assms by simp
  then show ?case
    unfolding bitmask_try.simps Let_def and_push_bit_eq_0 Cons.IH bit_or_push_bit_1 slots_of_Cons
    by (auto simp flip: word_unat_eq_iff)
qed (simp add: slots_of_def)

lemma array_try_iff:
  assumes "0 < n" and "n < 2 ^ 32" and "length slots = n"
  shows "array_try es seed (of_nat n) slots =
    Inr (distinct (slots_of es n seed) \<and> (\<forall>s\<in>set (slots_of es n seed). \<not> slots ! unat s))"
  using assms(3)
proof (induction es arbitrary: slots)
  case (Cons e es)
  let ?s = "unat (mixFromParts (be_mix e) seed (of_nat n))"
  have lt: "?s < n"
    using unat_mixFromParts_less assms by simp
  show ?case
    using Cons.IH [of "slots[?s := True]"] Cons.prems lt
    by (auto simp: slots_of_Cons Let_def nth_list_update simp flip: word_unat_eq_iff)
qed (simp add: slots_of_def)

lemma solveBucketBitmask_ref:
  "length bucket = n \<Longrightarrow> 0 < n \<Longrightarrow> n \<le> 64 \<Longrightarrow> solveBucketBitmask bucket n maxSeed = solve_ref bucket maxSeed"
  unfolding solveBucketBitmask_def solve_ref_def by (rule seed_search_cong) (simp add: bitmask_try_iff)

lemma array_search_ref:
  assumes "length bucket = n" and "0 < n" and "n < 2 ^ 32"
  shows "first_upto_res (\<lambda>s. array_try bucket (of_nat s) (of_nat n) (replicate n False)) 0 m =
    Inr (first_upto (\<lambda>s. distinct (slots_of bucket n (of_nat s))) 0 m)"
proof (rule first_upto_res_total)
  fix t
  have "\<forall>s\<in>set (slots_of bucket n (of_nat t)). unat s < n"
    using unat_mixFromParts_less [OF assms(2,3)] by (auto simp: slots_of_def)
  then show "array_try bucket (of_nat t) (of_nat n) (replicate n False) =
      Inr (distinct (slots_of bucket n (of_nat t)))"
    using assms by (subst array_try_iff) auto
qed

lemma solveDirectBucketArray_ref:
  assumes "length bucket = n" and "0 < n" and "n < 2 ^ 32"
  shows "solveDirectBucketArray bucket n maxSeed = Inr (solve_ref bucket maxSeed)"
  unfolding solveDirectBucketArray_def array_search_ref [OF assms]
  by (simp add: solve_ref_def seed_search_def assms(1) split: option.splits)

lemma solveDirectBucket_ref:
  assumes "length bucket = n" and "2 \<le> n" and "n < 2 ^ 32"
  shows "solveDirectBucket bucket n = Inr (solve_ref bucket (maxEncodableSeed n))"
proof (cases "n \<le> 8")
  case True
  then have "n = 2 \<or> n = 3 \<or> n = 4 \<or> n = 5 \<or> n = 6 \<or> n = 7 \<or> n = 8"
    using assms(2) by arith
  then show ?thesis
    using assms(1) by (elim disjE) (simp_all add: solveDirectBucket_def solveBucket2_ref solveBucket3_ref
        solveBucket4_ref solveBucket5_ref solveBucket6_ref solveBucket7_ref solveBucket8_ref)
next
  case False
  then show ?thesis
    using assms by (simp add: solveDirectBucket_def Let_def solveBucketBitmask_ref solveDirectBucketArray_ref)
qed

lemma hasDuplicateMixParts_iff: "hasDuplicateMixParts es \<longleftrightarrow> \<not> distinct (map be_mix es)"
  by (induction es) (auto simp: list_ex_iff)

lemma solveExtended_ref:
  assumes "length bucket = n" and "2 \<le> n" and "n < 2 ^ 32"
  shows "solveExtended bucket n =
    (if \<not> distinct (map be_mix bucket) then Inl ErrDuplicateKey
     else case first_upto (\<lambda>s. distinct (slots_of bucket n (of_nat s))) 0 (2 ^ 21) of
       Some s \<Rightarrow> Inr (of_nat s) | None \<Rightarrow> Inl ErrIndistinguishableHashes)"
proof -
  have max: "unat (maxExtendedSeedForB blockBits) = 2 ^ 21"
    by (simp add: maxExtendedSeedForB_def blockBits_def)
  have "first_upto (\<lambda>s. bitmask_try bucket (of_nat s) (of_nat n) 0) 0 (2 ^ 21) =
      first_upto (\<lambda>s. distinct (slots_of bucket n (of_nat s))) 0 (2 ^ 21)" if "n \<le> 64"
    using that assms by (intro first_upto_cong) (simp add: bitmask_try_iff)
  moreover have "0 < n"
    using assms(2) by simp
  ultimately show ?thesis
    using assms array_search_ref [OF assms(1) _ assms(3)]
    unfolding solveExtended_def solveExtendedBitmask_def solveExtendedArray_def max
    by (auto simp: hasDuplicateMixParts_iff)
qed

lemma solveExtended_ok:
  assumes "length bucket = n" and "2 \<le> n" and "n < 2 ^ 32" and "solveExtended bucket n = Inr s"
  shows "distinct (slots_of bucket n s)" and "unat s < 2 ^ 21"
proof -
  obtain m where m: "first_upto (\<lambda>s. distinct (slots_of bucket n (of_nat s))) 0 (2 ^ 21) = Some m" "s = of_nat m"
    using assms(4) unfolding solveExtended_ref [OF assms(1-3)] by (auto split: if_splits option.splits)
  note f = first_upto_Some [OF m(1)]
  show "distinct (slots_of bucket n s)" "unat s < 2 ^ 21"
    using f m(2) by simp_all
qed

end
