(* ===== verification/F64.thy ===== *)
theory F64
  imports Complex_Main EF_Correct
begin

text \<open>
  The \<^verbatim>\<open>float64\<close> arithmetic of the sizing formulas (\<^verbatim>\<open>numBlocks\<close>, \<^verbatim>\<open>maxKeysPerBlock\<close>). A finite
  non-negative float is its rational value; each operation rounds the exact result to 53 significant
  bits, ties to even. The formulas stay between $2^{-33}$ and $2^{64}$, so neither overflow nor
  subnormal numbers occur and the exponent is left unbounded.
\<close>

section \<open>Rounding\<close>

definition rne :: "rat \<Rightarrow> int" where
  "rne y = (let f = \<lfloor>y\<rfloor>; d = y - of_int f in
     if d < 1 / 2 \<or> (d = 1 / 2 \<and> even f) then f else f + 1)"

text \<open>The binary exponent of a positive rational.\<close>

definition flog2 :: "rat \<Rightarrow> int" where
  "flog2 x = (case quotient_of x of (a, b) \<Rightarrow>
     let e = int (bits_Len (nat a)) - int (bits_Len (nat b)) in
     if x < 2 powi e then e - 1 else e)"

definition f64_round :: "rat \<Rightarrow> rat" where
  "f64_round x = (if x \<le> 0 then 0 else let u = 2 powi (flog2 x - 52) in of_int (rne (x / u)) * u)"

definition f64_of_nat :: "nat \<Rightarrow> rat" where
  "f64_of_nat n = f64_round (of_nat n)"

definition f64_div :: "rat \<Rightarrow> rat \<Rightarrow> rat" where
  "f64_div x y = f64_round (x / y)"

definition f64_mul :: "rat \<Rightarrow> rat \<Rightarrow> rat" where
  "f64_mul x y = f64_round (x * y)"

definition f64_add :: "rat \<Rightarrow> rat \<Rightarrow> rat" where
  "f64_add x y = f64_round (x + y)"

fun isqrt :: "nat \<Rightarrow> nat" where
  "isqrt n = (if n = 0 then 0 else let r = 2 * isqrt (n div 4) in if (r + 1)\<^sup>2 \<le> n then r + 1 else r)"

declare isqrt.simps [simp del]

text \<open>\<^verbatim>\<open>math.Sqrt\<close> is correctly rounded: the root of \<open>x\<close> is scaled to 53 bits and rounded.\<close>

definition f64_sqrt :: "rat \<Rightarrow> rat" where
  "f64_sqrt x =
    (if x \<le> 0 then 0
     else let u = 2 powi (flog2 x div 2 - 52);
              y = x / (u * u);
              f = int (isqrt (nat \<lfloor>y\<rfloor>));
              mid = (of_int f + 1 / 2) ^ 2
          in of_int (if y < mid \<or> (y = mid \<and> even f) then f else f + 1) * u)"

definition f64_ceil :: "rat \<Rightarrow> nat" where
  "f64_ceil x = nat \<lceil>x\<rceil>"

definition f64_trunc :: "rat \<Rightarrow> nat" where
  "f64_trunc x = nat \<lfloor>x\<rfloor>"

section \<open>Integers bound the rounding\<close>

lemma rne_le: "y \<le> of_int n \<Longrightarrow> rne y \<le> n"
proof -
  assume y: "y \<le> of_int n"
  then have f: "\<lfloor>y\<rfloor> \<le> n"
    by linarith
  moreover have "\<lfloor>y\<rfloor> < n" if "\<not> y - of_int \<lfloor>y\<rfloor> < 1 / 2"
  proof -
    have "of_int \<lfloor>y\<rfloor> < (of_int n :: rat)"
      using that y by linarith
    then show ?thesis by simp
  qed
  ultimately show ?thesis
    by (auto simp: rne_def Let_def)
qed

lemma rne_ge: "of_int n \<le> y \<Longrightarrow> n \<le> rne y"
proof -
  assume "of_int n \<le> y"
  then have "n \<le> \<lfloor>y\<rfloor>"
    by (simp add: le_floor_iff)
  then show ?thesis
    by (auto simp: rne_def Let_def)
qed

lemma flog2_le:
  assumes "0 < x"
  shows "2 powi flog2 x \<le> x"
proof -
  obtain a b where q: "quotient_of x = (a, b)"
    by (cases "quotient_of x")
  have b: "0 < b" and x: "x = of_int a / of_int b"
    using quotient_of_denom_pos [OF q] quotient_of_div [OF q] by auto
  then have a: "0 < a"
    using assms by (simp add: zero_less_divide_iff)
  define la where "la = bits_Len (nat a)"
  define lb where "lb = bits_Len (nat b)"
  have la: "2 ^ (la - 1) \<le> nat a" "0 < la" and lb: "nat b < 2 ^ lb"
    using bits_Len_bounds [of "nat a"] bits_Len_bounds [of "nat b"] a b by (auto simp: la_def lb_def)
  have A: "(2 :: rat) ^ (la - 1) \<le> of_int a"
  proof -
    have "int (2 ^ (la - 1)) \<le> int (nat a)"
      using la(1) by (simp only: of_nat_le_iff)
    then have "(2 :: int) ^ (la - 1) \<le> a"
      using a by simp
    then have "(of_int (2 ^ (la - 1)) :: rat) \<le> of_int a"
      by (simp only: of_int_le_iff)
    then show ?thesis
      by simp
  qed
  have B: "of_int b \<le> (2 :: rat) ^ lb"
  proof -
    have "int (nat b) \<le> int (2 ^ lb)"
      using lb by (simp only: of_nat_le_iff less_imp_le)
    then have "b \<le> (2 :: int) ^ lb"
      using b by simp
    then have "of_int b \<le> (of_int (2 ^ lb) :: rat)"
      by (simp only: of_int_le_iff)
    then show ?thesis
      by simp
  qed
  define e where "e = int la - int lb"
  have "(2 :: rat) powi (e - 1) = 2 ^ (la - 1) / 2 ^ lb"
  proof -
    have "e - 1 = int (la - 1) - int lb"
      using la(2) by (simp add: e_def of_nat_diff)
    then show ?thesis
      by (simp add: power_int_diff)
  qed
  also have "\<dots> \<le> of_int a / of_int b"
    using A B a b by (intro frac_le) auto
  also have "\<dots> = x"
    using x by simp
  finally have "(2 :: rat) powi (e - 1) \<le> x" .
  moreover have "flog2 x = (if x < 2 powi e then e - 1 else e)"
    by (simp add: flog2_def q Let_def la_def lb_def e_def)
  ultimately show ?thesis
    by auto
qed

lemma flog2_less:
  assumes "0 < x" and "x < 2 powi n"
  shows "flog2 x < n"
proof -
  have "(2 :: rat) powi flog2 x < 2 powi n"
    using flog2_le [OF assms(1)] assms(2) by simp
  then show ?thesis
    using power_int_increasing [of n "flog2 x" "2 :: rat"] by (cases "flog2 x < n") auto
qed

lemma ulp_small:
  assumes "k \<le> 0"
  shows "\<exists>m. of_int n = of_int m * (2 :: rat) powi k \<and> 0 < (2 :: rat) powi k"
proof -
  have "(2 :: rat) powi k = 1 / 2 ^ nat (- k)"
    using assms by (simp add: power_int_def inverse_eq_divide power_one_over)
  then show ?thesis
    by (intro exI [of _ "n * 2 ^ nat (- k)"]) simp
qed

lemma f64_round_bounds:
  assumes "0 \<le> x" and "x < 2 ^ 53"
  shows "x \<le> of_int n \<Longrightarrow> f64_round x \<le> of_int n" and "of_int n \<le> x \<Longrightarrow> of_int n \<le> f64_round x"
proof -
  define u where "u = (2 :: rat) powi (flog2 x - 52)"
  have "flog2 x < 53" if "0 < x"
    using flog2_less [of x 53] that assms(2) by simp
  then obtain m where m: "of_int n = of_int m * u" "0 < u" if "0 < x"
    using ulp_small [of "flog2 x - 52" n] u_def by fastforce
  show "f64_round x \<le> of_int n" if le: "x \<le> of_int n"
  proof (cases "0 < x")
    case True
    then have "x / u \<le> of_int m"
      using le m by (simp add: divide_le_eq)
    then have "rne (x / u) \<le> m"
      by (rule rne_le)
    then have "of_int (rne (x / u)) * u \<le> of_int m * u"
      using m True by (intro mult_right_mono) auto
    with True m show ?thesis
      by (simp add: f64_round_def u_def [symmetric])
  qed (use le assms(1) in \<open>simp add: f64_round_def\<close>)
  show "of_int n \<le> f64_round x" if ge: "of_int n \<le> x"
  proof (cases "0 < x")
    case True
    then have "of_int m \<le> x / u"
      using ge m by (simp add: le_divide_eq)
    then have "m \<le> rne (x / u)"
      by (rule rne_ge)
    then have "of_int m * u \<le> of_int (rne (x / u)) * u"
      using m True by (intro mult_right_mono) auto
    with True m show ?thesis
      by (simp add: f64_round_def u_def [symmetric])
  qed (use ge assms(1) in \<open>simp add: f64_round_def\<close>)
qed

lemma f64_of_nat_exact: "n < 2 ^ 53 \<Longrightarrow> f64_of_nat n = of_nat n"
proof -
  assume n: "n < 2 ^ 53"
  have "(of_nat n :: rat) < 2 ^ 53"
    using n by (metis of_nat_less_iff of_nat_numeral of_nat_power)
  then show ?thesis
    using f64_round_bounds [of "of_nat n" "int n"] by (simp add: f64_of_nat_def antisym)
qed

text \<open>The relative error of a rounding is at most $2^{-53}$, so a quotient of two small integers is never
  rounded down past an integer: the ceiling of the quotient covers the dividend.\<close>

lemma rne_error: "y - of_int (rne y) \<le> 1 / 2"
  unfolding rne_def Let_def by (auto split: if_splits) linarith+

lemma f64_round_error:
  assumes "0 < x"
  shows "x - f64_round x \<le> x / 2 ^ 53"
proof -
  define u where "u = (2 :: rat) powi (flog2 x - 52)"
  have u: "0 < u"
    by (simp add: u_def)
  have "x - f64_round x = (x / u - of_int (rne (x / u))) * u"
    using assms u by (simp add: f64_round_def u_def [symmetric] left_diff_distrib)
  also have "\<dots> \<le> 1 / 2 * u"
    using u by (intro mult_right_mono rne_error) simp
  also have "u = 2 powi flog2 x / 2 ^ 52"
    by (simp add: u_def power_int_diff)
  finally show ?thesis
    using flog2_le [OF assms] by simp
qed

lemma f64_ceil_div:
  assumes a: "a < 2 ^ 53" and b: "0 < b" "b < 2 ^ 53"
  shows "a \<le> f64_ceil (f64_div (f64_of_nat a) (f64_of_nat b)) * b" and "f64_ceil (f64_div (f64_of_nat a) (f64_of_nat b)) \<le> a"
proof -
  define x where "x = (of_nat a :: rat) / of_nat b"
  define c where "c = f64_ceil (f64_div (f64_of_nat a) (f64_of_nat b))"
  have c: "c = nat \<lceil>f64_round x\<rceil>"
    using a b by (simp add: c_def f64_ceil_def f64_div_def f64_of_nat_exact x_def)
  have ab: "(of_nat a :: rat) < 2 ^ 53" "(1 :: rat) \<le> of_nat b"
    using a b(1) by (metis of_nat_less_iff of_nat_numeral of_nat_power, metis One_nat_def Suc_leI of_nat_1 of_nat_le_iff)
  have le: "x \<le> of_nat a"
    using ab(2) by (simp add: x_def divide_le_eq mult_le_cancel_left1)
  have x: "0 \<le> x" "x < 2 ^ 53"
    using le ab by (simp_all add: x_def)
  have "f64_round x \<le> of_int (int a)"
    using le by (intro f64_round_bounds(1) [OF x]) simp
  then have "\<lceil>f64_round x\<rceil> \<le> int a"
    by (simp only: ceiling_le_iff)
  then show "c \<le> a"
    unfolding c by simp
  show "a \<le> c * b"
  proof (rule ccontr)
    assume "\<not> a \<le> c * b"
    then have lt: "(of_nat c :: rat) * of_nat b + 1 \<le> of_nat a"
      by (metis Suc_leI not_le of_nat_Suc of_nat_le_iff of_nat_mult add.commute)
    have pos: "0 < x"
    proof -
      have "0 < a"
        using \<open>\<not> a \<le> c * b\<close> by simp
      then show ?thesis
        using b by (simp add: x_def)
    qed
    have "f64_round x \<le> of_nat c"
    proof -
      have "f64_round x \<le> of_int \<lceil>f64_round x\<rceil>"
        by (rule le_of_int_ceiling)
      also have "\<dots> \<le> of_int (int (nat \<lceil>f64_round x\<rceil>))"
        unfolding of_int_le_iff by linarith
      finally show ?thesis
        unfolding c by (simp only: of_int_of_nat_eq)
    qed
    moreover have "of_nat c + 1 / of_nat b \<le> x"
    proof -
      have "of_nat c + 1 / of_nat b = (of_nat c * of_nat b + 1) / (of_nat b :: rat)"
        using b by (simp add: add_divide_distrib)
      also have "\<dots> \<le> x"
        unfolding x_def using lt by (intro divide_right_mono) simp_all
      finally show ?thesis .
    qed
    ultimately have "1 / of_nat b \<le> x / 2 ^ 53"
      using f64_round_error [OF pos] by linarith
    then have "2 ^ 53 \<le> (of_nat a :: rat)"
      using b by (simp add: x_def field_simps)
    then show False
      using ab(1) by simp
  qed
qed

lemma isqrt_bounds: "(isqrt n)\<^sup>2 \<le> n"
proof (induction n rule: isqrt.induct)
  case (1 n)
  show ?case
  proof (cases "n = 0")
    case False
    define r where "r = isqrt (n div 4)"
    have "(2 * r)\<^sup>2 = 4 * r\<^sup>2"
      by (simp add: power_mult_distrib)
    moreover have "r\<^sup>2 \<le> n div 4"
      using "1.IH" False by (simp add: r_def)
    ultimately have "(2 * r)\<^sup>2 \<le> n"
      by linarith
    with False show ?thesis
      by (simp add: isqrt.simps [of n] Let_def flip: r_def)
  qed (simp add: isqrt.simps)
qed

lemma f64_sqrt_le:
  assumes "0 \<le> x" and "x \<le> of_nat b ^ 2" and "b < 2 ^ 26"
  shows "f64_sqrt x \<le> of_nat b" and "0 \<le> f64_sqrt x"
proof -
  have "f64_sqrt x \<le> of_nat b \<and> 0 \<le> f64_sqrt x" if pos: "0 < x"
  proof -
    have "(of_nat b :: rat) < 2 ^ 26"
      using assms(3) by (metis of_nat_less_iff of_nat_numeral of_nat_power)
    then have "(of_nat b :: rat) ^ 2 < (2 ^ 26) ^ 2"
      by (intro power_strict_mono) auto
    moreover have "((2 :: rat) ^ 26) ^ 2 = 2 powi 52"
      by simp
    ultimately have "x < 2 powi 52"
      using assms(2) by linarith
    then have fl: "flog2 x < 52"
      using flog2_less pos by blast
    define u where "u = (2 :: rat) powi (flog2 x div 2 - 52)"
    have "flog2 x div 2 \<le> 52"
      using fl by presburger
    then obtain m where m: "of_int (int b) = of_int m * u" "0 < u"
      using ulp_small [of "flog2 x div 2 - 52" "int b"] by (auto simp: u_def)
    have m0: "0 \<le> m"
    proof -
      have "0 \<le> of_int m * u"
        unfolding m(1) [symmetric] by simp
      then show ?thesis
        using m(2) by (simp add: zero_le_mult_iff)
    qed
    define y where "y = x / (u * u)"
    define f where "f = int (isqrt (nat \<lfloor>y\<rfloor>))"
    have y0: "0 \<le> y"
      using pos m by (simp add: y_def)
    have ym: "y \<le> (of_int m) ^ 2"
    proof -
      have "x \<le> (of_int m * u) ^ 2"
        using assms(2) m(1) by simp
      then show ?thesis
        using m(2) by (simp add: y_def power_mult_distrib divide_le_eq flip: power2_eq_square)
    qed
    have "f ^ 2 \<le> \<lfloor>y\<rfloor>"
    proof -
      have "int ((isqrt (nat \<lfloor>y\<rfloor>)) ^ 2) \<le> int (nat \<lfloor>y\<rfloor>)"
        using isqrt_bounds [of "nat \<lfloor>y\<rfloor>"] by (simp only: of_nat_le_iff)
      then show ?thesis
        using y0 by (simp add: f_def)
    qed
    then have fy: "(of_int f :: rat) ^ 2 \<le> y"
      unfolding of_int_power [symmetric] by (simp only: le_floor_iff)
    have fm: "f \<le> m"
    proof -
      have "(of_int f :: rat) ^ 2 \<le> of_int m ^ 2"
        using fy ym by simp
      then have "(of_int f :: rat) \<le> of_int m"
        by (rule power2_le_imp_le) (simp add: m0)
      then show ?thesis by simp
    qed
    define c where "c \<longleftrightarrow> y < (of_int f + 1 / 2) ^ 2 \<or> (y = (of_int f + 1 / 2) ^ 2 \<and> even f)"
    have f1: "f + 1 \<le> m" if "\<not> c"
    proof -
      have "(of_int f + 1 / 2 :: rat) ^ 2 \<le> of_int m ^ 2"
        using that ym by (auto simp: c_def)
      then have "(of_int f + 1 / 2 :: rat) \<le> of_int m"
        by (rule power2_le_imp_le) (simp add: m0)
      then have "(of_int f :: rat) < of_int m"
        by linarith
      then show ?thesis by simp
    qed
    have eq: "f64_sqrt x = of_int (if c then f else f + 1) * u"
      using pos unfolding f64_sqrt_def Let_def u_def [symmetric] y_def [symmetric] f_def [symmetric] c_def
      by simp
    have "of_int (if c then f else f + 1) * u \<le> of_int m * u"
      using fm f1 m(2) by (intro mult_right_mono) (auto simp del: of_int_add)
    moreover have "0 \<le> (of_int (if c then f else f + 1) :: rat)"
      by (simp add: f_def)
    ultimately show ?thesis
      using eq m by simp
  qed
  then show "f64_sqrt x \<le> of_nat b" "0 \<le> f64_sqrt x"
    using assms(1) by (cases "0 < x", auto simp: f64_sqrt_def)+
qed

text \<open>The limit on the keys of a block, \<^verbatim>\<open>int(avg + 7 * sqrt(avg))\<close> for an average of at most \<open>A\<close> keys.\<close>

lemma f64_overflow_limit:
  assumes n: "n < 2 ^ 53" and nb: "0 < nb" "nb < 2 ^ 53" and cover: "n \<le> A * nb" and B: "A \<le> B\<^sup>2" "B < 2 ^ 26" "A < 2 ^ 30"
  defines "avg \<equiv> f64_div (f64_of_nat n) (f64_of_nat nb)"
  shows "f64_trunc (f64_add avg (f64_mul 7 (f64_sqrt avg))) \<le> A + 7 * B"
    and "n div nb \<le> f64_trunc (f64_add avg (f64_mul 7 (f64_sqrt avg)))"
proof -
  define y where "y = (of_nat n / of_nat nb :: rat)"
  define sg where "sg = f64_sqrt avg"
  have A: "(of_nat A :: rat) < 2 ^ 30" and Br: "(of_nat B :: rat) < 2 ^ 26"
    using B by (metis of_nat_less_iff of_nat_numeral of_nat_power)+
  have y: "0 \<le> y" "y \<le> of_int (int A)"
  proof -
    have "(of_nat n :: rat) \<le> of_nat (A * nb)"
      using cover by (simp only: of_nat_le_iff)
    then show "y \<le> of_int (int A)"
      using nb(1) by (simp add: y_def divide_le_eq)
  qed (simp add: y_def)
  have y53: "y < 2 ^ 53"
    using y(2) A by simp
  have avg_eq: "avg = f64_round y"
    by (simp add: avg_def f64_div_def f64_of_nat_exact [OF n] f64_of_nat_exact [OF nb(2)] y_def)
  have avg: "0 \<le> avg" "avg \<le> of_nat A"
    using f64_round_bounds(2) [OF y(1) y53, of 0] f64_round_bounds(1) [OF y(1) y53 y(2)] y(1) by (auto simp: avg_eq)
  have "(of_nat A :: rat) \<le> of_nat (B\<^sup>2)"
    using B(1) by (simp only: of_nat_le_iff)
  then have "avg \<le> of_nat B ^ 2"
    using avg(2) unfolding of_nat_power by (rule order_trans [rotated])
  from f64_sqrt_le [OF avg(1) this B(2)] have sg: "0 \<le> sg" "sg \<le> of_nat B"
    by (simp_all add: sg_def)
  have "7 * sg \<le> of_int (7 * int B)" "0 \<le> 7 * sg" "7 * sg < 2 ^ 53"
    using sg Br by auto
  then have m: "f64_mul 7 sg \<le> 7 * of_nat B" "0 \<le> f64_mul 7 sg"
    using f64_round_bounds(1) [of "7 * sg" "7 * int B"] f64_round_bounds(2) [of "7 * sg" 0] by (auto simp: f64_mul_def)
  have sum: "0 \<le> avg + f64_mul 7 sg" "avg + f64_mul 7 sg < 2 ^ 53" "avg + f64_mul 7 sg \<le> of_int (int (A + 7 * B))"
    using avg m A Br by auto
  then have "f64_add avg (f64_mul 7 sg) \<le> of_int (int (A + 7 * B))"
    using f64_round_bounds(1) [OF sum] by (simp add: f64_add_def)
  then have "\<lfloor>f64_add avg (f64_mul 7 sg)\<rfloor> \<le> int (A + 7 * B)"
    by (metis floor_mono floor_of_int)
  then show "f64_trunc (f64_add avg (f64_mul 7 (f64_sqrt avg))) \<le> A + 7 * B"
    unfolding f64_trunc_def sg_def [symmetric] by linarith
  have "(of_nat (n div nb * nb) :: rat) \<le> of_nat n"
    by (simp only: of_nat_le_iff div_times_less_eq_dividend)
  then have "of_int (int (n div nb)) \<le> y"
    using nb(1) by (simp add: y_def le_divide_eq)
  then have "of_int (int (n div nb)) \<le> avg"
    unfolding avg_eq by (rule f64_round_bounds(2) [OF y(1) y53])
  then have "of_int (int (n div nb)) \<le> f64_add avg (f64_mul 7 sg)"
    unfolding f64_add_def using m(2) by (intro f64_round_bounds(2) [OF sum(1,2)]) simp
  then have "int (n div nb) \<le> \<lfloor>f64_add avg (f64_mul 7 sg)\<rfloor>"
    by (simp only: le_floor_iff)
  then show "n div nb \<le> f64_trunc (f64_add avg (f64_mul 7 (f64_sqrt avg)))"
    unfolding f64_trunc_def sg_def [symmetric] by linarith
qed

end
