(* ===== verification/Bij_Builder.thy ===== *)
theory Bij_Builder
  imports Bij_Solver EF_Correct Entry_Codec F64
begin

text \<open>
  The block builder of \<^verbatim>\<open>internal/bijection\<close>: its configuration, state and operations
  (\<^verbatim>\<open>config.go\<close>, \<^verbatim>\<open>builder.go\<close>, and the solving methods of \<^verbatim>\<open>solver_build.go\<close>). The scratch buffers
  that every call clears before use (\<^verbatim>\<open>slots\<close>, \<^verbatim>\<open>subBucket0\<close>, \<^verbatim>\<open>subBucket1\<close>, \<^verbatim>\<open>efBuffer\<close>,
  \<^verbatim>\<open>fallbackBuffer\<close>) are local values here; all other fields are fields of the record. An operation
  that returns an error leaves no builder: the callers discard it.
\<close>

section \<open>Configuration\<close>

definition bucketsPerBlock :: nat where [simp]: "bucketsPerBlock = 1024"
definition checkpointInterval :: nat where [simp]: "checkpointInterval = 128"
definition numCheckpoints :: nat where [simp]: "numCheckpoints = bucketsPerBlock div checkpointInterval - 1"
definition checkpointsSize :: nat where [simp]: "checkpointsSize = numCheckpoints * 2 * 2"
definition splitThreshold :: nat where [simp]: "splitThreshold = 8"

definition bij_numBlocks :: "u64 \<Rightarrow> u32" where
  "bij_numBlocks totalKeys =
    (let totalBuckets = f64_ceil (f64_div (f64_of_nat (unat totalKeys)) 3);
         totalBuckets = (if totalBuckets = 0 then 1 else totalBuckets)
     in max (of_nat ((totalBuckets + bucketsPerBlock - 1) div bucketsPerBlock)) 2)"

definition bij_estimateMetadataSize :: "nat \<Rightarrow> nat" where
  "bij_estimateMetadataSize numKeys =
    (if numKeys = 0 then let efHighBits = (bucketsPerBlock + 7) div 8 in checkpointsSize + efHighBits + 1
     else let efUpperBound = 1024; seedsUpperBound = 6144; fallbackUpperBound = 1024
          in checkpointsSize + efUpperBound + seedsUpperBound + fallbackUpperBound)"

section \<open>State\<close>

record checkpoints =
  efBitPos :: "u16 list"
  seedBitPos :: "u16 list"

definition zeroCheckpoints :: checkpoints where
  "zeroCheckpoints = \<lparr>efBitPos = replicate numCheckpoints 0, seedBitPos = replicate numCheckpoints 0\<rparr>"

record bijBuilder =
  bb_numBlocks :: u32
  bb_globalSeed :: u64
  bb_payloadSize :: nat
  bb_fingerprintSize :: nat
  bb_buckets :: "bucketEntry list list"
  bb_maxKeysPerBlock :: nat
  bb_bucketSizes :: "nat list"
  bb_cumulative :: "u16 list"
  bb_seeds :: "u32 list"
  bb_splitSeeds :: "u32 list"
  bb_splitSeedIdx :: "int list"
  bb_fallbackList :: "fallbackEntry list"
  bb_keysInBlock :: nat
  bb_seedEncoder :: bitWriter

section \<open>Operations\<close>

definition checkpoints_encode :: "checkpoints \<Rightarrow> bytes \<Rightarrow> nat \<Rightarrow> bytes res" where
  "checkpoints_encode cp dst off =
    put_bytes dst off (concat (map (le_put 2) (efBitPos cp)) @ concat (map (le_put 2) (seedBitPos cp)))"

definition bij_maxKeysPerBlock :: "u64 \<Rightarrow> nat" where
  "bij_maxKeysPerBlock totalKeys =
    (let nb = bij_numBlocks totalKeys;
         expectedAvg = f64_div (f64_of_nat (unat totalKeys)) (f64_of_nat (unat nb));
         sigma = f64_sqrt expectedAvg
     in f64_trunc (f64_add expectedAvg (f64_mul 7 sigma)))"

definition bij_NewBuilder :: "u64 \<Rightarrow> u64 \<Rightarrow> nat \<Rightarrow> nat \<Rightarrow> bijBuilder" where
  "bij_NewBuilder totalKeys globalSeed payloadSize fingerprintSize =
    \<lparr>bb_numBlocks = bij_numBlocks totalKeys,
     bb_globalSeed = globalSeed,
     bb_payloadSize = payloadSize,
     bb_fingerprintSize = fingerprintSize,
     bb_buckets = replicate bucketsPerBlock [],
     bb_maxKeysPerBlock = bij_maxKeysPerBlock totalKeys,
     bb_bucketSizes = replicate bucketsPerBlock 0,
     bb_cumulative = replicate bucketsPerBlock 0,
     bb_seeds = replicate bucketsPerBlock 0,
     bb_splitSeeds = [],
     bb_splitSeedIdx = replicate bucketsPerBlock 0,
     bb_fallbackList = [],
     bb_keysInBlock = 0,
     bb_seedEncoder = newBitWriterBuffer\<rparr>"

definition bij_entrySize :: "bijBuilder \<Rightarrow> nat" where
  "bij_entrySize bb = bb_payloadSize bb + bb_fingerprintSize bb"

definition bij_AddKey :: "bijBuilder \<Rightarrow> u64 \<Rightarrow> u64 \<Rightarrow> u64 \<Rightarrow> u32 \<Rightarrow> bijBuilder res" where
  "bij_AddKey bb k0 k1 payload fingerprint =
    (let mp = \<lparr>xoredK0 = k0 XOR bb_globalSeed bb, xoredK1 = k1 XOR bb_globalSeed bb\<rparr>;
         localBucketIdx = unat (FastRange32 k0 (of_nat bucketsPerBlock))
     in rbind (get_at (bb_buckets bb) localBucketIdx) (\<lambda>b.
        rbind (set_at (bb_buckets bb) localBucketIdx
                 (b @ [\<lparr>be_mix = mp, be_payload = payload, be_fingerprint = fingerprint\<rparr>])) (\<lambda>bs.
        Inr (bb\<lparr>bb_buckets := bs, bb_keysInBlock := bb_keysInBlock bb + 1\<rparr>))))"

definition bij_KeysAdded :: "bijBuilder \<Rightarrow> nat" where
  "bij_KeysAdded bb = bb_keysInBlock bb"

definition bij_Reset :: "bijBuilder \<Rightarrow> bijBuilder" where
  "bij_Reset bb = bb\<lparr>
     bb_buckets := map (\<lambda>_. []) (bb_buckets bb),
     bb_splitSeedIdx := map (\<lambda>_. -1) (bb_splitSeedIdx bb),
     bb_bucketSizes := map (\<lambda>_. 0) (bb_bucketSizes bb),
     bb_cumulative := map (\<lambda>_. 0) (bb_cumulative bb),
     bb_seeds := map (\<lambda>_. 0) (bb_seeds bb),
     bb_splitSeeds := [],
     bb_fallbackList := [],
     bb_keysInBlock := 0\<rparr>"

subsection \<open>Counts\<close>

fun cumulative_loop :: "bucketEntry list list \<Rightarrow> u16 \<Rightarrow> u16 list" where
  "cumulative_loop [] cumulative = []"
| "cumulative_loop (bucket # bs) cumulative =
    (let cumulative = cumulative + of_nat (length bucket) in cumulative # cumulative_loop bs cumulative)"

definition computeCumulativeCounts :: "bijBuilder \<Rightarrow> bijBuilder" where
  "computeCumulativeCounts bb =
    bb\<lparr>bb_bucketSizes := map length (bb_buckets bb), bb_cumulative := cumulative_loop (bb_buckets bb) 0\<rparr>"

subsection \<open>Solving\<close>

text \<open>
  The inner loop of \<^verbatim>\<open>solveSplitBucket\<close>: \<open>None\<close> when two entries hash to one slot of the first half,
  otherwise the sub-buckets. An index \<^verbatim>\<open>h\<close> below \<^verbatim>\<open>splitPoint\<close> is within \<open>firstHalfSlots\<close>.
\<close>

fun split_loop :: "nat \<Rightarrow> u32 \<Rightarrow> bucketEntry list \<Rightarrow> bool list \<Rightarrow> bucketEntry list \<Rightarrow> bucketEntry list \<Rightarrow>
    (bucketEntry list \<times> bucketEntry list) option" where
  "split_loop bucketSize seed [] firstHalfSlots sub0 sub1 = Some (sub0, sub1)"
| "split_loop bucketSize seed (entry # es) firstHalfSlots sub0 sub1 =
    (let splitPoint = bucketSize div 2;
         h = mixFromParts (be_mix entry) seed (of_nat bucketSize) in
     if h < of_nat splitPoint then
       if firstHalfSlots ! unat h then None
       else split_loop bucketSize seed es (firstHalfSlots[unat h := True]) (sub0 @ [entry]) sub1
     else split_loop bucketSize seed es firstHalfSlots sub0 (sub1 @ [entry]))"

definition split_try :: "bucketEntry list \<Rightarrow> u32 \<Rightarrow> (bucketEntry list \<times> bucketEntry list) option" where
  "split_try bucket seed =
    (let bucketSize = length bucket; splitPoint = bucketSize div 2 in
     case split_loop bucketSize seed bucket (replicate splitPoint False) [] [] of
       Some (sub0, sub1) \<Rightarrow> if length sub0 = splitPoint then Some (sub0, sub1) else None
     | None \<Rightarrow> None)"

definition splitBucketMaxSeed :: nat where "splitBucketMaxSeed = 2 ^ 20"

definition solveSplitBucket :: "bijBuilder \<Rightarrow> nat \<Rightarrow> bucketEntry list \<Rightarrow> (u32 \<times> u32 \<times> bijBuilder) res" where
  "solveSplitBucket bb bucketIdx bucket =
    (let bucketSize = length bucket; splitPoint = bucketSize div 2 in
     case first_upto (\<lambda>s. split_try bucket (of_nat s) \<noteq> None) 0 splitBucketMaxSeed of
       None \<Rightarrow> if hasDuplicateMixParts bucket then Inl ErrDuplicateKey
               else Inl ErrSplitBucketSeedSearchFailed
     | Some s \<Rightarrow>
         let seed0 = of_nat s :: u32;
             subBucket1 = snd (the (split_try bucket seed0));
             (seed0, bb) =
               (if splitPoint > 8 \<or> seed0 \<ge> maxEncodableSeed splitPoint
                then (fallbackMarker, bb\<lparr>bb_fallbackList := bb_fallbackList bb @
                       [\<lparr>bucketIndex = of_nat bucketIdx, subBucket = 0, fe_seed = seed0\<rparr>]\<rparr>)
                else (seed0, bb));
             size1 = length subBucket1
         in if size1 \<ge> 2 then
              rbind (if size1 > 8 then Inr (0, True) else solveDirectBucket subBucket1 size1)
                (\<lambda>(seed1, needsFallback).
                  if needsFallback then
                    rbind (solveExtended subBucket1 size1) (\<lambda>seed1.
                      Inr (seed0, fallbackMarker, bb\<lparr>bb_fallbackList := bb_fallbackList bb @
                        [\<lparr>bucketIndex = of_nat bucketIdx, subBucket = 1, fe_seed = seed1\<rparr>]\<rparr>))
                  else Inr (seed0, seed1, bb))
            else Inr (seed0, 0, bb))"

text \<open>The body of the loop of \<^verbatim>\<open>solveBijections\<close> for one bucket.\<close>

definition solve_bucket :: "nat \<Rightarrow> bucketEntry list \<Rightarrow> bijBuilder \<Rightarrow> bijBuilder res" where
  "solve_bucket bucketIdx bucket bb =
    (let sz = length bucket in
     if sz \<le> 1 then
       rbind (set_at (bb_seeds bb) bucketIdx 0) (\<lambda>ss. Inr (bb\<lparr>bb_seeds := ss\<rparr>))
     else if sz \<ge> splitThreshold then
       rbind (solveSplitBucket bb bucketIdx bucket) (\<lambda>(seed0, seed1, bb).
       rbind (set_at (bb_splitSeedIdx bb) bucketIdx (int (length (bb_splitSeeds bb)))) (\<lambda>ix.
         Inr (bb\<lparr>bb_splitSeedIdx := ix, bb_splitSeeds := bb_splitSeeds bb @ [seed0, seed1]\<rparr>)))
     else
       rbind (solveDirectBucket bucket sz) (\<lambda>(seed, needsFallback).
         if needsFallback then
           rbind (solveExtended bucket sz) (\<lambda>seed.
           rbind (set_at (bb_seeds bb) bucketIdx fallbackMarker) (\<lambda>ss.
             Inr (bb\<lparr>bb_fallbackList := bb_fallbackList bb @
                       [\<lparr>bucketIndex = of_nat bucketIdx, subBucket = 0, fe_seed = seed\<rparr>],
                     bb_seeds := ss\<rparr>)))
         else rbind (set_at (bb_seeds bb) bucketIdx seed) (\<lambda>ss. Inr (bb\<lparr>bb_seeds := ss\<rparr>))))"

fun solve_loop :: "nat \<Rightarrow> bucketEntry list list \<Rightarrow> bijBuilder \<Rightarrow> bijBuilder res" where
  "solve_loop bucketIdx [] bb = Inr bb"
| "solve_loop bucketIdx (bucket # bs) bb =
    rbind (solve_bucket bucketIdx bucket bb) (\<lambda>bb. solve_loop (Suc bucketIdx) bs bb)"

definition solveBijections :: "bijBuilder \<Rightarrow> bijBuilder res" where
  "solveBijections bb =
    solve_loop 0 (bb_buckets bb)
      (bb\<lparr>bb_splitSeeds := [], bb_fallbackList := [], bb_splitSeedIdx := map (\<lambda>_. -1) (bb_splitSeedIdx bb)\<rparr>)"

subsection \<open>Metadata\<close>

text \<open>The checkpoints of the Elias-Fano part; \<^verbatim>\<open>bitPos > math.MaxUint16\<close> is an error.\<close>

fun ef_checkpoint_loop :: "u16 list \<Rightarrow> nat \<Rightarrow> nat \<Rightarrow> nat list \<Rightarrow> checkpoints \<Rightarrow> checkpoints res" where
  "ef_checkpoint_loop cumulative lowBits numBuckets [] cp = Inr cp"
| "ef_checkpoint_loop cumulative lowBits numBuckets (checkpointIdx # is) cp =
    (let bucketIdx = (checkpointIdx + 1) * checkpointInterval in
     if bucketIdx > numBuckets then Inr cp
     else rbind (get_at cumulative (bucketIdx - 1)) (\<lambda>prevCumulative.
       let highPart = (if lowBits < 16 then drop_bit lowBits (unat prevCumulative) else 0);
           bitPos = bucketIdx + highPart
       in if bitPos > 65535 then Inl (ErrOther ''bijection: EF bit position overflow'')
          else rbind (set_at (efBitPos cp) checkpointIdx (of_nat bitPos)) (\<lambda>ps.
                 ef_checkpoint_loop cumulative lowBits numBuckets is (cp\<lparr>efBitPos := ps\<rparr>))))"

definition encodeEFWithCheckpoints :: "bijBuilder \<Rightarrow> checkpoints \<Rightarrow> nat \<Rightarrow> (bytes \<times> checkpoints) res" where
  "encodeEFWithCheckpoints bb cp numBuckets =
    rbind (encodeEliasFanoInto (bb_cumulative bb) (bb_keysInBlock bb)) (\<lambda>efData.
      let lowBits = computeEFLowBits numBuckets (bb_keysInBlock bb) in
      rbind (ef_checkpoint_loop (bb_cumulative bb) lowBits numBuckets [0..<numCheckpoints] cp) (\<lambda>cp.
        Inr (efData, cp)))"

definition get_at_int :: "'a list \<Rightarrow> int \<Rightarrow> 'a res" where
  "get_at_int xs i = (if i < 0 then Inl (GoPanic ''index out of range'') else get_at xs (nat i))"

definition put_seed :: "bitWriter \<Rightarrow> u32 \<Rightarrow> nat \<Rightarrow> bitWriter" where
  "put_seed bw seed sz = (if seed = fallbackMarker then encodeFallbackMarker bw else encodeSeed bw seed sz)"

text \<open>The seeds of one bucket.\<close>

definition encode_bucket_seeds :: "bijBuilder \<Rightarrow> nat \<Rightarrow> bitWriter \<Rightarrow> bitWriter res" where
  "encode_bucket_seeds bb bucketIdx bw =
    rbind (get_at (bb_bucketSizes bb) bucketIdx) (\<lambda>bucketSize.
      if bucketSize \<le> 1 then Inr bw
      else if bucketSize \<ge> splitThreshold then
        let splitPoint = bucketSize div 2; secondHalfSize = bucketSize - splitPoint in
        rbind (get_at (bb_splitSeedIdx bb) bucketIdx) (\<lambda>seedIdx.
        rbind (get_at_int (bb_splitSeeds bb) seedIdx) (\<lambda>seed0.
        rbind (get_at_int (bb_splitSeeds bb) (seedIdx + 1)) (\<lambda>seed1.
          Inr (put_seed (put_seed bw seed0 splitPoint) seed1 secondHalfSize))))
      else rbind (get_at (bb_seeds bb) bucketIdx) (\<lambda>seed. Inr (put_seed bw seed bucketSize)))"

definition seed_checkpoint :: "nat \<Rightarrow> bitWriter \<Rightarrow> checkpoints \<Rightarrow> checkpoints res" where
  "seed_checkpoint bucketIdx bw cp =
    (if bucketIdx > 0 \<and> bucketIdx mod checkpointInterval = 0 then
       let checkpointIdx = bucketIdx div checkpointInterval - 1 in
       if checkpointIdx < numCheckpoints then
         let pos = bitsWritten bw in
         if pos > 65535 then Inl (ErrOther ''bijection: seed bit position overflow'')
         else rbind (set_at (seedBitPos cp) checkpointIdx (of_nat pos)) (\<lambda>ps. Inr (cp\<lparr>seedBitPos := ps\<rparr>))
       else Inr cp
     else Inr cp)"

fun seed_stream_loop :: "bijBuilder \<Rightarrow> nat list \<Rightarrow> bitWriter \<Rightarrow> checkpoints \<Rightarrow> (bitWriter \<times> checkpoints) res" where
  "seed_stream_loop bb [] bw cp = Inr (bw, cp)"
| "seed_stream_loop bb (bucketIdx # is) bw cp =
    rbind (seed_checkpoint bucketIdx bw cp) (\<lambda>cp.
    rbind (encode_bucket_seeds bb bucketIdx bw) (\<lambda>bw. seed_stream_loop bb is bw cp))"

definition encodeSeedsWithCheckpoints :: "bijBuilder \<Rightarrow> checkpoints \<Rightarrow> nat \<Rightarrow> (bijBuilder \<times> checkpoints) res" where
  "encodeSeedsWithCheckpoints bb cp numBuckets =
    rbind (seed_stream_loop bb [0..<numBuckets] (bb_seedEncoder bb) cp) (\<lambda>(bw, cp).
      Inr (bb\<lparr>bb_seedEncoder := bw\<rparr>, cp))"

definition encodeSeparatedMetadataInto :: "bijBuilder \<Rightarrow> bytes \<Rightarrow> (nat \<times> bytes \<times> bijBuilder) res" where
  "encodeSeparatedMetadataInto bb dst =
    rbind (encodeEFWithCheckpoints bb zeroCheckpoints bucketsPerBlock) (\<lambda>(efData, cp).
    let bb = bb\<lparr>bb_seedEncoder := bw_reset (bb_seedEncoder bb)\<rparr> in
    rbind (encodeSeedsWithCheckpoints bb cp bucketsPerBlock) (\<lambda>(bb, cp).
    case bw_flush (bb_seedEncoder bb) of (seedStreamData, bw) \<Rightarrow>
    let bb = bb\<lparr>bb_seedEncoder := bw\<rparr> in
    if length (bb_fallbackList bb) > maxFallbackEntries then Inl ErrBlockOverflow
    else rbind (encodeFallbackListIntoWithB (bb_fallbackList bb) blockBits) (\<lambda>fallbackData.
      let totalSize = checkpointsSize + length efData + length seedStreamData + length fallbackData in
      if length dst < totalSize then Inl (ErrOther ''bijection: metadata buffer too small'')
      else rbind (checkpoints_encode cp dst 0) (\<lambda>dst.
        let offset = checkpointsSize;
            dst = copy_at dst offset efData;
            offset = offset + length efData;
            dst = copy_at dst offset seedStreamData;
            offset = offset + length seedStreamData;
            dst = copy_at dst offset fallbackData;
            offset = offset + length fallbackData
        in Inr (offset, dst, bb)))))"

subsection \<open>Payloads\<close>

definition resolveFallbackSeed :: "bijBuilder \<Rightarrow> nat \<Rightarrow> u8 \<Rightarrow> u32 res" where
  "resolveFallbackSeed bb bucketIdx sub =
    (case find (\<lambda>fe. bucketIndex fe = of_nat bucketIdx \<and> subBucket fe = sub) (bb_fallbackList bb) of
       Some fe \<Rightarrow> Inr (fe_seed fe)
     | None \<Rightarrow> Inl (GoPanic ''bijection: fallback entry not found''))"

fun write_entries :: "(bucketEntry \<Rightarrow> nat) \<Rightarrow> bool \<Rightarrow> nat \<Rightarrow> nat \<Rightarrow> nat \<Rightarrow> bucketEntry list \<Rightarrow> bytes \<Rightarrow> bytes res" where
  "write_entries slot generic entrySize fpShift bucketStart [] dst = Inr dst"
| "write_entries slot generic entrySize fpShift bucketStart (entry # es) dst =
    rbind (if generic
           then WriteEntryGeneric dst (bucketStart + slot entry) entrySize (be_fingerprint entry) (be_payload entry) fpShift
           else WriteEntry dst (bucketStart + slot entry) entrySize (be_fingerprint entry) (be_payload entry) fpShift)
      (\<lambda>dst. write_entries slot generic entrySize fpShift bucketStart es dst)"

definition stored_seed :: "bijBuilder \<Rightarrow> nat \<Rightarrow> u8 \<Rightarrow> u32 \<Rightarrow> u32 res" where
  "stored_seed bb bucketIdx sub seed =
    (if seed = fallbackMarker then resolveFallbackSeed bb bucketIdx sub else Inr seed)"

text \<open>One bucket of \<^verbatim>\<open>encodePayloadsWithWriter\<close>.\<close>

definition write_bucket :: "bijBuilder \<Rightarrow> bool \<Rightarrow> nat \<Rightarrow> nat \<Rightarrow> bucketEntry list \<Rightarrow> nat \<Rightarrow> bytes \<Rightarrow> (nat \<times> bytes) res" where
  "write_bucket bb generic entrySize bucketIdx bucket localIdx dst =
    (let bucketStart = localIdx; fpShift = bb_fingerprintSize bb * 8 in
     rbind (get_at (bb_bucketSizes bb) bucketIdx) (\<lambda>bucketSize.
       if bucketSize = 0 then Inr (localIdx, dst)
       else if bucketSize \<ge> splitThreshold then
         let splitPoint = bucketSize div 2; secondHalfSize = bucketSize - splitPoint in
         rbind (get_at (bb_splitSeedIdx bb) bucketIdx) (\<lambda>seedIdx.
         rbind (get_at_int (bb_splitSeeds bb) seedIdx) (\<lambda>seed0.
         rbind (get_at_int (bb_splitSeeds bb) (seedIdx + 1)) (\<lambda>seed1.
         rbind (stored_seed bb bucketIdx 0 seed0) (\<lambda>seed0.
         rbind (stored_seed bb bucketIdx 1 seed1) (\<lambda>seed1.
         rbind (write_entries
             (\<lambda>entry. let h = mixFromParts (be_mix entry) seed0 (of_nat bucketSize) in
                if h < of_nat splitPoint then unat h
                else splitPoint + unat (mixFromParts (be_mix entry) seed1 (of_nat secondHalfSize)))
             generic entrySize fpShift bucketStart bucket dst) (\<lambda>dst.
           Inr (localIdx + bucketSize, dst)))))))
       else
         rbind (get_at (bb_seeds bb) bucketIdx) (\<lambda>seed.
         rbind (stored_seed bb bucketIdx 0 seed) (\<lambda>seed.
         rbind (write_entries
             (\<lambda>entry. if bucketSize > 1 then unat (mixFromParts (be_mix entry) seed (of_nat bucketSize)) else 0)
             generic entrySize fpShift bucketStart bucket dst) (\<lambda>dst.
           Inr (localIdx + bucketSize, dst))))))"

fun write_buckets :: "bijBuilder \<Rightarrow> bool \<Rightarrow> nat \<Rightarrow> nat \<Rightarrow> bucketEntry list list \<Rightarrow> nat \<Rightarrow> bytes \<Rightarrow> bytes res" where
  "write_buckets bb generic entrySize bucketIdx [] localIdx dst = Inr dst"
| "write_buckets bb generic entrySize bucketIdx (bucket # bs) localIdx dst =
    rbind (write_bucket bb generic entrySize bucketIdx bucket localIdx dst) (\<lambda>(localIdx, dst).
      write_buckets bb generic entrySize (Suc bucketIdx) bs localIdx dst)"

definition encodePayloadsWithWriter :: "bijBuilder \<Rightarrow> bytes \<Rightarrow> nat \<Rightarrow> bool \<Rightarrow> bytes res" where
  "encodePayloadsWithWriter bb dst entrySize generic =
    (if dst = [] then index_panic else write_buckets bb generic entrySize 0 (bb_buckets bb) 0 dst)"

definition bij_encodePayloadsInto :: "bijBuilder \<Rightarrow> bytes \<Rightarrow> (nat \<times> bytes) res" where
  "bij_encodePayloadsInto bb dst =
    (let entrySize = bij_entrySize bb in
     if entrySize = 0 \<or> bb_keysInBlock bb = 0 then Inr (0, dst)
     else let requiredLen = bb_keysInBlock bb * entrySize in
       if length dst < requiredLen
       then Inl (GoPanic ''bijection: encodePayloadsInto: dst buffer too small'')
       else rbind (encodePayloadsWithWriter bb dst entrySize (entrySize \<notin> {1, 4, 5, 8})) (\<lambda>dst.
              Inr (bb_keysInBlock bb * entrySize, dst)))"

subsection \<open>Building a block\<close>

definition buildEmptyMetadataInto :: "bytes \<Rightarrow> (nat \<times> bytes) res" where
  "buildEmptyMetadataInto dst =
    (let efBytes = eliasFanoSize bucketsPerBlock 0 in
     rbind (checkpoints_encode zeroCheckpoints dst 0) (\<lambda>dst.
     let offset = checkpointsSize; efEnd = offset + efBytes in
     rbind (put_bytes dst offset (replicate efBytes 0)) (\<lambda>dst.
     let dst = fold (\<lambda>i dst.
           let byteIdx = i div 8; bitIdx = i mod 8 in
           if offset + byteIdx < efEnd
           then dst[offset + byteIdx := dst ! (offset + byteIdx) OR push_bit bitIdx 1] else dst)
         [0..<bucketsPerBlock] dst;
         offset = offset + efBytes
     in rbind (set_at dst offset 0) (\<lambda>dst. Inr (offset + 1, dst)))))"

text \<open>\<^verbatim>\<open>BuildSeparatedInto\<close>: (metadataLen, payloadsLen, numKeys), the two buffers and the builder.\<close>

definition bij_BuildSeparatedInto :: "bijBuilder \<Rightarrow> bytes \<Rightarrow> bytes \<Rightarrow>
    (nat \<times> nat \<times> nat \<times> bytes \<times> bytes \<times> bijBuilder) res" where
  "bij_BuildSeparatedInto bb metadataDst payloadsDst =
    (if bb_keysInBlock bb = 0 then
       rbind (buildEmptyMetadataInto metadataDst) (\<lambda>(metaLen, metadataDst).
         Inr (metaLen, 0, 0, metadataDst, payloadsDst, bb))
     else if bb_keysInBlock bb > bb_maxKeysPerBlock bb then Inl ErrBlockOverflow
     else rbind (solveBijections (computeCumulativeCounts bb)) (\<lambda>bb.
       rbind (encodeSeparatedMetadataInto bb metadataDst) (\<lambda>(metadataLen, metadataDst, bb).
       rbind (bij_encodePayloadsInto bb payloadsDst) (\<lambda>(payloadsLen, payloadsDst).
         Inr (metadataLen, payloadsLen, bb_keysInBlock bb, metadataDst, payloadsDst, bb)))))"

definition bij_MaxIndexMetadataSize :: "bijBuilder \<Rightarrow> nat" where
  "bij_MaxIndexMetadataSize bb = bij_estimateMetadataSize (bb_maxKeysPerBlock bb)"

definition bij_MaxMetadataSizeForCurrentBlock :: "bijBuilder \<Rightarrow> nat" where
  "bij_MaxMetadataSizeForCurrentBlock bb = bij_estimateMetadataSize (bb_keysInBlock bb)"

end
