(* ===== verification/Bij_Solve_Correct.thy ===== *)
theory Bij_Solve_Correct
  imports Bij_Builder
begin

text \<open>
  Correctness of \<^verbatim>\<open>solveBijections\<close>: after a successful run every bucket has a pair of effective
  seeds under which its entries occupy pairwise distinct slots, and the stored seeds (with the
  fallback list) determine these effective seeds.
\<close>

section \<open>Local slots\<close>

definition localSlot :: "nat \<Rightarrow> u32 \<Rightarrow> u32 \<Rightarrow> mixParts \<Rightarrow> nat" where
  "localSlot n s0 s1 mp =
    (if n \<ge> 8 then
       let h = mixFromParts mp s0 (of_nat n) in
       if h < of_nat (n div 2) then unat h else n div 2 + unat (mixFromParts mp s1 (of_nat (n - n div 2)))
     else if n \<ge> 2 then unat (mixFromParts mp s0 (of_nat n)) else 0)"

lemma localSlot_less:
  assumes "0 < n" and "n < 2 ^ 32"
  shows "localSlot n s0 s1 mp < n"
proof -
  have "unat (mixFromParts mp s0 (of_nat n)) < n"
    using unat_mixFromParts_less assms by simp
  moreover have "unat (mixFromParts mp s1 (of_nat (n - n div 2))) < n - n div 2"
    using unat_mixFromParts_less [of "n - n div 2"] assms by simp
  ultimately show ?thesis
    using assms(1) by (auto simp: localSlot_def Let_def)
qed

lemma distinct_map_filter_parts:
  assumes "distinct (map f (filter P xs))" and "distinct (map f (filter (\<lambda>x. \<not> P x) xs))"
    and "\<And>x y. x \<in> set xs \<Longrightarrow> y \<in> set xs \<Longrightarrow> P x \<Longrightarrow> \<not> P y \<Longrightarrow> f x \<noteq> f y"
  shows "distinct (map f xs)"
  using assms
proof (induction xs)
  case (Cons x xs)
  then have IH: "distinct (map f xs)"
    by (cases "P x") auto
  have "f x \<noteq> f y" if y: "y \<in> set xs" for y
  proof (cases "P x = P y")
    case True
    with Cons.prems(1,2) y show ?thesis
      by (cases "P x") (auto simp: image_iff)
  next
    case False
    then show ?thesis
      using Cons.prems(3) [of x y] Cons.prems(3) [of y x] y by (cases "P x") auto
  qed
  with IH show ?case
    by auto
qed simp

section \<open>Splitting\<close>

definition first_half :: "nat \<Rightarrow> u32 \<Rightarrow> bucketEntry \<Rightarrow> bool" where
  "first_half n seed e \<longleftrightarrow> mixFromParts (be_mix e) seed (of_nat n) < of_nat (n div 2)"

lemma split_loop_Some:
  assumes "n < 2 ^ 32" and "length slots = n div 2"
  shows "split_loop n seed es slots sub0 sub1 = Some (r0, r1) \<longleftrightarrow>
    r0 = sub0 @ filter (first_half n seed) es \<and> r1 = sub1 @ filter (\<lambda>e. \<not> first_half n seed e) es \<and>
    distinct (slots_of (filter (first_half n seed) es) n seed) \<and>
    (\<forall>s\<in>set (slots_of (filter (first_half n seed) es) n seed). \<not> slots ! unat s)"
  using assms(2)
proof (induction es arbitrary: slots sub0 sub1)
  case (Cons e es)
  let ?h = "mixFromParts (be_mix e) seed (of_nat n)"
  show ?case
  proof (cases "first_half n seed e")
    case True
    then have lt: "unat ?h < n div 2"
      using assms(1) by (simp add: first_half_def word_less_nat_alt)
    have "\<not> slots[unat ?h := True] ! unat s \<longleftrightarrow> s \<noteq> ?h \<and> \<not> slots ! unat s" for s
      using lt Cons.prems by (cases "s = ?h") (auto simp flip: word_unat_eq_iff)
    then show ?thesis
      using Cons.IH [of "slots[unat ?h := True]" "sub0 @ [e]" sub1] Cons.prems True
      by (auto simp: Let_def slots_of_Cons first_half_def)
  next
    case False
    then show ?thesis
      using Cons.IH [of slots sub0 "sub1 @ [e]"] Cons.prems by (simp add: Let_def first_half_def)
  qed
qed (auto simp: slots_of_def)

lemma split_try_Some:
  assumes "length bucket < 2 ^ 32"
  shows "split_try bucket seed = Some (r0, r1) \<longleftrightarrow>
    r0 = filter (first_half (length bucket) seed) bucket \<and>
    r1 = filter (\<lambda>e. \<not> first_half (length bucket) seed e) bucket \<and>
    distinct (slots_of r0 (length bucket) seed) \<and> length r0 = length bucket div 2"
proof -
  let ?n = "length bucket"
  have lt: "\<not> replicate (?n div 2) False ! unat s"
    if "s \<in> set (slots_of (filter (first_half ?n seed) bucket) ?n seed)" for s
  proof -
    have "unat s < ?n div 2"
      using that assms by (auto simp: slots_of_def first_half_def word_less_nat_alt)
    then show ?thesis by simp
  qed
  show ?thesis
    using split_loop_Some [OF assms, of "replicate (?n div 2) False" seed bucket "[]" "[]"] lt
    by (auto simp: split_try_def Let_def split: option.splits)
qed

lemma split_distinct:
  assumes n: "length bucket = n" "8 \<le> n" "n < 2 ^ 32"
    and sp: "split_try bucket s0 = Some (r0, r1)" and d1: "distinct (slots_of r1 (length r1) s1)"
  shows "distinct (map (\<lambda>e. localSlot n s0 s1 (be_mix e)) bucket)"
proof (rule distinct_map_filter_parts [where P = "first_half n s0"])
  note st = iffD1 [OF split_try_Some sp, unfolded n(1), OF n(3)]
  have len1: "length r1 = n - n div 2"
  proof -
    have "length r0 + length r1 = n" and "length r0 = n div 2"
      using sum_length_filter_compl [of "first_half n s0" bucket] st n(1) by auto
    then show ?thesis by linarith
  qed
  let ?f = "\<lambda>e. localSlot n s0 s1 (be_mix e)"
  have inj: "distinct (map (\<lambda>x. c + unat x) xs) \<longleftrightarrow> distinct xs" for c and xs :: "u32 list"
    by (simp add: distinct_map inj_on_def word_unat_eq_iff)
  have 0: "map ?f (filter (first_half n s0) bucket) = map (\<lambda>x. 0 + unat x) (slots_of r0 n s0)"
    using st n(2) by (auto simp: slots_of_def localSlot_def first_half_def)
  show "distinct (map ?f (filter (first_half n s0) bucket))"
    unfolding 0 inj using st by blast
  have 1: "map ?f (filter (\<lambda>e. \<not> first_half n s0 e) bucket) = map (\<lambda>x. n div 2 + unat x) (slots_of r1 (length r1) s1)"
    using st n(2) len1 by (auto simp: slots_of_def localSlot_def first_half_def)
  show "distinct (map ?f (filter (\<lambda>e. \<not> first_half n s0 e) bucket))"
    unfolding 1 inj by (rule d1)
  show "?f x \<noteq> ?f y" if "first_half n s0 x" "\<not> first_half n s0 y" for x y
  proof -
    have "?f x < n div 2"
      using that(1) n by (simp add: localSlot_def first_half_def word_less_nat_alt)
    moreover have "n div 2 \<le> ?f y"
      using that(2) n by (simp add: localSlot_def first_half_def)
    ultimately show ?thesis by simp
  qed
qed

section \<open>Stored and effective seeds\<close>

definition seed_ok :: "fallbackEntry list \<Rightarrow> nat \<Rightarrow> u8 \<Rightarrow> u32 \<Rightarrow> u32 \<Rightarrow> nat \<Rightarrow> bool" where
  "seed_ok fl idx sub st s n \<longleftrightarrow>
    (if st = fallbackMarker then fb_lookup fl idx sub = Some s else st = s \<and> (2 \<le> n \<longrightarrow> \<not> escaped st n))"

definition bucket_solved :: "bijBuilder \<Rightarrow> nat \<Rightarrow> bucketEntry list \<Rightarrow> u32 \<Rightarrow> u32 \<Rightarrow> bool" where
  "bucket_solved bb idx bucket s0 s1 \<longleftrightarrow>
    (let n = length bucket in
     distinct (map (\<lambda>e. localSlot n s0 s1 (be_mix e)) bucket) \<and>
     (if n \<ge> 8 then
        \<exists>k. bb_splitSeedIdx bb ! idx = int k \<and> k + 1 < length (bb_splitSeeds bb) \<and>
          seed_ok (bb_fallbackList bb) idx 0 (bb_splitSeeds bb ! k) s0 (n div 2) \<and>
          seed_ok (bb_fallbackList bb) idx 1 (bb_splitSeeds bb ! (k + 1)) s1 (n - n div 2)
      else seed_ok (bb_fallbackList bb) idx 0 (bb_seeds bb ! idx) s0 n))"

lemma fb_lookup_append:
  "fb_lookup (xs @ ys) idx sub = (case fb_lookup xs idx sub of Some s \<Rightarrow> Some s | None \<Rightarrow> fb_lookup ys idx sub)"
  by (induction xs) (auto simp: fb_lookup_def)

lemma seed_ok_append: "seed_ok xs idx sub st s n \<Longrightarrow> seed_ok (xs @ ys) idx sub st s n"
  by (auto simp: seed_ok_def fb_lookup_append split: if_splits)

lemma fb_lookup_below:
  assumes "\<forall>e\<in>set fl. unat (bucketIndex e) < idx" and "idx < 65536"
  shows "fb_lookup fl idx sub = None"
proof -
  have "bucketIndex e \<noteq> of_nat idx" if "e \<in> set fl" for e
    using assms that by auto
  then show ?thesis
    by (auto simp: fb_lookup_def find_None_iff)
qed

text \<open>The extension of a builder by the solving loop from bucket \<open>idx\<close> on.\<close>

definition solve_ext :: "nat \<Rightarrow> nat \<Rightarrow> bijBuilder \<Rightarrow> bijBuilder \<Rightarrow> bool" where
  "solve_ext lo hi bb bb' \<longleftrightarrow>
    (\<exists>ss ix sp fl. bb' = bb\<lparr>bb_seeds := ss, bb_splitSeedIdx := ix, bb_splitSeeds := bb_splitSeeds bb @ sp,
        bb_fallbackList := bb_fallbackList bb @ fl\<rparr> \<and>
      length ss = length (bb_seeds bb) \<and> length ix = length (bb_splitSeedIdx bb) \<and>
      (\<forall>j<lo. ss ! j = bb_seeds bb ! j \<and> ix ! j = bb_splitSeedIdx bb ! j) \<and>
      (\<forall>e\<in>set fl. fe_ok e \<and> unat (bucketIndex e) < hi))"

lemma solve_ext_refl: "solve_ext lo hi bb bb"
  by (cases bb) (simp add: solve_ext_def)

lemma solve_ext_trans:
  assumes "solve_ext lo hi bb bb'" and "solve_ext lo' hi' bb' bb''" and "lo \<le> lo'" and "hi \<le> hi'"
  shows "solve_ext lo hi' bb bb''"
proof -
  obtain ss ix sp fl where 1: "bb' = bb\<lparr>bb_seeds := ss, bb_splitSeedIdx := ix, bb_splitSeeds := bb_splitSeeds bb @ sp,
        bb_fallbackList := bb_fallbackList bb @ fl\<rparr>"
      "length ss = length (bb_seeds bb)" "length ix = length (bb_splitSeedIdx bb)"
      "\<forall>j<lo. ss ! j = bb_seeds bb ! j \<and> ix ! j = bb_splitSeedIdx bb ! j"
      "\<forall>e\<in>set fl. fe_ok e \<and> unat (bucketIndex e) < hi"
    using assms(1) unfolding solve_ext_def by blast
  obtain ss' ix' sp' fl' where 2: "bb'' = bb'\<lparr>bb_seeds := ss', bb_splitSeedIdx := ix',
        bb_splitSeeds := bb_splitSeeds bb' @ sp', bb_fallbackList := bb_fallbackList bb' @ fl'\<rparr>"
      "length ss' = length (bb_seeds bb')" "length ix' = length (bb_splitSeedIdx bb')"
      "\<forall>j<lo'. ss' ! j = bb_seeds bb' ! j \<and> ix' ! j = bb_splitSeedIdx bb' ! j"
      "\<forall>e\<in>set fl'. fe_ok e \<and> unat (bucketIndex e) < hi'"
    using assms(2) unfolding solve_ext_def by blast
  show ?thesis
    unfolding solve_ext_def
    by (rule exI [of _ ss'], rule exI [of _ ix'], rule exI [of _ "sp @ sp'"], rule exI [of _ "fl @ fl'"])
      (use 1 2 assms(3,4) in auto)
qed

lemma bucket_solved_ext:
  assumes "bucket_solved bb idx bucket s0 s1" and "solve_ext lo hi bb bb'" and "idx < lo"
  shows "bucket_solved bb' idx bucket s0 s1"
  using assms by (auto simp: bucket_solved_def solve_ext_def Let_def nth_append intro: seed_ok_append split: if_splits)

section \<open>One bucket\<close>

lemma solve_ref_ok:
  assumes "solve_ref bucket (maxEncodableSeed n) = (s, False)" and "length bucket = n" and "2 \<le> n" and "n \<le> 8"
  shows "distinct (slots_of bucket n s)" and "\<not> escaped s n" and "s \<noteq> fallbackMarker"
proof -
  have "distinct (slots_of bucket n s)" and "s < maxEncodableSeed n"
    using seed_search_found [OF assms(1) [unfolded solve_ref_def]] assms(2) by auto
  then show "distinct (slots_of bucket n s)" and ne: "\<not> escaped s n"
    using not_escaped_iff assms by auto
  then show "s \<noteq> fallbackMarker"
    by auto
qed

lemma distinct_localSlot:
  assumes "2 \<le> n" and "n < 8"
  shows "distinct (map (\<lambda>e. localSlot n s0 s1 (be_mix e)) bucket) \<longleftrightarrow> distinct (slots_of bucket n s0)"
proof -
  have "map (\<lambda>e. localSlot n s0 s1 (be_mix e)) bucket = map unat (slots_of bucket n s0)"
    using assms by (simp add: slots_of_def localSlot_def)
  then show ?thesis
    by (simp add: distinct_map inj_on_def word_unat_eq_iff)
qed

lemma solve_small_ok:
  assumes n: "length bucket = n" "2 \<le> n" "n < 8" and idx: "idx < length (bb_seeds bb)" "idx < 1024"
    and fl: "\<forall>e\<in>set (bb_fallbackList bb). unat (bucketIndex e) < idx"
    and run: "solve_bucket idx bucket bb = Inr bb'"
  shows "\<exists>s0 s1. bucket_solved bb' idx bucket s0 s1 \<and> solve_ext idx (Suc idx) bb bb'"
proof -
  obtain s nf where r: "solve_ref bucket (maxEncodableSeed n) = (s, nf)"
    by (cases "solve_ref bucket (maxEncodableSeed n)")
  have dir: "solveDirectBucket bucket n = Inr (s, nf)"
    using solveDirectBucket_ref [OF n(1,2)] n(3) r by simp
  show ?thesis
  proof (cases nf)
    case False
    then have "bb' = bb\<lparr>bb_seeds := (bb_seeds bb)[idx := s]\<rparr>"
      using run n idx dir by (simp add: solve_bucket_def)
    moreover have "distinct (slots_of bucket n s)" "\<not> escaped s n" "s \<noteq> fallbackMarker"
      using solve_ref_ok [of bucket n s] r False n by auto
    ultimately have "bucket_solved bb' idx bucket s 0"
      using n idx by (simp add: bucket_solved_def seed_ok_def distinct_localSlot)
    moreover have "solve_ext idx (Suc idx) bb bb'"
      unfolding solve_ext_def \<open>bb' = _\<close>
      by (intro exI [of _ "(bb_seeds bb)[idx := s]"] exI [of _ "bb_splitSeedIdx bb"] exI [of _ "[]"]) simp
    ultimately show ?thesis by blast
  next
    case True
    then obtain s' where s': "solveExtended bucket n = Inr s'"
        "bb' = bb\<lparr>bb_fallbackList := bb_fallbackList bb @ [\<lparr>bucketIndex = of_nat idx, subBucket = 0, fe_seed = s'\<rparr>],
          bb_seeds := (bb_seeds bb)[idx := fallbackMarker]\<rparr>"
      using run n idx dir by (auto simp: solve_bucket_def res_simps)
    note ext = solveExtended_ok [OF n(1,2) _ s'(1)]
    have "fb_lookup (bb_fallbackList bb @ [\<lparr>bucketIndex = of_nat idx, subBucket = 0, fe_seed = s'\<rparr>]) idx 0 = Some s'"
      using fb_lookup_below [OF fl] idx(2) by (simp add: fb_lookup_append) (simp add: fb_lookup_def)
    then have "bucket_solved bb' idx bucket s' 0"
      using s'(2) n idx ext by (simp add: bucket_solved_def seed_ok_def distinct_localSlot)
    moreover have "solve_ext idx (Suc idx) bb bb'"
      unfolding solve_ext_def s'(2) using ext(2) idx n
      by (intro exI [of _ "(bb_seeds bb)[idx := fallbackMarker]"] exI [of _ "bb_splitSeedIdx bb"] exI [of _ "[]"]
          exI [of _ "[\<lparr>bucketIndex = of_nat idx, subBucket = 0, fe_seed = s'\<rparr>]"]) (simp add: fe_ok_def)
    ultimately show ?thesis by blast
  qed
qed

text \<open>The two seeds of a split bucket, each in the stream or in the fallback list.\<close>

definition fb_entry :: "nat \<Rightarrow> u8 \<Rightarrow> u32 \<Rightarrow> fallbackEntry" where
  "fb_entry idx sub s = \<lparr>bucketIndex = of_nat idx, subBucket = sub, fe_seed = s\<rparr>"

lemma fb_entry_ok: "idx < 1024 \<Longrightarrow> sub \<le> 1 \<Longrightarrow> unat s < 2 ^ 21 \<Longrightarrow> fe_ok (fb_entry idx sub s) \<and> unat (bucketIndex (fb_entry idx sub s)) = idx"
  by (simp add: fb_entry_def fe_ok_def word_le_nat_alt)

lemma fb_lookup_Cons_entry:
  "fb_lookup (fb_entry idx sub s # fl) idx sub' = (if sub = sub' then Some s else fb_lookup fl idx sub')"
  by (simp add: fb_lookup_def fb_entry_def)

lemma solveSplitBucket_ok:
  assumes n: "length bucket = n" "8 \<le> n" "n < 2 ^ 32" and idx: "idx < 1024"
    and below: "\<forall>e\<in>set (bb_fallbackList bb). unat (bucketIndex e) < idx"
    and run: "solveSplitBucket bb idx bucket = Inr (st0, st1, bb')"
  obtains s0 s1 fl where "bb' = bb\<lparr>bb_fallbackList := bb_fallbackList bb @ fl\<rparr>"
    and "\<forall>e\<in>set fl. fe_ok e \<and> unat (bucketIndex e) = idx"
    and "seed_ok (bb_fallbackList bb @ fl) idx 0 st0 s0 (n div 2)"
    and "seed_ok (bb_fallbackList bb @ fl) idx 1 st1 s1 (n - n div 2)"
    and "distinct (map (\<lambda>e. localSlot n s0 s1 (be_mix e)) bucket)"
proof -
  have none: "fb_lookup (bb_fallbackList bb) idx sub = None" for sub
    using fb_lookup_below [OF below] idx by simp
  obtain s where s: "first_upto (\<lambda>s. split_try bucket (of_nat s) \<noteq> None) 0 splitBucketMaxSeed = Some s"
    using run by (auto simp: solveSplitBucket_def Let_def split: option.splits if_splits)
  define s0 :: u32 where "s0 = of_nat s"
  have s20: "unat s0 < 2 ^ 20" and "split_try bucket s0 \<noteq> None"
    using first_upto_Some [OF s] by (auto simp: s0_def splitBucketMaxSeed_def)
  then obtain r0 r1 where r: "split_try bucket s0 = Some (r0, r1)"
    by auto
  have len1: "length r1 = n - n div 2"
  proof -
    note st = iffD1 [OF split_try_Some r, unfolded n(1), OF n(3)]
    have "length r0 + length r1 = n" and "length r0 = n div 2"
      using sum_length_filter_compl [of "first_half n s0" bucket] st n(1) by auto
    then show ?thesis by linarith
  qed
  define c where "c \<longleftrightarrow> n div 2 > 8 \<or> s0 \<ge> maxEncodableSeed (n div 2)"
  define fa where "fa = (if c then [fb_entry idx 0 s0] else [])"
  have l1: "2 \<le> length r1" "length r1 < 2 ^ 32"
    using len1 n by auto
  obtain s1 nf where d: "(if length r1 > 8 then Inr (0, True) else solveDirectBucket r1 (length r1)) = Inr (s1, nf)"
    using solveDirectBucket_ref [OF refl l1] by (metis old.prod.exhaust)
  define t0 where "t0 = (if c then fallbackMarker else s0)"
  have rest: "(if nf then rbind (solveExtended r1 (length r1)) (\<lambda>seed1.
            Inr (t0, fallbackMarker, bb\<lparr>bb_fallbackList := (bb_fallbackList bb @ fa) @ [fb_entry idx 1 seed1]\<rparr>))
          else Inr (t0, s1, bb\<lparr>bb_fallbackList := bb_fallbackList bb @ fa\<rparr>)) = Inr (st0, st1, bb')"
    using run l1(1)
    unfolding solveSplitBucket_def Let_def n(1) s option.case s0_def [symmetric] r option.sel snd_conv
      c_def [symmetric] d rbind_Inr
    by (cases c; cases nf) (simp_all add: fa_def t0_def fb_entry_def d)
  have fa_ok: "\<forall>e\<in>set fa. fe_ok e \<and> unat (bucketIndex e) = idx"
    using fb_entry_ok [OF idx, of 0 s0] s20 by (simp add: fa_def)
  have none1: "fb_lookup (bb_fallbackList bb @ fa) idx 1 = None"
    by (simp add: fb_lookup_append none fa_def fb_lookup_Cons_entry) (simp add: fb_lookup_def)
  have st0: "st0 = t0"
    using rest by (cases nf) (auto simp: res_simps)
  have ok0: "seed_ok (bb_fallbackList bb @ fa) idx 0 st0 s0 (n div 2)"
  proof (cases c)
    case True
    then show ?thesis
      by (simp add: seed_ok_def st0 t0_def fb_lookup_append none fa_def fb_lookup_Cons_entry)
  next
    case False
    then have "\<not> escaped s0 (n div 2)"
      using not_escaped_iff [of "n div 2" s0] n(2) by (auto simp: c_def)
    with False show ?thesis
      by (auto simp: seed_ok_def st0 t0_def)
  qed
  show ?thesis
  proof (cases nf)
    case True
    then obtain s1' where e: "solveExtended r1 (length r1) = Inr s1'" "st1 = fallbackMarker"
        "bb' = bb\<lparr>bb_fallbackList := (bb_fallbackList bb @ fa) @ [fb_entry idx 1 s1']\<rparr>"
      using rest by (auto simp: res_simps)
    note ext = solveExtended_ok [OF refl l1 e(1)]
    have "seed_ok ((bb_fallbackList bb @ fa) @ [fb_entry idx 1 s1']) idx 1 st1 s1' (n - n div 2)"
      unfolding seed_ok_def fb_lookup_append [of "bb_fallbackList bb @ fa"]
      by (simp add: e(2) none1 fb_lookup_Cons_entry)
    then show ?thesis
      using that [of "fa @ [fb_entry idx 1 s1']" s0 s1'] e(3) fa_ok fb_entry_ok [OF idx, of 1 s1'] ext
        seed_ok_append [OF ok0, of "[fb_entry idx 1 s1']"] split_distinct [OF n r ext(1)]
      by simp
  next
    case False
    then have ref: "solve_ref r1 (maxEncodableSeed (length r1)) = (s1, False)" and l8: "length r1 \<le> 8"
      using d solveDirectBucket_ref [OF refl l1] by (auto split: if_splits)
    note ok1 = solve_ref_ok [OF ref refl l1(1) l8]
    have e: "st1 = s1" "bb' = bb\<lparr>bb_fallbackList := bb_fallbackList bb @ fa\<rparr>"
      using rest False by auto
    show ?thesis
      using that [of fa s0 s1] e fa_ok ok0 ok1 split_distinct [OF n r ok1(1)] len1
      by (simp add: seed_ok_def)
  qed
qed

lemma solve_split_ok:
  assumes n: "length bucket = n" "8 \<le> n" "n < 2 ^ 32" and idx: "idx < length (bb_splitSeedIdx bb)" "idx < 1024"
    and fl: "\<forall>e\<in>set (bb_fallbackList bb). unat (bucketIndex e) < idx"
    and run: "solve_bucket idx bucket bb = Inr bb'"
  shows "\<exists>s0 s1. bucket_solved bb' idx bucket s0 s1 \<and> solve_ext idx (Suc idx) bb bb'"
proof -
  obtain st0 st1 bb1 where sp: "solveSplitBucket bb idx bucket = Inr (st0, st1, bb1)"
    and run1: "rbind (set_at (bb_splitSeedIdx bb1) idx (int (length (bb_splitSeeds bb1)))) (\<lambda>ix.
         Inr (bb1\<lparr>bb_splitSeedIdx := ix, bb_splitSeeds := bb_splitSeeds bb1 @ [st0, st1]\<rparr>)) = Inr bb'"
    using run n by (auto simp: solve_bucket_def res_simps)
  obtain s0 s1 fl where f: "bb1 = bb\<lparr>bb_fallbackList := bb_fallbackList bb @ fl\<rparr>"
    "\<forall>e\<in>set fl. fe_ok e \<and> unat (bucketIndex e) = idx"
    "seed_ok (bb_fallbackList bb @ fl) idx 0 st0 s0 (n div 2)"
    "seed_ok (bb_fallbackList bb @ fl) idx 1 st1 s1 (n - n div 2)"
    "distinct (map (\<lambda>e. localSlot n s0 s1 (be_mix e)) bucket)"
    by (rule solveSplitBucket_ok [OF n idx(2) fl sp])
  define ix where "ix = (bb_splitSeedIdx bb)[idx := int (length (bb_splitSeeds bb))]"
  have bb': "bb' = bb\<lparr>bb_fallbackList := bb_fallbackList bb @ fl, bb_splitSeedIdx := ix,
      bb_splitSeeds := bb_splitSeeds bb @ [st0, st1]\<rparr>"
    using run1 idx f(1) by (simp add: ix_def)
  have "bucket_solved bb' idx bucket s0 s1"
    using f n idx unfolding bucket_solved_def bb'
    by (simp add: ix_def exI [of _ "length (bb_splitSeeds bb)"] nth_append)
  moreover have "solve_ext idx (Suc idx) bb bb'"
    unfolding solve_ext_def bb'
    by (intro exI [of _ "bb_seeds bb"] exI [of _ ix] exI [of _ "[st0, st1]"] exI [of _ fl])
      (use f(2) in \<open>auto simp: ix_def\<close>)
  ultimately show ?thesis by blast
qed

lemma solve_tiny_ok:
  assumes "length bucket \<le> 1" and "idx < length (bb_seeds bb)" and "solve_bucket idx bucket bb = Inr bb'"
  shows "\<exists>s0 s1. bucket_solved bb' idx bucket s0 s1 \<and> solve_ext idx (Suc idx) bb bb'"
proof -
  have bb': "bb' = bb\<lparr>bb_seeds := (bb_seeds bb)[idx := 0]\<rparr>"
    using assms by (simp add: solve_bucket_def)
  have "distinct (map f bucket)" for f :: "bucketEntry \<Rightarrow> nat"
    using assms(1) by (cases bucket) auto
  then have "bucket_solved bb' idx bucket 0 0"
    using assms by (auto simp: bucket_solved_def seed_ok_def bb' fallbackMarker_def)
  moreover have "solve_ext idx (Suc idx) bb bb'"
    unfolding solve_ext_def bb'
    by (intro exI [of _ "(bb_seeds bb)[idx := 0]"] exI [of _ "bb_splitSeedIdx bb"] exI [of _ "[]"]) simp
  ultimately show ?thesis by blast
qed

section \<open>All buckets\<close>

lemma solve_loop_ok:
  assumes "solve_loop idx bs bb = Inr bb'" and "idx + length bs \<le> 1024"
    and "length (bb_seeds bb) = 1024" and "length (bb_splitSeedIdx bb) = 1024"
    and "\<forall>e\<in>set (bb_fallbackList bb). unat (bucketIndex e) < idx"
    and "\<forall>b\<in>set bs. length b < 2 ^ 32"
  shows "(\<forall>j<length bs. \<exists>s0 s1. bucket_solved bb' (idx + j) (bs ! j) s0 s1) \<and> solve_ext idx (idx + length bs) bb bb'"
  using assms
proof (induction bs arbitrary: idx bb)
  case Nil
  then show ?case
    by (simp add: solve_ext_refl)
next
  case (Cons b bs)
  obtain bb1 where 1: "solve_bucket idx b bb = Inr bb1" "solve_loop (Suc idx) bs bb1 = Inr bb'"
    using Cons.prems(1) by (auto simp: res_simps)
  consider "length b \<le> 1" | "2 \<le> length b" "length b < 8" | "8 \<le> length b"
    by linarith
  then obtain s0 s1 where b: "bucket_solved bb1 idx b s0 s1" "solve_ext idx (Suc idx) bb bb1"
  proof cases
    case 1
    then show ?thesis
      using that solve_tiny_ok [OF 1 _ \<open>solve_bucket idx b bb = Inr bb1\<close>] Cons.prems by auto
  next
    case 2
    then show ?thesis
      using that solve_small_ok [OF refl 2 _ _ _ 1(1)] Cons.prems by auto
  next
    case 3
    then show ?thesis
      using that solve_split_ok [OF refl 3 _ _ _ _ 1(1)] Cons.prems by auto
  qed
  have len: "length (bb_seeds bb1) = 1024" "length (bb_splitSeedIdx bb1) = 1024"
    "\<forall>e\<in>set (bb_fallbackList bb1). unat (bucketIndex e) < Suc idx"
    using b(2) Cons.prems(3,4,5) by (auto simp: solve_ext_def less_Suc_eq)
  note IH = Cons.IH [OF 1(2) _ len]
  have ih: "\<forall>j<length bs. \<exists>s0 s1. bucket_solved bb' (Suc idx + j) (bs ! j) s0 s1"
    "solve_ext (Suc idx) (Suc idx + length bs) bb1 bb'"
    using IH Cons.prems(2,6) by auto
  have "bucket_solved bb' idx b s0 s1"
    using bucket_solved_ext [OF b(1) ih(2)] by simp
  then have "\<exists>s0 s1. bucket_solved bb' (idx + j) ((b # bs) ! j) s0 s1" if "j < length (b # bs)" for j
    using ih(1) that by (cases j) auto
  moreover have "solve_ext idx (idx + length (b # bs)) bb bb'"
    using solve_ext_trans [OF b(2) ih(2)] by simp
  ultimately show ?case by blast
qed

end
