(* ===== verification/Bij_Encode_Correct.thy ===== *)
theory Bij_Encode_Correct
  imports Bij_Solve_Correct
begin

text \<open>
  What the metadata encoder of a block writes: the cumulative counts, the two checkpoint arrays, and
  the seed stream as the concatenation of the buckets' seed codes.
\<close>

section \<open>Cumulative counts\<close>

definition starts :: "bucketEntry list list \<Rightarrow> nat \<Rightarrow> nat" where
  "starts bs i = sum_list (map length (take i bs))"

lemma starts_0 [simp]: "starts bs 0 = 0"
  by (simp add: starts_def)

lemma starts_Suc: "i < length bs \<Longrightarrow> starts bs (Suc i) = starts bs i + length (bs ! i)"
  by (simp add: starts_def take_Suc_conv_app_nth)

lemma starts_mono: "i \<le> j \<Longrightarrow> starts bs i \<le> starts bs j"
proof -
  assume "i \<le> j"
  then have "take j bs = take i bs @ drop i (take j bs)"
    by (metis append_take_drop_id min_absorb1 take_take)
  then have "starts bs j = starts bs i + sum_list (map length (drop i (take j bs)))"
    unfolding starts_def by (metis map_append sum_list_append)
  then show ?thesis by simp
qed

lemma cumulative_loop_nth:
  "i < length bs \<Longrightarrow> cumulative_loop bs c ! i = c + of_nat (starts bs (Suc i))"
proof (induction bs arbitrary: c i)
  case (Cons b bs)
  show ?case
  proof (cases i)
    case (Suc j)
    then have "cumulative_loop bs (c + of_nat (length b)) ! j = (c + of_nat (length b)) + of_nat (starts bs (Suc j))"
      using Cons.prems by (intro Cons.IH) simp
    then show ?thesis
      using Suc by (simp add: starts_def Let_def add.assoc)
  qed (simp add: starts_def Let_def)
qed simp

lemma length_cumulative_loop [simp]: "length (cumulative_loop bs c) = length bs"
  by (induction bs arbitrary: c) (auto simp: Let_def)

text \<open>A well-formed builder after the counting step; \<open>K\<close> keys.\<close>

definition counted :: "bijBuilder \<Rightarrow> bool" where
  "counted bb \<longleftrightarrow> length (bb_buckets bb) = 1024 \<and> bb_bucketSizes bb = map length (bb_buckets bb) \<and>
     bb_cumulative bb = cumulative_loop (bb_buckets bb) 0 \<and> bb_keysInBlock bb = starts (bb_buckets bb) 1024 \<and>
     bb_keysInBlock bb < 65536 \<and> length (bb_seeds bb) = 1024 \<and> length (bb_splitSeedIdx bb) = 1024"

lemma counted_cum:
  assumes "counted bb" and "i < 1024"
  shows "unat (bb_cumulative bb ! i) = starts (bb_buckets bb) (Suc i)"
proof -
  have "starts (bb_buckets bb) (Suc i) < 65536"
    using assms starts_mono [of "Suc i" 1024 "bb_buckets bb"] by (simp add: counted_def)
  then show ?thesis
    using assms by (simp add: counted_def cumulative_loop_nth)
qed

lemma counted_ef:
  assumes "counted bb"
  shows "\<exists>d. encodeEliasFanoInto (bb_cumulative bb) (bb_keysInBlock bb) = Inr d \<and>
    length d = eliasFanoSize 1024 (bb_keysInBlock bb) \<and>
    (\<forall>rest. ef_data (d @ rest) (bb_cumulative bb) (computeEFLowBits 1024 (bb_keysInBlock bb)) (bb_keysInBlock bb))"
proof -
  let ?c = "bb_cumulative bb" and ?K = "bb_keysInBlock bb"
  have len: "length ?c = 1024"
    using assms by (simp add: counted_def)
  then have ne: "?c \<noteq> []"
    by auto
  have "sorted (map unat ?c)"
    using starts_mono by (auto simp: sorted_iff_nth_mono len counted_cum [OF assms])
  moreover have "\<forall>v\<in>set ?c. unat v \<le> ?K"
    using assms starts_mono [of _ 1024] by (auto simp: in_set_conv_nth len counted_cum [OF assms])
      (auto simp: counted_def)
  moreover have "?K < 65536"
    using assms by (simp add: counted_def)
  ultimately have ex: "\<exists>d. encodeEliasFanoInto ?c ?K = Inr d \<and> length d = eliasFanoSize 1024 ?K \<and>
      ef_data (d @ rest) ?c (computeEFLowBits 1024 ?K) ?K" for rest
    using encodeEliasFanoInto_ef_data [OF ne, of ?K rest] len by simp
  obtain d where d: "encodeEliasFanoInto ?c ?K = Inr d" "length d = eliasFanoSize 1024 ?K"
    using ex by blast
  have "ef_data (d @ rest) ?c (computeEFLowBits 1024 ?K) ?K" for rest
    using ex [of rest] d(1) by auto
  with d show ?thesis by blast
qed

section \<open>Checkpoints of the Elias-Fano part\<close>

lemma ef_checkpoint_loop_ok:
  assumes "counted bb" and L: "L = computeEFLowBits 1024 (bb_keysInBlock bb)"
    and "a \<le> 7" and "length (efBitPos cp) = 7"
  shows "\<exists>ps. ef_checkpoint_loop (bb_cumulative bb) L 1024 [a..<7] cp = Inr (cp\<lparr>efBitPos := ps\<rparr>) \<and> length ps = 7 \<and>
    (\<forall>i<7. ps ! i = (if i < a then efBitPos cp ! i
      else of_nat ((i + 1) * 128 + ef_high (bb_cumulative bb) L ((i + 1) * 128))))"
  using assms(3,4)
proof (induction "7 - a" arbitrary: a cp)
  case 0
  then show ?case
    by (intro exI [of _ "efBitPos cp"]) auto
next
  case (Suc m)
  then have a: "a < 7" and m: "m = 7 - Suc a"
    by auto
  define p where "p = (a + 1) * 128 + ef_high (bb_cumulative bb) L ((a + 1) * 128)"
  have K: "bb_keysInBlock bb < 65536"
    using assms(1) by (simp add: counted_def)
  have len: "length (bb_cumulative bb) = 1024"
    using assms(1) by (simp add: counted_def)
  obtain d where "ef_data (d @ []) (bb_cumulative bb) L (bb_keysInBlock bb)"
    using counted_ef [OF assms(1)] L by blast
  then have "ef_high (bb_cumulative bb) L ((a + 1) * 128) \<le> drop_bit L (bb_keysInBlock bb)"
    using ef_high_le a len by fastforce
  moreover have "drop_bit L (bb_keysInBlock bb) \<le> 2048"
    using computeEFLowBits_high [of 1024 "bb_keysInBlock bb"] L by auto
  ultimately have p: "p \<le> 65535"
    using a by (simp add: p_def)
  have L16: "L < 16"
    using computeEFLowBits_le [OF K, of 1024] L by simp
  define cp' where "cp' = cp\<lparr>efBitPos := (efBitPos cp)[a := of_nat p]\<rparr>"
  have step: "ef_checkpoint_loop (bb_cumulative bb) L 1024 [a..<7] cp =
      ef_checkpoint_loop (bb_cumulative bb) L 1024 [Suc a..<7] cp'"
    unfolding upt_conv_Cons [OF a] cp'_def
    using a p L16 len Suc.prems(2) by (simp add: Let_def p_def ef_high_def)
  obtain ps where ps: "ef_checkpoint_loop (bb_cumulative bb) L 1024 [Suc a..<7] cp' = Inr (cp'\<lparr>efBitPos := ps\<rparr>)"
    "length ps = 7" "\<forall>i<7. ps ! i = (if i < Suc a then efBitPos cp' ! i
      else of_nat ((i + 1) * 128 + ef_high (bb_cumulative bb) L ((i + 1) * 128)))"
    using Suc.hyps(1) [OF m, of cp'] a Suc.prems(2) by (auto simp: cp'_def)
  show ?case
    using step ps Suc.prems(2) a
    by (intro exI [of _ ps]) (auto simp: cp'_def p_def nth_list_update less_Suc_eq)
qed

section \<open>Seed stream\<close>

definition bucket_code :: "bijBuilder \<Rightarrow> nat \<Rightarrow> bool list" where
  "bucket_code bb idx =
    (let n = length (bb_buckets bb ! idx) in
     if n \<le> 1 then []
     else if n \<ge> 8 then
       let k = nat (bb_splitSeedIdx bb ! idx) in
       seed_code (bb_splitSeeds bb ! k) (n div 2) @ seed_code (bb_splitSeeds bb ! (k + 1)) (n - n div 2)
     else seed_code (bb_seeds bb ! idx) n)"

definition stream :: "bijBuilder \<Rightarrow> nat \<Rightarrow> bool list" where
  "stream bb idx = concat (map (bucket_code bb) [0..<idx])"

lemma stream_Suc: "stream bb (Suc idx) = stream bb idx @ bucket_code bb idx"
  by (simp add: stream_def)

lemma length_bucket_code_le: "length (bucket_code bb idx) \<le> 48"
  using length_seed_code_le
  by (auto simp: bucket_code_def Let_def intro: order_trans [OF length_seed_code_le] intro!: add_le_mono [of _ 24 _ 24, simplified])

lemma length_stream_le: "length (stream bb idx) \<le> 48 * idx"
proof (induction idx)
  case (Suc idx)
  then show ?case
    using length_bucket_code_le [of bb idx] by (simp add: stream_Suc)
qed (simp add: stream_def)

lemma put_seed_bits:
  assumes "bw_inv bw" and "2 \<le> sz"
  shows "bw_bits (put_seed bw st sz) = bw_bits bw @ seed_code st sz \<and> bw_inv (put_seed bw st sz)"
  using encodeFallbackMarker_bits [OF assms] encodeSeed_bits [OF assms(1)] by (simp add: put_seed_def)

definition all_solved :: "bijBuilder \<Rightarrow> bool" where
  "all_solved bb \<longleftrightarrow> counted bb \<and> (\<forall>i<1024. \<exists>s0 s1. bucket_solved bb i (bb_buckets bb ! i) s0 s1)"

lemma encode_bucket_seeds_ok:
  assumes "all_solved bb" and idx: "idx < 1024" and "bw_inv bw"
  shows "\<exists>bw'. encode_bucket_seeds bb idx bw = Inr bw' \<and> bw_bits bw' = bw_bits bw @ bucket_code bb idx \<and> bw_inv bw'"
proof -
  define n where "n = length (bb_buckets bb ! idx)"
  have sz: "get_at (bb_bucketSizes bb) idx = Inr n"
    and len: "length (bb_seeds bb) = 1024" "length (bb_splitSeedIdx bb) = 1024"
    using assms(1) idx by (auto simp: all_solved_def counted_def n_def)
  obtain s0 s1 where sol: "bucket_solved bb idx (bb_buckets bb ! idx) s0 s1"
    using assms(1) idx by (auto simp: all_solved_def)
  consider "n \<le> 1" | "2 \<le> n" "n < 8" | "8 \<le> n"
    by linarith
  then show ?thesis
  proof cases
    case 1
    then show ?thesis
      using sz assms(3) by (simp add: encode_bucket_seeds_def bucket_code_def flip: n_def)
  next
    case 2
    then show ?thesis
      using sz len idx put_seed_bits [OF assms(3), of n "bb_seeds bb ! idx"]
      by (simp add: encode_bucket_seeds_def bucket_code_def flip: n_def)
  next
    case 3
    then obtain k where k: "bb_splitSeedIdx bb ! idx = int k" "k + 1 < length (bb_splitSeeds bb)"
      using sol by (auto simp: bucket_solved_def n_def Let_def)
    let ?st0 = "bb_splitSeeds bb ! k" and ?st1 = "bb_splitSeeds bb ! (k + 1)"
    have h: "2 \<le> n div 2" "2 \<le> n - n div 2"
      using 3 by auto
    note p0 = put_seed_bits [OF assms(3) h(1), of ?st0]
    note p1 = put_seed_bits [OF conjunct2 [OF p0] h(2), of ?st1]
    have "encode_bucket_seeds bb idx bw = Inr (put_seed (put_seed bw ?st0 (n div 2)) ?st1 (n - n div 2))"
      using sz 3 k len idx by (simp add: encode_bucket_seeds_def get_at_int_def nat_add_distrib Let_def)
    moreover have "bucket_code bb idx = seed_code ?st0 (n div 2) @ seed_code ?st1 (n - n div 2)"
      using 3 k by (simp add: bucket_code_def flip: n_def)
    ultimately show ?thesis
      using p0 p1 by simp
  qed
qed

lemma seed_stream_loop_ok:
  assumes sol: "all_solved bb" and "a \<le> 1024" and "bw_inv bw" and "bw_bits bw = stream bb a"
    and "length (seedBitPos cp) = 7"
  shows "\<exists>bw' ps. seed_stream_loop bb [a..<1024] bw cp = Inr (bw', cp\<lparr>seedBitPos := ps\<rparr>) \<and>
    bw_inv bw' \<and> bw_bits bw' = stream bb 1024 \<and> length ps = 7 \<and>
    (\<forall>i<7. ps ! i = (if (i + 1) * 128 < a then seedBitPos cp ! i else of_nat (length (stream bb ((i + 1) * 128)))))"
  using assms(2-)
proof (induction "1024 - a" arbitrary: a bw cp)
  case 0
  then show ?case
    by (intro exI [of _ bw] exI [of _ "seedBitPos cp"]) auto
next
  case (Suc m)
  then have a: "a < 1024" and m: "m = 1024 - Suc a"
    by auto
  define q where "q = a div 128"
  define ps1 where "ps1 = (if 0 < a \<and> a mod 128 = 0 then (seedBitPos cp)[q - 1 := of_nat (length (stream bb a))]
      else seedBitPos cp)"
  have pos: "bitsWritten bw \<le> 65535"
    using Suc.prems(3) length_bw_bits [of bw] length_stream_le [of bb a] a by simp
  have cp1: "seed_checkpoint a bw cp = Inr (cp\<lparr>seedBitPos := ps1\<rparr>)"
  proof (cases "0 < a \<and> a mod 128 = 0")
    case True
    then have q: "0 < q" "q < 8" "a = q * 128"
      using a by (auto simp: q_def)
    have "length (stream bb a) = bitsWritten bw"
      using Suc.prems(3) length_bw_bits [of bw] by simp
    then show ?thesis
      using True q pos Suc.prems(4) by (simp add: seed_checkpoint_def ps1_def Let_def)
  next
    case False
    then show ?thesis
      by (auto simp: seed_checkpoint_def ps1_def)
  qed
  obtain bw1 where bw1: "encode_bucket_seeds bb a bw = Inr bw1" "bw_bits bw1 = stream bb (Suc a)" "bw_inv bw1"
    using encode_bucket_seeds_ok [OF sol a Suc.prems(2)] Suc.prems(3) by (auto simp: stream_Suc)
  let ?cp1 = "cp\<lparr>seedBitPos := ps1\<rparr>"
  have l1: "length ps1 = 7"
    using Suc.prems(4) by (simp add: ps1_def)
  obtain bw' ps where ih: "seed_stream_loop bb [Suc a..<1024] bw1 ?cp1 = Inr (bw', ?cp1\<lparr>seedBitPos := ps\<rparr>)"
    "bw_inv bw'" "bw_bits bw' = stream bb 1024" "length ps = 7"
    "\<forall>i<7. ps ! i = (if (i + 1) * 128 < Suc a then ps1 ! i else of_nat (length (stream bb ((i + 1) * 128))))"
    using Suc.hyps(1) [OF m _ bw1(3,2), of ?cp1] a l1 by auto
  have nth: "ps1 ! i = (if (i + 1) * 128 < a then seedBitPos cp ! i else of_nat (length (stream bb ((i + 1) * 128))))"
    if "i < 7" "(i + 1) * 128 < Suc a" for i
  proof (cases "(i + 1) * 128 = a")
    case True
    then have "q - 1 = i" "0 < a \<and> a mod 128 = 0"
      by (auto simp: q_def)
    then show ?thesis
      using True Suc.prems(4) that by (simp add: ps1_def)
  next
    case False
    have "q - 1 \<noteq> i" if "0 < a" "a mod 128 = 0"
      using False that by (auto simp: q_def)
    then show ?thesis
      using False that by (auto simp: ps1_def)
  qed
  have "seed_stream_loop bb [a..<1024] bw cp = Inr (bw', cp\<lparr>seedBitPos := ps\<rparr>)"
    unfolding upt_conv_Cons [OF a] using cp1 bw1(1) ih(1) by simp
  then show ?case
    using ih(2-5) nth by (intro exI [of _ bw'] exI [of _ ps]) auto
qed

section \<open>Layout of the metadata\<close>

definition cp_bytes :: "checkpoints \<Rightarrow> bytes" where
  "cp_bytes cp = concat (map (le_put 2) (efBitPos cp)) @ concat (map (le_put 2) (seedBitPos cp))"

definition cp_ok :: "bijBuilder \<Rightarrow> checkpoints \<Rightarrow> bool" where
  "cp_ok bb cp \<longleftrightarrow> length (efBitPos cp) = 7 \<and> length (seedBitPos cp) = 7 \<and>
    (\<forall>i<7. unat (efBitPos cp ! i) = (i + 1) * 128 +
       ef_high (bb_cumulative bb) (computeEFLowBits 1024 (bb_keysInBlock bb)) ((i + 1) * 128)) \<and>
    (\<forall>i<7. unat (seedBitPos cp ! i) = length (stream bb ((i + 1) * 128)))"

definition block_md :: "bijBuilder \<Rightarrow> checkpoints \<Rightarrow> bytes \<Rightarrow> bytes \<Rightarrow> bytes \<Rightarrow> bool" where
  "block_md bb cp ef sd md \<longleftrightarrow> md = cp_bytes cp @ ef @ sd @ fallback_bytes (bb_fallbackList bb) \<and> cp_ok bb cp \<and>
    length ef = eliasFanoSize 1024 (bb_keysInBlock bb) \<and>
    (\<forall>rest. ef_data (ef @ rest) (bb_cumulative bb) (computeEFLowBits 1024 (bb_keysInBlock bb)) (bb_keysInBlock bb)) \<and>
    length sd = (length (stream bb 1024) + 7) div 8 \<and> (\<forall>rest. bits_at (sd @ rest) 0 (stream bb 1024))"

lemma length_cp_bytes: "length (efBitPos cp) = 7 \<Longrightarrow> length (seedBitPos cp) = 7 \<Longrightarrow> length (cp_bytes cp) = 28"
  by (simp add: cp_bytes_def length_concat_const [where k = 2])

lemma ef_high_bound:
  assumes "counted bb" and "e \<le> 1024"
  shows "ef_high (bb_cumulative bb) (computeEFLowBits 1024 (bb_keysInBlock bb)) e \<le> 2048"
proof -
  obtain d where "ef_data (d @ []) (bb_cumulative bb) (computeEFLowBits 1024 (bb_keysInBlock bb)) (bb_keysInBlock bb)"
    using counted_ef [OF assms(1)] by blast
  then have "ef_high (bb_cumulative bb) (computeEFLowBits 1024 (bb_keysInBlock bb)) e \<le>
      drop_bit (computeEFLowBits 1024 (bb_keysInBlock bb)) (bb_keysInBlock bb)"
    using ef_high_le assms by (fastforce simp: counted_def)
  also have "\<dots> \<le> 2048"
    using computeEFLowBits_high [of 1024 "bb_keysInBlock bb"] by auto
  finally show ?thesis .
qed

lemma copy_at_4:
  assumes "length a + length b + length c + length d \<le> length dst"
  shows "copy_at (copy_at (copy_at (copy_at dst 0 a) (length a) b) (length a + length b) c)
    (length a + length b + length c) d = copy_at dst 0 (a @ b @ c @ d)"
  using assms copy_at_append [of 0 a b dst] copy_at_append [of 0 "a @ b" c dst]
    copy_at_append [of 0 "a @ b @ c" d dst] by (simp add: add.assoc)

text \<open>The fields of the builder the encoder only reads.\<close>

lemma bucket_code_encoder [simp]: "bucket_code (bb\<lparr>bb_seedEncoder := bw\<rparr>) = bucket_code bb"
  by (auto simp: bucket_code_def fun_eq_iff Let_def)

lemma seed_encoder_irrelevant [simp]:
  "counted (bb\<lparr>bb_seedEncoder := bw\<rparr>) = counted bb"
  "bucket_solved (bb\<lparr>bb_seedEncoder := bw\<rparr>) = bucket_solved bb"
  "all_solved (bb\<lparr>bb_seedEncoder := bw\<rparr>) = all_solved bb"
  "stream (bb\<lparr>bb_seedEncoder := bw\<rparr>) = stream bb"
  by (auto simp: counted_def bucket_solved_def all_solved_def stream_def fun_eq_iff Let_def)

lemma flush_bits_at:
  assumes "bw_inv bw" and "bw_flush bw = (sd, bw')"
  shows "bits_at (sd @ rest) 0 (bw_bits bw)" and "length sd = (length (bw_bits bw) + 7) div 8"
proof -
  show len: "length sd = (length (bw_bits bw) + 7) div 8"
    using bw_flush_data(1) [OF assms(1), of sd] assms(2) by simp
  have bit: "data_bit sd i \<longleftrightarrow> i < length (bw_bits bw) \<and> bw_bits bw ! i" for i
    using bw_flush_data(2) [OF assms(1), of sd] assms(2) by simp
  have "length (bw_bits bw) \<le> 8 * length sd"
    unfolding len by presburger
  then show "bits_at (sd @ rest) 0 (bw_bits bw)"
    unfolding bits_at_def data_bit_append using bit by simp
qed

text \<open>Steps 1 and 2 of the metadata encoder.\<close>

lemma encode_parts:
  assumes sol: "all_solved bb"
  obtains cp1 cp ef sd bw1 bw2
  where "encodeEFWithCheckpoints bb zeroCheckpoints bucketsPerBlock = Inr (ef, cp1)"
    and "encodeSeedsWithCheckpoints (bb\<lparr>bb_seedEncoder := bw_reset (bb_seedEncoder bb)\<rparr>) cp1 bucketsPerBlock =
      Inr (bb\<lparr>bb_seedEncoder := bw1\<rparr>, cp)"
    and "bw_flush bw1 = (sd, bw2)"
    and "block_md bb cp ef sd (cp_bytes cp @ ef @ sd @ fallback_bytes (bb_fallbackList bb))"
proof -
  have cnt: "counted bb"
    using sol by (simp add: all_solved_def)
  let ?L = "computeEFLowBits 1024 (bb_keysInBlock bb)"
  obtain ef where ef: "encodeEliasFanoInto (bb_cumulative bb) (bb_keysInBlock bb) = Inr ef"
    "length ef = eliasFanoSize 1024 (bb_keysInBlock bb)"
    "\<And>rest. ef_data (ef @ rest) (bb_cumulative bb) ?L (bb_keysInBlock bb)"
    using counted_ef [OF cnt] by blast
  obtain ps where ps: "ef_checkpoint_loop (bb_cumulative bb) ?L 1024 [0..<7] zeroCheckpoints =
      Inr (zeroCheckpoints\<lparr>efBitPos := ps\<rparr>)" "length ps = 7"
    "\<forall>i<7. ps ! i = of_nat ((i + 1) * 128 + ef_high (bb_cumulative bb) ?L ((i + 1) * 128))"
    using ef_checkpoint_loop_ok [OF cnt refl, of 0 zeroCheckpoints] by (auto simp: zeroCheckpoints_def)
  let ?cp1 = "zeroCheckpoints\<lparr>efBitPos := ps\<rparr>" and ?bw0 = "bw_reset (bb_seedEncoder bb)"
  let ?bb0 = "bb\<lparr>bb_seedEncoder := ?bw0\<rparr>"
  obtain bw1 qs where qs: "seed_stream_loop ?bb0 [0..<1024] ?bw0 ?cp1 = Inr (bw1, ?cp1\<lparr>seedBitPos := qs\<rparr>)"
    "bw_inv bw1" "bw_bits bw1 = stream bb 1024" "length qs = 7"
    "\<forall>i<7. qs ! i = of_nat (length (stream bb ((i + 1) * 128)))"
    using seed_stream_loop_ok [of ?bb0 0 ?bw0 ?cp1] sol by (auto simp: stream_def zeroCheckpoints_def)
  define cp where "cp = ?cp1\<lparr>seedBitPos := qs\<rparr>"
  obtain sd bw2 where sd: "bw_flush bw1 = (sd, bw2)"
    by (cases "bw_flush bw1")
  have "(i + 1) * 128 + ef_high (bb_cumulative bb) ?L ((i + 1) * 128) < 65536" if "i < 7" for i
    using ef_high_bound [OF cnt, of "(i + 1) * 128"] that by simp
  moreover have "length (stream bb ((i + 1) * 128)) < 65536" if "i < 7" for i
    using length_stream_le [of bb "(i + 1) * 128"] that by simp
  ultimately have cp: "cp_ok bb cp"
    using ps(2,3) qs(4,5) by (auto simp: cp_ok_def cp_def simp del: of_nat_add of_nat_mult)
  have "block_md bb cp ef sd (cp_bytes cp @ ef @ sd @ fallback_bytes (bb_fallbackList bb))"
    using ef cp flush_bits_at [OF qs(2) sd] qs(3) by (simp add: block_md_def)
  moreover have "encodeEFWithCheckpoints bb zeroCheckpoints bucketsPerBlock = Inr (ef, ?cp1)"
    using ef(1) ps(1) by (simp add: encodeEFWithCheckpoints_def)
  moreover have "encodeSeedsWithCheckpoints ?bb0 ?cp1 bucketsPerBlock = Inr (bb\<lparr>bb_seedEncoder := bw1\<rparr>, cp)"
    using qs(1) by (simp add: encodeSeedsWithCheckpoints_def cp_def)
  ultimately show ?thesis
    using that sd by blast
qed

lemma encodeSeparatedMetadataInto_overflow:
  assumes "all_solved bb" and "255 < length (bb_fallbackList bb)"
  shows "encodeSeparatedMetadataInto bb dst = Inl ErrBlockOverflow"
proof -
  obtain cp1 cp ef sd bw1 bw2 where p: "encodeEFWithCheckpoints bb zeroCheckpoints bucketsPerBlock = Inr (ef, cp1)"
    "encodeSeedsWithCheckpoints (bb\<lparr>bb_seedEncoder := bw_reset (bb_seedEncoder bb)\<rparr>) cp1 bucketsPerBlock =
      Inr (bb\<lparr>bb_seedEncoder := bw1\<rparr>, cp)" "bw_flush bw1 = (sd, bw2)"
    by (rule encode_parts [OF assms(1)])
  show ?thesis
    unfolding encodeSeparatedMetadataInto_def p(1) rbind_Inr prod.case Let_def p(2)
    using assms(2) by (simp add: p(3) maxFallbackEntries_def)
qed

lemma encodeSeparatedMetadataInto_ok:
  assumes sol: "all_solved bb" and fl: "length (bb_fallbackList bb) \<le> 255"
  obtains cp ef sd md bw where "block_md bb cp ef sd md"
    and "encodeSeparatedMetadataInto bb dst =
      (if length md \<le> length dst then Inr (length md, copy_at dst 0 md, bb\<lparr>bb_seedEncoder := bw\<rparr>)
       else Inl (ErrOther ''bijection: metadata buffer too small''))"
proof -
  obtain cp1 cp ef sd bw1 bw2 where p: "encodeEFWithCheckpoints bb zeroCheckpoints bucketsPerBlock = Inr (ef, cp1)"
    "encodeSeedsWithCheckpoints (bb\<lparr>bb_seedEncoder := bw_reset (bb_seedEncoder bb)\<rparr>) cp1 bucketsPerBlock =
      Inr (bb\<lparr>bb_seedEncoder := bw1\<rparr>, cp)" "bw_flush bw1 = (sd, bw2)"
    and md: "block_md bb cp ef sd (cp_bytes cp @ ef @ sd @ fallback_bytes (bb_fallbackList bb))"
    by (rule encode_parts [OF sol])
  define md where "md = cp_bytes cp @ ef @ sd @ fallback_bytes (bb_fallbackList bb)"
  note e3 = encodeFallbackListIntoWithB_eq [OF fl]
  have n255: "\<not> length (bb_fallbackList bb) > maxFallbackEntries"
    using fl by (simp add: maxFallbackEntries_def)
  have cplen: "length (cp_bytes cp) = 28"
    using md by (intro length_cp_bytes) (auto simp: block_md_def cp_ok_def)
  have "encodeSeparatedMetadataInto bb dst = Inr (length md, copy_at dst 0 md, bb\<lparr>bb_seedEncoder := bw2\<rparr>)"
    if "length md \<le> length dst"
  proof -
    have len: "28 + length ef + length sd + length (fallback_bytes (bb_fallbackList bb)) \<le> length dst"
      using that cplen by (simp add: md_def)
    have put: "checkpoints_encode cp dst 0 = Inr (copy_at dst 0 (cp_bytes cp))"
      using len cplen by (simp add: checkpoints_encode_def flip: cp_bytes_def)
    have c4: "copy_at (copy_at (copy_at (copy_at dst 0 (cp_bytes cp)) 28 ef) (28 + length ef) sd)
        (28 + length ef + length sd) (fallback_bytes (bb_fallbackList bb)) = copy_at dst 0 md"
      using copy_at_4 [of "cp_bytes cp" ef sd "fallback_bytes (bb_fallbackList bb)" dst] len cplen
      by (simp add: md_def)
    show ?thesis
      unfolding encodeSeparatedMetadataInto_def p(1) rbind_Inr prod.case Let_def p(2)
      using n255 len by (simp add: p(3) e3 put c4) (simp add: md_def cplen)
  qed
  moreover have "encodeSeparatedMetadataInto bb dst = Inl (ErrOther ''bijection: metadata buffer too small'')"
    if "length dst < length md"
  proof -
    have len: "length dst < 28 + length ef + length sd + length (fallback_bytes (bb_fallbackList bb))"
      using that cplen by (simp add: md_def)
    show ?thesis
      unfolding encodeSeparatedMetadataInto_def p(1) rbind_Inr prod.case Let_def p(2)
      using n255 len by (simp add: p(3) e3)
  qed
  ultimately show ?thesis
    using that [of cp ef sd md bw2] md by (simp add: not_le md_def)
qed

lemma eliasFanoSize_le: "K < 65536 \<Longrightarrow> eliasFanoSize 1024 K \<le> 1024"
proof -
  assume K: "K < 65536"
  let ?L = "computeEFLowBits 1024 K"
  have "1024 + drop_bit ?L K + 1024 * ?L \<le> 8192"
  proof (cases "K \<le> 1024")
    case True
    then show ?thesis
      by (simp add: computeEFLowBits_def)
  next
    case False
    have "K div 1024 < 2 ^ 6"
      using K by simp
    then have "bits_Len (K div 1024) \<le> 6"
      by (rule bits_Len_le)
    then have "?L \<le> 5"
      by (auto simp: computeEFLowBits_def)
    moreover have "drop_bit ?L K < 2048"
      using computeEFLowBits_high [of 1024 K] False by auto
    ultimately show ?thesis by simp
  qed
  then show ?thesis
    unfolding eliasFanoSize_def Let_def efHighBound_eq [OF K] by simp
qed

text \<open>The size bound of \<^verbatim>\<open>estimateMetadataSize\<close>.\<close>

lemma block_md_length:
  assumes "block_md bb cp ef sd md" and "counted bb" and "length (bb_fallbackList bb) \<le> 255"
  shows "length md \<le> 28 + 1024 + 6144 + 1022"
proof -
  have "length (cp_bytes cp) = 28"
    using assms(1) by (intro length_cp_bytes) (auto simp: block_md_def cp_ok_def)
  moreover have "length ef \<le> 1024"
    using assms(1,2) eliasFanoSize_le by (simp add: block_md_def counted_def)
  moreover have "length sd \<le> 6144"
    using assms(1) length_stream_le [of bb 1024] by (simp add: block_md_def)
  ultimately show ?thesis
    using assms(1,3) by (simp add: block_md_def length_fallback_bytes)
qed

end
