(* ===== verification/Codec_Props.thy ===== *)
theory Codec_Props
  imports Header_Codec EF_Correct Fallback_List Bij_Encode_Correct
begin

text \<open>
  Properties of the byte and bit codecs: file structures, entries, fingerprints, block routing, the
  bit stream, Elias-Fano and Golomb-Rice codes and the fallback list.
\<close>

section \<open>File structures\<close>

text \<open>C17: a header that passes validation is read back unchanged from the 64 bytes it was written to.\<close>

theorem header_roundtrip:
  assumes "header_valid h"
  shows "rbind (encodeHeaderTo h (replicate 64 0)) decodeHeader = Inr h"
proof -
  have len: "length (Reserved h) = 31"
    using assms by (simp add: header_valid_def)
  then have "encodeHeaderTo h (replicate 64 0) = Inr (header_bytes h @ [])"
    using encodeHeaderTo_eq [OF len, of "replicate 64 0"] by (simp add: copy_at_def)
  then show ?thesis
    unfolding rbind_Inr using decodeHeader_bytes [OF assms, of "[]"] by simp
qed

definition sample_header :: header where
  "sample_header = \<lparr>Magic = magic, Version = version, TotalKeys = 5, NumBlocks = 2, PayloadSize = 4,
     FingerprintSize = 1, Seed = 42, BlockAlgorithm = 0, Reserved = replicate 31 0\<rparr>"

lemma header_roundtrip_witness:
  "header_valid sample_header \<and> rbind (encodeHeaderTo sample_header (replicate 64 0)) decodeHeader = Inr sample_header"
proof -
  have "header_valid sample_header"
    by (simp add: header_valid_def sample_header_def)
  with header_roundtrip [OF this] show ?thesis by simp
qed

text \<open>C18: whatever 64 bytes the header parser accepts satisfy the validation rules and are exactly the
  bytes the writer produces for the parsed header.\<close>

theorem header_canonical:
  assumes "decodeHeader buf = Inr h"
  shows "header_valid h \<and> encodeHeaderTo h (replicate 64 0) = Inr (take 64 buf)"
proof -
  have v: "header_valid h"
    by (rule decodeHeader_valid [OF assms])
  then have len: "length (Reserved h) = 31"
    by (simp add: header_valid_def)
  have "length (take 64 buf) = 64"
    using header_bytes_decode [OF assms] len by (metis length_header_bytes)
  then show ?thesis
    using v encodeHeaderTo_eq [OF len, of "replicate 64 0"] header_bytes_decode [OF assms]
    by (simp add: copy_at_def)
qed

lemma header_canonical_witness:
  "\<exists>buf. decodeHeader buf = Inr sample_header \<and> header_valid sample_header \<and>
    encodeHeaderTo sample_header (replicate 64 0) = Inr (take 64 buf)"
proof -
  have "header_valid sample_header"
    by (simp add: header_valid_def sample_header_def)
  then have d: "decodeHeader (header_bytes sample_header @ []) = Inr sample_header"
    by (rule decodeHeader_bytes)
  from header_canonical [OF d] d show ?thesis by blast
qed

text \<open>C19: a RAM-index entry keeps exactly the low 40 bits of its two fds.\<close>

theorem ram_entry_roundtrip:
  "rbind (encodeRAMIndexEntryTo e (replicate 10 0)) decodeRAMIndexEntry =
    Inr \<lparr>KeysBefore = take_bit 40 (KeysBefore e), MetadataOffset = take_bit 40 (MetadataOffset e)\<rparr>"
proof -
  have "encodeRAMIndexEntryTo e (replicate 10 0) = Inr (ram_bytes e @ [])"
    using encodeRAMIndexEntryTo_eq [of "replicate 10 0" e] by (simp add: copy_at_def)
  then show ?thesis
    unfolding rbind_Inr using decodeRAMIndexEntry_bytes [of e "[]"] by simp
qed

section \<open>Entries and fingerprints\<close>

text \<open>C21: the packed entry writer and the generic one store the same bytes for every entry size the
  packed one supports.\<close>

theorem write_entry_equiv:
  assumes "entrySize \<in> {1, 4, 5, 8}" and "fpSize \<le> entrySize" and "take_bit (fpSize * 8) fp = fp"
    and "(pos + 1) * entrySize \<le> length buf"
  shows "WriteEntry buf pos entrySize fp payload (fpSize * 8) = WriteEntryGeneric buf pos entrySize fp payload (fpSize * 8)"
proof -
  have s: "entrySize = fpSize + (entrySize - fpSize)"
    using assms(2) by simp
  have f: "pos * entrySize + entrySize \<le> length buf"
    using assms(4) by (simp add: algebra_simps)
  show ?thesis
    unfolding WriteEntry_eq [OF s f assms(3,1)] WriteEntryGeneric_eq [OF s f] ..
qed

lemma write_entry_equiv_witness:
  "WriteEntry (replicate 10 0) 1 5 0xAB 0x11223344 (1 * 8) = WriteEntryGeneric (replicate 10 0) 1 5 0xAB 0x11223344 (1 * 8)"
proof (rule write_entry_equiv)
  show "take_bit (1 * 8) (0xAB :: u32) = 0xAB"
    by (simp add: take_bit_eq_mod)
qed simp_all

text \<open>C20: a fingerprint and a payload that fit their widths are read back from the slot they were
  written to.\<close>

theorem entry_roundtrip:
  assumes "fpSize \<le> 4" and "payloadSize \<le> 8"
    and "take_bit (fpSize * 8) fp = fp" and "take_bit (payloadSize * 8) payload = payload"
    and "(pos + 1) * (fpSize + payloadSize) \<le> length buf"
  shows "rbind (WriteEntryGeneric buf pos (fpSize + payloadSize) fp payload (fpSize * 8))
    (\<lambda>b. ReadEntry b pos (fpSize + payloadSize) fpSize payloadSize) = Inr (fp, payload)"
proof -
  let ?es = "fpSize + payloadSize" and ?e = "entry_bytes fpSize payloadSize fp payload"
  have f: "pos * ?es + ?es \<le> length buf"
    using assms(5) by (simp add: algebra_simps)
  let ?b = "copy_at buf (pos * ?es) ?e"
  have len: "length ?b = length buf"
    using f by simp
  have slice: "take ?es (drop (pos * ?es) ?b) = ?e"
    using slice_copy_at [of "pos * ?es" ?e buf] f by simp
  have 1: "take fpSize (drop (pos * ?es) ?b) = le_put fpSize fp"
    using arg_cong [OF slice, of "take fpSize"] by (simp add: entry_bytes_def min_def)
  have 2: "take payloadSize (drop (pos * ?es + fpSize) ?b) = le_put payloadSize payload"
    using arg_cong [OF slice, of "drop fpSize"] by (simp add: entry_bytes_def drop_take add.commute)
  have g: "fpSize \<le> length ?b - pos * ?es" "payloadSize \<le> length ?b - (pos * ?es + fpSize)"
    "pos * ?es \<le> length ?b" "pos * ?es + fpSize \<le> length ?b"
    unfolding len using f by linarith+
  show ?thesis
    unfolding WriteEntryGeneric_eq [OF refl f] rbind_Inr ReadEntry_def Let_def ReadFP_def ReadPayload_def
    using g 1 2 assms(3,4) by (simp add: le_get_le_put mult.commute)
qed

lemma entry_roundtrip_witness:
  "rbind (WriteEntryGeneric (replicate 9 0) 2 (1 + 2) 0xAB 0x1234 (1 * 8)) (\<lambda>b. ReadEntry b 2 (1 + 2) 1 2) = Inr (0xAB, 0x1234)"
  by (rule entry_roundtrip) (simp_all add: take_bit_eq_mod)

text \<open>C22: the public 32-bit fingerprint of a key determines every shorter stored fingerprint: the
  low \<open>n\<close> bytes agree, and a stored fingerprint fits its \<open>n\<close> bytes.\<close>

theorem fingerprint_prefix:
  assumes "16 \<le> length key" and "n \<le> 4"
  shows "\<exists>fp. Fingerprint key = Inr fp \<and>
    extractFingerprint (le_get (take 8 key)) (le_get (take 8 (drop 8 key))) n = take_bit (8 * n) fp"
proof -
  have m: "min (8 * n) 32 = 8 * n"
    using assms(2) by simp
  show ?thesis
    using assms extractFingerprint_bits [OF assms(2)] extractFingerprint_bits [of 4]
    by (simp add: Fingerprint_def MinKeySize_def maxFingerprintSize_def Let_def m)
qed

lemma fingerprint_prefix_witness:
  "\<exists>fp. Fingerprint (replicate 16 7) = Inr fp \<and>
    extractFingerprint (le_get (take 8 (replicate 16 7))) (le_get (take 8 (drop 8 (replicate 16 7)))) 2 = take_bit (8 * 2) fp"
  by (rule fingerprint_prefix) simp_all

section \<open>Routing\<close>

text \<open>C23: keys in byte order are routed to blocks in non-decreasing order, and every route is a valid
  block number.\<close>

theorem routing_monotone:
  assumes "lexordp_eq key1 key2" and "8 \<le> length key1" and "8 \<le> length key2" and "0 < n"
  shows "blockRoute (le_get (take 8 key1)) n \<le> blockRoute (le_get (take 8 key2)) n \<and>
    blockRoute (le_get (take 8 key2)) n < n"
proof -
  have "0 < unat n"
    using assms(4) by (simp add: unat_gt_0)
  then have "blockRoute (le_get (take 8 key2)) n < n"
    unfolding word_less_nat_alt by (rule blockRoute_less)
  with blockRoute_mono [of key1 key2 n] assms(1-3) show ?thesis by simp
qed

lemma routing_monotone_witness:
  "blockRoute (le_get (take 8 (1 # replicate 15 1))) 5 \<le> blockRoute (le_get (take 8 (2 # replicate 15 0))) 5 \<and>
    blockRoute (le_get (take 8 (2 # replicate 15 0))) 5 < 5"
proof (rule routing_monotone)
  show "lexordp_eq (1 # replicate 15 1) (2 # replicate 15 (0 :: u8))"
    by (rule lexordp_eq.Cons) simp
qed simp_all

section \<open>Bit stream\<close>

definition write_fields :: "(u64 \<times> nat) list \<Rightarrow> bitWriter \<Rightarrow> bitWriter" where
  "write_fields fds bw = fold (\<lambda>(v, n) bw. writeBits bw v n) fds bw"

fun read_fields :: "bitReaderFast \<Rightarrow> nat list \<Rightarrow> u64 list" where
  "read_fields br [] = []"
| "read_fields br (n # ns) = (case readBits br n of (v, br) \<Rightarrow> v # read_fields br ns)"

lemma write_fields_bits:
  assumes "bw_inv bw" and "\<forall>(v, n)\<in>set fds. n \<le> 64"
  shows "bw_bits (write_fields fds bw) = bw_bits bw @ concat (map (\<lambda>(v, n). word_bits v n) fds) \<and>
    bw_inv (write_fields fds bw)"
  using assms
proof (induction fds arbitrary: bw)
  case (Cons f fs)
  obtain v n where f: "f = (v, n)" by force
  show ?case
    using Cons.IH [of "writeBits bw v n"] Cons.prems writeBits_bits [of bw n v]
    by (simp add: write_fields_def f)
qed (simp add: write_fields_def)

lemma read_fields_bits:
  assumes "br_at br p" and "\<forall>(v, n)\<in>set fds. n \<le> 64"
    and "bits_at (br_data br) p (concat (map (\<lambda>(v, n). word_bits v n) fds))"
  shows "read_fields br (map snd fds) = map (\<lambda>(v, n). take_bit n v) fds"
  using assms
proof (induction fds arbitrary: br p)
  case (Cons f fs)
  obtain v n where f: "f = (v, n)" by force
  obtain w br' where r: "readBits br n = (w, br')" by force
  have n: "n \<le> 64" using Cons.prems(2) by (simp add: f)
  note rd = readBits_at [OF Cons.prems(1) n r]
  have b: "bits_at (br_data br) p (word_bits v n)"
    "bits_at (br_data br) (p + n) (concat (map (\<lambda>(v, n). word_bits v n) fs))"
    using Cons.prems(3) by (simp_all add: f bits_at_append)
  have "w = take_bit n v"
    using b(1) rd(3) by (intro bit_word_eqI) (auto simp: bits_at_def bit_take_bit_iff)
  moreover have "read_fields br' (map snd fs) = map (\<lambda>(v, n). take_bit n v) fs"
    using Cons.IH [OF rd(1)] Cons.prems(2) b(2) rd(2) by simp
  ultimately show ?case by (simp add: f r)
qed simp

lemma flushed_bits_at:
  assumes "bw_inv bw"
  shows "bits_at (fst (bw_flush bw)) 0 (bw_bits bw)"
  using bw_flush_data(2) [OF assms refl] by (simp add: bits_at_def)

text \<open>C24: a sequence of bit fields of at most 64 bits each, written, flushed to bytes and read with the
  same widths, comes back in order, truncated to the widths.\<close>

theorem bit_stream_roundtrip:
  assumes "\<forall>(v, n)\<in>set fds. n \<le> 64"
  shows "read_fields (newBitReaderFast (fst (bw_flush (write_fields fds newBitWriterBuffer)))) (map snd fds) =
    map (\<lambda>(v, n). take_bit n v) fds"
proof (rule read_fields_bits [OF newBitReaderFast_at(1) assms])
  let ?bw = "write_fields fds newBitWriterBuffer"
  have "bw_bits ?bw = concat (map (\<lambda>(v, n). word_bits v n) fds)" "bw_inv ?bw"
    using write_fields_bits [of newBitWriterBuffer fds] assms by simp_all
  then show "bits_at (br_data (newBitReaderFast (fst (bw_flush ?bw)))) 0 (concat (map (\<lambda>(v, n). word_bits v n) fds))"
    using flushed_bits_at [of ?bw] by simp
qed

lemma bit_stream_roundtrip_witness:
  "read_fields (newBitReaderFast (fst (bw_flush (write_fields [(5, 3), (-1, 64), (9, 2)] newBitWriterBuffer))))
    (map snd [(5 :: u64, 3), (-1, 64), (9, 2)]) = map (\<lambda>(v, n). take_bit n v) [(5, 3), (-1, 64), (9, 2)]"
  by (rule bit_stream_roundtrip) simp

section \<open>Golomb-Rice seeds\<close>

definition write_seeds :: "(u32 \<times> nat) list \<Rightarrow> bitWriter \<Rightarrow> bitWriter" where
  "write_seeds ss bw = fold (\<lambda>(s, sz) bw. encodeSeed bw s sz) ss bw"

fun read_seeds :: "bitReaderFast \<Rightarrow> nat list \<Rightarrow> u32 list" where
  "read_seeds br [] = []"
| "read_seeds br (sz # szs) = (case decodeGRSeedFast br sz of (s, br) \<Rightarrow> s # read_seeds br szs)"

lemma write_seeds_bits:
  assumes "bw_inv bw"
  shows "bw_bits (write_seeds ss bw) = bw_bits bw @ concat (map (\<lambda>(s, sz). seed_code s sz) ss) \<and>
    bw_inv (write_seeds ss bw)"
  using assms
proof (induction ss arbitrary: bw)
  case (Cons f fs)
  obtain s sz where f: "f = (s, sz)" by force
  show ?case
    using Cons.IH [of "encodeSeed bw s sz"] encodeSeed_bits [OF Cons.prems, of s sz] by (simp add: write_seeds_def f)
qed (simp add: write_seeds_def)

definition seed_read_back :: "u32 \<Rightarrow> nat \<Rightarrow> u32" where
  "seed_read_back s sz = (if sz \<le> 1 then 0 else if sz \<le> 8 \<and> s < maxEncodableSeed sz then s else fallbackMarker)"

lemma seed_read_back_code: "seed_read_back s sz = (if sz \<le> 1 then 0 else if escaped s sz then fallbackMarker else s)"
  using not_escaped_iff [of sz s] by (auto simp: seed_read_back_def escaped_def)

lemma read_seeds_bits:
  assumes "br_at br p" and "bits_at (br_data br) p (concat (map (\<lambda>(s, sz). seed_code s sz) ss))"
  shows "read_seeds br (map snd ss) = map (\<lambda>(s, sz). seed_read_back s sz) ss"
  using assms
proof (induction ss arbitrary: br p)
  case (Cons f fs)
  obtain s sz where f: "f = (s, sz)" by force
  obtain v br' where r: "decodeGRSeedFast br sz = (v, br')" by force
  have b: "bits_at (br_data br) p (seed_code s sz)"
    "bits_at (br_data br) (p + length (seed_code s sz)) (concat (map (\<lambda>(s, sz). seed_code s sz) fs))"
    using Cons.prems(2) by (simp_all add: f bits_at_append)
  note rd = decodeGRSeedFast_code [OF Cons.prems(1) b(1) r]
  have "read_seeds br' (map snd fs) = map (\<lambda>(s, sz). seed_read_back s sz) fs"
    using Cons.IH [OF rd(2)] rd(3) b(2) by simp
  then show ?case using rd(1) by (simp add: f r seed_read_back_code)
qed simp

text \<open>C25: a Golomb-Rice stream of seeds decodes to the same sequence: a seed below the encodable bound
  of its bucket size comes back exactly, any other seed comes back as the fallback marker, and buckets
  of at most one key use no bits and read as seed 0.\<close>

theorem seed_stream_roundtrip:
  "read_seeds (newBitReaderFast (fst (bw_flush (write_seeds ss newBitWriterBuffer)))) (map snd ss) =
    map (\<lambda>(s, sz). seed_read_back s sz) ss"
proof (rule read_seeds_bits [OF newBitReaderFast_at(1)])
  let ?bw = "write_seeds ss newBitWriterBuffer"
  have "bw_bits ?bw = concat (map (\<lambda>(s, sz). seed_code s sz) ss)" "bw_inv ?bw"
    using write_seeds_bits [of newBitWriterBuffer ss] by simp_all
  then show "bits_at (br_data (newBitReaderFast (fst (bw_flush ?bw)))) 0 (concat (map (\<lambda>(s, sz). seed_code s sz) ss))"
    using flushed_bits_at [of ?bw] by simp
qed

section \<open>Elias-Fano\<close>

text \<open>C26: a sorted list of cumulative counts bounded by \<open>U\<close> is encoded into the announced number of
  bytes, and the range decoder, started at any element with the bit position the checkpoints store for
  it, returns exactly that range of the counts.\<close>

theorem ef_range_roundtrip:
  assumes "sorted (map unat cum)" and "\<forall>v\<in>set cum. unat v \<le> U" and "U < 65536" and "64 \<le> length cum"
    and "s \<le> e" and "e < length cum"
  defines "n \<equiv> length cum"
  defines "pos \<equiv> s + (if s = 0 then 0 else drop_bit (computeEFLowBits n U) (unat (cum ! (s - 1))))"
  shows "\<exists>d. encodeEliasFanoInto cum U = Inr d \<and> length d = eliasFanoSize n U \<and>
    decodeEFRangeInline d n U s e pos (e + 1 - s) = Inr (take (e + 1 - s) (drop s cum))"
proof -
  have ne: "cum \<noteq> []" using assms(4) by auto
  obtain d where d: "encodeEliasFanoInto cum U = Inr d" "length d = eliasFanoSize n U"
    "ef_data (d @ []) cum (computeEFLowBits n U) U"
    using encodeEliasFanoInto_ef_data [OF ne assms(1-3), of "[]"] by (auto simp: n_def)
  have "8 \<le> length d"
    unfolding d(2) eliasFanoSize_def Let_def using assms(4) ne by (simp add: n_def)
  then have "decodeEFRangeInline d n U s e pos (e + 1 - s) = Inr (take (e + 1 - s) (drop s cum))"
    using d(3) assms(5,6) by (intro decodeEFRangeInline_ok) (simp_all add: n_def pos_def ef_high_def)
  with d show ?thesis by blast
qed

lemma ef_range_roundtrip_witness:
  "\<exists>d. encodeEliasFanoInto (replicate 64 7) 7 = Inr d \<and> length d = eliasFanoSize (length (replicate 64 (7 :: u16))) 7 \<and>
    decodeEFRangeInline d (length (replicate 64 (7 :: u16))) 7 0 2
      (0 + (if (0 :: nat) = 0 then 0 else drop_bit (computeEFLowBits (length (replicate 64 (7 :: u16))) 7) (unat (replicate 64 (7 :: u16) ! (0 - 1)))))
      (2 + 1 - 0) = Inr (take (2 + 1 - 0) (drop 0 (replicate 64 7)))"
  by (rule ef_range_roundtrip) (simp_all add: map_replicate_const [symmetric] sorted_replicate)

text \<open>C27: encoding the 1024 cumulative counts of a block, none above \<open>K < 65536\<close>, never writes out of
  range (the model of a Go slice store panics there): the encoder returns exactly \<open>eliasFanoSize\<close> bytes,
  the size the decoder computes for the section, and never more than the 1024 bytes the metadata
  estimate reserves for it.\<close>

theorem ef_size_bound:
  assumes "length cum = bucketsPerBlock" and "\<forall>v\<in>set cum. unat v \<le> K" and "K < 65536"
  shows "\<exists>d. encodeEliasFanoInto cum K = Inr d \<and> length d = eliasFanoSize bucketsPerBlock K \<and> length d \<le> 1024"
proof -
  have ne: "cum \<noteq> []"
    using assms(1) by auto
  obtain d where "encodeEliasFanoInto cum K = Inr d" "length d = eliasFanoSize (length cum) K"
    using encodeEliasFanoInto_ok [OF ne assms(2,3) refl] by blast
  then show ?thesis
    using eliasFanoSize_le [OF assms(3)] by (simp add: assms(1))
qed

theorem ef_size_bound_witness:
  "\<exists>d. encodeEliasFanoInto (replicate 1024 65535) 65535 = Inr d \<and> length d = eliasFanoSize bucketsPerBlock 65535 \<and> length d \<le> 1024"
  by (rule ef_size_bound) simp_all

text \<open>The largest block: 5 low bits for each count and 3071 high bits, 8191 bits in all.\<close>

lemma ef_largest_block:
  "computeEFLowBits bucketsPerBlock 65535 = 5" "bucketsPerBlock + efHighBound 5 65535 = 3071" "eliasFanoSize bucketsPerBlock 65535 = 1024"
proof -
  have L: "bits_Len 63 = 6"
    by code_simp
  show low: "computeEFLowBits bucketsPerBlock 65535 = 5"
    by (simp add: computeEFLowBits_def L)
  show high: "bucketsPerBlock + efHighBound 5 65535 = 3071"
    by (simp add: efHighBound_def drop_bit_eq_div)
  show "eliasFanoSize bucketsPerBlock 65535 = 1024"
    using low high by (simp add: eliasFanoSize_def Let_def)
qed

section \<open>Fallback list\<close>

text \<open>C28: a fallback list of at most 255 entries in range decodes to itself.\<close>

theorem fallback_roundtrip:
  assumes "length es \<le> maxFallbackEntries" and "\<forall>e\<in>set es. fe_ok e"
  shows "\<exists>d. encodeFallbackListIntoWithB es blockBits = Inr d \<and> decodeFallbackListWithB d blockBits = es"
  using assms encodeFallbackListIntoWithB_eq [of es] decode_fallback_bytes [of es]
  by (simp add: maxFallbackEntries_def)

lemma fallback_roundtrip_witness:
  "\<exists>d. encodeFallbackListIntoWithB [\<lparr>bucketIndex = 1000, subBucket = 1, fe_seed = 2000000\<rparr>] blockBits = Inr d \<and>
    decodeFallbackListWithB d blockBits = [\<lparr>bucketIndex = 1000, subBucket = 1, fe_seed = 2000000\<rparr>]"
  by (rule fallback_roundtrip) (simp_all add: maxFallbackEntries_def fe_ok_def)

text \<open>C29: with a fallback list appended to any metadata of at least the seed-stream offset, the decoder
  finds the list by scanning from the end, whatever bytes precede it, and replaces exactly the marker
  seeds that have an entry.\<close>

theorem fallback_resolution:
  assumes "length es \<le> 255" and "\<forall>e\<in>set es. fe_ok e" and "sso \<le> length pre"
  shows "\<exists>d. encodeFallbackListIntoWithB es blockBits = Inr d \<and>
    resolveFallbackSeeds (pre @ d) sso idx s0 s1 = (fb_resolve es idx 0 s0, fb_resolve es idx 1 s1)"
  using assms encodeFallbackListIntoWithB_eq [of es] resolveFallbackSeeds_eq [of es sso pre idx s0 s1]
    fold_resolve_entry [of es idx s0 s1] by simp

lemma fallback_resolution_witness:
  "\<exists>d. encodeFallbackListIntoWithB [\<lparr>bucketIndex = 3, subBucket = 0, fe_seed = 99999\<rparr>] blockBits = Inr d \<and>
    resolveFallbackSeeds ([1, 2, 3] @ d) 2 3 fallbackMarker 7 =
      (fb_resolve [\<lparr>bucketIndex = 3, subBucket = 0, fe_seed = 99999\<rparr>] 3 0 fallbackMarker,
       fb_resolve [\<lparr>bucketIndex = 3, subBucket = 0, fe_seed = 99999\<rparr>] 3 1 7)"
  by (rule fallback_resolution) (simp_all add: fe_ok_def)

end
