(* ===== verification/Bij_Decoder.thy ===== *)
theory Bij_Decoder
  imports Bij_Builder
begin

text \<open>
  The query side of a bijection block, \<^verbatim>\<open>internal/bijection/decode.go\<close>: \<^verbatim>\<open>QuerySlot\<close> with its
  checkpoint decoding, the skip over the seeds of a segment, and the full Elias-Fano decoder that
  \<^verbatim>\<open>QuerySlot\<close> falls back to.
\<close>

section \<open>Full Elias-Fano decoder\<close>

text \<open>The 64-bit refill that the decoder repeats inline: (current, bytePos).\<close>

definition ef_refill :: "bytes \<Rightarrow> nat \<Rightarrow> u64 \<times> nat" where
  "ef_refill data bytePos =
    (if bytePos + 8 \<le> length data then (le_get (take 8 (drop bytePos data)), bytePos + 8)
     else (le_get (drop bytePos data), length data))"

text \<open>Result: the value and the new (current, bitPos, bytePos).\<close>

definition decodeEliasFanoCrossBoundary :: "u64 \<Rightarrow> nat \<Rightarrow> nat \<Rightarrow> bytes \<Rightarrow> nat \<Rightarrow> u16 \<times> u64 \<times> nat \<times> nat" where
  "decodeEliasFanoCrossBoundary current bitPos bytePos data lowBits =
    (let bitsFromCurrent = 64 - bitPos;
         lowPart = drop_bit bitPos current;
         (current, bytePos) = ef_refill data bytePos;
         bitsFromNext = lowBits - bitsFromCurrent;
         highPart = current AND (push_bit bitsFromNext 1 - 1)
     in (ucast (lowPart OR push_bit bitsFromCurrent highPart), current, bitsFromNext, bytePos))"

definition ef_read_low :: "bytes \<Rightarrow> nat \<Rightarrow> u64 \<times> nat \<times> nat \<Rightarrow> u16 \<times> u64 \<times> nat \<times> nat" where
  "ef_read_low data lowBits st =
    (case st of (current, bitPos, bytePos) \<Rightarrow>
      let (current, bitPos, bytePos) =
        (if bitPos \<ge> 64 then case ef_refill data bytePos of (current, bytePos) \<Rightarrow> (current, 0, bytePos)
         else (current, bitPos, bytePos))
      in if lowBits = 0 then (0, current, bitPos, bytePos)
         else if bitPos + lowBits \<le> 64
         then (ucast (drop_bit bitPos current AND (push_bit lowBits 1 - 1)), current, bitPos + lowBits, bytePos)
         else decodeEliasFanoCrossBoundary current bitPos bytePos data lowBits)"

fun ef_read_lows :: "bytes \<Rightarrow> nat \<Rightarrow> nat \<Rightarrow> u64 \<times> nat \<times> nat \<Rightarrow> u16 list \<times> u64 \<times> nat \<times> nat" where
  "ef_read_lows data lowBits 0 st = ([], st)"
| "ef_read_lows data lowBits (Suc k) st =
    (case ef_read_low data lowBits st of (v, st) \<Rightarrow>
     case ef_read_lows data lowBits k st of (vs, st) \<Rightarrow> (v # vs, st))"

text \<open>Phase 1: eight values at a time while they fit, then the remainder.\<close>

definition ef_read_eight :: "bytes \<Rightarrow> nat \<Rightarrow> u64 \<times> nat \<times> nat \<Rightarrow> u16 list \<times> u64 \<times> nat \<times> nat" where
  "ef_read_eight data lowBits st =
    (case st of (current, bitPos, bytePos) \<Rightarrow>
      if lowBits = 0 then (replicate 8 0, st)
      else if bitPos + 8 * lowBits \<le> 64
      then (map (\<lambda>j. ucast (drop_bit (bitPos + j * lowBits) current AND (push_bit lowBits 1 - 1))) [0..<8],
            current, bitPos + 8 * lowBits, bytePos)
      else ef_read_lows data lowBits 8 st)"

fun ef_phase1 :: "bytes \<Rightarrow> nat \<Rightarrow> nat \<Rightarrow> u64 \<times> nat \<times> nat \<Rightarrow> u16 list \<times> u64 \<times> nat \<times> nat" where
  "ef_phase1 data lowBits k st =
    (if 8 \<le> k then
       case ef_read_eight data lowBits st of (vs, st) \<Rightarrow>
       case ef_phase1 data lowBits (k - 8) st of (vs', st) \<Rightarrow> (vs @ vs', st)
     else ef_read_lows data lowBits k st)"

declare ef_phase1.simps [simp del]

text \<open>Phase 2: the unary gap before the next set bit; the data end stops the scan.\<close>

definition ef_gap_load :: "bytes \<Rightarrow> u64 \<Rightarrow> nat \<Rightarrow> nat \<Rightarrow> (u64 \<times> nat \<times> nat) option" where
  "ef_gap_load data current bitPos bytePos =
    (if bitPos \<ge> 64 then
       if bytePos + 8 \<le> length data then Some (le_get (take 8 (drop bytePos data)), 0, bytePos + 8)
       else let current = le_get (drop bytePos data) in
         if current = 0 then None else Some (current, 0, length data)
     else Some (current, bitPos, bytePos))"

lemma ef_gap_load_Some:
  assumes "ef_gap_load data current bitPos bytePos = Some (c, b, y)"
  shows "(bitPos < 64 \<and> y = bytePos) \<or> (64 \<le> bitPos \<and> bytePos < y \<and> y \<le> length data)"
proof (cases "bitPos \<ge> 64 \<and> \<not> bytePos + 8 \<le> length data")
  case True
  then have "(le_get (drop bytePos data) :: u64) \<noteq> 0" "y = length data"
    using assms by (auto simp: ef_gap_load_def Let_def split: if_splits)
  moreover have "bytePos < length data"
  proof (rule ccontr)
    assume "\<not> bytePos < length data"
    then have "(le_get (drop bytePos data) :: u64) = 0"
      by (simp add: le_get_def)
    with calculation show False by simp
  qed
  ultimately show ?thesis
    using True by simp
qed (use assms in \<open>auto simp: ef_gap_load_def split: if_splits\<close>)

function ef_gap :: "bytes \<Rightarrow> u64 \<Rightarrow> nat \<Rightarrow> nat \<Rightarrow> u32 \<Rightarrow> u32 \<times> u64 \<times> nat \<times> nat" where
  "ef_gap data current bitPos bytePos gap =
    (case ef_gap_load data current bitPos bytePos of
       None \<Rightarrow> (gap, 0, bitPos, length data)
     | Some (current, bitPos, bytePos) \<Rightarrow>
         let remaining = drop_bit bitPos current;
             zeros = TrailingZeros64 remaining;
             available = 64 - bitPos
         in if zeros < available then (gap + of_nat zeros, current, bitPos + zeros + 1, bytePos)
            else ef_gap data current 64 bytePos (gap + of_nat available))"
  by pat_completeness auto
termination
  by (relation "measure (\<lambda>(data, current, bitPos, bytePos, gap).
      2 * (length data - bytePos) + (if bitPos < 64 then 1 else 0))") (auto dest!: ef_gap_load_Some)

declare ef_gap.simps [simp del]

fun ef_phase2 :: "bytes \<Rightarrow> nat \<Rightarrow> u16 list \<Rightarrow> u16 \<Rightarrow> u64 \<times> nat \<times> nat \<Rightarrow> u16 list" where
  "ef_phase2 data lowBits [] currentHigh st = []"
| "ef_phase2 data lowBits (v # vs) currentHigh (current, bitPos, bytePos) =
    (case ef_gap data current bitPos bytePos 0 of (gap, st) \<Rightarrow>
      let currentHigh = currentHigh + ucast gap
      in (v OR push_bit lowBits currentHigh) # ef_phase2 data lowBits vs currentHigh st)"

text \<open>The result is the array \<^verbatim>\<open>out\<close>, its first \<open>n\<close> elements overwritten.\<close>

definition decodeEliasFanoUnrolled :: "bytes \<Rightarrow> nat \<Rightarrow> nat \<Rightarrow> u16 list \<Rightarrow> u16 list" where
  "decodeEliasFanoUnrolled data n U out =
    (if n = 0 \<or> n > bucketsPerBlock \<or> length data < 8 then out
     else let lowBits = (if U > n then bits_Len (U div n) - 1 else 0) in
       case ef_phase1 data lowBits n (le_get (take 8 data), 0, 8) of (vs, st) \<Rightarrow>
         copy_at out 0 (ef_phase2 data lowBits vs 0 st))"

section \<open>Queries\<close>

record bijDecoder =
  bd_globalSeed :: u64

definition bij_NewDecoder :: "bytes \<Rightarrow> u64 \<Rightarrow> bijDecoder res" where
  "bij_NewDecoder globalConfig globalSeed =
    (if length globalConfig \<noteq> 0 then Inl ErrCorruptedIndex else Inr \<lparr>bd_globalSeed = globalSeed\<rparr>)"

definition decodeCheckpoints :: "bytes \<Rightarrow> checkpoints res" where
  "decodeCheckpoints buf =
    (if length buf < checkpointsSize then Inl (GoPanic ''slice bounds out of range'')
     else Inr \<lparr>efBitPos = map (\<lambda>i. le_get (take 2 (drop (i * 2) buf))) [0..<numCheckpoints],
               seedBitPos = map (\<lambda>i. le_get (take 2 (drop (numCheckpoints * 2 + i * 2) buf))) [0..<numCheckpoints]\<rparr>)"

text \<open>The start of bucket \<open>i\<close> as steps 8 and 12 compute it.\<close>

definition bucket_start :: "u16 list \<Rightarrow> nat \<Rightarrow> u16 \<Rightarrow> nat \<Rightarrow> u16 res" where
  "bucket_start cumulative segmentStart cumulativeAtSegmentStart i =
    (if i > 0 then
       if i > segmentStart then get_at cumulative (i - 1) else Inr cumulativeAtSegmentStart
     else Inr 0)"

fun skip_seeds :: "u16 list \<Rightarrow> nat \<Rightarrow> u16 \<Rightarrow> nat list \<Rightarrow> bitReaderFast \<Rightarrow> bitReaderFast res" where
  "skip_seeds cumulative segmentStart atStart [] br = Inr br"
| "skip_seeds cumulative segmentStart atStart (i # is) br =
    rbind (bucket_start cumulative segmentStart atStart i) (\<lambda>bStart.
    rbind (get_at cumulative i) (\<lambda>c.
      let bSize = unat (c - bStart);
          br = (if bSize \<ge> splitThreshold then
                  let splitPoint = bSize div 2;
                      secondHalfSize = bSize - splitPoint;
                      br = (if splitPoint > 1 then skipSeed br splitPoint else br)
                  in if secondHalfSize > 1 then skipSeed br secondHalfSize else br
                else if bSize \<ge> 2 then skipSeed br bSize
                else br)
      in skip_seeds cumulative segmentStart atStart is br))"

text \<open>Step 13: decode the seeds of the target bucket and compute the local slot.\<close>

definition target_slot :: "bytes \<Rightarrow> nat \<Rightarrow> nat \<Rightarrow> mixParts \<Rightarrow> nat \<Rightarrow> bitReaderFast \<Rightarrow> u32" where
  "target_slot metadata seedStreamOffset bucketIdx mp bucketSize br =
    (if bucketSize \<ge> splitThreshold then
       let splitPoint = bucketSize div 2;
           secondHalfSize = bucketSize - splitPoint;
           (seed0, br) = decodeGRSeedFast br splitPoint;
           (seed1, br) = decodeGRSeedFast br secondHalfSize;
           (seed0, seed1) =
             (if seed0 = fallbackMarker \<or> seed1 = fallbackMarker
              then resolveFallbackSeeds metadata seedStreamOffset bucketIdx seed0 seed1
              else (seed0, seed1));
           h = mixFromParts mp seed0 (of_nat bucketSize)
       in if h < of_nat splitPoint then h
          else of_nat splitPoint + mixFromParts mp seed1 (of_nat secondHalfSize)
     else if bucketSize \<ge> 2 then
       let (seed, br) = decodeGRSeedFast br bucketSize;
           seed = (if seed = fallbackMarker
                   then fst (resolveFallbackSeeds metadata seedStreamOffset bucketIdx seed 0) else seed)
       in mixFromParts mp seed (of_nat bucketSize)
     else 0)"

definition bij_QuerySlot :: "bijDecoder \<Rightarrow> u64 \<Rightarrow> u64 \<Rightarrow> bytes \<Rightarrow> nat \<Rightarrow> nat res" where
  "bij_QuerySlot d k0 k1 metadata keysInBlock =
    (if keysInBlock = 0 then Inl ErrNotFound
     else if length metadata < checkpointsSize then Inl ErrCorruptedIndex
     else rbind (decodeCheckpoints (take checkpointsSize metadata)) (\<lambda>cp.
     let bucketIdx = unat (FastRange32 k0 (of_nat bucketsPerBlock));
         segment = bucketIdx div checkpointInterval;
         segmentStart = segment * checkpointInterval
     in if checkpointsSize \<ge> length metadata then Inl ErrCorruptedIndex
     else let efData = drop checkpointsSize metadata;
              lowBits = computeEFLowBits bucketsPerBlock keysInBlock
     in rbind (if segment > 0 then get_at (efBitPos cp) (segment - 1) else Inr 0) (\<lambda>efPos.
     let efBitPosInHigh = unat efPos in
     rbind (decodeEFRangeInline efData bucketsPerBlock keysInBlock segmentStart bucketIdx efBitPosInHigh
              (bucketsPerBlock - segmentStart)) (\<lambda>decoded.
     let cumulative = copy_at (replicate bucketsPerBlock 0) segmentStart decoded;
         cumulative = (if length decoded = 0
                       then decodeEliasFanoUnrolled efData bucketsPerBlock keysInBlock cumulative
                       else cumulative);
         atStart = (if segment > 0 then
                      let highVal = efBitPosInHigh - segmentStart;
                          lowVal = readEFLowBits efData (segmentStart - 1) lowBits
                      in of_nat (push_bit lowBits highVal) OR lowVal
                    else 0)
     in rbind (bucket_start cumulative segmentStart atStart bucketIdx) (\<lambda>bucketStart.
     rbind (get_at cumulative bucketIdx) (\<lambda>bucketEnd.
     let bucketSize = unat (bucketEnd - bucketStart) in
     if bucketSize = 0 then Inl ErrNotFound
     else rbind (if segment > 0 then get_at (seedBitPos cp) (segment - 1) else Inr 0) (\<lambda>seedPos.
     let efSize = eliasFanoSize bucketsPerBlock keysInBlock;
         seedStreamOffset = checkpointsSize + efSize
     in if seedStreamOffset \<ge> length metadata then Inl ErrCorruptedIndex
     else let seedData = drop seedStreamOffset metadata;
              br = newBitReaderFast seedData;
              br = (if unat seedPos > 0 then skipBits br (unat seedPos) else br)
     in rbind (skip_seeds cumulative segmentStart atStart [segmentStart..<bucketIdx] br) (\<lambda>br.
     let mp = \<lparr>xoredK0 = k0 XOR bd_globalSeed d, xoredK1 = k1 XOR bd_globalSeed d\<rparr>;
         localSlot = target_slot metadata seedStreamOffset bucketIdx mp bucketSize br
     in Inr (unat bucketStart + unat localSlot)))))))))"

end
