(* ===== verification/Bij_Query_Correct.thy ===== *)
theory Bij_Query_Correct
  imports Bij_Encode_Correct Bij_Decoder
begin

text \<open>
  \<^verbatim>\<open>QuerySlot\<close> on the metadata a builder wrote: it recovers the bucket's start and effective seeds
  and returns the start plus the local slot of the key.
\<close>

section \<open>Pieces of the metadata\<close>

lemma decodeCheckpoints_cp_bytes:
  assumes "length (efBitPos cp) = 7" and "length (seedBitPos cp) = 7"
  shows "decodeCheckpoints (cp_bytes cp) = Inr cp"
proof -
  have len: "length (concat (map (le_put 2) xs)) = 2 * length xs" for xs :: "u16 list"
    by (simp add: length_concat_const [where k = 2])
  have entry: "le_get (take 2 (drop (i * 2) (concat (map (le_put 2) xs) @ ys))) = xs ! i"
    if "i < length xs" for i and xs :: "u16 list" and ys
  proof -
    have "take 2 (drop (i * 2) (concat (map (le_put 2) xs) @ ys)) = le_put 2 (xs ! i)"
      using that len [of xs]
      by (intro nth_equalityI) (auto simp: nth_append nth_concat_map_const [where k = 2])
    then show ?thesis by simp
  qed
  have 1: "map (\<lambda>i. le_get (take 2 (drop (i * 2) (cp_bytes cp)))) [0..<7] = efBitPos cp"
    using assms(1) unfolding cp_bytes_def
    by (intro nth_equalityI) (simp_all add: entry del: take_append drop_append)
  have "le_get (take 2 (drop (14 + i * 2) (cp_bytes cp))) = seedBitPos cp ! i" if "i < 7" for i
    using that assms entry [of i "seedBitPos cp" "[]"] len [of "efBitPos cp"] by (simp add: cp_bytes_def)
  then have 2: "map (\<lambda>i. le_get (take 2 (drop (14 + i * 2) (cp_bytes cp)))) [0..<7] = seedBitPos cp"
    using assms(2) by (intro nth_equalityI) simp_all
  show ?thesis
    using 1 2 length_cp_bytes [OF assms] by (simp add: decodeCheckpoints_def del: upt_Suc upt_conv_Cons)
qed

lemma stream_split: "i < m \<Longrightarrow> \<exists>rest. stream bb m = stream bb i @ bucket_code bb i @ rest"
proof -
  assume "i < m"
  then have "[0..<m] = [0..<i] @ i # [Suc i..<m]"
    by (metis le_add1 le_add_same_cancel1 less_imp_le_nat upt_add_eq_append upt_conv_Cons le_Suc_ex)
  then show ?thesis
    by (simp add: stream_def)
qed

lemma bits_at_bucket:
  assumes "bits_at data 0 (stream bb 1024)" and "i < 1024"
  shows "bits_at data (length (stream bb i)) (bucket_code bb i)"
  using assms stream_split [OF assms(2), of bb] by (auto simp: bits_at_append)

lemma eliasFanoSize_ge: "128 \<le> eliasFanoSize 1024 K"
  by (simp add: eliasFanoSize_def Let_def)

section \<open>Bucket bounds from the decoded segment\<close>

definition segment_ok :: "bijBuilder \<Rightarrow> nat \<Rightarrow> nat \<Rightarrow> u16 list \<Rightarrow> u16 \<Rightarrow> bool" where
  "segment_ok bb lo hi cumulative atStart \<longleftrightarrow> length cumulative = 1024 \<and>
    (\<forall>i. lo \<le> i \<longrightarrow> i \<le> hi \<longrightarrow> cumulative ! i = bb_cumulative bb ! i) \<and>
    (0 < lo \<longrightarrow> atStart = bb_cumulative bb ! (lo - 1))"

lemma counted_cum_of_nat:
  "counted bb \<Longrightarrow> i < 1024 \<Longrightarrow> bb_cumulative bb ! i = of_nat (starts (bb_buckets bb) (Suc i))"
  by (simp add: counted_def cumulative_loop_nth)

lemma bucket_start_ok:
  assumes "counted bb" and "segment_ok bb lo hi cumulative atStart" and "lo \<le> i" and "i \<le> hi" and "hi < 1024"
  shows "bucket_start cumulative lo atStart i = Inr (of_nat (starts (bb_buckets bb) i))"
  using assms counted_cum_of_nat [OF assms(1), of "i - 1"]
  by (auto simp: bucket_start_def segment_ok_def)

lemma bucket_length:
  assumes "counted bb" and "i < 1024"
  shows "unat (bb_cumulative bb ! i - of_nat (starts (bb_buckets bb) i)) = length (bb_buckets bb ! i)"
proof -
  have "i < length (bb_buckets bb)"
    using assms by (simp add: counted_def)
  then have s: "starts (bb_buckets bb) (Suc i) = starts (bb_buckets bb) i + length (bb_buckets bb ! i)"
    by (rule starts_Suc)
  moreover have "starts (bb_buckets bb) (Suc i) < 65536"
    using assms starts_mono [of "Suc i" 1024 "bb_buckets bb"] by (simp add: counted_def)
  ultimately have "length (bb_buckets bb ! i) < 65536"
    by simp
  then show ?thesis
    by (simp add: counted_cum_of_nat [OF assms] s)
qed

lemma segment_size:
  assumes "counted bb" and "segment_ok bb lo hi cumulative atStart" and "lo \<le> i" and "i \<le> hi" and "hi < 1024"
  shows "get_at cumulative i = Inr (bb_cumulative bb ! i)"
  using assms by (auto simp: segment_ok_def)

lemma skip_bucket:
  assumes sol: "all_solved bb" and i: "i < 1024" and at: "br_at br (length (stream bb i))"
    and bits: "bits_at (br_data br) 0 (stream bb 1024)" and n: "n = length (bb_buckets bb ! i)"
  defines "br' \<equiv> (if n \<ge> 8 then
                  let splitPoint = n div 2;
                      secondHalfSize = n - splitPoint;
                      br = (if splitPoint > 1 then skipSeed br splitPoint else br)
                  in if secondHalfSize > 1 then skipSeed br secondHalfSize else br
                else if n \<ge> 2 then skipSeed br n
                else br)"
  shows "br_at br' (length (stream bb (Suc i))) \<and> br_data br' = br_data br"
proof -
  note code = bits_at_bucket [OF bits i]
  consider "n \<le> 1" | "2 \<le> n" "n < 8" | "8 \<le> n"
    by linarith
  then show ?thesis
  proof cases
    case 1
    then show ?thesis
      using at n by (simp add: br'_def stream_Suc bucket_code_def)
  next
    case 2
    then have "bits_at (br_data br) (length (stream bb i)) (seed_code (bb_seeds bb ! i) n)"
      using code n by (simp add: bucket_code_def)
    from skipSeed_code [OF at this] 2 show ?thesis
      using n by (simp add: br'_def stream_Suc bucket_code_def)
  next
    case 3
    define k where "k = nat (bb_splitSeedIdx bb ! i)"
    let ?c0 = "seed_code (bb_splitSeeds bb ! k) (n div 2)" and ?c1 = "seed_code (bb_splitSeeds bb ! (k + 1)) (n - n div 2)"
    have eq: "bucket_code bb i = ?c0 @ ?c1"
      using 3 n by (simp add: bucket_code_def k_def Let_def)
    have h: "2 \<le> n div 2" "2 \<le> n - n div 2"
      using 3 by auto
    have b: "bits_at (br_data br) (length (stream bb i)) ?c0"
      "bits_at (br_data br) (length (stream bb i) + length ?c0) ?c1"
      using code unfolding eq bits_at_append by auto
    note s0 = skipSeed_code [OF at b(1) h(1)]
    from skipSeed_code [OF conjunct1 [OF s0] _ h(2)] b(2) s0
    have "br_at (skipSeed (skipSeed br (n div 2)) (n - n div 2)) (length (stream bb i) + length ?c0 + length ?c1) \<and>
        br_data (skipSeed (skipSeed br (n div 2)) (n - n div 2)) = br_data br"
      by metis
    then show ?thesis
      using 3 h by (simp add: br'_def stream_Suc eq add.assoc Let_def)
  qed
qed

lemma skip_seeds_ok:
  assumes sol: "all_solved bb" and seg: "segment_ok bb lo hi cumulative atStart" and hi: "hi < 1024"
    and "lo \<le> a" and "a \<le> hi" and "br_at br (length (stream bb a))"
    and "bits_at (br_data br) 0 (stream bb 1024)"
  shows "\<exists>br'. skip_seeds cumulative lo atStart [a..<hi] br = Inr br' \<and> br_at br' (length (stream bb hi)) \<and>
    br_data br' = br_data br"
  using assms(4-)
proof (induction "hi - a" arbitrary: a br)
  case 0
  then show ?case by simp
next
  case (Suc m)
  then have a: "a < hi" and m: "m = hi - Suc a"
    by auto
  have cnt: "counted bb"
    using sol by (simp add: all_solved_def)
  have a1024: "a < 1024"
    using a hi by simp
  note bs = bucket_start_ok [OF cnt seg Suc.prems(1) less_imp_le [OF a] hi]
  note gs = segment_size [OF cnt seg Suc.prems(1) less_imp_le [OF a] hi]
  define n where "n = length (bb_buckets bb ! a)"
  have n: "unat (bb_cumulative bb ! a - of_nat (starts (bb_buckets bb) a)) = n"
    using bucket_length [OF cnt a1024] by (simp add: n_def)
  define br1 where "br1 = (if n \<ge> 8 then
                  let splitPoint = n div 2;
                      secondHalfSize = n - splitPoint;
                      br = (if splitPoint > 1 then skipSeed br splitPoint else br)
                  in if secondHalfSize > 1 then skipSeed br secondHalfSize else br
                else if n \<ge> 2 then skipSeed br n
                else br)"
  have br1: "br_at br1 (length (stream bb (Suc a)))" "br_data br1 = br_data br"
    using skip_bucket [OF sol a1024 Suc.prems(3,4) n_def] by (simp_all add: br1_def)
  have "skip_seeds cumulative lo atStart [a..<hi] br = skip_seeds cumulative lo atStart [Suc a..<hi] br1"
    unfolding upt_conv_Cons [OF a] skip_seeds.simps bs gs rbind_Inr n br1_def Let_def splitThreshold_def ..
  then show ?case
    using Suc.hyps(1) [OF m, of br1] Suc.prems a br1 by simp
qed

section \<open>The target bucket\<close>

lemma fb_resolve_seed_ok:
  assumes "seed_ok fl idx sub st s n" and "2 \<le> n"
  shows "fb_resolve fl idx sub (if escaped st n then fallbackMarker else st) = s"
  using assms by (auto simp: seed_ok_def fb_resolve_def split: if_splits)

lemma fb_resolve_not_marker: "st \<noteq> fallbackMarker \<Longrightarrow> fb_resolve fl idx sub st = st"
  by (simp add: fb_resolve_def)

lemma target_slot_ok:
  assumes sol: "bucket_solved bb idx (bb_buckets bb ! idx) s0 s1" and idx: "idx < 1024"
    and fl: "length (bb_fallbackList bb) \<le> 255" "\<forall>e\<in>set (bb_fallbackList bb). fe_ok e"
    and md: "md = pre @ fallback_bytes (bb_fallbackList bb)" "sso \<le> length pre"
    and at: "br_at br (length (stream bb idx))" and bits: "bits_at (br_data br) 0 (stream bb 1024)"
    and n: "n = length (bb_buckets bb ! idx)" "n < 65536"
  shows "unat (target_slot md sso idx mp n br) = localSlot n s0 s1 mp"
proof -
  let ?fl = "bb_fallbackList bb"
  note code = bits_at_bucket [OF bits idx]
  have res: "resolveFallbackSeeds md sso idx a b = (fb_resolve ?fl idx 0 a, fb_resolve ?fl idx 1 b)" for a b
    unfolding md(1) resolveFallbackSeeds_eq [OF fl md(2)] fold_resolve_entry [OF fl(2)] ..
  consider "n \<le> 1" | "2 \<le> n" "n < 8" | "8 \<le> n"
    by linarith
  then show ?thesis
  proof cases
    case 1
    then show ?thesis
      by (simp add: target_slot_def localSlot_def)
  next
    case 2
    let ?st = "bb_seeds bb ! idx"
    obtain v br1 where d: "decodeGRSeedFast br n = (v, br1)"
      by (cases "decodeGRSeedFast br n")
    have "bits_at (br_data br) (length (stream bb idx)) (seed_code ?st n)"
      using code 2 n by (simp add: bucket_code_def)
    then have v: "v = (if escaped ?st n then fallbackMarker else ?st)"
      using decodeGRSeedFast_code(1) [OF at _ d] 2 by simp
    have ok: "seed_ok ?fl idx 0 ?st s0 n"
      using sol 2 n by (simp add: bucket_solved_def Let_def)
    have "fb_resolve ?fl idx 0 v = s0"
      unfolding v by (rule fb_resolve_seed_ok [OF ok 2(1)])
    then have "(if v = fallbackMarker then fst (resolveFallbackSeeds md sso idx v 0) else v) = s0"
      using fb_resolve_not_marker [of v] by (auto simp: res)
    then show ?thesis
      using 2 d by (simp add: target_slot_def localSlot_def Let_def)
  next
    case 3
    then obtain k where k: "bb_splitSeedIdx bb ! idx = int k" "k + 1 < length (bb_splitSeeds bb)"
      "seed_ok ?fl idx 0 (bb_splitSeeds bb ! k) s0 (n div 2)"
      "seed_ok ?fl idx 1 (bb_splitSeeds bb ! (k + 1)) s1 (n - n div 2)"
      using sol n by (auto simp: bucket_solved_def Let_def)
    let ?st0 = "bb_splitSeeds bb ! k" and ?st1 = "bb_splitSeeds bb ! (k + 1)"
    have h: "2 \<le> n div 2" "2 \<le> n - n div 2"
      using 3 by auto
    have b: "bits_at (br_data br) (length (stream bb idx)) (seed_code ?st0 (n div 2))"
      "bits_at (br_data br) (length (stream bb idx) + length (seed_code ?st0 (n div 2))) (seed_code ?st1 (n - n div 2))"
      using code 3 n k(1) by (simp_all add: bucket_code_def bits_at_append Let_def)
    obtain v0 br1 where d0: "decodeGRSeedFast br (n div 2) = (v0, br1)"
      by (cases "decodeGRSeedFast br (n div 2)")
    note r0 = decodeGRSeedFast_code [OF at b(1) d0]
    obtain v1 br2 where d1: "decodeGRSeedFast br1 (n - n div 2) = (v1, br2)"
      by (cases "decodeGRSeedFast br1 (n - n div 2)")
    note r1 = decodeGRSeedFast_code(1) [OF r0(2) _ d1, unfolded r0(3), OF b(2)]
    have v: "v0 = (if escaped ?st0 (n div 2) then fallbackMarker else ?st0)"
      "v1 = (if escaped ?st1 (n - n div 2) then fallbackMarker else ?st1)"
      using r0(1) r1 h by simp_all
    have "fb_resolve ?fl idx 0 v0 = s0" "fb_resolve ?fl idx 1 v1 = s1"
      unfolding v using fb_resolve_seed_ok [OF k(3) h(1)] fb_resolve_seed_ok [OF k(4) h(2)] by auto
    then have "(if v0 = fallbackMarker \<or> v1 = fallbackMarker then resolveFallbackSeeds md sso idx v0 v1 else (v0, v1)) = (s0, s1)"
      using fb_resolve_not_marker [of v0] fb_resolve_not_marker [of v1] by (auto simp: res)
    then have eq: "target_slot md sso idx mp n br =
        (let h = mixFromParts mp s0 (of_nat n) in if h < of_nat (n div 2) then h
         else of_nat (n div 2) + mixFromParts mp s1 (of_nat (n - n div 2)))"
      using 3 d0 d1 by (simp add: target_slot_def Let_def)
    have "unat (mixFromParts mp s1 (of_nat (n - n div 2))) < n - n div 2"
      using unat_mixFromParts_less [of "n - n div 2"] 3 n(2) by simp
    then have "unat (of_nat (n div 2) + mixFromParts mp s1 (of_nat (n - n div 2))) =
        n div 2 + unat (mixFromParts mp s1 (of_nat (n - n div 2)))"
      using n(2) by (simp add: unat_word_ariths)
    then show ?thesis
      unfolding eq using 3 by (simp add: localSlot_def Let_def)
  qed
qed

section \<open>The whole query\<close>

definition key_parts :: "u64 \<Rightarrow> u64 \<Rightarrow> u64 \<Rightarrow> mixParts" where
  "key_parts gs k0 k1 = \<lparr>xoredK0 = k0 XOR gs, xoredK1 = k1 XOR gs\<rparr>"

definition key_bucket :: "u64 \<Rightarrow> nat" where
  "key_bucket k0 = unat (FastRange32 k0 1024)"

lemma key_bucket_less: "key_bucket k0 < 1024"
  using unat_FastRange32_less [of 1024 k0] by (simp add: key_bucket_def)

lemma segment_decode:
  assumes sol: "all_solved bb" and md: "block_md bb cp ef sd md" and idx: "idx < 1024"
    and lo: "lo = idx div 128 * 128"
  defines "K \<equiv> bb_keysInBlock bb"
  defines "pos \<equiv> if idx div 128 > 0 then unat (efBitPos cp ! (idx div 128 - 1)) else 0"
  defines "decoded \<equiv> take (idx + 1 - lo) (drop lo (bb_cumulative bb))"
  defines "atStart \<equiv> if idx div 128 > 0 then of_nat (push_bit (computeEFLowBits 1024 K) (pos - lo)) OR
      readEFLowBits (drop 28 md) (lo - 1) (computeEFLowBits 1024 K) else 0"
  shows "decodeEFRangeInline (drop 28 md) 1024 K lo idx pos (1024 - lo) = Inr decoded"
    and "decoded \<noteq> []" and "segment_ok bb lo idx (copy_at (replicate 1024 0) lo decoded) atStart"
proof -
  let ?L = "computeEFLowBits 1024 K" and ?c = "bb_cumulative bb"
  have cnt: "counted bb"
    using sol by (simp add: all_solved_def)
  have len: "length ?c = 1024"
    using cnt by (simp add: counted_def)
  have "length (cp_bytes cp) = 28"
    using md by (intro length_cp_bytes) (auto simp: block_md_def cp_ok_def)
  then have drop28: "drop 28 md = ef @ sd @ fallback_bytes (bb_fallbackList bb)"
    using md by (simp add: block_md_def)
  have ef: "ef_data (drop 28 md) ?c ?L K"
    unfolding drop28 K_def using md unfolding block_md_def by blast
  have len8: "8 \<le> length (drop 28 md)"
    unfolding drop28 using md eliasFanoSize_ge [of K] by (simp add: block_md_def K_def)
  have lohi: "lo \<le> idx"
    using lo by simp
  have posh: "pos = ef_high ?c ?L lo + lo"
  proof (cases "idx div 128 = 0")
    case False
    then have "idx div 128 - 1 < 7" "(idx div 128 - 1 + 1) * 128 = lo"
      using idx lo by auto
    then show ?thesis
      using md False unfolding block_md_def cp_ok_def pos_def K_def by (metis add.commute neq0_conv)
  qed (simp add: pos_def lo ef_high_def)
  show "decodeEFRangeInline (drop 28 md) 1024 K lo idx pos (1024 - lo) = Inr decoded"
    unfolding decoded_def using decodeEFRangeInline_ok [OF ef len lohi idx len8 _ posh] lohi idx by simp
  have declen: "length decoded = idx + 1 - lo"
    using idx lohi len by (simp add: decoded_def)
  then show "decoded \<noteq> []"
    using lohi by auto
  have fits: "lo + length decoded \<le> length (replicate 1024 (0 :: u16))"
    using declen idx lohi by simp
  have "copy_at (replicate 1024 0) lo decoded ! i = ?c ! i" if "lo \<le> i" "i \<le> idx" for i
  proof -
    have "i < length (replicate 1024 (0 :: u16))"
      using that idx by simp
    from nth_copy_at [OF fits this] have "copy_at (replicate 1024 0) lo decoded ! i = decoded ! (i - lo)"
      using that declen by simp
    also have "\<dots> = ?c ! i"
      using that idx len by (simp add: decoded_def)
    finally show ?thesis .
  qed
  moreover have "atStart = ?c ! (lo - 1)" if "0 < lo"
  proof -
    have "0 < idx div 128" "lo - 1 < length ?c" "Suc (lo - 1) = lo"
      using that lo idx len by auto
    then show ?thesis
      using ef_data_value [OF ef, of "lo - 1"] posh by (simp add: atStart_def of_nat_push_bit)
  qed
  ultimately show "segment_ok bb lo idx (copy_at (replicate 1024 0) lo decoded) atStart"
    using fits by (simp add: segment_ok_def)
qed

theorem bij_QuerySlot_ok:
  assumes sol: "all_solved bb" and md: "block_md bb cp ef sd md"
    and fl: "length (bb_fallbackList bb) \<le> 255" "\<forall>e\<in>set (bb_fallbackList bb). fe_ok e"
    and K: "K = bb_keysInBlock bb" "0 < K"
    and bs: "bucket_solved bb (key_bucket k0) (bb_buckets bb ! key_bucket k0) s0 s1"
  shows "bij_QuerySlot d k0 k1 md K =
    (if bb_buckets bb ! key_bucket k0 = [] then Inl ErrNotFound
     else Inr (starts (bb_buckets bb) (key_bucket k0) +
       localSlot (length (bb_buckets bb ! key_bucket k0)) s0 s1 (key_parts (bd_globalSeed d) k0 k1)))"
proof -
  define idx where "idx = key_bucket k0"
  define seg where "seg = idx div 128"
  define lo where "lo = seg * 128"
  have idx: "idx < 1024"
    by (simp add: idx_def key_bucket_less)
  have cnt: "counted bb"
    using sol by (simp add: all_solved_def)
  have cplen: "length (cp_bytes cp) = 28" "length (efBitPos cp) = 7" "length (seedBitPos cp) = 7"
    using md length_cp_bytes [of cp] by (auto simp: block_md_def cp_ok_def)
  have mdlen: "length md = 28 + length ef + length sd + length (fallback_bytes (bb_fallbackList bb))"
    and take28: "take 28 md = cp_bytes cp"
    using md cplen by (auto simp: block_md_def)
  have efl: "length ef = eliasFanoSize 1024 K"
    using md by (simp add: block_md_def K)
  have big: "28 < length md" "28 + eliasFanoSize 1024 K < length md"
    using mdlen efl by (simp_all add: length_fallback_bytes)
  define efp where "efp = (if 0 < seg then efBitPos cp ! (seg - 1) else 0)"
  define sdp where "sdp = (if 0 < seg then seedBitPos cp ! (seg - 1) else 0)"
  have gets: "(if 0 < seg then get_at (efBitPos cp) (seg - 1) else Inr 0) = Inr efp"
    "(if 0 < seg then get_at (seedBitPos cp) (seg - 1) else Inr 0) = Inr sdp"
    using cplen idx by (auto simp: efp_def sdp_def seg_def)
  define dec where "dec = take (idx + 1 - lo) (drop lo (bb_cumulative bb))"
  define cum where "cum = copy_at (replicate 1024 0) lo dec"
  define atS where "atS = (if 0 < seg then of_nat (push_bit (computeEFLowBits 1024 K) (unat efp - lo)) OR
      readEFLowBits (drop 28 md) (lo - 1) (computeEFLowBits 1024 K) else 0)"
  have pos: "unat efp = (if idx div 128 > 0 then unat (efBitPos cp ! (idx div 128 - 1)) else 0)"
    by (simp add: efp_def seg_def)
  note sd = segment_decode [OF sol md idx lo_def [unfolded seg_def], folded K(1), folded pos,
      folded dec_def, folded cum_def, folded seg_def, folded atS_def]
  have lohi: "lo \<le> idx"
    by (simp add: lo_def seg_def)
  note bstart = bucket_start_ok [OF cnt sd(3) lohi order_refl idx]
  note bend = segment_size [OF cnt sd(3) lohi order_refl idx]
  define n where "n = length (bb_buckets bb ! idx)"
  have n: "unat (bb_cumulative bb ! idx - of_nat (starts (bb_buckets bb) idx)) = n"
    using bucket_length [OF cnt idx] by (simp add: n_def)
  have st: "starts (bb_buckets bb) idx < 65536" "n < 65536"
    using starts_mono [of "Suc idx" 1024 "bb_buckets bb"] starts_Suc [of idx "bb_buckets bb"] cnt idx
    by (auto simp: counted_def n_def)
  define br where "br = (if unat sdp > 0 then skipBits (newBitReaderFast (drop (28 + eliasFanoSize 1024 K) md)) (unat sdp)
      else newBitReaderFast (drop (28 + eliasFanoSize 1024 K) md))"
  have dropsd: "drop (28 + eliasFanoSize 1024 K) md = sd @ fallback_bytes (bb_fallbackList bb)"
    using md cplen efl by (simp add: block_md_def)
  have sdp: "unat sdp = length (stream bb lo)"
  proof (cases "seg = 0")
    case False
    then have "seg - 1 < 7" "(seg - 1 + 1) * 128 = lo"
      using idx by (auto simp: lo_def seg_def)
    then show ?thesis
      using md False unfolding block_md_def cp_ok_def sdp_def by (metis neq0_conv)
  qed (simp add: sdp_def lo_def stream_def)
  have br: "br_at br (length (stream bb lo))" "br_data br = sd @ fallback_bytes (bb_fallbackList bb)"
    using skipBits_at [OF newBitReaderFast_at(1), of _ "unat sdp"] sdp by (auto simp: br_def dropsd)
  have bits: "bits_at (br_data br) 0 (stream bb 1024)"
    using md unfolding br(2) block_md_def by blast
  obtain br' where br': "skip_seeds cum lo atS [lo..<idx] br = Inr br'"
    "br_at br' (length (stream bb idx))" "br_data br' = br_data br"
    using skip_seeds_ok [OF sol sd(3) idx order_refl lohi br(1) bits] by blast
  have pre: "md = (cp_bytes cp @ ef @ sd) @ fallback_bytes (bb_fallbackList bb)"
    "28 + eliasFanoSize 1024 K \<le> length (cp_bytes cp @ ef @ sd)"
    using md efl cplen by (simp_all add: block_md_def)
  have ts: "unat (target_slot md (28 + eliasFanoSize 1024 K) idx mp n br') = localSlot n s0 s1 mp" for mp
    using target_slot_ok [OF bs [folded idx_def] idx fl pre br'(2) bits [folded br'(3)] n_def st(2)] .
  have gb: "unat (FastRange32 k0 (of_nat 1024)) = idx"
    by (simp add: idx_def key_bucket_def)
  have "bij_QuerySlot d k0 k1 md K =
    (if n = 0 then Inl ErrNotFound
     else Inr (starts (bb_buckets bb) idx + localSlot n s0 s1 (key_parts (bd_globalSeed d) k0 k1)))"
  proof -
    have szs: "bucketsPerBlock = 1024" "checkpointsSize = 28" "checkpointInterval = 128"
      by simp_all
    have guards: "\<not> K = 0" "\<not> length md < 28" "\<not> 28 \<ge> length md" "\<not> 28 + eliasFanoSize 1024 K \<ge> length md"
      "\<not> length dec = 0"
      using K(2) big sd(2) by auto
    have cps: "decodeCheckpoints (cp_bytes cp) = Inr cp"
      by (rule decodeCheckpoints_cp_bytes [OF cplen(2,3)])
    have start: "unat (of_nat (starts (bb_buckets bb) idx) :: u16) = starts (bb_buckets bb) idx"
      using st(1) by simp
    show ?thesis
      unfolding bij_QuerySlot_def gb Let_def szs seg_def [symmetric] lo_def [symmetric] take28
        if_not_P [OF guards(1)] if_not_P [OF guards(2)] if_not_P [OF guards(3)] if_not_P [OF guards(4)]
        cps rbind_Inr gets sd(1) if_not_P [OF guards(5)] cum_def [symmetric] atS_def [symmetric]
        bstart bend n br_def [symmetric] br'(1) ts start key_parts_def
      by (rule refl)
  qed
  then show ?thesis
    by (simp add: n_def flip: idx_def)
qed

end
