(* ===== verification/Block_Algo.thy ===== *)
theory Block_Algo
  imports Entry_Codec "HOL-Library.Multiset"
begin

text \<open>
  The interface between the framework and a block algorithm, \<^verbatim>\<open>algorithm.go\<close>. A Go interface value is
  a record of operations over the builder's state type (\<open>blockOps\<close>), which the framework's model takes
  as an argument; the locale \<open>block_algo\<close> states what an implementation promises about them.
\<close>

record blockKey =
  bk_k0 :: u64
  bk_k1 :: u64
  bk_payload :: u64
  bk_fp :: u32

text \<open>
  \<open>BuildSeparatedInto\<close> returns (metadataLen, payloadsLen, numKeys) with the buffers and the builder;
  \<open>QuerySlot\<close> takes the global seed that the decoder was created with.
\<close>

record 'b blockOps =
  op_NumBlocks :: "'b \<Rightarrow> u32"
  op_GlobalConfigSize :: "'b \<Rightarrow> nat"
  op_EncodeGlobalConfigInto :: "'b \<Rightarrow> bytes \<Rightarrow> (nat \<times> bytes) res"
  op_AddKey :: "'b \<Rightarrow> u64 \<Rightarrow> u64 \<Rightarrow> u64 \<Rightarrow> u32 \<Rightarrow> 'b res"
  op_KeysAdded :: "'b \<Rightarrow> nat"
  op_Reset :: "'b \<Rightarrow> 'b"
  op_MaxIndexMetadataSize :: "'b \<Rightarrow> nat"
  op_MaxMetadataSizeForCurrentBlock :: "'b \<Rightarrow> nat"
  op_BuildSeparatedInto :: "'b \<Rightarrow> bytes \<Rightarrow> bytes \<Rightarrow> (nat \<times> nat \<times> nat \<times> bytes \<times> bytes \<times> 'b) res"

section \<open>What a built block promises\<close>

definition block_slots :: "(u64 \<Rightarrow> u64 \<Rightarrow> bytes \<Rightarrow> nat \<Rightarrow> nat res) \<Rightarrow> blockKey list \<Rightarrow> bytes \<Rightarrow> (blockKey \<Rightarrow> nat) \<Rightarrow> bool" where
  "block_slots query ks md slot \<longleftrightarrow>
    (\<forall>k\<in>set ks. query (bk_k0 k) (bk_k1 k) md (length ks) = Inr (slot k)) \<and>
    distinct (map slot ks) \<and> slot ` set ks = {0..<length ks}"

definition block_entries :: "nat \<Rightarrow> nat \<Rightarrow> blockKey list \<Rightarrow> bytes \<Rightarrow> (blockKey \<Rightarrow> nat) \<Rightarrow> bool" where
  "block_entries fpSize payloadSize ks payloads slot \<longleftrightarrow>
    (\<forall>k\<in>set ks. take (fpSize + payloadSize) (drop (slot k * (fpSize + payloadSize)) payloads) =
       entry_bytes fpSize payloadSize (bk_fp k) (bk_payload k))"

definition fps_fit :: "nat \<Rightarrow> blockKey list \<Rightarrow> bool" where
  "fps_fit fs ks \<longleftrightarrow> (\<forall>k\<in>set ks. take_bit (fs * 8) (bk_fp k) = bk_fp k)"

text \<open>
  The contract. \<open>holds totalKeys seed ps fs b ks\<close> says that the builder \<open>b\<close>, created for the given
  parameters, has the keys \<open>ks\<close> of the current block. An empty block always builds; a block with keys
  may fail, and when it does not, \<open>query\<close> maps its keys one to one onto the slots of the block from the
  metadata alone, and every slot holds the entry of its key.
\<close>

locale block_algo =
  fixes ops :: "'b blockOps"
    and newB :: "u64 \<Rightarrow> u64 \<Rightarrow> nat \<Rightarrow> nat \<Rightarrow> 'b"
    and query :: "u64 \<Rightarrow> u64 \<Rightarrow> u64 \<Rightarrow> bytes \<Rightarrow> nat \<Rightarrow> nat res"
    and holds :: "u64 \<Rightarrow> u64 \<Rightarrow> nat \<Rightarrow> nat \<Rightarrow> 'b \<Rightarrow> blockKey list \<Rightarrow> bool"
    and nblocks :: "u64 \<Rightarrow> u32"
    and maxMeta :: "u64 \<Rightarrow> nat"
  assumes new_holds: "unat tk < 2 ^ 40 \<Longrightarrow> holds tk s ps fs (newB tk s ps fs) []"
    and num_blocks: "holds tk s ps fs b ks \<Longrightarrow> op_NumBlocks ops b = nblocks tk"
    and two_blocks: "unat tk < 2 ^ 40 \<Longrightarrow> 2 \<le> unat (nblocks tk)"
    and config_size: "holds tk s ps fs b ks \<Longrightarrow> op_GlobalConfigSize ops b = 0"
    and keys_added: "holds tk s ps fs b ks \<Longrightarrow> op_KeysAdded ops b = length ks"
    and add_holds: "holds tk s ps fs b ks \<Longrightarrow>
      \<exists>b'. op_AddKey ops b (bk_k0 k) (bk_k1 k) (bk_payload k) (bk_fp k) = Inr b' \<and> holds tk s ps fs b' (ks @ [k])"
    and reset_holds: "holds tk s ps fs b ks \<Longrightarrow> holds tk s ps fs (op_Reset ops b) []"
    and index_meta: "holds tk s ps fs b ks \<Longrightarrow> op_MaxIndexMetadataSize ops b = maxMeta tk"
    and meta_small: "unat tk < 2 ^ 40 \<Longrightarrow> maxMeta tk \<le> 2 ^ 14"
    and empty_builds: "unat tk < 2 ^ 40 \<Longrightarrow> holds tk s ps fs b [] \<Longrightarrow>
      length mdst = op_MaxMetadataSizeForCurrentBlock ops b \<Longrightarrow>
      \<exists>ml mdst' pdst' b'. op_BuildSeparatedInto ops b mdst pdst = Inr (ml, 0, 0, mdst', pdst', b') \<and>
        holds tk s ps fs b' [] \<and> 100 \<le> ml \<and> ml \<le> maxMeta tk \<and> ml \<le> length mdst'"
    and build_ok: "unat tk < 2 ^ 40 \<Longrightarrow> holds tk s ps fs b ks \<Longrightarrow> ks \<noteq> [] \<Longrightarrow> fps_fit fs ks \<Longrightarrow>
      length mdst = op_MaxMetadataSizeForCurrentBlock ops b \<Longrightarrow> length pdst = length ks * (ps + fs) \<Longrightarrow>
      op_BuildSeparatedInto ops b mdst pdst = Inr (ml, pl, nk, mdst', pdst', b') \<Longrightarrow>
      (\<exists>slot. block_slots (query s) ks (take ml mdst') slot \<and> block_entries fs ps ks pdst' slot) \<and>
      nk = length ks \<and> length pdst' = length pdst \<and> holds tk s ps fs b' ks \<and>
      100 \<le> ml \<and> ml \<le> maxMeta tk \<and> ml \<le> length mdst'"

section \<open>Entries written at distinct slots\<close>

definition write_all :: "nat \<Rightarrow> (nat \<times> bytes) list \<Rightarrow> bytes \<Rightarrow> bytes" where
  "write_all es ps dst = fold (\<lambda>(s, b) d. copy_at d (s * es) b) ps dst"

lemma write_all_Nil [simp]: "write_all es [] dst = dst"
  by (simp add: write_all_def)

lemma write_all_Cons [simp]: "write_all es ((s, b) # ps) dst = write_all es ps (copy_at dst (s * es) b)"
  by (simp add: write_all_def)

lemma write_all_append: "write_all es (ps @ qs) dst = write_all es qs (write_all es ps dst)"
  by (simp add: write_all_def)

lemma slot_fits: "s < m \<Longrightarrow> s * es + es \<le> m * (es :: nat)"
  by (metis Suc_leI add.commute mult_Suc mult_le_mono1)

lemma slots_apart: "s \<noteq> s' \<Longrightarrow> s * es + es \<le> s' * es \<or> s' * es + es \<le> s * (es :: nat)"
  using slot_fits [of s s' es] slot_fits [of s' s es] by (metis linorder_neqE_nat)

lemma length_write_all:
  assumes "\<forall>(s, b)\<in>set ps. s < m \<and> length b = es" and "m * es \<le> length dst"
  shows "length (write_all es ps dst) = length dst"
  using assms
proof (induction ps arbitrary: dst)
  case (Cons p ps)
  obtain s b where p: "p = (s, b)" by (cases p)
  have "s * es + length b \<le> length dst"
    using Cons.prems slot_fits [of s m es] p by auto
  then show ?case
    using Cons p by auto
qed simp

lemma write_all_other:
  assumes "\<forall>(s', b)\<in>set ps. s' < m \<and> length b = es \<and> s' \<noteq> s" and "m * es \<le> length dst" and "s < m"
  shows "take es (drop (s * es) (write_all es ps dst)) = take es (drop (s * es) dst)"
  using assms
proof (induction ps arbitrary: dst)
  case (Cons p ps)
  obtain s' b where p: "p = (s', b)" by (cases p)
  have b: "length b = es" "s' < m" "s' \<noteq> s"
    using Cons.prems(1) p by auto
  have f: "s' * es + length b \<le> length dst" "s * es + es \<le> length dst"
    using Cons.prems(2,3) slot_fits [of s' m es] slot_fits [of s m es] b by auto
  have apart: "s * es + es \<le> s' * es \<or> s' * es + length b \<le> s * es"
    using slots_apart [of s s' es] b by auto
  note eq = slice_copy_at_other [OF f(1) apart f(2)]
  have "m * es \<le> length (copy_at dst (s' * es) b)"
    using Cons.prems(2) f by simp
  then show ?case
    using Cons.IH [of "copy_at dst (s' * es) b"] Cons.prems(1,3) eq p by simp
qed simp

lemma write_all_at:
  assumes "distinct (map fst ps)" and "\<forall>(s, b)\<in>set ps. s < m \<and> length b = es" and "m * es \<le> length dst"
    and "(s, b) \<in> set ps"
  shows "take es (drop (s * es) (write_all es ps dst)) = b"
  using assms
proof (induction ps arbitrary: dst)
  case (Cons p ps)
  obtain s' b' where p: "p = (s', b')" by (cases p)
  have b': "length b' = es" "s' < m"
    using Cons.prems(2) p by auto
  have f: "s' * es + length b' \<le> length dst"
    using Cons.prems(3) slot_fits [of s' m es] b' by auto
  have len: "m * es \<le> length (copy_at dst (s' * es) b')"
    using Cons.prems(3) f by simp
  show ?case
  proof (cases "(s, b) = p")
    case True
    then have "\<forall>(s'', b)\<in>set ps. s'' < m \<and> length b = es \<and> s'' \<noteq> s'"
      using Cons.prems(1,2) p by (force simp: image_iff)
    from write_all_other [OF this len b'(2)] slice_copy_at [OF f] True p b' show ?thesis
      by simp
  next
    case False
    then show ?thesis
      using Cons.IH [OF _ _ len] Cons.prems p by auto
  qed
qed simp

section \<open>Grouping\<close>

lemma mset_groups:
  "mset (concat (map (\<lambda>i. filter (\<lambda>x. g x = i) xs) [0..<m])) = mset (filter (\<lambda>x. g x < m) xs)"
proof (induction m)
  case (Suc m)
  have "mset (filter (\<lambda>x. g x < Suc m) xs) = mset (filter (\<lambda>x. g x < m) xs) + mset (filter (\<lambda>x. g x = m) xs)"
    by (induction xs) (auto simp: less_Suc_eq)
  with Suc show ?case by simp
qed simp

lemma mset_groups_all:
  "\<forall>x\<in>set xs. g x < m \<Longrightarrow> mset (concat (map (\<lambda>i. filter (\<lambda>x. g x = i) xs) [0..<m])) = mset xs"
  by (simp add: mset_groups)

lemma distinct_map_groups:
  assumes "\<And>i. distinct (map f (filter (\<lambda>x. g x = i) xs))"
    and "\<And>x y. x \<in> set xs \<Longrightarrow> y \<in> set xs \<Longrightarrow> f x = f y \<Longrightarrow> g x = g y"
  shows "distinct (map f xs)"
  using assms
proof (induction xs)
  case (Cons x xs)
  have "distinct (map f (filter (\<lambda>x. g x = i) xs))" for i
    using Cons.prems(1) [of i] by (cases "g x = i") simp_all
  moreover have "g y = g z" if "y \<in> set xs" "z \<in> set xs" "f y = f z" for y z
    using Cons.prems(2) [of y z] that by simp
  ultimately have IH: "distinct (map f xs)"
    by (rule Cons.IH)
  have "f x \<noteq> f y" if y: "y \<in> set xs" for y
  proof
    assume eq: "f x = f y"
    then have "g x = g y"
      using Cons.prems(2) [of x y] y by simp
    then have "y \<in> set (filter (\<lambda>z. g z = g x) xs)"
      using y by simp
    moreover have "f x \<notin> f ` set (filter (\<lambda>z. g z = g x) xs)"
      using Cons.prems(1) [of "g x"] by simp
    ultimately show False
      using eq by (metis imageI)
  qed
  with IH show ?case
    by auto
qed simp

lemma distinct_bounded_surj:
  assumes "distinct xs" and "\<forall>x\<in>set xs. x < length xs"
  shows "set xs = {0..<length xs}"
  using assms by (intro card_subset_eq) (auto simp: distinct_card)

end
