(* ===== verification/Bij_Block_Correct.thy ===== *)
theory Bij_Block_Correct
  imports Bij_Query_Correct Block_Algo
begin

text \<open>
  A whole bijection block: the builder's state as an image of the keys added so far, the payload
  encoder, and the main theorem that a successful build gives a minimal perfect hash function of the
  keys whose entries stand at their slots.
\<close>

section \<open>The builder as a list of keys\<close>

definition mk_entry :: "u64 \<Rightarrow> blockKey \<Rightarrow> bucketEntry" where
  "mk_entry gs k = \<lparr>be_mix = key_parts gs (bk_k0 k) (bk_k1 k), be_payload = bk_payload k, be_fingerprint = bk_fp k\<rparr>"

definition group_of :: "blockKey list \<Rightarrow> nat \<Rightarrow> blockKey list" where
  "group_of ks i = filter (\<lambda>k. key_bucket (bk_k0 k) = i) ks"

definition bij_repr :: "bijBuilder \<Rightarrow> blockKey list \<Rightarrow> bool" where
  "bij_repr bb ks \<longleftrightarrow>
    bb_buckets bb = map (\<lambda>i. map (mk_entry (bb_globalSeed bb)) (group_of ks i)) [0..<1024] \<and>
    bb_keysInBlock bb = length ks \<and> length (bb_seeds bb) = 1024 \<and> length (bb_splitSeedIdx bb) = 1024"

text \<open>The fields that no operation changes.\<close>

definition bij_cfg :: "bijBuilder \<Rightarrow> u32 \<times> u64 \<times> nat \<times> nat \<times> nat" where
  "bij_cfg bb = (bb_numBlocks bb, bb_globalSeed bb, bb_payloadSize bb, bb_fingerprintSize bb, bb_maxKeysPerBlock bb)"

lemma bij_repr_buckets:
  assumes "bij_repr bb ks" and "i < 1024"
  shows "bb_buckets bb ! i = map (mk_entry (bb_globalSeed bb)) (group_of ks i)"
  using assms by (simp add: bij_repr_def)

lemma bij_NewBuilder_repr: "bij_repr (bij_NewBuilder totalKeys seed ps fs) []"
  by (simp add: bij_repr_def bij_NewBuilder_def group_of_def map_replicate_const)

lemma bij_Reset_repr: "length (bb_buckets bb) = 1024 \<Longrightarrow> length (bb_seeds bb) = 1024 \<Longrightarrow>
    length (bb_splitSeedIdx bb) = 1024 \<Longrightarrow> bij_repr (bij_Reset bb) [] \<and> bij_cfg (bij_Reset bb) = bij_cfg bb"
  by (auto simp: bij_repr_def bij_Reset_def bij_cfg_def group_of_def intro: nth_equalityI)

lemma bij_AddKey_repr:
  assumes "bij_repr bb ks"
  shows "\<exists>bb'. bij_AddKey bb (bk_k0 k) (bk_k1 k) (bk_payload k) (bk_fp k) = Inr bb' \<and> bij_repr bb' (ks @ [k]) \<and>
    bij_cfg bb' = bij_cfg bb"
proof -
  let ?i = "key_bucket (bk_k0 k)" and ?gs = "bb_globalSeed bb"
  have i: "?i < 1024"
    by (rule key_bucket_less)
  have idx: "unat (FastRange32 (bk_k0 k) (of_nat bucketsPerBlock)) = ?i"
    by (simp add: key_bucket_def)
  define bs where "bs = (bb_buckets bb)[?i := bb_buckets bb ! ?i @ [mk_entry ?gs k]]"
  have len: "length (bb_buckets bb) = 1024"
    using assms by (simp add: bij_repr_def)
  have run: "bij_AddKey bb (bk_k0 k) (bk_k1 k) (bk_payload k) (bk_fp k) =
      Inr (bb\<lparr>bb_buckets := bs, bb_keysInBlock := bb_keysInBlock bb + 1\<rparr>)"
    unfolding bij_AddKey_def idx using i len by (simp add: bs_def mk_entry_def key_parts_def Let_def)
  have "bs = map (\<lambda>i. map (mk_entry ?gs) (group_of (ks @ [k]) i)) [0..<1024]"
  proof (rule nth_equalityI)
    fix j assume "j < length bs"
    then have j: "j < 1024"
      by (simp add: bs_def len)
    show "bs ! j = map (\<lambda>i. map (mk_entry ?gs) (group_of (ks @ [k]) i)) [0..<1024] ! j"
      using j i len bij_repr_buckets [OF assms j]
      by (cases "j = ?i") (simp_all add: bs_def group_of_def)
  qed (simp add: bs_def len)
  then show ?thesis
    using run assms by (simp add: bij_repr_def bij_cfg_def)
qed

lemma bij_repr_starts:
  assumes "bij_repr bb ks"
  shows "starts (bb_buckets bb) 1024 = length ks"
proof -
  have "starts (bb_buckets bb) 1024 = length (concat (map (\<lambda>i. group_of ks i) [0..<1024]))"
    using assms by (simp add: starts_def bij_repr_def length_concat comp_def)
  also have "\<dots> = length ks"
    unfolding group_of_def using mset_groups_all [of ks "\<lambda>k. key_bucket (bk_k0 k)" 1024] key_bucket_less
    by (metis size_mset)
  finally show ?thesis .
qed

section \<open>Solving a whole block\<close>

lemma solveBijections_ok:
  assumes rep: "bij_repr bb ks" and K: "length ks < 65536"
    and run: "solveBijections (computeCumulativeCounts bb) = Inr bb'"
  shows "all_solved bb'" and "\<forall>e\<in>set (bb_fallbackList bb'). fe_ok e" and "bij_repr bb' ks" and "bij_cfg bb' = bij_cfg bb"
proof -
  let ?bb = "computeCumulativeCounts bb"
  let ?bb0 = "?bb\<lparr>bb_splitSeeds := [], bb_fallbackList := [], bb_splitSeedIdx := map (\<lambda>_. -1) (bb_splitSeedIdx ?bb)\<rparr>"
  have len: "length (bb_buckets bb) = 1024" "length (bb_seeds ?bb0) = 1024" "length (bb_splitSeedIdx ?bb0) = 1024"
    using rep by (auto simp: bij_repr_def computeCumulativeCounts_def)
  have loop: "solve_loop 0 (bb_buckets bb) ?bb0 = Inr bb'"
    using run by (simp add: solveBijections_def computeCumulativeCounts_def)
  have lt: "\<forall>b\<in>set (bb_buckets bb). length b < 2 ^ 32"
  proof
    fix b assume "b \<in> set (bb_buckets bb)"
    then obtain i where i: "i < 1024" "b = bb_buckets bb ! i"
      using len by (metis in_set_conv_nth)
    then have "length b \<le> length ks"
      using bij_repr_buckets [OF rep i(1)] by (simp add: group_of_def)
    with K show "length b < 2 ^ 32" by simp
  qed
  note ok = solve_loop_ok [OF loop _ len(2,3) _ lt]
  have sol: "\<forall>j<1024. \<exists>s0 s1. bucket_solved bb' j (bb_buckets bb ! j) s0 s1" and ext: "solve_ext 0 1024 ?bb0 bb'"
    using ok len(1) by auto
  have same: "bb_buckets bb' = bb_buckets bb" "bb_bucketSizes bb' = bb_bucketSizes ?bb"
    "bb_cumulative bb' = bb_cumulative ?bb" "bb_keysInBlock bb' = bb_keysInBlock bb"
    "length (bb_seeds bb') = 1024" "length (bb_splitSeedIdx bb') = 1024" "bij_cfg bb' = bij_cfg bb"
    using ext len(2,3) by (auto simp: solve_ext_def computeCumulativeCounts_def bij_cfg_def)
  have "counted bb'"
    using same len(1) rep K bij_repr_starts [OF rep]
    by (simp add: counted_def computeCumulativeCounts_def bij_repr_def)
  then show "all_solved bb'"
    using sol same by (simp add: all_solved_def)
  show "\<forall>e\<in>set (bb_fallbackList bb'). fe_ok e"
    using ext by (auto simp: solve_ext_def)
  show "bij_cfg bb' = bij_cfg bb"
    by (rule same(7))
  then show "bij_repr bb' ks"
    using same rep by (simp add: bij_repr_def bij_cfg_def)
qed

section \<open>Slots of the keys\<close>

definition key_slot :: "bijBuilder \<Rightarrow> (nat \<Rightarrow> u32) \<Rightarrow> (nat \<Rightarrow> u32) \<Rightarrow> blockKey \<Rightarrow> nat" where
  "key_slot bb f0 f1 k =
    (let i = key_bucket (bk_k0 k) in
     starts (bb_buckets bb) i +
     localSlot (length (bb_buckets bb ! i)) (f0 i) (f1 i) (key_parts (bb_globalSeed bb) (bk_k0 k) (bk_k1 k)))"

definition seeds_for :: "bijBuilder \<Rightarrow> (nat \<Rightarrow> u32) \<Rightarrow> (nat \<Rightarrow> u32) \<Rightarrow> bool" where
  "seeds_for bb f0 f1 \<longleftrightarrow> (\<forall>i<1024. bucket_solved bb i (bb_buckets bb ! i) (f0 i) (f1 i))"

lemma all_solved_seeds: "all_solved bb \<Longrightarrow> \<exists>f0 f1. seeds_for bb f0 f1"
  unfolding all_solved_def seeds_for_def by metis

lemma key_slot_range:
  assumes "bij_repr bb ks" and "length ks < 65536" and "k \<in> set ks" and "i = key_bucket (bk_k0 k)"
  shows "starts (bb_buckets bb) i \<le> key_slot bb f0 f1 k" and "key_slot bb f0 f1 k < starts (bb_buckets bb) (Suc i)"
    and "bb_buckets bb ! i \<noteq> []"
proof -
  have i: "i < 1024"
    using assms(4) key_bucket_less by simp
  have mem: "k \<in> set (group_of ks i)"
    using assms(3,4) by (simp add: group_of_def)
  have b: "bb_buckets bb ! i = map (mk_entry (bb_globalSeed bb)) (group_of ks i)"
    by (rule bij_repr_buckets [OF assms(1) i])
  show ne: "bb_buckets bb ! i \<noteq> []"
    using mem by (auto simp: b)
  have "length (bb_buckets bb ! i) \<le> length ks"
    by (simp add: b group_of_def)
  then have "localSlot (length (bb_buckets bb ! i)) (f0 i) (f1 i) mp < length (bb_buckets bb ! i)" for mp
    using localSlot_less ne assms(2) by simp
  moreover have "i < length (bb_buckets bb)"
    using assms(1) i by (simp add: bij_repr_def)
  ultimately show "starts (bb_buckets bb) i \<le> key_slot bb f0 f1 k"
    "key_slot bb f0 f1 k < starts (bb_buckets bb) (Suc i)"
    by (simp_all add: key_slot_def starts_Suc assms(4) Let_def)
qed

lemma key_slot_less:
  assumes "bij_repr bb ks" and "length ks < 65536" and "k \<in> set ks"
  shows "key_slot bb f0 f1 k < length ks"
  using key_slot_range(2) [OF assms refl, of f0 f1] bij_repr_starts [OF assms(1)]
    starts_mono [of "Suc (key_bucket (bk_k0 k))" 1024 "bb_buckets bb"] key_bucket_less [of "bk_k0 k"]
  by simp

lemma key_slot_distinct:
  assumes rep: "bij_repr bb ks" and K: "length ks < 65536" and "seeds_for bb f0 f1"
  shows "distinct (map (key_slot bb f0 f1) ks)"
proof (rule distinct_map_groups [where g = "\<lambda>k. key_bucket (bk_k0 k)"])
  fix i
  show "distinct (map (key_slot bb f0 f1) (filter (\<lambda>k. key_bucket (bk_k0 k) = i) ks))"
  proof (cases "i < 1024")
    case True
    have b: "bb_buckets bb ! i = map (mk_entry (bb_globalSeed bb)) (group_of ks i)"
      by (rule bij_repr_buckets [OF rep True])
    let ?n = "length (bb_buckets bb ! i)"
    have "distinct (map (\<lambda>e. localSlot ?n (f0 i) (f1 i) (be_mix e)) (bb_buckets bb ! i))"
      using assms(3) True by (simp add: seeds_for_def bucket_solved_def Let_def)
    then have d: "distinct (map (\<lambda>k. localSlot ?n (f0 i) (f1 i) (key_parts (bb_globalSeed bb) (bk_k0 k) (bk_k1 k))) (group_of ks i))"
      by (simp add: b mk_entry_def comp_def)
    have "map (key_slot bb f0 f1) (group_of ks i) = map ((+) (starts (bb_buckets bb) i))
        (map (\<lambda>k. localSlot ?n (f0 i) (f1 i) (key_parts (bb_globalSeed bb) (bk_k0 k) (bk_k1 k))) (group_of ks i))"
      by (auto simp: key_slot_def group_of_def)
    then show ?thesis
      using d unfolding group_of_def [symmetric] by (simp add: distinct_map inj_on_def)
  next
    case False
    then have "filter (\<lambda>k. key_bucket (bk_k0 k) = i) ks = []"
      using key_bucket_less by (auto simp: filter_empty_conv)
    then show ?thesis by simp
  qed
next
  fix x y assume xy: "x \<in> set ks" "y \<in> set ks" "key_slot bb f0 f1 x = key_slot bb f0 f1 y"
  let ?i = "key_bucket (bk_k0 x)" and ?j = "key_bucket (bk_k0 y)"
  note rx = key_slot_range(1,2) [OF rep K xy(1) refl, of f0 f1]
  note ry = key_slot_range(1,2) [OF rep K xy(2) refl, of f0 f1]
  show "?i = ?j"
  proof (rule ccontr)
    assume "?i \<noteq> ?j"
    then consider "Suc ?i \<le> ?j" | "Suc ?j \<le> ?i"
      by linarith
    then show False
      using rx ry xy(3) starts_mono [of "Suc ?i" ?j "bb_buckets bb"] starts_mono [of "Suc ?j" ?i "bb_buckets bb"]
      by cases auto
  qed
qed

section \<open>Payloads\<close>

definition entry_pairs :: "nat \<Rightarrow> nat \<Rightarrow> (bucketEntry \<Rightarrow> nat) \<Rightarrow> bucketEntry list \<Rightarrow> (nat \<times> bytes) list" where
  "entry_pairs fs ps slot es = map (\<lambda>e. (slot e, entry_bytes fs ps (be_fingerprint e) (be_payload e))) es"

definition entry_fits :: "nat \<Rightarrow> bucketEntry \<Rightarrow> bool" where
  "entry_fits fs e \<longleftrightarrow> take_bit (fs * 8) (be_fingerprint e) = be_fingerprint e"

lemma write_entries_ok:
  assumes es: "entrySize = fs + ps" and g: "\<not> generic \<Longrightarrow> entrySize \<in> {1, 4, 5, 8} \<and> (\<forall>e\<in>set bucket. entry_fits fs e)"
    and "\<forall>e\<in>set bucket. start + slot e < m" and "m * entrySize \<le> length dst"
  shows "write_entries slot generic entrySize (fs * 8) start bucket dst =
    Inr (write_all entrySize (entry_pairs fs ps (\<lambda>e. start + slot e) bucket) dst)"
  using g assms(3,4)
proof (induction bucket arbitrary: dst)
  case Nil
  then show ?case
    by (simp add: entry_pairs_def)
next
  case (Cons e bucket)
  let ?p = "start + slot e"
  let ?b = "entry_bytes fs ps (be_fingerprint e) (be_payload e)"
  have fit: "?p * entrySize + entrySize \<le> length dst"
    using Cons.prems(2,3) slot_fits [of ?p m entrySize] by auto
  have w: "(if generic
           then WriteEntryGeneric dst ?p entrySize (be_fingerprint e) (be_payload e) (fs * 8)
           else WriteEntry dst ?p entrySize (be_fingerprint e) (be_payload e) (fs * 8)) =
      Inr (copy_at dst (?p * entrySize) ?b)"
    using WriteEntryGeneric_eq [OF es fit] WriteEntry_eq [OF es fit] Cons.prems(1) by (auto simp: entry_fits_def)
  have "m * entrySize \<le> length (copy_at dst (?p * entrySize) ?b)"
    using Cons.prems(3) fit by simp
  then have "write_entries slot generic entrySize (fs * 8) start bucket (copy_at dst (?p * entrySize) ?b) =
      Inr (write_all entrySize (entry_pairs fs ps (\<lambda>e. start + slot e) bucket) (copy_at dst (?p * entrySize) ?b))"
    using Cons.prems by (intro Cons.IH) auto
  then show ?case
    using w by (simp add: entry_pairs_def)
qed

lemma stored_seed_ok: "seed_ok (bb_fallbackList bb) idx sub st s n \<Longrightarrow> stored_seed bb idx sub st = Inr s"
  by (auto simp: stored_seed_def seed_ok_def resolveFallbackSeed_def fb_lookup_def split: if_splits option.splits)

lemma write_bucket_ok:
  assumes cnt: "counted bb" and sol: "bucket_solved bb idx (bb_buckets bb ! idx) s0 s1" and idx: "idx < 1024"
    and es: "entrySize = bb_fingerprintSize bb + bb_payloadSize bb"
    and g: "\<not> generic \<Longrightarrow> entrySize \<in> {1, 4, 5, 8} \<and> (\<forall>e\<in>set (bb_buckets bb ! idx). entry_fits (bb_fingerprintSize bb) e)"
    and len: "bb_keysInBlock bb * entrySize \<le> length dst"
  defines "slot \<equiv> \<lambda>e. starts (bb_buckets bb) idx + localSlot (length (bb_buckets bb ! idx)) s0 s1 (be_mix e)"
  shows "write_bucket bb generic entrySize idx (bb_buckets bb ! idx) (starts (bb_buckets bb) idx) dst =
    Inr (starts (bb_buckets bb) (Suc idx),
      write_all entrySize (entry_pairs (bb_fingerprintSize bb) (bb_payloadSize bb) slot (bb_buckets bb ! idx)) dst)"
proof -
  define n where "n = length (bb_buckets bb ! idx)"
  let ?st = "starts (bb_buckets bb) idx"
  have sz: "get_at (bb_bucketSizes bb) idx = Inr n" and lens: "length (bb_seeds bb) = 1024" "length (bb_splitSeedIdx bb) = 1024"
    using cnt idx by (auto simp: counted_def n_def)
  have suc: "starts (bb_buckets bb) (Suc idx) = ?st + n"
    using cnt idx by (simp add: starts_Suc counted_def n_def)
  have n: "?st + n \<le> bb_keysInBlock bb" "bb_keysInBlock bb < 65536"
    using starts_mono [of "Suc idx" 1024 "bb_buckets bb"] cnt idx suc by (auto simp: counted_def)
  have ls: "?st + localSlot n s0 s1 mp < bb_keysInBlock bb" if "n \<noteq> 0" for mp
    using localSlot_less [of n s0 s1 mp] that n by simp
  have we: "write_entries sl generic entrySize (bb_fingerprintSize bb * 8) ?st (bb_buckets bb ! idx) dst =
      Inr (write_all entrySize (entry_pairs (bb_fingerprintSize bb) (bb_payloadSize bb) slot (bb_buckets bb ! idx)) dst)"
    if "sl = (\<lambda>e. localSlot n s0 s1 (be_mix e))" "n \<noteq> 0" for sl
    using ls that g write_entries_ok [OF es _ _ len, where bucket = "bb_buckets bb ! idx" and start = ?st
        and slot = sl and generic = generic]
    by (simp add: slot_def n_def)
  consider "n = 0" | "0 < n" "n < 8" | "8 \<le> n"
    by linarith
  then show ?thesis
  proof cases
    case 1
    then show ?thesis
      using sz suc by (simp add: write_bucket_def entry_pairs_def n_def)
  next
    case 2
    have "seed_ok (bb_fallbackList bb) idx 0 (bb_seeds bb ! idx) s0 n"
      using sol 2 by (simp add: bucket_solved_def Let_def n_def)
    note st = stored_seed_ok [OF this]
    have eq: "(\<lambda>e. if n > 1 then unat (mixFromParts (be_mix e) s0 (of_nat n)) else 0) = (\<lambda>e. localSlot n s0 s1 (be_mix e))"
      using 2 by (auto simp: localSlot_def fun_eq_iff)
    have nz: "\<not> n = 0" "\<not> n \<ge> splitThreshold"
      using 2 by auto
    have get: "get_at (bb_seeds bb) idx = Inr (bb_seeds bb ! idx)"
      using lens idx by simp
    show ?thesis
      unfolding write_bucket_def Let_def sz rbind_Inr if_not_P [OF nz(1)] if_not_P [OF nz(2)] get st
      using we [OF eq nz(1)] suc by simp
  next
    case 3
    then obtain k where k: "bb_splitSeedIdx bb ! idx = int k" "k + 1 < length (bb_splitSeeds bb)"
      "seed_ok (bb_fallbackList bb) idx 0 (bb_splitSeeds bb ! k) s0 (n div 2)"
      "seed_ok (bb_fallbackList bb) idx 1 (bb_splitSeeds bb ! (k + 1)) s1 (n - n div 2)"
      using sol by (auto simp: bucket_solved_def Let_def n_def)
    have eq: "(\<lambda>e. let h = mixFromParts (be_mix e) s0 (of_nat n) in if h < of_nat (n div 2) then unat h
        else n div 2 + unat (mixFromParts (be_mix e) s1 (of_nat (n - n div 2)))) = (\<lambda>e. localSlot n s0 s1 (be_mix e))"
      using 3 by (simp add: localSlot_def fun_eq_iff Let_def)
    have gets: "get_at (bb_splitSeedIdx bb) idx = Inr (int k)" "get_at_int (bb_splitSeeds bb) (int k) = Inr (bb_splitSeeds bb ! k)"
      "get_at_int (bb_splitSeeds bb) (int k + 1) = Inr (bb_splitSeeds bb ! (k + 1))"
      using k(1,2) lens idx by (auto simp: get_at_int_def nat_add_distrib)
    have nz: "\<not> n = 0" "n \<ge> splitThreshold"
      using 3 by auto
    show ?thesis
      unfolding write_bucket_def Let_def sz rbind_Inr if_not_P [OF nz(1)] if_P [OF nz(2)] gets
        stored_seed_ok [OF k(3)] stored_seed_ok [OF k(4)]
      using we [OF eq nz(1)] suc by (simp add: Let_def)
  qed
qed

lemma write_buckets_ok:
  assumes "counted bb" and "seeds_for bb f0 f1"
    and es: "entrySize = bb_fingerprintSize bb + bb_payloadSize bb"
    and g: "\<not> generic \<Longrightarrow> entrySize \<in> {1, 4, 5, 8} \<and> (\<forall>i<1024. \<forall>e\<in>set (bb_buckets bb ! i). entry_fits (bb_fingerprintSize bb) e)"
    and "bb_keysInBlock bb * entrySize \<le> length dst" and "a \<le> 1024"
  defines "prs \<equiv> \<lambda>i. entry_pairs (bb_fingerprintSize bb) (bb_payloadSize bb)
    (\<lambda>e. starts (bb_buckets bb) i + localSlot (length (bb_buckets bb ! i)) (f0 i) (f1 i) (be_mix e)) (bb_buckets bb ! i)"
  shows "write_buckets bb generic entrySize a (drop a (bb_buckets bb)) (starts (bb_buckets bb) a) dst =
    Inr (write_all entrySize (concat (map prs [a..<1024])) dst)"
  using assms(5,6)
proof (induction "1024 - a" arbitrary: a dst)
  case 0
  then show ?case
    using assms(1) by (simp add: counted_def)
next
  case (Suc m)
  then have a: "a < 1024" and m: "m = 1024 - Suc a"
    by auto
  have len: "length (bb_buckets bb) = 1024"
    using assms(1) by (simp add: counted_def)
  have d: "drop a (bb_buckets bb) = bb_buckets bb ! a # drop (Suc a) (bb_buckets bb)"
    using a len by (simp add: Cons_nth_drop_Suc)
  let ?dst = "write_all entrySize (prs a) dst"
  have w: "write_bucket bb generic entrySize a (bb_buckets bb ! a) (starts (bb_buckets bb) a) dst =
      Inr (starts (bb_buckets bb) (Suc a), ?dst)"
    unfolding prs_def using assms(2) a g Suc.prems(1) by (intro write_bucket_ok [OF assms(1) _ a es]) (auto simp: seeds_for_def)
  have "starts (bb_buckets bb) a + localSlot (length (bb_buckets bb ! a)) (f0 a) (f1 a) (be_mix e) < bb_keysInBlock bb"
    if "e \<in> set (bb_buckets bb ! a)" for e
  proof -
    have st: "starts (bb_buckets bb) a + length (bb_buckets bb ! a) \<le> bb_keysInBlock bb" "bb_keysInBlock bb < 65536"
      using starts_mono [of "Suc a" 1024 "bb_buckets bb"] starts_Suc [of a "bb_buckets bb"] assms(1) a
      by (auto simp: counted_def)
    moreover have "0 < length (bb_buckets bb ! a)"
      using that by (cases "bb_buckets bb ! a") auto
    ultimately show ?thesis
      using localSlot_less [of "length (bb_buckets bb ! a)" "f0 a" "f1 a" "be_mix e"] by simp
  qed
  then have "\<forall>(s, b)\<in>set (prs a). s < bb_keysInBlock bb \<and> length b = entrySize"
    by (auto simp: prs_def entry_pairs_def es)
  from length_write_all [OF this Suc.prems(1)]
  have "write_buckets bb generic entrySize (Suc a) (drop (Suc a) (bb_buckets bb)) (starts (bb_buckets bb) (Suc a)) ?dst =
      Inr (write_all entrySize (concat (map prs [Suc a..<1024])) ?dst)"
    using Suc.hyps(1) [OF m, of ?dst] Suc.prems a by simp
  then show ?case
    unfolding d upt_conv_Cons [OF a] by (simp add: w write_all_append)
qed

end
