(* ===== verification/Bij_Block.thy ===== *)
theory Bij_Block
  imports Bij_Block_Correct
begin

text \<open>
  The contract of the bijection block builder: errors and their meaning, the built block as a minimal
  perfect hash of its keys, sizes within the estimates, queries that never panic.
\<close>

section \<open>Errors of the solver\<close>

definition solver_errors :: "sherr set" where
  "solver_errors = {ErrDuplicateKey, ErrSplitBucketSeedSearchFailed, ErrIndistinguishableHashes}"

lemma solveExtended_err:
  assumes "length bucket = n" and "2 \<le> n" and "n < 2 ^ 32" and "solveExtended bucket n = Inl e"
  shows "e \<in> solver_errors \<and> (e = ErrDuplicateKey \<longleftrightarrow> \<not> distinct (map be_mix bucket))"
  using assms(4) unfolding solveExtended_ref [OF assms(1-3)] by (auto simp: solver_errors_def split: if_splits option.splits)

lemma split_distinct_mix:
  assumes "length bucket < 2 ^ 32" and "split_try bucket s = Some (r0, r1)"
  shows "distinct (map be_mix bucket) \<longleftrightarrow> distinct (map be_mix r1)"
proof
  let ?n = "length bucket"
  note st = iffD1 [OF split_try_Some [OF assms(1)] assms(2)]
  show "distinct (map be_mix bucket) \<Longrightarrow> distinct (map be_mix r1)"
    using st by (simp add: distinct_map_filter)
  assume d1: "distinct (map be_mix r1)"
  show "distinct (map be_mix bucket)"
  proof (rule distinct_map_filter_parts [where P = "first_half ?n s"])
    show "distinct (map be_mix (filter (first_half ?n s) bucket))"
      using st slots_dup by blast
    show "distinct (map be_mix (filter (\<lambda>x. \<not> first_half ?n s x) bucket))"
      using st d1 by simp
  qed (auto simp: first_half_def)
qed

lemma solveSplitBucket_err:
  assumes n: "length bucket = n" "8 \<le> n" "n < 2 ^ 32" and run: "solveSplitBucket bb idx bucket = Inl e"
  shows "e \<in> solver_errors \<and> (e = ErrDuplicateKey \<longleftrightarrow> \<not> distinct (map be_mix bucket))"
proof (cases "first_upto (\<lambda>s. split_try bucket (of_nat s) \<noteq> None) 0 splitBucketMaxSeed")
  case None
  then show ?thesis
    using run by (auto simp: solveSplitBucket_def solver_errors_def hasDuplicateMixParts_iff Let_def split: if_splits)
next
  case (Some s)
  define s0 :: u32 where "s0 = of_nat s"
  obtain r0 r1 where r: "split_try bucket s0 = Some (r0, r1)"
    using first_upto_Some [OF Some] by (auto simp: s0_def)
  have l1: "length r1 = n - n div 2"
  proof -
    note st = iffD1 [OF split_try_Some r, unfolded n(1), OF n(3)]
    have "length r0 + length r1 = n" and "length r0 = n div 2"
      using sum_length_filter_compl [of "first_half n s0" bucket] st n(1) by auto
    then show ?thesis by linarith
  qed
  have l2: "2 \<le> length r1" "length r1 < 2 ^ 32"
    using l1 n by auto
  obtain s1 nf where d: "(if length r1 > 8 then Inr (0, True) else solveDirectBucket r1 (length r1)) = Inr (s1, nf)"
    using solveDirectBucket_ref [OF refl l2] by (metis old.prod.exhaust)
  have "solveExtended r1 (length r1) = Inl e"
    using run l2(1) unfolding solveSplitBucket_def Let_def n(1) Some option.case s0_def [symmetric] r option.sel snd_conv
    by (cases nf) (auto simp: d res_simps split: if_splits)
  from solveExtended_err [OF refl l2 this] split_distinct_mix [OF _ r] n show ?thesis
    by simp
qed

lemma solve_bucket_err:
  assumes "length bucket < 2 ^ 32" and "idx < length (bb_seeds bb)" and "idx < length (bb_splitSeedIdx bb)"
    and "idx < 1024" and "\<forall>e\<in>set (bb_fallbackList bb). unat (bucketIndex e) < idx"
    and run: "solve_bucket idx bucket bb = Inl e"
  shows "e \<in> solver_errors \<and> (e = ErrDuplicateKey \<longleftrightarrow> \<not> distinct (map be_mix bucket)) \<and> 2 \<le> length bucket"
proof -
  consider "length bucket \<le> 1" | "2 \<le> length bucket" "length bucket < 8" | "8 \<le> length bucket"
    by linarith
  then show ?thesis
  proof cases
    case 1
    then show ?thesis
      using run assms(2) by (simp add: solve_bucket_def)
  next
    case 2
    obtain s nf where r: "solveDirectBucket bucket (length bucket) = Inr (s, nf)"
      using solveDirectBucket_ref [OF refl 2(1)] assms(1) by (metis old.prod.exhaust)
    have "solveExtended bucket (length bucket) = Inl e"
      using run r 2 assms(2) by (cases nf) (auto simp: solve_bucket_def res_simps)
    from solveExtended_err [OF refl 2(1) assms(1) this] 2(1) show ?thesis by blast
  next
    case 3
    have "solveSplitBucket bb idx bucket = Inl e"
    proof (cases "solveSplitBucket bb idx bucket")
      case (Inl e')
      then show ?thesis
        using run 3 by (simp add: solve_bucket_def)
    next
      case (Inr r)
      obtain st0 st1 bb1 where r: "r = (st0, st1, bb1)"
        by (cases r)
      obtain fl where "bb1 = bb\<lparr>bb_fallbackList := bb_fallbackList bb @ fl\<rparr>"
        using solveSplitBucket_ok [OF refl 3 assms(1,4,5) Inr [unfolded r]] by metis
      then show ?thesis
        using run 3 Inr r assms(3) by (simp add: solve_bucket_def)
    qed
    from solveSplitBucket_err [OF refl 3 assms(1) this] 3 show ?thesis by simp
  qed
qed

lemma solve_bucket_step:
  assumes "solve_bucket idx b bb = Inr bb1" and "length b < 2 ^ 32" and "idx < 1024"
    and "length (bb_seeds bb) = 1024" and "length (bb_splitSeedIdx bb) = 1024"
    and "\<forall>e\<in>set (bb_fallbackList bb). unat (bucketIndex e) < idx"
  shows "solve_ext idx (Suc idx) bb bb1"
proof -
  have "solve_loop idx [b] bb = Inr bb1"
    using assms(1) by simp
  from solve_loop_ok [OF this] assms show ?thesis by simp
qed

lemma solve_loop_err:
  assumes "solve_loop idx bs bb = Inl e" and "idx + length bs \<le> 1024"
    and "length (bb_seeds bb) = 1024" and "length (bb_splitSeedIdx bb) = 1024"
    and "\<forall>e\<in>set (bb_fallbackList bb). unat (bucketIndex e) < idx"
    and "\<forall>b\<in>set bs. length b < 2 ^ 32"
  shows "e \<in> solver_errors \<and> (\<exists>j<length bs. 2 \<le> length (bs ! j) \<and> (e = ErrDuplicateKey \<longleftrightarrow> \<not> distinct (map be_mix (bs ! j))) \<and>
    (\<exists>bb'. solve_bucket (idx + j) (bs ! j) bb' = Inl e))"
  using assms
proof (induction bs arbitrary: idx bb)
  case (Cons b bs)
  show ?case
  proof (cases "solve_bucket idx b bb")
    case (Inl e')
    then have "e' = e"
      using Cons.prems(1) by simp
    with Inl have "solve_bucket idx b bb = Inl e" by simp
    from solve_bucket_err [OF _ _ _ _ Cons.prems(5) this] this Cons.prems show ?thesis
      by (auto intro!: exI [of _ 0])
  next
    case (Inr bb1)
    have ext: "solve_ext idx (Suc idx) bb bb1"
      using solve_bucket_step [OF Inr _ _ Cons.prems(3,4,5)] Cons.prems(2,6) by simp
    have len: "length (bb_seeds bb1) = 1024" "length (bb_splitSeedIdx bb1) = 1024"
      "\<forall>e\<in>set (bb_fallbackList bb1). unat (bucketIndex e) < Suc idx"
      using ext Cons.prems(3,4,5) by (auto simp: solve_ext_def less_Suc_eq)
    have "solve_loop (Suc idx) bs bb1 = Inl e"
      using Cons.prems(1) Inr by simp
    from Cons.IH [OF this _ len] Cons.prems(2,6)
    obtain j where "e \<in> solver_errors" "j < length bs" "2 \<le> length (bs ! j)" "e = ErrDuplicateKey \<longleftrightarrow> \<not> distinct (map be_mix (bs ! j))"
      "\<exists>bb'. solve_bucket (Suc idx + j) (bs ! j) bb' = Inl e"
      by auto
    then show ?thesis
      by (intro conjI exI [of _ "Suc j"]) simp_all
  qed
qed simp

lemma key_parts_inj: "key_parts gs a b = key_parts gs c d \<longleftrightarrow> a = c \<and> b = d"
  by (simp add: key_parts_def xor_cancel_right)

definition key_id :: "blockKey \<Rightarrow> u64 \<times> u64" where
  "key_id k = (bk_k0 k, bk_k1 k)"

lemma distinct_group_mix:
  "distinct (map be_mix (map (mk_entry gs) (group_of ks i))) \<longleftrightarrow> distinct (map key_id (group_of ks i))"
proof -
  have inj: "inj_on (\<lambda>(a, b). key_parts gs a b) A" for A
    by (auto simp: inj_on_def key_parts_inj)
  have eq: "map be_mix (map (mk_entry gs) (group_of ks i)) = map (\<lambda>(a, b). key_parts gs a b) (map key_id (group_of ks i))"
    by (simp add: mk_entry_def key_id_def comp_def)
  show ?thesis
    unfolding eq distinct_map [of "\<lambda>(a, b). key_parts gs a b"] using inj by blast
qed

lemma distinct_groups: "distinct (map key_id ks) \<longleftrightarrow> (\<forall>i<1024. distinct (map key_id (group_of ks i)))"
proof
  show "distinct (map key_id ks) \<Longrightarrow> \<forall>i<1024. distinct (map key_id (group_of ks i))"
    unfolding group_of_def by (simp add: distinct_map_filter)
  show "distinct (map key_id ks)" if g: "\<forall>i<1024. distinct (map key_id (group_of ks i))"
    unfolding distinct_conv_nth
  proof (intro allI impI)
    fix m n assume mn: "m < length (map key_id ks)" "n < length (map key_id ks)" "m \<noteq> n"
    show "map key_id ks ! m \<noteq> map key_id ks ! n"
    proof
      let ?i = "key_bucket (bk_k0 (ks ! m))" and ?Q = "\<lambda>p. p = key_id (ks ! m)"
      assume eq: "map key_id ks ! m = map key_id ks ! n"
      then have id: "key_id (ks ! n) = key_id (ks ! m)"
        using mn by simp
      have "card {m, n} \<le> card {k. k < length ks \<and> key_id (ks ! k) = key_id (ks ! m)}"
        using mn id by (intro card_mono) auto
      then have "2 \<le> length (filter (\<lambda>k. key_id k = key_id (ks ! m)) ks)"
        using mn(3) by (simp add: length_filter_conv_card)
      also have "filter (\<lambda>k. key_id k = key_id (ks ! m)) ks = filter (\<lambda>k. key_id k = key_id (ks ! m)) (group_of ks ?i)"
        by (auto simp: group_of_def key_id_def intro!: filter_cong)
      finally have two: "2 \<le> length (filter ?Q (map key_id (group_of ks ?i)))"
        by (simp add: filter_map comp_def)
      have "distinct (filter ?Q (map key_id (group_of ks ?i)))"
        using g key_bucket_less [of "bk_k0 (ks ! m)"] by simp
      then have "length (filter ?Q (map key_id (group_of ks ?i))) = card (set (filter ?Q (map key_id (group_of ks ?i))))"
        by (simp only: distinct_card)
      also have "\<dots> \<le> card {key_id (ks ! m)}"
        by (intro card_mono) auto
      finally show False
        using two by simp
    qed
  qed
qed

text \<open>An error of the solver comes from one bucket of at least two keys, and says whether they are all different.\<close>

lemma solveBijections_err_at:
  assumes rep: "bij_repr bb ks" and K: "length ks < 65536"
    and run: "solveBijections (computeCumulativeCounts bb) = Inl e"
  shows "e \<in> solver_errors \<and>
    (\<exists>i<1024. 2 \<le> length (group_of ks i) \<and> (e = ErrDuplicateKey \<longleftrightarrow> \<not> distinct (map key_id (group_of ks i))) \<and>
      (\<exists>bb'. solve_bucket i (map (mk_entry (bb_globalSeed bb)) (group_of ks i)) bb' = Inl e))"
proof -
  let ?bb = "computeCumulativeCounts bb"
  let ?bb0 = "?bb\<lparr>bb_splitSeeds := [], bb_fallbackList := [], bb_splitSeedIdx := map (\<lambda>_. -1) (bb_splitSeedIdx ?bb)\<rparr>"
  have len: "length (bb_buckets bb) = 1024" "length (bb_seeds ?bb0) = 1024" "length (bb_splitSeedIdx ?bb0) = 1024"
    using rep by (auto simp: bij_repr_def computeCumulativeCounts_def)
  have loop: "solve_loop 0 (bb_buckets bb) ?bb0 = Inl e"
    using run by (simp add: solveBijections_def computeCumulativeCounts_def)
  have mem: "\<exists>i<1024. b = map (mk_entry (bb_globalSeed bb)) (group_of ks i)" if "b \<in> set (bb_buckets bb)" for b
    using that len bij_repr_buckets [OF rep] by (metis in_set_conv_nth)
  have lt: "\<forall>b\<in>set (bb_buckets bb). length b < 2 ^ 32"
  proof
    fix b assume "b \<in> set (bb_buckets bb)"
    then obtain i where "b = map (mk_entry (bb_globalSeed bb)) (group_of ks i)"
      using mem by blast
    then have "length b \<le> length ks"
      by (simp add: group_of_def)
    with K show "length b < 2 ^ 32" by simp
  qed
  from solve_loop_err [OF loop _ len(2,3) _ lt] len(1)
  obtain i where i: "e \<in> solver_errors" "i < 1024" "2 \<le> length (bb_buckets bb ! i)"
    "e = ErrDuplicateKey \<longleftrightarrow> \<not> distinct (map be_mix (bb_buckets bb ! i))" "\<exists>bb'. solve_bucket i (bb_buckets bb ! i) bb' = Inl e"
    by auto
  show ?thesis
    using i(3-5) unfolding bij_repr_buckets [OF rep i(2)] distinct_group_mix using i(1,2) by auto
qed

lemma solveBijections_err:
  assumes "bij_repr bb ks" and "length ks < 65536" and "solveBijections (computeCumulativeCounts bb) = Inl e"
  shows "e \<in> solver_errors \<and> (e = ErrDuplicateKey \<longrightarrow> \<not> distinct (map key_id ks))"
  using solveBijections_err_at [OF assms] distinct_groups [of ks] by blast

lemma solveBijections_dup:
  assumes rep: "bij_repr bb ks" and K: "length ks < 65536" and dup: "\<not> distinct (map key_id ks)"
  shows "\<exists>e. solveBijections (computeCumulativeCounts bb) = Inl e"
proof (rule ccontr)
  assume "\<nexists>e. solveBijections (computeCumulativeCounts bb) = Inl e"
  then obtain bb' where run: "solveBijections (computeCumulativeCounts bb) = Inr bb'"
    by (cases "solveBijections (computeCumulativeCounts bb)") auto
  note sb = solveBijections_ok [OF rep K run]
  have "distinct (map key_id (group_of ks i))" if i: "i < 1024" for i
  proof -
    obtain s0 s1 where "bucket_solved bb' i (bb_buckets bb' ! i) s0 s1"
      using sb(1) i by (auto simp: all_solved_def)
    then have "distinct (map (localSlot (length (bb_buckets bb' ! i)) s0 s1) (map be_mix (bb_buckets bb' ! i)))"
      by (simp add: bucket_solved_def Let_def comp_def)
    then have "distinct (map be_mix (bb_buckets bb' ! i))"
      by (simp only: distinct_map)
    then show ?thesis
      unfolding bij_repr_buckets [OF sb(3) i] by (simp only: distinct_group_mix)
  qed
  then show False
    using dup distinct_groups by blast
qed

section \<open>The built block\<close>

definition bij_query :: "u64 \<Rightarrow> u64 \<Rightarrow> u64 \<Rightarrow> bytes \<Rightarrow> nat \<Rightarrow> nat res" where
  "bij_query seed = bij_QuerySlot \<lparr>bd_globalSeed = seed\<rparr>"

lemma block_slots_ok:
  assumes rep: "bij_repr bb ks" and K: "length ks < 65536" and ne: "ks \<noteq> []"
    and sol: "all_solved bb" and f: "seeds_for bb f0 f1" and md: "block_md bb cp ef sd md"
    and fl: "length (bb_fallbackList bb) \<le> 255" "\<forall>e\<in>set (bb_fallbackList bb). fe_ok e"
  shows "block_slots (bij_query (bb_globalSeed bb)) ks md (key_slot bb f0 f1)"
proof -
  have kib: "length ks = bb_keysInBlock bb" "0 < length ks"
    using rep ne by (simp_all add: bij_repr_def)
  have "bij_query (bb_globalSeed bb) (bk_k0 k) (bk_k1 k) md (length ks) = Inr (key_slot bb f0 f1 k)" if k: "k \<in> set ks" for k
  proof -
    have bs: "bucket_solved bb (key_bucket (bk_k0 k)) (bb_buckets bb ! key_bucket (bk_k0 k))
        (f0 (key_bucket (bk_k0 k))) (f1 (key_bucket (bk_k0 k)))"
      using f key_bucket_less by (simp add: seeds_for_def)
    show ?thesis
      unfolding bij_query_def bij_QuerySlot_ok [OF sol md fl kib bs] key_slot_def Let_def
      using key_slot_range(3) [OF rep K k refl] by simp
  qed
  moreover note d = key_slot_distinct [OF rep K f]
  moreover have "key_slot bb f0 f1 ` set ks = {0..<length ks}"
    using distinct_bounded_surj [OF d] key_slot_less [OF rep K] by simp
  ultimately show ?thesis
    by (simp add: block_slots_def)
qed

lemma all_pairs:
  fixes f0 f1 :: "nat \<Rightarrow> u32" and fs ps :: nat
  assumes rep: "bij_repr bb ks"
  defines "prs \<equiv> \<lambda>i. entry_pairs fs ps
    (\<lambda>e. starts (bb_buckets bb) i + localSlot (length (bb_buckets bb ! i)) (f0 i) (f1 i) (be_mix e)) (bb_buckets bb ! i)"
  shows "mset (concat (map prs [0..<1024])) =
    mset (map (\<lambda>k. (key_slot bb f0 f1 k, entry_bytes fs ps (bk_fp k) (bk_payload k))) ks)"
proof -
  let ?p = "\<lambda>k. (key_slot bb f0 f1 k, entry_bytes fs ps (bk_fp k) (bk_payload k))"
  have "prs i = map ?p (group_of ks i)" if "i < 1024" for i
    unfolding prs_def entry_pairs_def bij_repr_buckets [OF rep that]
    by (auto simp: mk_entry_def key_slot_def group_of_def Let_def bij_repr_buckets [OF rep that])
  then have eq: "map prs [0..<1024] = map (\<lambda>i. map ?p (group_of ks i)) [0..<1024]"
    by (intro map_cong) auto
  have "concat (map prs [0..<1024]) = map ?p (concat (map (group_of ks) [0..<1024]))"
    unfolding eq by (simp add: map_concat comp_def)
  then show ?thesis
    unfolding group_of_def using mset_groups_all [of ks "\<lambda>k. key_bucket (bk_k0 k)" 1024] key_bucket_less
    by (simp add: mset_map)
qed

lemma encodePayloadsInto_ok:
  assumes rep: "bij_repr bb ks" and K: "length ks < 65536" and ne: "ks \<noteq> []" and cnt: "counted bb" and f: "seeds_for bb f0 f1"
    and fit: "fps_fit (bb_fingerprintSize bb) ks" and len: "length ks * bij_entrySize bb \<le> length dst"
  shows "\<exists>dst'. bij_encodePayloadsInto bb dst = Inr (length ks * bij_entrySize bb, dst') \<and> length dst' = length dst \<and>
    block_entries (bb_fingerprintSize bb) (bb_payloadSize bb) ks dst' (key_slot bb f0 f1)"
proof (cases "bij_entrySize bb = 0")
  case True
  then show ?thesis
    using rep by (auto simp: bij_encodePayloadsInto_def bij_entrySize_def block_entries_def entry_bytes_def)
next
  case False
  let ?fs = "bb_fingerprintSize bb" and ?ps = "bb_payloadSize bb" and ?es = "bij_entrySize bb"
  have es: "?es = ?fs + ?ps"
    by (simp add: bij_entrySize_def)
  have kib: "bb_keysInBlock bb = length ks"
    using rep by (simp add: bij_repr_def)
  define prs where "prs = (\<lambda>i. entry_pairs ?fs ?ps
    (\<lambda>e. starts (bb_buckets bb) i + localSlot (length (bb_buckets bb ! i)) (f0 i) (f1 i) (be_mix e)) (bb_buckets bb ! i))"
  let ?pairs = "concat (map prs [0..<1024])"
  let ?p = "\<lambda>k. (key_slot bb f0 f1 k, entry_bytes ?fs ?ps (bk_fp k) (bk_payload k))"
  have ms: "mset ?pairs = mset (map ?p ks)"
    unfolding prs_def by (rule all_pairs [OF rep])
  then have set_eq: "set ?pairs = ?p ` set ks"
    using mset_eq_setD [OF ms] by simp
  have d: "distinct (map fst ?pairs)"
  proof -
    have "mset (map fst ?pairs) = mset (map fst (map ?p ks))"
      using ms by (simp only: mset_map)
    also have "map fst (map ?p ks) = map (key_slot bb f0 f1) ks"
      by simp
    finally show ?thesis
      using key_slot_distinct [OF rep K f] mset_eq_imp_distinct_iff by blast
  qed
  have bounds: "\<forall>(s, b)\<in>set ?pairs. s < length ks \<and> length b = ?es"
    unfolding set_eq using key_slot_less [OF rep K] by (auto simp: es)
  have fits: "entry_fits ?fs e" if "i < 1024" "e \<in> set (bb_buckets bb ! i)" for i e
    using that fit bij_repr_buckets [OF rep that(1)] by (auto simp: entry_fits_def mk_entry_def fps_fit_def group_of_def)
  have "write_buckets bb (?es \<notin> {1, 4, 5, 8}) ?es 0 (bb_buckets bb) 0 dst = Inr (write_all ?es ?pairs dst)"
    using write_buckets_ok [OF cnt f es, of "?es \<notin> {1, 4, 5, 8}" dst 0] fits len kib by (simp add: prs_def)
  moreover have "dst \<noteq> []"
    using len ne False by auto
  ultimately have run: "bij_encodePayloadsInto bb dst = Inr (length ks * ?es, write_all ?es ?pairs dst)"
    using False ne len kib by (simp add: bij_encodePayloadsInto_def encodePayloadsWithWriter_def Let_def)
  have "take ?es (drop (key_slot bb f0 f1 k * ?es) (write_all ?es ?pairs dst)) = entry_bytes ?fs ?ps (bk_fp k) (bk_payload k)"
    if "k \<in> set ks" for k
    using write_all_at [OF d bounds len] that set_eq by blast
  then show ?thesis
    using run length_write_all [OF bounds len] by (auto simp: block_entries_def es)
qed

text \<open>A successful build.\<close>

theorem bij_build_ok:
  assumes rep: "bij_repr bb ks" and mx: "bb_maxKeysPerBlock bb < 65536" and ne: "ks \<noteq> []"
    and fit: "fps_fit (bb_fingerprintSize bb) ks" and len: "length ks * bij_entrySize bb \<le> length pdst"
    and run: "bij_BuildSeparatedInto bb mdst pdst = Inr (ml, pl, nk, mdst', pdst', bb')"
  shows "\<exists>slot. block_slots (bij_query (bb_globalSeed bb)) ks (take ml mdst') slot \<and>
      block_entries (bb_fingerprintSize bb) (bb_payloadSize bb) ks pdst' slot"
    and "nk = length ks" and "pl = length ks * bij_entrySize bb" and "ml \<le> length mdst'" and "158 \<le> ml"
    and "length mdst' = length mdst" and "length pdst' = length pdst" and "bij_repr bb' ks" and "bij_cfg bb' = bij_cfg bb"
proof -
  have kib: "bb_keysInBlock bb = length ks" "length ks \<noteq> 0"
    using rep ne by (auto simp: bij_repr_def)
  obtain bb1 where bb1: "solveBijections (computeCumulativeCounts bb) = Inr bb1"
    and K: "length ks < 65536" and run1: "rbind (encodeSeparatedMetadataInto bb1 mdst) (\<lambda>(metadataLen, metadataDst, bb).
       rbind (bij_encodePayloadsInto bb pdst) (\<lambda>(payloadsLen, payloadsDst).
         Inr (metadataLen, payloadsLen, bb_keysInBlock bb, metadataDst, payloadsDst, bb))) = Inr (ml, pl, nk, mdst', pdst', bb')"
    using run kib mx by (auto simp: bij_BuildSeparatedInto_def res_simps split: if_splits)
  note sb = solveBijections_ok [OF rep K bb1]
  have fl: "length (bb_fallbackList bb1) \<le> 255"
  proof (rule ccontr)
    assume a: "\<not> length (bb_fallbackList bb1) \<le> 255"
    then have "encodeSeparatedMetadataInto bb1 mdst = Inl ErrBlockOverflow"
      by (intro encodeSeparatedMetadataInto_overflow [OF sb(1)]) simp
    with run1 show False
      by (auto simp: res_simps)
  qed
  obtain cp ef sd md bw where md: "block_md bb1 cp ef sd md"
    and enc: "encodeSeparatedMetadataInto bb1 mdst =
        (if length md \<le> length mdst then Inr (length md, copy_at mdst 0 md, bb1\<lparr>bb_seedEncoder := bw\<rparr>)
         else Inl (ErrOther ''bijection: metadata buffer too small''))"
    by (rule encodeSeparatedMetadataInto_ok [OF sb(1) fl, of mdst])
  have lenmd: "length md \<le> length mdst"
    using run1 enc by (cases "length md \<le> length mdst") (auto simp: res_simps)
  obtain f0 f1 where f: "seeds_for bb1 f0 f1"
    using all_solved_seeds [OF sb(1)] by blast
  define bb2 where "bb2 = bb1\<lparr>bb_seedEncoder := bw\<rparr>"
  have cfg: "bb_globalSeed bb1 = bb_globalSeed bb" "bb_payloadSize bb1 = bb_payloadSize bb"
    "bb_fingerprintSize bb1 = bb_fingerprintSize bb" "bij_entrySize bb2 = bij_entrySize bb"
    using sb(4) by (simp_all add: bij_cfg_def bb2_def bij_entrySize_def)
  have rep2: "bij_repr bb2 ks" and cfg2: "bij_cfg bb2 = bij_cfg bb"
    using sb(3,4) by (simp_all add: bij_repr_def bb2_def bij_cfg_def)
  have cnt2: "counted bb2" and f2: "seeds_for bb2 f0 f1" and slot2: "key_slot bb2 f0 f1 = key_slot bb1 f0 f1"
    using sb(1) f by (simp_all add: bb2_def all_solved_def seeds_for_def key_slot_def fun_eq_iff)
  obtain dst' where pay: "bij_encodePayloadsInto bb2 pdst = Inr (length ks * bij_entrySize bb, dst')" "length dst' = length pdst"
    "block_entries (bb_fingerprintSize bb) (bb_payloadSize bb) ks dst' (key_slot bb1 f0 f1)"
    using encodePayloadsInto_ok [OF rep2 K ne cnt2 f2] fit len cfg slot2 by (auto simp: bb2_def)
  have res: "ml = length md" "mdst' = copy_at mdst 0 md" "bb' = bb2" "pl = length ks * bij_entrySize bb"
    "pdst' = dst'" "nk = length ks"
    using run1 enc lenmd pay(1) rep2 by (auto simp: bb2_def [symmetric] bij_repr_def)
  have md_eq: "take ml mdst' = md"
    using take_copy_at [of 0 md mdst] lenmd res by simp
  show "\<exists>slot. block_slots (bij_query (bb_globalSeed bb)) ks (take ml mdst') slot \<and>
      block_entries (bb_fingerprintSize bb) (bb_payloadSize bb) ks pdst' slot"
    using block_slots_ok [OF sb(3) K ne sb(1) f md fl sb(2)] pay(3) md_eq res cfg by auto
  show "nk = length ks" "pl = length ks * bij_entrySize bb" "bij_repr bb' ks" "bij_cfg bb' = bij_cfg bb"
    using res rep2 cfg2 by simp_all
  show "length mdst' = length mdst" "length pdst' = length pdst" "ml \<le> length mdst'"
    using res pay(2) lenmd by simp_all
  show "158 \<le> ml"
    using res md eliasFanoSize_ge [of "bb_keysInBlock bb1"]
    by (simp add: block_md_def length_fallback_bytes cp_ok_def length_cp_bytes)
qed

end
