(* ===== verification/Bij_Limits.thy ===== *)
theory Bij_Limits
  imports Bij_Block
begin

text \<open>
  Sizing of the bijection algorithm: the number of blocks, the keys-per-block limit computed in
  floating point, the metadata estimates, and the absence of panics.
\<close>

section \<open>Floating-point sizing\<close>

lemma f64_ceil_third:
  assumes "n < 2 ^ 40"
  shows "n div 3 \<le> f64_ceil (f64_div (f64_of_nat n) 3)" and "f64_ceil (f64_div (f64_of_nat n) 3) \<le> n div 3 + 1"
proof -
  define x where "x = f64_div (f64_of_nat n) 3"
  have n53: "n < 2 ^ 53"
    using assms by simp
  have y: "0 \<le> (of_nat n / 3 :: rat)" "(of_nat n / 3 :: rat) < 2 ^ 53"
  proof -
    have "(of_nat n :: rat) < of_nat (2 ^ 40)"
      using assms by (simp only: of_nat_less_iff)
    then show "(of_nat n / 3 :: rat) < 2 ^ 53"
      by simp
  qed simp
  have "(of_nat (3 * (n div 3)) :: rat) \<le> of_nat n"
    by (simp only: of_nat_le_iff times_div_less_eq_dividend)
  then have "of_int (int (n div 3)) \<le> (of_nat n / 3 :: rat)"
    by simp
  from f64_round_bounds(2) [OF y this] have lo: "of_int (int (n div 3)) \<le> x"
    by (simp add: x_def f64_div_def f64_of_nat_exact [OF n53])
  have "(of_nat n :: rat) \<le> of_nat (3 * (n div 3 + 1))"
    by (simp only: of_nat_le_iff) arith
  then have "(of_nat n / 3 :: rat) \<le> of_int (int (n div 3 + 1))"
    by simp
  from f64_round_bounds(1) [OF y this] have hi: "x \<le> of_int (int (n div 3 + 1))"
    by (simp add: x_def f64_div_def f64_of_nat_exact [OF n53])
  have "of_int (int (n div 3)) \<le> (of_int \<lceil>x\<rceil> :: rat)"
    using lo le_of_int_ceiling [of x] by (rule order_trans)
  then have "int (n div 3) \<le> \<lceil>x\<rceil>"
    by (simp only: of_int_le_iff)
  moreover have "\<lceil>x\<rceil> \<le> int (n div 3 + 1)"
    using hi by (simp only: ceiling_le_iff)
  ultimately show "n div 3 \<le> f64_ceil x" "f64_ceil x \<le> n div 3 + 1"
    unfolding f64_ceil_def by linarith+
qed

lemma bij_numBlocks_cover:
  assumes "unat totalKeys < 2 ^ 40"
  shows "2 \<le> unat (bij_numBlocks totalKeys)" and "unat totalKeys \<le> 3072 * unat (bij_numBlocks totalKeys) + 2"
    and "unat (bij_numBlocks totalKeys) \<le> unat totalKeys div 3072 + 2"
proof -
  define c where "c = f64_ceil (f64_div (f64_of_nat (unat totalKeys)) 3)"
  define tb where "tb = (if c = 0 then 1 else c)"
  define q where "q = (tb + 1023) div 1024"
  have tb: "unat totalKeys div 3 \<le> tb" "tb \<le> 2 ^ 40" "tb \<le> unat totalKeys div 3 + 1"
    using f64_ceil_third [OF assms] assms by (auto simp: tb_def c_def)
  have q1: "tb \<le> 1024 * q"
    unfolding q_def by arith
  have "q \<le> (2 ^ 40 + 1023) div 1024"
    unfolding q_def using tb(2) by (intro div_le_mono) simp
  then have q2: "q < 2 ^ 32"
    by simp
  have nb: "bij_numBlocks totalKeys = max (of_nat q) 2"
    unfolding bij_numBlocks_def bucketsPerBlock_def Let_def c_def [symmetric] tb_def [symmetric] q_def
    by (simp add: add.commute [of tb])
  have "unat (bij_numBlocks totalKeys) = max q 2"
    unfolding nb using q2 by (simp add: max_def word_le_nat_alt)
  moreover have "q \<le> (unat totalKeys div 3 + 1 + 1023) div 1024"
    unfolding q_def using tb(3) by (intro div_le_mono) simp
  then have "q \<le> unat totalKeys div 3072 + 1"
    by (simp add: div_mult2_eq [symmetric])
  ultimately show "2 \<le> unat (bij_numBlocks totalKeys)" "unat totalKeys \<le> 3072 * unat (bij_numBlocks totalKeys) + 2"
    "unat (bij_numBlocks totalKeys) \<le> unat totalKeys div 3072 + 2"
    using tb(1) q1 by linarith+
qed

lemma bij_maxKeysPerBlock_le:
  assumes "unat totalKeys < 2 ^ 40"
  shows "bij_maxKeysPerBlock totalKeys \<le> 3465"
    and "unat totalKeys div unat (bij_numBlocks totalKeys) \<le> bij_maxKeysPerBlock totalKeys"
proof -
  note nb = bij_numBlocks_cover [OF assms]
  have "unat totalKeys < 2 ^ 53" "unat (bij_numBlocks totalKeys) < 2 ^ 53"
    using assms unat_lt2p [of "bij_numBlocks totalKeys"] by simp_all
  moreover have "0 < unat (bij_numBlocks totalKeys)" "unat totalKeys \<le> 3073 * unat (bij_numBlocks totalKeys)"
    using nb by linarith+
  ultimately show "bij_maxKeysPerBlock totalKeys \<le> 3465"
    "unat totalKeys div unat (bij_numBlocks totalKeys) \<le> bij_maxKeysPerBlock totalKeys"
    using f64_overflow_limit [of "unat totalKeys" "unat (bij_numBlocks totalKeys)" 3073 56] by (simp_all add: bij_maxKeysPerBlock_def Let_def)
qed

section \<open>Empty blocks\<close>

lemma fold_update_length:
  "length (fold (\<lambda>i d. if P i then d[f i := g i d] else d) xs dst) = length dst"
  by (induction xs arbitrary: dst) auto

lemma buildEmptyMetadataInto_ok:
  assumes "157 \<le> length dst"
  shows "\<exists>dst'. buildEmptyMetadataInto dst = Inr (157, dst') \<and> length dst' = length dst"
proof -
  have ef: "eliasFanoSize 1024 0 = 128"
    by (simp add: eliasFanoSize_def computeEFLowBits_def efHighBound_def)
  have len28: "length (concat (map (le_put 2) (efBitPos zeroCheckpoints)) @ concat (map (le_put 2) (seedBitPos zeroCheckpoints))) = 28"
    by (simp add: zeroCheckpoints_def length_concat sum_list_replicate)
  show ?thesis
    using assms len28
    by (simp add: buildEmptyMetadataInto_def checkpoints_encode_def ef Let_def fold_update_length)
qed

section \<open>Outcomes of a build\<close>

lemma bij_build_empty:
  assumes "bij_repr bb []" and "bij_MaxMetadataSizeForCurrentBlock bb \<le> length mdst"
  shows "\<exists>mdst'. bij_BuildSeparatedInto bb mdst pdst = Inr (157, 0, 0, mdst', pdst, bb) \<and> length mdst' = length mdst"
proof -
  have K: "bb_keysInBlock bb = 0"
    using assms(1) by (simp add: bij_repr_def)
  then have "157 \<le> length mdst"
    using assms(2) by (simp add: bij_MaxMetadataSizeForCurrentBlock_def bij_estimateMetadataSize_def)
  from buildEmptyMetadataInto_ok [OF this] K show ?thesis
    by (auto simp: bij_BuildSeparatedInto_def)
qed

lemma bij_build_fails:
  assumes rep: "bij_repr bb ks" and mx: "bb_maxKeysPerBlock bb < 65536"
    and fit: "fps_fit (bb_fingerprintSize bb) ks" and len: "length ks * bij_entrySize bb \<le> length pdst"
    and mlen: "bij_MaxMetadataSizeForCurrentBlock bb \<le> length mdst"
    and run: "bij_BuildSeparatedInto bb mdst pdst = Inl e"
  shows "(e = ErrBlockOverflow \<and> bb_maxKeysPerBlock bb < length ks) \<or>
    solveBijections (computeCumulativeCounts bb) = Inl e \<and> e \<in> solver_errors \<and> (e = ErrDuplicateKey \<longrightarrow> \<not> distinct (map key_id ks)) \<or>
    (\<exists>bb1. e = ErrBlockOverflow \<and> solveBijections (computeCumulativeCounts bb) = Inr bb1 \<and> 255 < length (bb_fallbackList bb1))"
proof (cases "ks = []")
  case True
  then show ?thesis
    using bij_build_empty [of bb mdst pdst] rep mlen run by auto
next
  case ne: False
  have kib: "bb_keysInBlock bb = length ks" "length ks \<noteq> 0"
    using rep ne by (auto simp: bij_repr_def)
  show ?thesis
  proof (cases "length ks > bb_maxKeysPerBlock bb")
    case True
    then show ?thesis
      using run kib by (simp add: bij_BuildSeparatedInto_def)
  next
    case False
    then have K: "length ks < 65536"
      using mx by simp
    show ?thesis
    proof (cases "solveBijections (computeCumulativeCounts bb)")
      case (Inl e')
      then show ?thesis
        using solveBijections_err [OF rep K Inl] run kib False by (simp add: bij_BuildSeparatedInto_def)
    next
      case (Inr bb1)
      note sb = solveBijections_ok [OF rep K Inr]
      have run1: "rbind (encodeSeparatedMetadataInto bb1 mdst) (\<lambda>(metadataLen, metadataDst, bb).
       rbind (bij_encodePayloadsInto bb pdst) (\<lambda>(payloadsLen, payloadsDst).
         Inr (metadataLen, payloadsLen, bb_keysInBlock bb, metadataDst, payloadsDst, bb))) = Inl e"
        using run kib False Inr by (simp add: bij_BuildSeparatedInto_def)
      show ?thesis
      proof (cases "length (bb_fallbackList bb1) \<le> 255")
        case fl: True
        obtain cp ef sd md bw where md: "block_md bb1 cp ef sd md"
          and enc: "encodeSeparatedMetadataInto bb1 mdst =
            (if length md \<le> length mdst then Inr (length md, copy_at mdst 0 md, bb1\<lparr>bb_seedEncoder := bw\<rparr>)
             else Inl (ErrOther ''bijection: metadata buffer too small''))"
          by (rule encodeSeparatedMetadataInto_ok [OF sb(1) fl, of mdst])
        have "length md \<le> length mdst"
          using block_md_length [OF md _ fl] sb(1) mlen kib
          by (simp add: all_solved_def bij_MaxMetadataSizeForCurrentBlock_def bij_estimateMetadataSize_def)
        define bb2 where "bb2 = bb1\<lparr>bb_seedEncoder := bw\<rparr>"
        obtain f0 f1 where f: "seeds_for bb1 f0 f1"
          using all_solved_seeds [OF sb(1)] by blast
        have 2: "bij_repr bb2 ks" "counted bb2" "seeds_for bb2 f0 f1" "fps_fit (bb_fingerprintSize bb2) ks"
          "length ks * bij_entrySize bb2 \<le> length pdst"
          using sb(1,3,4) f fit len
          by (auto simp: bb2_def all_solved_def seeds_for_def bij_repr_def bij_cfg_def bij_entrySize_def)
        from encodePayloadsInto_ok [OF 2(1) K ne 2(2-5)] run1 enc \<open>length md \<le> length mdst\<close> have False
          by (auto simp: bb2_def [symmetric])
        then show ?thesis ..
      next
        case False
        then have "encodeSeparatedMetadataInto bb1 mdst = Inl ErrBlockOverflow"
          by (intro encodeSeparatedMetadataInto_overflow [OF sb(1)]) simp
        then show ?thesis
          using run1 Inr False by simp
      qed
    qed
  qed
qed

lemma bij_build_err:
  assumes "bij_repr bb ks" and "bb_maxKeysPerBlock bb < 65536"
    and "fps_fit (bb_fingerprintSize bb) ks" and "length ks * bij_entrySize bb \<le> length pdst"
    and "bij_MaxMetadataSizeForCurrentBlock bb \<le> length mdst"
    and "bij_BuildSeparatedInto bb mdst pdst = Inl e"
  shows "e = ErrBlockOverflow \<or> (e \<in> solver_errors \<and> (e = ErrDuplicateKey \<longrightarrow> \<not> distinct (map key_id ks)))"
  using bij_build_fails [OF assms] by blast

text \<open>A block whose buckets have at most one key each needs no seed search and always builds.\<close>

lemma solve_loop_singletons:
  assumes "\<forall>b\<in>set bs. length b \<le> 1" and "idx + length bs \<le> length (bb_seeds bb)"
  shows "\<exists>bb'. solve_loop idx bs bb = Inr bb' \<and> bb_fallbackList bb' = bb_fallbackList bb"
  using assms
proof (induction bs arbitrary: idx bb)
  case (Cons b bs)
  let ?bb = "bb\<lparr>bb_seeds := (bb_seeds bb)[idx := 0]\<rparr>"
  have "solve_bucket idx b bb = Inr ?bb"
    using Cons.prems by (simp add: solve_bucket_def Let_def)
  then show ?case
    using Cons.IH [of "Suc idx" ?bb] Cons.prems by simp
qed simp

lemma bij_build_singletons:
  assumes rep: "bij_repr bb ks" and mx: "bb_maxKeysPerBlock bb < 65536" "length ks \<le> bb_maxKeysPerBlock bb"
    and d: "distinct (map (key_bucket \<circ> bk_k0) ks)"
    and fit: "fps_fit (bb_fingerprintSize bb) ks" and len: "length ks * bij_entrySize bb \<le> length pdst"
    and mlen: "bij_MaxMetadataSizeForCurrentBlock bb \<le> length mdst"
  shows "\<exists>r. bij_BuildSeparatedInto bb mdst pdst = Inr r"
proof (rule ccontr)
  assume "\<nexists>r. bij_BuildSeparatedInto bb mdst pdst = Inr r"
  then obtain e where run: "bij_BuildSeparatedInto bb mdst pdst = Inl e"
    by (cases "bij_BuildSeparatedInto bb mdst pdst") auto
  have "length (group_of ks i) \<le> 1" for i
  proof -
    have "distinct (map (key_bucket \<circ> bk_k0) (group_of ks i))" "set (map (key_bucket \<circ> bk_k0) (group_of ks i)) \<subseteq> {i}"
      using d by (auto simp: group_of_def distinct_map_filter)
    then have "card (set (map (key_bucket \<circ> bk_k0) (group_of ks i))) \<le> 1"
      by (metis card_mono card.empty card_insert_disjoint empty_iff finite.emptyI finite.insertI One_nat_def)
    then show ?thesis
      using \<open>distinct (map (key_bucket \<circ> bk_k0) (group_of ks i))\<close> distinct_card by fastforce
  qed
  then have "\<forall>b\<in>set (bb_buckets bb). length b \<le> 1" "length (bb_buckets bb) = 1024" "length (bb_seeds bb) = 1024"
    using rep by (auto simp: bij_repr_def)
  then obtain bb1 where "solveBijections (computeCumulativeCounts bb) = Inr bb1" "bb_fallbackList bb1 = []"
    unfolding solveBijections_def
    using solve_loop_singletons [of "bb_buckets bb" 0 "computeCumulativeCounts bb\<lparr>bb_splitSeeds := [], bb_fallbackList := [],
      bb_splitSeedIdx := map (\<lambda>_. -1) (bb_splitSeedIdx (computeCumulativeCounts bb))\<rparr>"]
    by (auto simp: computeCumulativeCounts_def)
  then show False
    using bij_build_fails [OF rep mx(1) fit len mlen run] mx(2) by auto
qed

section \<open>Queries on arbitrary metadata\<close>

lemma ef_range_loop_total:
  "k \<le> outLen \<Longrightarrow> \<exists>vs. ef_range_loop d L t e k p h outLen = Inr vs \<and> length vs = k"
proof (induction k arbitrary: e p h outLen)
  case (Suc k)
  obtain p' h' where s: "ef_scan d t p h = (p', h')"
    by (cases "ef_scan d t p h")
  have "k \<le> outLen - 1"
    using Suc.prems by simp
  from Suc.IH [OF this]
  obtain vs where "ef_range_loop d L t (Suc e) k p' h' (outLen - 1) = Inr vs" "length vs = k"
    by blast
  then show ?case
    using s Suc.prems by (auto simp: Let_def)
qed simp

lemma decodeEFRangeInline_total:
  assumes "s \<le> e" and "e < n" and "e - s < outLen"
  shows "\<exists>vs. decodeEFRangeInline d n U s e p outLen = Inr vs \<and>
    length vs = (if length d < 8 then 0 else e + 1 - s)"
proof (cases "length d < 8")
  case True
  then show ?thesis
    using assms by (simp add: decodeEFRangeInline_def)
next
  case False
  let ?L = "computeEFLowBits n U"
  have eq: "decodeEFRangeInline d n U s e p outLen = ef_range_loop d ?L (n * ?L) s (e + 1 - s) p
      (if s > 0 \<and> p \<ge> s then of_nat (p - s) else 0) outLen"
    using assms False by (simp only: decodeEFRangeInline_def Let_def) simp
  show ?thesis
    unfolding eq using ef_range_loop_total [of "e + 1 - s" outLen] assms False by auto
qed

lemma bucket_start_total: "length c = 1024 \<Longrightarrow> i < 1024 \<Longrightarrow> \<exists>v. bucket_start c lo a i = Inr v"
  by (auto simp: bucket_start_def)

lemma skip_seeds_total:
  "length c = 1024 \<Longrightarrow> \<forall>i\<in>set is. i < 1024 \<Longrightarrow> \<exists>br'. skip_seeds c lo a is br = Inr br'"
proof (induction "is" arbitrary: br)
  case (Cons i "is")
  obtain v where "bucket_start c lo a i = Inr v"
    using bucket_start_total [of c i lo a] Cons.prems by auto
  then show ?case
    using Cons by (simp add: Let_def)
qed simp

lemma decodeCheckpoints_total:
  assumes "28 \<le> length buf"
  shows "\<exists>cp. decodeCheckpoints buf = Inr cp \<and> length (efBitPos cp) = 7 \<and> length (seedBitPos cp) = 7"
  using assms by (simp add: decodeCheckpoints_def)

lemma segment_cumulative_length:
  assumes "decodeEFRangeInline d 1024 K lo idx p (1024 - lo) = Inr vs" and "lo \<le> idx" and "idx < 1024"
  shows "length (if length vs = 0 then decodeEliasFanoUnrolled d 1024 K (copy_at (replicate 1024 0) lo vs)
      else copy_at (replicate 1024 0) lo vs) = 1024"
proof -
  have "length vs = (if length d < 8 then 0 else idx + 1 - lo)"
    using decodeEFRangeInline_total [OF assms(2,3), of "1024 - lo" d K p] assms by auto
  then show ?thesis
    using assms by (auto simp: decodeEliasFanoUnrolled_def split: if_splits)
qed

lemma bij_QuerySlot_outcome:
  "bij_QuerySlot d k0 k1 md K \<in> {Inl ErrNotFound, Inl ErrCorruptedIndex} \<union> range Inr"
proof (cases "K = 0 \<or> length md \<le> 28")
  case True
  then show ?thesis
    by (auto simp: bij_QuerySlot_def Let_def decodeCheckpoints_def)
next
  case False
  define idx where "idx = unat (FastRange32 k0 (of_nat 1024))"
  define seg where "seg = idx div 128"
  define lo where "lo = seg * 128"
  have idx: "idx < 1024"
    using unat_FastRange32_less [of 1024 k0] by (simp add: idx_def)
  have seg: "seg < 8" and lohi: "lo \<le> idx"
    using idx by (auto simp: seg_def lo_def)
  have take: "28 \<le> length (take 28 md)"
    using False by simp
  obtain cp where cp: "decodeCheckpoints (take 28 md) = Inr cp" "length (efBitPos cp) = 7" "length (seedBitPos cp) = 7"
    using decodeCheckpoints_total [OF take] by blast
  obtain efp where efp: "(if 0 < seg then get_at (efBitPos cp) (seg - 1) else Inr 0) = Inr efp"
    using seg cp(2) by (cases "0 < seg") auto
  obtain sdp where sdp: "(if 0 < seg then get_at (seedBitPos cp) (seg - 1) else Inr 0) = Inr sdp"
    using seg cp(3) by (cases "0 < seg") auto
  obtain vs where vs: "decodeEFRangeInline (drop 28 md) 1024 K lo idx (unat efp) (1024 - lo) = Inr vs"
    using decodeEFRangeInline_total [OF lohi idx, of "1024 - lo"] idx lohi by fastforce
  define cum where "cum = (if length vs = 0 then decodeEliasFanoUnrolled (drop 28 md) 1024 K (copy_at (replicate 1024 0) lo vs)
      else copy_at (replicate 1024 0) lo vs)"
  have clen: "length cum = 1024"
    unfolding cum_def by (rule segment_cumulative_length [OF vs lohi idx])
  have g: "\<not> K = 0" "\<not> length md < 28" "\<not> 28 \<ge> length md"
    using False by auto
  have szs: "bucketsPerBlock = 1024" "checkpointsSize = 28" "checkpointInterval = 128"
    by simp_all
  have get: "get_at cum idx = Inr (cum ! idx)"
    using clen idx by simp
  define atS where "atS = (if 0 < seg then of_nat (push_bit (computeEFLowBits 1024 K) (unat efp - lo)) OR
      readEFLowBits (drop 28 md) (lo - 1) (computeEFLowBits 1024 K) else 0)"
  obtain v where v: "bucket_start cum lo atS idx = Inr v"
    using bucket_start_total [OF clen idx] by blast
  have skip: "\<forall>i\<in>set [lo..<idx]. i < 1024"
    using idx by simp
  define br where "br = (if 0 < unat sdp then skipBits (newBitReaderFast (drop (28 + eliasFanoSize 1024 K) md)) (unat sdp)
      else newBitReaderFast (drop (28 + eliasFanoSize 1024 K) md))"
  obtain br' where br': "skip_seeds cum lo atS [lo..<idx] br = Inr br'"
    using skip_seeds_total [OF clen skip] by blast
  show ?thesis
    unfolding bij_QuerySlot_def Let_def szs if_not_P [OF g(1)] if_not_P [OF g(2)] if_not_P [OF g(3)]
      idx_def [symmetric] seg_def [symmetric] lo_def [symmetric] cp(1) rbind_Inr efp vs cum_def [symmetric]
      atS_def [symmetric] v get sdp br_def [symmetric] br'
    by simp
qed

end
