(* ===== verification/Block_Props.thy ===== *)
theory Block_Props
  imports Bij_Limits
begin

text \<open>
  Properties of one bijection block: the seed searches, the built block as a minimal perfect hash
  function with its entries, the errors of a build, its size limits, and robustness of queries.
\<close>

section \<open>Seed searches\<close>

text \<open>C30: the specialised searches for two to eight keys, the bit-mask and the array search all compute
  the least seed below the encodable bound that sends the keys of the bucket to distinct slots.\<close>

theorem direct_search_reference:
  assumes "length bucket = n" and "2 \<le> n" and "n < 2 ^ 32"
  shows "solveDirectBucket bucket n =
    Inr (case first_upto (\<lambda>s. distinct (slots_of bucket n (of_nat s))) 0 (unat (maxEncodableSeed n)) of
      Some s \<Rightarrow> (of_nat s, False) | None \<Rightarrow> (0, True))"
  using solveDirectBucket_ref [OF assms] assms(1) by (simp add: solve_ref_def seed_search_def)

definition two_entries :: "bucketEntry list" where
  "two_entries = [\<lparr>be_mix = \<lparr>xoredK0 = 1, xoredK1 = 2\<rparr>, be_payload = 0, be_fingerprint = 0\<rparr>,
     \<lparr>be_mix = \<lparr>xoredK0 = 3, xoredK1 = 4\<rparr>, be_payload = 0, be_fingerprint = 0\<rparr>]"

lemma direct_search_reference_witness:
  "solveDirectBucket two_entries 2 =
    Inr (case first_upto (\<lambda>s. distinct (slots_of two_entries 2 (of_nat s))) 0 (unat (maxEncodableSeed 2)) of
      Some s \<Rightarrow> (of_nat s, False) | None \<Rightarrow> (0, True))"
  by (rule direct_search_reference) (simp_all add: two_entries_def)

text \<open>C31: the extended search reports a duplicate exactly when two keys have the same hash inputs, and
  otherwise returns the least seed below \<open>2 ^ 21\<close> with distinct slots, or fails.\<close>

theorem extended_search_spec:
  assumes "length bucket = n" and "2 \<le> n" and "n < 2 ^ 32"
  shows "solveExtended bucket n =
    (if \<not> distinct (map be_mix bucket) then Inl ErrDuplicateKey
     else case first_upto (\<lambda>s. distinct (slots_of bucket n (of_nat s))) 0 (2 ^ 21) of
       Some s \<Rightarrow> Inr (of_nat s) | None \<Rightarrow> Inl ErrIndistinguishableHashes)"
  by (rule solveExtended_ref [OF assms])

lemma extended_search_spec_witness:
  "solveExtended two_entries 2 =
    (if \<not> distinct (map be_mix two_entries) then Inl ErrDuplicateKey
     else case first_upto (\<lambda>s. distinct (slots_of two_entries 2 (of_nat s))) 0 (2 ^ 21) of
       Some s \<Rightarrow> Inr (of_nat s) | None \<Rightarrow> Inl ErrIndistinguishableHashes)"
  by (rule extended_search_spec) (simp_all add: two_entries_def)

section \<open>Building a block\<close>

text \<open>The keys of a block, added one by one to a fresh or reset builder.\<close>

fun bij_add_all :: "bijBuilder \<Rightarrow> blockKey list \<Rightarrow> bijBuilder res" where
  "bij_add_all bb [] = Inr bb"
| "bij_add_all bb (k # ks) =
    rbind (bij_AddKey bb (bk_k0 k) (bk_k1 k) (bk_payload k) (bk_fp k)) (\<lambda>bb. bij_add_all bb ks)"

lemma bij_add_all_repr:
  assumes "bij_repr bb ks0"
  shows "\<exists>bb'. bij_add_all bb ks = Inr bb' \<and> bij_repr bb' (ks0 @ ks) \<and> bij_cfg bb' = bij_cfg bb"
  using assms
proof (induction ks arbitrary: bb ks0)
  case (Cons k ks)
  obtain bb1 where b1: "bij_AddKey bb (bk_k0 k) (bk_k1 k) (bk_payload k) (bk_fp k) = Inr bb1"
    "bij_repr bb1 (ks0 @ [k])" "bij_cfg bb1 = bij_cfg bb"
    using bij_AddKey_repr [OF Cons.prems] by blast
  with Cons.IH [OF b1(2)] show ?case by auto
qed simp

definition bij_new_block :: "u64 \<Rightarrow> u64 \<Rightarrow> nat \<Rightarrow> nat \<Rightarrow> blockKey list \<Rightarrow> bijBuilder" where
  "bij_new_block totalKeys seed ps fs ks =
    (case bij_add_all (bij_NewBuilder totalKeys seed ps fs) ks of Inr bb \<Rightarrow> bb)"

lemma bij_new_block_ok:
  "bij_add_all (bij_NewBuilder totalKeys seed ps fs) ks = Inr (bij_new_block totalKeys seed ps fs ks)"
  "bij_repr (bij_new_block totalKeys seed ps fs ks) ks"
  "bij_cfg (bij_new_block totalKeys seed ps fs ks) = bij_cfg (bij_NewBuilder totalKeys seed ps fs)"
  using bij_add_all_repr [OF bij_NewBuilder_repr, of totalKeys seed ps fs ks] by (auto simp: bij_new_block_def)

lemma bij_new_block_cfg:
  "bb_globalSeed (bij_new_block totalKeys seed ps fs ks) = seed" "bb_payloadSize (bij_new_block totalKeys seed ps fs ks) = ps"
  "bb_fingerprintSize (bij_new_block totalKeys seed ps fs ks) = fs" "bij_entrySize (bij_new_block totalKeys seed ps fs ks) = ps + fs"
  "bb_maxKeysPerBlock (bij_new_block totalKeys seed ps fs ks) = bij_maxKeysPerBlock totalKeys"
  using bij_new_block_ok(3) [of totalKeys seed ps fs ks] by (simp_all add: bij_cfg_def bij_NewBuilder_def bij_entrySize_def)

text \<open>Two keys that fall into different buckets, and a block of a four-key index built from them.\<close>

definition sample_keys :: "blockKey list" where
  "sample_keys = [\<lparr>bk_k0 = 0, bk_k1 = 7, bk_payload = 0x1234, bk_fp = 0xAB\<rparr>,
     \<lparr>bk_k0 = 0x8000000000000000, bk_k1 = 9, bk_payload = 0x5678, bk_fp = 0xCD\<rparr>]"

lemma sample_limit: "2 \<le> bij_maxKeysPerBlock 4"
proof -
  have "bij_numBlocks 4 = 2"
    by code_simp
  then show ?thesis
    using bij_maxKeysPerBlock_le(2) [of 4] by simp
qed

lemma sample_fits: "fps_fit 1 sample_keys"
  by (simp add: fps_fit_def sample_keys_def take_bit_eq_mod)

lemma sample_builds:
  "\<exists>r. bij_BuildSeparatedInto (bij_new_block 4 42 2 1 sample_keys) (replicate 8220 0) (replicate 6 0) = Inr r"
proof (rule bij_build_singletons [OF bij_new_block_ok(2)])
  show "bb_maxKeysPerBlock (bij_new_block 4 42 2 1 sample_keys) < 65536"
    using bij_maxKeysPerBlock_le(1) [of 4] by (simp add: bij_new_block_cfg)
  show "length sample_keys \<le> bb_maxKeysPerBlock (bij_new_block 4 42 2 1 sample_keys)"
    using sample_limit by (simp add: bij_new_block_cfg sample_keys_def)
  have "key_bucket 0 = 0" "key_bucket 0x8000000000000000 = 512"
    by code_simp+
  then show "distinct (map (key_bucket \<circ> bk_k0) sample_keys)"
    by (simp add: sample_keys_def)
  show "fps_fit (bb_fingerprintSize (bij_new_block 4 42 2 1 sample_keys)) sample_keys"
    by (simp only: bij_new_block_cfg sample_fits)
  show "length sample_keys * bij_entrySize (bij_new_block 4 42 2 1 sample_keys) \<le> length (replicate 6 (0 :: u8))"
    by (simp add: bij_new_block_cfg) (simp add: sample_keys_def)
  show "bij_MaxMetadataSizeForCurrentBlock (bij_new_block 4 42 2 1 sample_keys) \<le> length (replicate 8220 (0 :: u8))"
    by (simp add: bij_MaxMetadataSizeForCurrentBlock_def bij_estimateMetadataSize_def Let_def)
qed

text \<open>C11: when a block of keys is built, the decoder, given only the metadata and the number of keys,
  maps the keys one to one onto the slots \<open>0..<n\<close>, and every slot of the payload buffer holds the
  fingerprint and payload of its key.\<close>

theorem block_is_minimal_perfect_hash:
  assumes "unat totalKeys < 2 ^ 40" and "ks \<noteq> []" and "fps_fit fs ks" and "length ks * (ps + fs) \<le> length pdst"
    and "bij_add_all (bij_NewBuilder totalKeys seed ps fs) ks = Inr bb"
    and "bij_BuildSeparatedInto bb mdst pdst = Inr (ml, pl, nk, mdst', pdst', bb')"
  shows "\<exists>slot. (\<forall>k\<in>set ks. bij_QuerySlot \<lparr>bd_globalSeed = seed\<rparr> (bk_k0 k) (bk_k1 k) (take ml mdst') (length ks) = Inr (slot k)) \<and>
    distinct (map slot ks) \<and> slot ` set ks = {0..<length ks} \<and>
    (\<forall>k\<in>set ks. take (fs + ps) (drop (slot k * (fs + ps)) pdst') = le_put fs (bk_fp k) @ le_put ps (bk_payload k))"
proof -
  let ?bb = "bij_new_block totalKeys seed ps fs ks"
  have bb: "bb = ?bb"
    using assms(5) bij_new_block_ok(1) [of totalKeys seed ps fs ks] by simp
  have mx: "bb_maxKeysPerBlock ?bb < 65536"
    using bij_maxKeysPerBlock_le(1) [OF assms(1)] by (simp add: bij_new_block_cfg)
  show ?thesis
    using bij_build_ok(1) [OF bij_new_block_ok(2) mx assms(2) _ _ assms(6) [unfolded bb]] assms(3,4)
    unfolding bij_new_block_cfg by (auto simp: block_slots_def block_entries_def bij_query_def entry_bytes_def)
qed

lemma block_is_minimal_perfect_hash_witness:
  "\<exists>bb ml pl nk mdst' pdst' bb' slot. bij_add_all (bij_NewBuilder 4 42 2 1) sample_keys = Inr bb \<and>
    bij_BuildSeparatedInto bb (replicate 8220 0) (replicate 6 0) = Inr (ml, pl, nk, mdst', pdst', bb') \<and>
    (\<forall>k\<in>set sample_keys. bij_QuerySlot \<lparr>bd_globalSeed = 42\<rparr> (bk_k0 k) (bk_k1 k) (take ml mdst') (length sample_keys) = Inr (slot k)) \<and>
    distinct (map slot sample_keys)"
proof -
  let ?bb = "bij_new_block 4 42 2 1 sample_keys"
  obtain r where r: "bij_BuildSeparatedInto ?bb (replicate 8220 0) (replicate 6 0) = Inr r"
    using sample_builds ..
  obtain ml pl nk mdst' pdst' bb' where eq: "r = (ml, pl, nk, mdst', pdst', bb')"
    by (cases r)
  note run = r [unfolded eq]
  have s: "unat (4 :: u64) < 2 ^ 40" "sample_keys \<noteq> []" "length sample_keys * (2 + 1) \<le> length (replicate 6 (0 :: u8))"
    by (simp_all add: sample_keys_def)
  obtain slot where
    "\<forall>k\<in>set sample_keys. bij_QuerySlot \<lparr>bd_globalSeed = 42\<rparr> (bk_k0 k) (bk_k1 k) (take ml mdst') (length sample_keys) = Inr (slot k)"
    "distinct (map slot sample_keys)"
    using block_is_minimal_perfect_hash [OF s(1,2) sample_fits s(3) bij_new_block_ok(1) run] by (elim exE conjE)
  then show ?thesis
    by (intro exI conjI) (rule bij_new_block_ok(1), rule run, assumption+)
qed

lemma duplicates_fail:
  assumes "unat totalKeys < 2 ^ 40" and "ks \<noteq> []" and "fps_fit fs ks" and "length ks * (ps + fs) \<le> length pdst"
    and "bij_add_all (bij_NewBuilder totalKeys seed ps fs) ks = Inr bb"
    and "\<not> distinct (map (\<lambda>k. (bk_k0 k, bk_k1 k)) ks)"
  shows "\<exists>e. bij_BuildSeparatedInto bb mdst pdst = Inl e"
proof (rule ccontr)
  assume "\<nexists>e. bij_BuildSeparatedInto bb mdst pdst = Inl e"
  then obtain ml pl nk mdst' pdst' bb' where run: "bij_BuildSeparatedInto bb mdst pdst = Inr (ml, pl, nk, mdst', pdst', bb')"
    by (cases "bij_BuildSeparatedInto bb mdst pdst") auto
  let ?bb = "bij_new_block totalKeys seed ps fs ks"
  have bb: "bb = ?bb"
    using assms(5) bij_new_block_ok(1) [of totalKeys seed ps fs ks] by simp
  have mx: "bb_maxKeysPerBlock ?bb < 65536"
    using bij_maxKeysPerBlock_le(1) [OF assms(1)] by (simp add: bij_new_block_cfg)
  obtain slot where s: "\<forall>k\<in>set ks. bij_query seed (bk_k0 k) (bk_k1 k) (take ml mdst') (length ks) = Inr (slot k)" "distinct (map slot ks)"
    using bij_build_ok(1) [OF bij_new_block_ok(2) mx assms(2) _ _ run [unfolded bb]] assms(3,4)
    unfolding bij_new_block_cfg by (auto simp: block_slots_def)
  let ?f = "\<lambda>p. projr (bij_query seed (fst p) (snd p) (take ml mdst') (length ks))"
  have "map slot ks = map ?f (map (\<lambda>k. (bk_k0 k, bk_k1 k)) ks)"
    using s(1) by simp
  with s(2) have "distinct (map ?f (map (\<lambda>k. (bk_k0 k, bk_k1 k)) ks))"
    by simp
  then have "distinct (map (\<lambda>k. (bk_k0 k, bk_k1 k)) ks)"
    by (simp only: distinct_map)
  with assms(6) show False by simp
qed

text \<open>C12: a build with large enough buffers can fail only with a block overflow or a solver error, and it
  reports a duplicate only if two keys agree on their 16 hashed bytes. It never panics.\<close>

theorem block_build_errors:
  assumes "unat totalKeys < 2 ^ 40" and "fps_fit fs ks" and "length ks * (ps + fs) \<le> length pdst"
    and "bij_add_all (bij_NewBuilder totalKeys seed ps fs) ks = Inr bb"
    and "bij_MaxMetadataSizeForCurrentBlock bb \<le> length mdst"
    and "bij_BuildSeparatedInto bb mdst pdst = Inl e"
  shows "e \<in> {ErrBlockOverflow, ErrDuplicateKey, ErrSplitBucketSeedSearchFailed, ErrIndistinguishableHashes} \<and>
    (e = ErrDuplicateKey \<longrightarrow> \<not> distinct (map (\<lambda>k. (bk_k0 k, bk_k1 k)) ks))"
proof -
  let ?bb = "bij_new_block totalKeys seed ps fs ks"
  have bb: "bb = ?bb"
    using assms(4) bij_new_block_ok(1) [of totalKeys seed ps fs ks] by simp
  have mx: "bb_maxKeysPerBlock ?bb < 65536"
    using bij_maxKeysPerBlock_le(1) [OF assms(1)] by (simp add: bij_new_block_cfg)
  have "key_id = (\<lambda>k. (bk_k0 k, bk_k1 k))"
    by (simp add: key_id_def fun_eq_iff)
  then show ?thesis
    using bij_build_err [OF bij_new_block_ok(2) mx _ _ assms(5) [unfolded bb] assms(6) [unfolded bb]] assms(2,3)
    unfolding bij_new_block_cfg by (auto simp: solver_errors_def)
qed

definition clash_keys :: "blockKey list" where
  "clash_keys = [\<lparr>bk_k0 = 5, bk_k1 = 7, bk_payload = 1, bk_fp = 0\<rparr>, \<lparr>bk_k0 = 5, bk_k1 = 7, bk_payload = 2, bk_fp = 0\<rparr>]"

lemma clash_fits: "fps_fit 0 clash_keys"
  by (simp add: fps_fit_def clash_keys_def)

lemma block_build_errors_witness:
  "\<exists>e. bij_BuildSeparatedInto (bij_new_block 4 42 1 0 clash_keys) (replicate 8220 0) (replicate 2 0) = Inl e \<and>
    e \<in> {ErrBlockOverflow, ErrDuplicateKey, ErrSplitBucketSeedSearchFailed, ErrIndistinguishableHashes} \<and>
    (e = ErrDuplicateKey \<longrightarrow> \<not> distinct (map (\<lambda>k. (bk_k0 k, bk_k1 k)) clash_keys))"
proof -
  let ?bb = "bij_new_block 4 42 1 0 clash_keys"
  have c: "clash_keys \<noteq> []" "length clash_keys * (1 + 0) \<le> length (replicate 2 (0 :: u8))" "unat (4 :: u64) < 2 ^ 40"
    by (simp_all add: clash_keys_def)
  have "\<not> distinct (map (\<lambda>k. (bk_k0 k, bk_k1 k)) clash_keys)"
    by (simp add: clash_keys_def)
  then obtain e where e: "bij_BuildSeparatedInto ?bb (replicate 8220 0) (replicate 2 0) = Inl e"
    using duplicates_fail [OF c(3,1) clash_fits c(2) bij_new_block_ok(1)] by blast
  have "bij_MaxMetadataSizeForCurrentBlock ?bb \<le> length (replicate 8220 (0 :: u8))"
    by (simp add: bij_MaxMetadataSizeForCurrentBlock_def bij_estimateMetadataSize_def Let_def)
  from block_build_errors [OF c(3) clash_fits c(2) bij_new_block_ok(1) this e] e show ?thesis
    by blast
qed

text \<open>C13: keys that agree on their 16 hashed bytes are never built into a block, whatever the buffers. A
  block over its limit is refused with \<open>ErrBlockOverflow\<close> before any bucket is looked at. Otherwise the
  error is \<open>ErrDuplicateKey\<close>, unless the search of another bucket \<open>i\<close>, whose two or more keys are all
  different, has run out of seeds and its error (\<open>ErrSplitBucketSeedSearchFailed\<close> or
  \<open>ErrIndistinguishableHashes\<close>) is the one reported. There is no panic and no other error.\<close>

theorem block_rejects_duplicates:
  assumes "unat totalKeys < 2 ^ 40" and "bij_add_all (bij_NewBuilder totalKeys seed ps fs) ks = Inr bb"
    and "\<not> distinct (map (\<lambda>k. (bk_k0 k, bk_k1 k)) ks)"
  shows "bij_BuildSeparatedInto bb mdst pdst = Inl ErrBlockOverflow \<and> bij_maxKeysPerBlock totalKeys < length ks \<or>
    bij_BuildSeparatedInto bb mdst pdst = Inl ErrDuplicateKey \<and> length ks \<le> bij_maxKeysPerBlock totalKeys \<or>
    (\<exists>e i. bij_BuildSeparatedInto bb mdst pdst = Inl e \<and> e \<in> {ErrSplitBucketSeedSearchFailed, ErrIndistinguishableHashes} \<and>
      length ks \<le> bij_maxKeysPerBlock totalKeys \<and> 2 \<le> length (filter (\<lambda>k. key_bucket (bk_k0 k) = i) ks) \<and>
      distinct (map (\<lambda>k. (bk_k0 k, bk_k1 k)) (filter (\<lambda>k. key_bucket (bk_k0 k) = i) ks)) \<and>
      (\<exists>bb'. solve_bucket i (map (mk_entry seed) (filter (\<lambda>k. key_bucket (bk_k0 k) = i) ks)) bb' = Inl e))"
proof -
  have bb: "bb = bij_new_block totalKeys seed ps fs ks"
    using assms(2) bij_new_block_ok(1) [of totalKeys seed ps fs ks] by simp
  have rep: "bij_repr bb ks" and mx: "bb_maxKeysPerBlock bb = bij_maxKeysPerBlock totalKeys" and sd: "bb_globalSeed bb = seed"
    unfolding bb by (rule bij_new_block_ok(2), rule bij_new_block_cfg(5), rule bij_new_block_cfg(1))
  have id: "key_id = (\<lambda>k. (bk_k0 k, bk_k1 k))"
    by (simp add: key_id_def fun_eq_iff)
  have kib: "bb_keysInBlock bb = length ks" "length ks \<noteq> 0"
    using rep assms(3) by (auto simp: bij_repr_def)
  show ?thesis
  proof (cases "bij_maxKeysPerBlock totalKeys < length ks")
    case True
    then show ?thesis
      using kib mx by (simp add: bij_BuildSeparatedInto_def)
  next
    case False
    then have K: "length ks < 65536"
      using bij_maxKeysPerBlock_le(1) [OF assms(1)] by simp
    obtain e where e: "solveBijections (computeCumulativeCounts bb) = Inl e"
      using solveBijections_dup [OF rep K] assms(3) unfolding id by blast
    have run: "bij_BuildSeparatedInto bb mdst pdst = Inl e"
      using e kib mx False by (simp add: bij_BuildSeparatedInto_def)
    show ?thesis
      using solveBijections_err_at [OF rep K e] run False unfolding id sd group_of_def solver_errors_def by auto
  qed
qed

theorem block_rejects_duplicates_witness:
  "bij_BuildSeparatedInto (bij_new_block 4 42 1 0 clash_keys) (replicate 8220 0) (replicate 2 0) = Inl ErrDuplicateKey"
proof -
  have dup: "\<not> distinct (map (\<lambda>k. (bk_k0 k, bk_k1 k)) clash_keys)"
    by (simp add: clash_keys_def)
  have "\<not> distinct (map (\<lambda>k. (bk_k0 k, bk_k1 k)) (filter (\<lambda>k. key_bucket (bk_k0 k) = i) clash_keys))"
    if "2 \<le> length (filter (\<lambda>k. key_bucket (bk_k0 k) = i) clash_keys)" for i
    using that by (auto simp: clash_keys_def split: if_splits)
  moreover have "length clash_keys \<le> bij_maxKeysPerBlock 4"
    using sample_limit by (simp add: clash_keys_def)
  ultimately show ?thesis
    using block_rejects_duplicates [OF _ bij_new_block_ok(1) dup, where totalKeys = 4 and mdst = "replicate 8220 0" and pdst = "replicate 2 0"]
    unfolding not_less [symmetric] by fastforce
qed

text \<open>C32: for any index of fewer than \<open>2 ^ 40\<close> keys there are at least two blocks, enough blocks for an
  average of about 3072 keys each, and the per-block limit lies between the average and 3465 keys, far
  below the 65535 that the 16-bit counters allow.\<close>

theorem block_geometry:
  assumes "unat totalKeys < 2 ^ 40"
  shows "2 \<le> unat (bij_numBlocks totalKeys) \<and> unat totalKeys \<le> 3072 * unat (bij_numBlocks totalKeys) + 2 \<and>
    unat (bij_numBlocks totalKeys) \<le> unat totalKeys div 3072 + 2 \<and>
    unat totalKeys div unat (bij_numBlocks totalKeys) \<le> bij_maxKeysPerBlock totalKeys \<and> bij_maxKeysPerBlock totalKeys \<le> 3465"
  using bij_numBlocks_cover [OF assms] bij_maxKeysPerBlock_le [OF assms] by blast

lemma block_geometry_witness:
  "2 \<le> unat (bij_numBlocks 1000000000) \<and> unat (1000000000 :: u64) \<le> 3072 * unat (bij_numBlocks 1000000000) + 2 \<and>
    unat (bij_numBlocks 1000000000) \<le> unat (1000000000 :: u64) div 3072 + 2 \<and>
    unat (1000000000 :: u64) div unat (bij_numBlocks 1000000000) \<le> bij_maxKeysPerBlock 1000000000 \<and> bij_maxKeysPerBlock 1000000000 \<le> 3465"
  by (rule block_geometry) simp

text \<open>C33: a query on arbitrary, possibly corrupt metadata returns a slot, \<open>ErrNotFound\<close> or
  \<open>ErrCorruptedIndex\<close>; it never panics.\<close>

theorem query_slot_outcomes:
  "bij_QuerySlot d k0 k1 metadata keysInBlock \<in> {Inl ErrNotFound, Inl ErrCorruptedIndex} \<union> range Inr"
  by (rule bij_QuerySlot_outcome)

end
