(* ===== verification/Index_Query.thy ===== *)
theory Index_Query
  imports Header_Codec
begin

text \<open>
  Opening and querying an index, \<^verbatim>\<open>index.go\<close>. The block decoder that \<^verbatim>\<open>newBlockDecoder\<close> makes for the
  algorithm of the header is an argument of opening; offsets are 64-bit and wrap as in the code.
  Slicing or indexing out of range is a \<open>GoPanic\<close>. Memory-mapping advice has no effect on results:
  \<open>prefetch\<close> is modelled by the list of ranges it hands to the adviser.
\<close>

type_synonym blockDecoder = "u64 \<Rightarrow> u64 \<Rightarrow> bytes \<Rightarrow> nat \<Rightarrow> nat res"

definition minFileSize :: nat where "minFileSize = 304"

record index =
  ix_mmap :: bool
  ix_data :: bytes
  ix_header :: header
  ix_userMetadata :: bytes
  ix_ramIndexBytes :: bytes
  ix_numRAMEntries :: u32
  ix_ramIndexOffset :: u64
  ix_payloadRegionOffset :: u64
  ix_metadataRegionOffset :: u64
  ix_entrySize :: nat
  ix_decoder :: blockDecoder
  ix_closed :: bool

text \<open>Go slice expressions and reads at 64-bit offsets.\<close>

definition slice64 :: "u64 \<Rightarrow> u64 \<Rightarrow> bytes \<Rightarrow> bytes res" where
  "slice64 lo hi bs = slice (unat lo) (unat hi) bs"

definition from64 :: "u64 \<Rightarrow> bytes \<Rightarrow> bytes res" where
  "from64 lo bs = slice_from (unat lo) bs"

text \<open>One variable-length section: a 4-byte length and that many bytes; the result has the offset after it.\<close>

definition read_section :: "bytes \<Rightarrow> u64 \<Rightarrow> (bytes \<times> u64) res" where
  "read_section data offset =
    (let fileSize = of_nat (length data) :: u64 in
     if offset + 4 > fileSize then Inl ErrTruncatedFile
     else
       rbind (from64 offset data) (\<lambda>s.
       rbind (get_le 4 s) (\<lambda>len :: u32.
         let offset = offset + 4 in
         if offset + ucast len > fileSize then Inl ErrTruncatedFile
         else rbind (slice64 offset (offset + ucast len) data) (\<lambda>sec. Inr (sec, offset + ucast len)))))"

definition initFromData :: "(u16 \<Rightarrow> bytes \<Rightarrow> u64 \<Rightarrow> blockDecoder res) \<Rightarrow> bool \<Rightarrow> bytes \<Rightarrow> index res" where
  "initFromData newBlockDecoder mm data =
    (let fileSize = of_nat (length data) :: u64 in
     rbind (slice 0 headerSize data) (\<lambda>hb.
     rbind (decodeHeader hb) (\<lambda>hdr.
     rbind (read_section data (of_nat headerSize)) (\<lambda>(userMetadata, offset).
     rbind (read_section data offset) (\<lambda>(algoConfig, offset).
       let numRAMEntries = NumBlocks hdr + 1;
           ramIndexStart = offset;
           ramIndexSize = ucast numRAMEntries * of_nat ramIndexEntrySize;
           ramIndexEnd = ramIndexStart + ramIndexSize
       in if ramIndexEnd > fileSize - of_nat footerSize then Inl ErrCorruptedIndex
          else
            rbind (slice64 ramIndexStart ramIndexEnd data) (\<lambda>ramIndexBytes.
            let entrySize = header_entrySize hdr;
                payloadRegionSize = TotalKeys hdr * of_nat entrySize
            in rbind (newBlockDecoder (BlockAlgorithm hdr) algoConfig (Seed hdr)) (\<lambda>decoder.
              Inr \<lparr>ix_mmap = mm, ix_data = data, ix_header = hdr, ix_userMetadata = userMetadata,
                   ix_ramIndexBytes = ramIndexBytes, ix_numRAMEntries = numRAMEntries,
                   ix_ramIndexOffset = ramIndexStart, ix_payloadRegionOffset = ramIndexEnd,
                   ix_metadataRegionOffset = ramIndexEnd + payloadRegionSize,
                   ix_entrySize = entrySize, ix_decoder = decoder, ix_closed = False\<rparr>)))))))"

definition OpenBytes :: "(u16 \<Rightarrow> bytes \<Rightarrow> u64 \<Rightarrow> blockDecoder res) \<Rightarrow> bytes \<Rightarrow> index res" where
  "OpenBytes newBlockDecoder data =
    (if length data < minFileSize then Inl ErrTruncatedFile
     else initFromData newBlockDecoder False data)"

text \<open>\<open>OpenFile\<close> maps the file's contents; \<open>stat\<close> and \<open>mapErr\<close> are the errors of the two system calls.\<close>

definition OpenFile :: "sherr option \<Rightarrow> sherr option \<Rightarrow> (u16 \<Rightarrow> bytes \<Rightarrow> u64 \<Rightarrow> blockDecoder res) \<Rightarrow> bytes \<Rightarrow> index res" where
  "OpenFile statErr mapErr newBlockDecoder contents =
    (case statErr of Some e \<Rightarrow> Inl e
     | None \<Rightarrow>
       if length contents < minFileSize then Inl ErrTruncatedFile
       else case mapErr of Some e \<Rightarrow> Inl e
         | None \<Rightarrow> initFromData newBlockDecoder True contents)"

definition ramEntry :: "index \<Rightarrow> u32 \<Rightarrow> ramIndexEntry res" where
  "ramEntry idx i = rbind (from64 (ucast i * of_nat ramIndexEntrySize) (ix_ramIndexBytes idx)) decodeRAMIndexEntry"

definition payloadMapping :: "nat \<Rightarrow> index \<Rightarrow> (u64 \<times> u64) option" where
  "payloadMapping pageSize idx =
    (let pg = of_nat pageSize :: u64;
         start = (ix_payloadRegionOffset idx + pg - 1) AND NOT (pg - 1);
         end' = ix_metadataRegionOffset idx AND NOT (pg - 1);
         mmapLen = (if ix_mmap idx then of_nat (length (ix_data idx)) else 0)
     in if start \<ge> end' \<or> end' > mmapLen then None else Some (start, end'))"

definition Index_Close :: "index \<Rightarrow> index" where
  "Index_Close idx = idx\<lparr>ix_closed := True\<rparr>"

definition verifyFingerprintSeparated :: "index \<Rightarrow> u64 \<Rightarrow> u64 \<Rightarrow> u64 \<Rightarrow> bool res" where
  "verifyFingerprintSeparated idx k0 k1 globalRank =
    (let fpSize = fingerprintSizeInt (ix_header idx);
         payloadOffset = ix_payloadRegionOffset idx + globalRank * of_nat (ix_entrySize idx)
     in if payloadOffset + of_nat fpSize > of_nat (length (ix_data idx)) then Inl ErrCorruptedIndex
        else
          rbind (from64 payloadOffset (ix_data idx)) (\<lambda>s.
          rbind (unpackFingerprintFromBytes s fpSize) (\<lambda>storedFP.
            let expectedFP = extractFingerprint k0 k1 fpSize in Inr (storedFP = expectedFP))))"

definition lookup :: "index \<Rightarrow> bytes \<Rightarrow> bool \<Rightarrow> u64 res" where
  "lookup idx key checkFingerprint =
    (let k0 = le_get (take 8 key) :: u64;
         k1 = le_get (take 8 (drop 8 key)) :: u64;
         prefix = ReverseBytes64 k0;
         blockIdx = FastRange32 prefix (NumBlocks (ix_header idx))
     in if length key < 16 then Inl (GoPanic ''slice bounds out of range'')
        else if blockIdx + 1 \<ge> ix_numRAMEntries idx then Inl ErrNotFound
        else
          rbind (ramEntry idx blockIdx) (\<lambda>entry.
          rbind (ramEntry idx (blockIdx + 1)) (\<lambda>nextEntry.
            let baseRank = KeysBefore entry in
            if KeysBefore nextEntry < KeysBefore entry then Inl ErrCorruptedIndex
            else
              let keysInBlock = unat (KeysBefore nextEntry - KeysBefore entry) in
              if keysInBlock = 0 then Inl ErrNotFound
              else
                let metaStart = ix_metadataRegionOffset idx + MetadataOffset entry;
                    metaEnd = ix_metadataRegionOffset idx + MetadataOffset nextEntry
                in if metaStart \<ge> metaEnd \<or> metaEnd > of_nat (length (ix_data idx)) then Inl ErrCorruptedIndex
                   else
                     rbind (slice64 metaStart metaEnd (ix_data idx)) (\<lambda>metadataData.
                     rbind (ix_decoder idx k0 k1 metadataData keysInBlock) (\<lambda>localSlot.
                       let globalRank = baseRank + of_nat localSlot in
                       if checkFingerprint \<and> hasFingerprint (ix_header idx) then
                         rbind (verifyFingerprintSeparated idx k0 k1 globalRank) (\<lambda>ok.
                           if \<not> ok then Inl ErrNotFound else Inr globalRank)
                       else Inr globalRank)))))"

definition queryInternal :: "index \<Rightarrow> bytes \<Rightarrow> u64 res" where
  "queryInternal idx key = lookup idx key True"

definition locate :: "index \<Rightarrow> bytes \<Rightarrow> u64 res" where
  "locate idx key = lookup idx key False"

definition QueryRank :: "index \<Rightarrow> bytes \<Rightarrow> u64 res" where
  "QueryRank idx key =
    (if ix_closed idx then Inl ErrIndexClosed
     else if length key < MinKeySize then Inl ErrKeyTooShort
     else queryInternal idx key)"

text \<open>A \<^verbatim>\<open>PayloadIndex\<close> is its embedded index.\<close>

definition Index_WithPayload :: "index \<Rightarrow> index res" where
  "Index_WithPayload idx = (if PayloadSize (ix_header idx) = 0 then Inl ErrNoPayload else Inr idx)"

definition OpenPayloadBytes :: "(u16 \<Rightarrow> bytes \<Rightarrow> u64 \<Rightarrow> blockDecoder res) \<Rightarrow> bytes \<Rightarrow> index res" where
  "OpenPayloadBytes newBlockDecoder data = rbind (OpenBytes newBlockDecoder data) Index_WithPayload"

definition OpenPayloadFile :: "sherr option \<Rightarrow> sherr option \<Rightarrow> (u16 \<Rightarrow> bytes \<Rightarrow> u64 \<Rightarrow> blockDecoder res) \<Rightarrow> bytes \<Rightarrow> index res" where
  "OpenPayloadFile statErr mapErr newBlockDecoder contents =
    rbind (OpenFile statErr mapErr newBlockDecoder contents) Index_WithPayload"

definition QueryPayload :: "index \<Rightarrow> bytes \<Rightarrow> (u64 \<times> u64) res" where
  "QueryPayload pi key =
    (if ix_closed pi then Inl ErrIndexClosed
     else if length key < MinKeySize then Inl ErrKeyTooShort
     else
       rbind (queryInternal pi key) (\<lambda>rank.
         let fpSize = fingerprintSizeInt (ix_header pi);
             payloadSize = payloadSizeInt (ix_header pi);
             payloadOffset = ix_payloadRegionOffset pi + rank * of_nat (ix_entrySize pi) + of_nat fpSize
         in if payloadOffset + of_nat payloadSize > of_nat (length (ix_data pi)) then Inl ErrCorruptedIndex
            else
              rbind (from64 payloadOffset (ix_data pi)) (\<lambda>s.
              rbind (unpackPayloadFromBytes s payloadSize) (\<lambda>payload. Inr (rank, payload)))))"

text \<open>One answer of \<open>QueryBatch\<close>: rank and payload, or the error.\<close>

definition batch_one :: "index \<Rightarrow> bytes \<Rightarrow> (u64 \<times> u64) res" where
  "batch_one idx key =
    (case Index_WithPayload idx of
       Inl _ \<Rightarrow> rbind (QueryRank idx key) (\<lambda>r. Inr (r, 0))
     | Inr pi \<Rightarrow> QueryPayload pi key)"

definition QueryBatch :: "index \<Rightarrow> bytes list \<Rightarrow> (u64 \<times> u64) res list" where
  "QueryBatch idx keys = map (batch_one idx) keys"

section \<open>Prefetching\<close>

type_synonym byteRange = "u64 \<times> u64"

text \<open>The inner loop of \<open>willNeed\<close>: extend the range while the next one starts at most 16 KiB after it.\<close>

fun willNeed_merge :: "byteRange \<Rightarrow> byteRange list \<Rightarrow> byteRange list" where
  "willNeed_merge r [] = [r]"
| "willNeed_merge (s, e) ((s', e') # rs) =
    (if s' \<le> e + push_bit 10 16 then willNeed_merge (s, max e e') rs
     else (s, e) # willNeed_merge (s', e') rs)"

definition willNeed :: "byteRange list \<Rightarrow> byteRange list" where
  "willNeed ranges = (case ranges of [] \<Rightarrow> [] | r # rs \<Rightarrow> willNeed_merge r rs)"

definition prefetch_blocks :: "index \<Rightarrow> bytes list \<Rightarrow> u32 list" where
  "prefetch_blocks idx keys =
    (let route = (\<lambda>key. FastRange32 (ReverseBytes64 (le_get (take 8 key))) (NumBlocks (ix_header idx)));
         blocks = filter (\<lambda>b. b + 1 < ix_numRAMEntries idx) (map route (filter (\<lambda>key. \<not> length key < MinKeySize) keys))
     in remdups_adj (sort blocks))"

definition prefetch_ram :: "index \<Rightarrow> u32 \<Rightarrow> byteRange" where
  "prefetch_ram idx b =
    (let start = ix_ramIndexOffset idx + ucast b * of_nat ramIndexEntrySize
     in (start, start + 2 * of_nat ramIndexEntrySize))"

definition prefetch_meta :: "index \<Rightarrow> u32 \<Rightarrow> byteRange list res" where
  "prefetch_meta idx b =
    rbind (ramEntry idx b) (\<lambda>e. rbind (ramEntry idx (b + 1)) (\<lambda>next.
      let start = ix_metadataRegionOffset idx + MetadataOffset e;
          end' = ix_metadataRegionOffset idx + MetadataOffset next
      in Inr (if KeysBefore e < KeysBefore next \<and> start < end' \<and> end' \<le> of_nat (length (ix_data idx))
              then [(start, end')] else [])))"

definition prefetch_entry :: "index \<Rightarrow> bytes \<Rightarrow> byteRange list res" where
  "prefetch_entry idx key =
    (if length key < MinKeySize then Inr []
     else case locate idx key of
       Inl e \<Rightarrow> if is_panic (Inl e :: unit res) then Inl e else Inr []
     | Inr rank \<Rightarrow>
         if rank \<ge> TotalKeys (ix_header idx) then Inr []
         else let start = ix_payloadRegionOffset idx + rank * of_nat (ix_entrySize idx);
                  end' = start + of_nat (ix_entrySize idx)
              in Inr (if end' \<le> of_nat (length (ix_data idx)) then [(start, end')] else []))"

fun concat_res :: "('a \<Rightarrow> 'b list res) \<Rightarrow> 'a list \<Rightarrow> 'b list res" where
  "concat_res f [] = Inr []"
| "concat_res f (x # xs) = rbind (f x) (\<lambda>ys. rbind (concat_res f xs) (\<lambda>zs. Inr (ys @ zs)))"

definition prefetch :: "index \<Rightarrow> bytes list \<Rightarrow> byteRange list res" where
  "prefetch idx keys =
    (let blocks = prefetch_blocks idx keys;
         ram = willNeed (map (prefetch_ram idx) blocks)
     in rbind (concat_res (prefetch_meta idx) blocks) (\<lambda>metas.
        if ix_entrySize idx = 0 then Inr (ram @ willNeed metas)
        else rbind (concat_res (prefetch_entry idx) keys) (\<lambda>entries.
          Inr (ram @ willNeed metas @ willNeed (sort_key fst entries)))))"

section \<open>Accessors and verification\<close>

definition NumKeys :: "index \<Rightarrow> u64" where "NumKeys idx = TotalKeys (ix_header idx)"
definition Index_NumBlocks :: "index \<Rightarrow> u32" where "Index_NumBlocks idx = NumBlocks (ix_header idx)"
definition MaxBlockKeys :: "index \<Rightarrow> u32" where "MaxBlockKeys idx = 65535"
definition Index_PayloadSize :: "index \<Rightarrow> nat" where "Index_PayloadSize idx = payloadSizeInt (ix_header idx)"
definition UserMetadata :: "index \<Rightarrow> bytes" where "UserMetadata idx = ix_userMetadata idx"

text \<open>One round of the payload loop of \<open>Verify\<close>: the bytes folded into the payload hasher for a block.\<close>

definition verify_block :: "(bytes \<Rightarrow> u64) \<Rightarrow> index \<Rightarrow> u32 \<Rightarrow> bytes res" where
  "verify_block xxh idx blockID =
    rbind (ramEntry idx blockID) (\<lambda>e. rbind (ramEntry idx (blockID + 1)) (\<lambda>e'.
      let startKey = KeysBefore e; endKey = KeysBefore e' in
      if startKey > endKey then Inl ErrCorruptedIndex
      else
        let numKeys = endKey - startKey in
        if numKeys > 0 \<and> ix_entrySize idx > 0 then
          let payloadStart = ix_payloadRegionOffset idx + startKey * of_nat (ix_entrySize idx);
              payloadEnd = ix_payloadRegionOffset idx + endKey * of_nat (ix_entrySize idx)
          in if payloadEnd > of_nat (length (ix_data idx)) then Inl ErrCorruptedIndex
             else rbind (slice64 payloadStart payloadEnd (ix_data idx)) (\<lambda>blockPayloads.
               Inr (le_put 8 (xxh blockPayloads)))
        else Inr (le_put 8 (xxh []))))"

definition Verify :: "(bytes \<Rightarrow> u64) \<Rightarrow> index \<Rightarrow> unit res" where
  "Verify xxh idx =
    (if ix_closed idx then Inl ErrIndexClosed
     else
       let fileSize = of_nat (length (ix_data idx)) :: u64 in
       rbind (from64 (fileSize - of_nat footerSize) (ix_data idx)) (\<lambda>fb.
       rbind (decodeFooter fb) (\<lambda>ft.
       rbind (concat_res (\<lambda>i. verify_block xxh idx (of_nat i)) [0..<unat (NumBlocks (ix_header idx))]) (\<lambda>payloadHasher.
         if xxh payloadHasher \<noteq> PayloadRegionHash ft then Inl ErrChecksumFailed
         else
           let footerOffset = fileSize - of_nat footerSize in
           if footerOffset < ix_metadataRegionOffset idx then Inl ErrCorruptedIndex
           else
             let metadataRegionSize = footerOffset - ix_metadataRegionOffset idx in
             if metadataRegionSize > 0 then
               rbind (slice64 (ix_metadataRegionOffset idx) footerOffset (ix_data idx)) (\<lambda>metadataRegion.
                 if xxh metadataRegion \<noteq> MetadataRegionHash ft then Inl ErrChecksumFailed else Inr ())
             else Inr ()))))"

end
