(* ===== verification/Ptr_Pilot.thy ===== *)
theory Ptr_Pilot
  imports F64 Index_Query
begin

text \<open>
  The PTRHash algorithm, first part: the constants and sizing formulas of
  \<^verbatim>\<open>internal/ptrhash/config.go\<close>, the hash functions and the remap table of \<^verbatim>\<open>pilot.go\<close>, and the
  query side, \<^verbatim>\<open>decoder.go\<close>. A \<^verbatim>\<open>float64\<close> constant is the rounding of its decimal value, and the
  conversion of a float to \<^verbatim>\<open>uint32\<close> keeps the low 32 bits, as it does on 64-bit targets.
\<close>

section \<open>Configuration\<close>

definition ptr_lambda :: rat where "ptr_lambda = f64_round (316 / 100)"
definition ptr_alpha :: rat where "ptr_alpha = f64_round (99 / 100)"
definition ptr_bucketsPerBlock :: nat where "ptr_bucketsPerBlock = 10000"
definition numPilotValues :: nat where "numPilotValues = 256"
definition maxGlobalRetries :: nat where "maxGlobalRetries = 10"
definition remapTableHeaderSize :: nat where "remapTableHeaderSize = 2"
definition remapTableEntrySize :: nat where "remapTableEntrySize = 2"

definition computeNumSlots :: "nat \<Rightarrow> u32" where
  "computeNumSlots numKeys =
    max (of_nat (f64_ceil (f64_div (f64_of_nat numKeys) ptr_alpha))) (of_nat numKeys)"

definition ptr_numBlocks :: "u64 \<Rightarrow> u32" where
  "ptr_numBlocks totalKeys =
    (let totalBuckets = of_nat (f64_ceil (f64_div (f64_of_nat (unat totalKeys)) ptr_lambda)) :: u64;
         totalBuckets = (if totalBuckets = 0 then 1 else totalBuckets)
     in max (ucast ((totalBuckets + of_nat ptr_bucketsPerBlock - 1) div of_nat ptr_bucketsPerBlock)) 2)"

section \<open>Pilot hashing\<close>

definition pilotHashC :: u64 where "pilotHashC = 0x517cc1b727220a95"

definition pilotHash :: "u8 \<Rightarrow> u64 \<Rightarrow> u64" where
  "pilotHash pilot globalSeed =
    (let x = pilotHashC * (ucast pilot XOR globalSeed);
         x = x XOR drop_bit 30 x;
         x = x * 0xbf58476d1ce4e5b9;
         x = x XOR drop_bit 27 x;
         x = x * 0x94d049bb133111eb;
         x = x XOR drop_bit 31 x
     in x OR 1)"

definition foldSlotInput :: "u64 \<Rightarrow> u64 \<Rightarrow> u64" where
  "foldSlotInput k0 k1 = (let h = k0 XOR k1 in h XOR drop_bit 32 h)"

definition pilotSlotFolded :: "u64 \<Rightarrow> u64 \<Rightarrow> u32 \<Rightarrow> u32" where
  "pilotSlotFolded hFolded hp numSlots = ucast (fst (Mul64 (hFolded * hp) (ucast numSlots)))"

definition initPilotHPs :: "u64 \<Rightarrow> u64 list" where
  "initPilotHPs globalSeed = map (\<lambda>i. pilotHash (of_nat i) globalSeed) [0..<numPilotValues]"

definition cubicEpsBucket :: "u64 \<Rightarrow> u32 \<Rightarrow> u32" where
  "cubicEpsBucket x numBuckets =
    (if numBuckets \<le> 1 then 0
     else
       let x2 = fst (Mul64 x x);
           xHalf = drop_bit 1 x OR push_bit 63 1;
           cubic = fst (Mul64 x2 xHalf);
           scaled = (cubic div 256) * 255 + x div 256
       in FastRange32 scaled numBuckets)"

section \<open>Remap table\<close>

fun put_remap :: "nat \<Rightarrow> u16 list \<Rightarrow> bytes \<Rightarrow> bytes res" where
  "put_remap i [] dst = Inr dst"
| "put_remap i (v # vs) dst =
    rbind (put_bytes dst (remapTableHeaderSize + i * remapTableEntrySize) (le_put 2 v)) (put_remap (Suc i) vs)"

definition encodeRemapTableInto :: "u16 list \<Rightarrow> bytes \<Rightarrow> (nat \<times> bytes) res" where
  "encodeRemapTableInto table dst =
    rbind (put_bytes dst 0 (le_put 2 (of_nat (length table) :: u16))) (\<lambda>dst.
    rbind (put_remap 0 table dst) (\<lambda>dst.
      Inr (remapTableHeaderSize + length table * remapTableEntrySize, dst)))"

definition lookupRemap :: "bytes \<Rightarrow> u32 \<Rightarrow> u32 \<Rightarrow> u32 res" where
  "lookupRemap data slot numKeys =
    (if slot < numKeys then Inr slot
     else
       let idx = unat (slot - numKeys);
           offset = remapTableHeaderSize + idx * remapTableEntrySize
       in rbind (slice_from offset data) (\<lambda>s. rbind (get_le 2 s) (\<lambda>v :: u16. Inr (ucast v))))"

section \<open>Decoder\<close>

record ptrDecoder =
  pd_pilotHPs :: "u64 list"

definition ptr_NewDecoder :: "bytes \<Rightarrow> u64 \<Rightarrow> ptrDecoder res" where
  "ptr_NewDecoder globalConfig globalSeed =
    (if length globalConfig \<noteq> 0 then Inl ErrCorruptedIndex else Inr \<lparr>pd_pilotHPs = initPilotHPs globalSeed\<rparr>)"

definition ptr_QuerySlot :: "ptrDecoder \<Rightarrow> u64 \<Rightarrow> u64 \<Rightarrow> bytes \<Rightarrow> nat \<Rightarrow> nat res" where
  "ptr_QuerySlot d k0 k1 metadata keysInBlock =
    (if keysInBlock = 0 then Inl ErrNotFound
     else
       let numBuckets = ptr_bucketsPerBlock;
           numSlots = int (unat (computeNumSlots keysInBlock))
       in if length metadata < numBuckets then Inl ErrCorruptedIndex
          else
            let localBucket = unat (cubicEpsBucket k1 (of_nat ptr_bucketsPerBlock)) in
            rbind (get_at metadata localBucket) (\<lambda>pilot.
            rbind (get_at (pd_pilotHPs d) (unat pilot)) (\<lambda>hp.
              let hFolded = foldSlotInput k0 k1;
                  slot = pilotSlotFolded hFolded hp (of_int numSlots)
              in if int (unat slot) \<ge> int keysInBlock then
                   rbind (slice_from numBuckets metadata) (\<lambda>remapData.
                   let requiredRemap = int remapTableHeaderSize + (numSlots - int keysInBlock) * int remapTableEntrySize
                   in if int (length remapData) < requiredRemap then Inl ErrCorruptedIndex
                      else rbind (lookupRemap remapData slot (of_nat keysInBlock)) (\<lambda>slot. Inr (unat slot)))
                 else Inr (unat slot))))"

section \<open>Bounds\<close>

lemma ptr_alpha_value: "ptr_alpha = 4458563631096791 / 4503599627370496"
  unfolding ptr_alpha_def by code_simp

lemma ptr_lambda_value: "ptr_lambda = 7115687411245384 / 2251799813685248"
  unfolding ptr_lambda_def by code_simp

lemma unat_pilotSlotFolded: "unat (pilotSlotFolded h hp n) = unat (h * hp) * unat n div 2 ^ 64"
  using unat_FastRange32 [of "h * hp" n] by (cases "n = 0") (simp_all add: pilotSlotFolded_def FastRange32_def Mul64_def)

lemma pilotSlotFolded_less: "0 < unat n \<Longrightarrow> unat (pilotSlotFolded h hp n) < unat n"
  using unat_lt2p [of "h * hp"] by (simp add: unat_pilotSlotFolded div_less_iff_less_mult)

lemma cubicEpsBucket_less: "1 < n \<Longrightarrow> cubicEpsBucket x n < n"
  unfolding cubicEpsBucket_def Let_def by (auto intro: FastRange32_less)

lemma f64_alpha_bounds:
  assumes n: "n < 2 ^ 52"
  shows "n \<le> f64_ceil (f64_div (of_nat n) ptr_alpha)" and "f64_ceil (f64_div (of_nat n) ptr_alpha) \<le> n + n div 98 + 1"
proof -
  let ?x = "of_nat n / ptr_alpha :: rat"
  have "(of_nat n :: rat) < 2 ^ 52"
    using n by (metis of_nat_less_iff of_nat_numeral of_nat_power)
  then have x: "0 \<le> ?x" "?x < 2 ^ 53"
    by (simp_all add: ptr_alpha_value)
  have lo: "of_int (int n) \<le> ?x"
    by (simp add: ptr_alpha_value)
  have "n < 98 * (n div 98) + 98"
    using div_mult_mod_eq [of n 98] mod_less_divisor [of 98 n] by simp
  then have "(of_nat n :: rat) \<le> of_nat (98 * (n div 98) + 98)"
    unfolding of_nat_le_iff by simp
  then have hi: "?x \<le> of_int (int n + int (n div 98) + 1)"
    by (simp add: ptr_alpha_value)
  have l: "of_int (int n) \<le> f64_div (of_nat n) ptr_alpha" and h: "f64_div (of_nat n) ptr_alpha \<le> of_int (int n + int (n div 98) + 1)"
    unfolding f64_div_def using f64_round_bounds [OF x] lo hi by blast+
  have "int n \<le> \<lceil>f64_div (of_nat n) ptr_alpha\<rceil>"
    using l by (simp add: le_ceiling_iff)
  then show "n \<le> f64_ceil (f64_div (of_nat n) ptr_alpha)"
    by (simp add: f64_ceil_def le_nat_iff)
  have "\<lceil>f64_div (of_nat n) ptr_alpha\<rceil> \<le> int n + int (n div 98) + 1"
    using h by (simp only: ceiling_le_iff)
  then show "f64_ceil (f64_div (of_nat n) ptr_alpha) \<le> n + n div 98 + 1"
    by (simp add: f64_ceil_def nat_le_iff)
qed

lemma unat_max: "unat (max a b :: 'a::len word) = max (unat a) (unat b)"
  by (simp add: max_def word_le_nat_alt)

lemma computeNumSlots_bounds:
  assumes "n < 2 ^ 31"
  shows "n \<le> unat (computeNumSlots n)" and "unat (computeNumSlots n) \<le> n + n div 98 + 1"
proof -
  have f: "f64_of_nat n = of_nat n"
    using assms by (intro f64_of_nat_exact) simp
  note b = f64_alpha_bounds [of n]
  have m: "f64_ceil (f64_div (of_nat n) ptr_alpha) < 2 ^ 32"
    using b(2) assms by (simp add: div_le_dividend)
  have "unat (computeNumSlots n) = max (f64_ceil (f64_div (of_nat n) ptr_alpha)) n"
    unfolding computeNumSlots_def f unat_max using m assms by simp
  then show "n \<le> unat (computeNumSlots n)" "unat (computeNumSlots n) \<le> n + n div 98 + 1"
    using b assms by simp_all
qed

lemma computeNumSlots_ge:
  assumes "n < 2 ^ 32"
  shows "n \<le> unat (computeNumSlots n)"
  unfolding computeNumSlots_def unat_max using assms by simp

section \<open>The decoder is total\<close>

lemma ptr_bucket_less: "unat (cubicEpsBucket k (of_nat ptr_bucketsPerBlock)) < ptr_bucketsPerBlock"
  using cubicEpsBucket_less [of "of_nat ptr_bucketsPerBlock" k] by (simp add: ptr_bucketsPerBlock_def word_less_nat_alt)

lemma initPilotHPs_nth: "get_at (initPilotHPs s) (unat (p :: u8)) = Inr (pilotHash p s)"
  using unat_lt2p [of p] by (simp add: initPilotHPs_def numPilotValues_def)

text \<open>Whatever the metadata bytes are, a query answers with a slot or an error value and never reads out
  of range.\<close>

lemma ptr_QuerySlot_outcome:
  assumes "pd_pilotHPs d = initPilotHPs s"
  shows "ptr_QuerySlot d k0 k1 md n \<in> {Inl ErrNotFound, Inl ErrCorruptedIndex} \<or>
    (\<exists>i. ptr_QuerySlot d k0 k1 md n = Inr i \<and> i < 2 ^ 32)"
proof -
  let ?slot = "\<lambda>hp. pilotSlotFolded (foldSlotInput k0 k1) hp (computeNumSlots n)"
  let ?remap = "drop ptr_bucketsPerBlock md"
  have lt: "unat w < 2 ^ 32" for w :: u32
    using unat_lt2p [of w] by simp
  have lr: "\<exists>v :: u16. lookupRemap ?remap (?slot hp) (of_nat n) = Inr (ucast v)"
    if pos: "0 < n" and big: "n \<le> unat (?slot hp)"
      and req: "\<not> int (length ?remap) < int remapTableHeaderSize + (int (unat (computeNumSlots n)) - int n) * int remapTableEntrySize"
    for hp
  proof -
    have n: "n < 2 ^ 32"
      using big lt [of "?slot hp"] by linarith
    have s: "unat (?slot hp) < unat (computeNumSlots n)"
      using computeNumSlots_ge [OF n] pos by (intro pilotSlotFolded_less) linarith
    have un: "unat (of_nat n :: u32) = n"
      using n by simp
    have ge: "\<not> ?slot hp < of_nat n"
      using big un by (simp add: word_less_nat_alt)
    have d: "unat (?slot hp - of_nat n) = unat (?slot hp) - n"
      using big un by (subst unat_sub) (simp_all add: word_le_nat_alt)
    have "2 + (unat (?slot hp) - n) * 2 + 2 \<le> length ?remap"
    proof -
      have "2 + (unat (?slot hp) - n) * 2 + 2 \<le> l" if "\<not> int l < int 2 + (int c - int n) * int 2" "unat (?slot hp) < c" for l c
        using that big by (simp add: algebra_simps)
      with req s show ?thesis
        unfolding remapTableHeaderSize_def remapTableEntrySize_def by blast
    qed
    then show ?thesis
      using ge d by (simp add: lookupRemap_def Let_def remapTableHeaderSize_def remapTableEntrySize_def) blast
  qed
  show ?thesis
  proof (cases "n = 0 \<or> length md < ptr_bucketsPerBlock")
    case True
    then show ?thesis by (auto simp: ptr_QuerySlot_def Let_def)
  next
    case False
    let ?b = "unat (cubicEpsBucket k1 (of_nat ptr_bucketsPerBlock))"
    have "get_at md ?b = Inr (md ! ?b)"
      using False ptr_bucket_less [of k1] by simp
    moreover obtain hp where "get_at (pd_pilotHPs d) (unat (md ! ?b)) = Inr hp"
      using assms initPilotHPs_nth by metis
    ultimately have q: "ptr_QuerySlot d k0 k1 md n =
        (if n \<le> unat (?slot hp) then
           if int (length ?remap) < int remapTableHeaderSize + (int (unat (computeNumSlots n)) - int n) * int remapTableEntrySize
           then Inl ErrCorruptedIndex else rbind (lookupRemap ?remap (?slot hp) (of_nat n)) (\<lambda>slot. Inr (unat slot))
         else Inr (unat (?slot hp)))"
      using False by (simp add: ptr_QuerySlot_def Let_def word_of_unat [OF refl, symmetric] del: of_nat_unat)
    have u16: "unat (ucast (v :: u16) :: u32) < 2 ^ 32" for v
      by (rule lt)
    show ?thesis
      using lr [of hp] lt [of "?slot hp"] u16 False unfolding q
      by (cases "n \<le> unat (?slot hp)") (auto simp del: unat_ucast_lt)
  qed
qed

lemma ptr_NewDecoder_HPs: "ptr_NewDecoder cfg s = Inr d \<Longrightarrow> pd_pilotHPs d = initPilotHPs s"
  by (auto simp: ptr_NewDecoder_def split: if_splits)

end
