(* ===== verification/Ptr_Heap.thy ===== *)
theory Ptr_Heap
  imports SH_Prelude "HOL-Library.Multiset"
begin

text \<open>
  The max-heap of evicted buckets, \<^verbatim>\<open>internal/ptrhash/heap.go\<close>: two parallel arrays of bucket indices
  and sizes, ordered by size, ties by the lower index. The locale \<open>work_queue\<close> is what the solver relies
  on; the heap is interpreted as such a queue.
\<close>

record bucketHeap =
  hp_indices :: "u16 list"
  hp_sizes :: "u16 list"

definition newBucketHeap :: bucketHeap where
  "newBucketHeap = \<lparr>hp_indices = [], hp_sizes = []\<rparr>"

definition heap_clear :: "bucketHeap \<Rightarrow> bucketHeap" where
  "heap_clear h = \<lparr>hp_indices = [], hp_sizes = []\<rparr>"

definition heap_len :: "bucketHeap \<Rightarrow> nat" where
  "heap_len h = length (hp_indices h)"

definition swap_at :: "nat \<Rightarrow> nat \<Rightarrow> 'a list \<Rightarrow> 'a list res" where
  "swap_at i j xs = rbind (get_at xs j) (\<lambda>b. rbind (get_at xs i) (\<lambda>a. Inr (xs[i := b, j := a])))"

definition heap_swap :: "nat \<Rightarrow> nat \<Rightarrow> bucketHeap \<Rightarrow> bucketHeap res" where
  "heap_swap i j h =
    rbind (swap_at i j (hp_indices h)) (\<lambda>is. rbind (swap_at i j (hp_sizes h)) (\<lambda>ss.
      Inr \<lparr>hp_indices = is, hp_sizes = ss\<rparr>))"

definition heap_less :: "nat \<Rightarrow> nat \<Rightarrow> bucketHeap \<Rightarrow> bool res" where
  "heap_less i j h =
    rbind (get_at (hp_sizes h) i) (\<lambda>si. rbind (get_at (hp_sizes h) j) (\<lambda>sj.
      if si \<noteq> sj then Inr (si > sj)
      else rbind (get_at (hp_indices h) i) (\<lambda>ii. rbind (get_at (hp_indices h) j) (\<lambda>ij. Inr (ii < ij)))))"

text \<open>Go's \<^verbatim>\<open>(j - 1) / 2\<close> is 0 for \<open>j = 0\<close>, as truncating subtraction makes it here.\<close>

function heap_up :: "nat \<Rightarrow> bucketHeap \<Rightarrow> bucketHeap res" where
  "heap_up j h =
    (let i = (j - 1) div 2 in
     if i = j then Inr h
     else rbind (heap_less j i h) (\<lambda>l. if \<not> l then Inr h else rbind (heap_swap i j h) (\<lambda>h. heap_up i h)))"
  by pat_completeness auto
termination
  by (relation "measure fst") auto

function heap_down :: "nat \<Rightarrow> nat \<Rightarrow> bucketHeap \<Rightarrow> bucketHeap res" where
  "heap_down i n h =
    (let j1 = 2 * i + 1 in
     if j1 \<ge> n then Inr h
     else
       rbind (if j1 + 1 < n then heap_less (j1 + 1) j1 h else Inr False) (\<lambda>right.
       let j = (if right then j1 + 1 else j1) in
       rbind (heap_less j i h) (\<lambda>l.
         if \<not> l then Inr h else rbind (heap_swap i j h) (\<lambda>h. heap_down j n h))))"
  by pat_completeness auto
termination
  by (relation "measure (\<lambda>(i, n, h). n - i)") (auto split: if_splits)

declare heap_up.simps [simp del] heap_down.simps [simp del]

definition heap_push :: "nat \<Rightarrow> nat \<Rightarrow> bucketHeap \<Rightarrow> bucketHeap res" where
  "heap_push idx sz h =
    (let h = \<lparr>hp_indices = hp_indices h @ [of_nat idx], hp_sizes = hp_sizes h @ [of_nat sz]\<rparr>
     in heap_up (length (hp_indices h) - 1) h)"

definition heap_pop :: "bucketHeap \<Rightarrow> ((nat \<times> nat) \<times> bucketHeap) res" where
  "heap_pop h =
    (if length (hp_indices h) = 0 then Inl (GoPanic ''index out of range'')
     else
       let n = length (hp_indices h) - 1 in
       rbind (heap_swap 0 n h) (\<lambda>h.
       rbind (heap_down 0 n h) (\<lambda>h.
       rbind (get_at (hp_indices h) n) (\<lambda>idx.
       rbind (get_at (hp_sizes h) n) (\<lambda>sz.
         Inr ((unat idx, unat sz), \<lparr>hp_indices = take n (hp_indices h), hp_sizes = take n (hp_sizes h)\<rparr>))))))"

section \<open>The queue the solver relies on\<close>

text \<open>\<open>before (i, z) (j, y)\<close>: bucket \<open>i\<close> of size \<open>z\<close> is handed out no later than \<open>j\<close> of size \<open>y\<close>.\<close>

definition before :: "nat \<times> nat \<Rightarrow> nat \<times> nat \<Rightarrow> bool" where
  "before p q \<longleftrightarrow> snd q < snd p \<or> snd q = snd p \<and> fst p \<le> fst q"

text \<open>
  The specification of a run of the queue: a list kept in that order. \<open>queue_run\<close> drives an
  implementation through the same operations.
\<close>

datatype queue_op = Push nat nat | Pop

definition enqueue :: "nat \<times> nat \<Rightarrow> (nat \<times> nat) list \<Rightarrow> (nat \<times> nat) list" where
  "enqueue p qs = takeWhile (\<lambda>q. before q p) qs @ p # dropWhile (\<lambda>q. before q p) qs"

fun queue_spec :: "queue_op list \<Rightarrow> (nat \<times> nat) list \<Rightarrow> ((nat \<times> nat) list \<times> (nat \<times> nat) list) option" where
  "queue_spec [] qs = Some ([], qs)"
| "queue_spec (Push i z # ops) qs = queue_spec ops (enqueue (i, z) qs)"
| "queue_spec (Pop # ops) [] = None"
| "queue_spec (Pop # ops) (q # qs) = map_option (\<lambda>(out, qs). (q # out, qs)) (queue_spec ops qs)"

fun queue_run :: "(nat \<Rightarrow> nat \<Rightarrow> 'h \<Rightarrow> 'h res) \<Rightarrow> ('h \<Rightarrow> ((nat \<times> nat) \<times> 'h) res) \<Rightarrow> queue_op list \<Rightarrow> 'h \<Rightarrow> ((nat \<times> nat) list \<times> 'h) res" where
  "queue_run push pop [] h = Inr ([], h)"
| "queue_run push pop (Push i z # ops) h = rbind (push i z h) (queue_run push pop ops)"
| "queue_run push pop (Pop # ops) h = rbind (pop h) (\<lambda>(p, h). rbind (queue_run push pop ops h) (\<lambda>(out, h). Inr (p # out, h)))"

lemma before_trans: "before p q \<Longrightarrow> before q r \<Longrightarrow> before p r"
  by (auto simp: before_def)

lemma before_total: "before p q \<or> before q p"
  by (auto simp: before_def)

lemma before_antisym: "before p q \<Longrightarrow> before q p \<Longrightarrow> p = q"
  by (auto simp: before_def prod_eq_iff)

lemma mset_enqueue: "mset (enqueue p qs) = add_mset p (mset qs)"
proof -
  have "mset (takeWhile (\<lambda>q. before q p) qs) + mset (dropWhile (\<lambda>q. before q p) qs) = mset qs"
    by (metis mset_append takeWhile_dropWhile_id)
  then show ?thesis
    by (simp add: enqueue_def)
qed

lemma sorted_enqueue: "sorted_wrt before qs \<Longrightarrow> sorted_wrt before (enqueue p qs)"
proof (induction qs)
  case (Cons q qs)
  show ?case
  proof (cases "before q p")
    case True
    have "\<forall>x\<in>set (enqueue p qs). before q x"
      using Cons.prems True arg_cong [OF mset_enqueue, of set_mset p qs] by simp
    then show ?thesis
      using Cons True by (simp add: enqueue_def)
  next
    case False
    then have "before p q"
      using before_total by blast
    then show ?thesis
      using Cons.prems False before_trans by (auto simp: enqueue_def)
  qed
qed (simp add: enqueue_def)

locale work_queue =
  fixes ok :: "'h \<Rightarrow> bool"
    and items :: "'h \<Rightarrow> (nat \<times> nat) multiset"
    and qlen :: "'h \<Rightarrow> nat"
    and push :: "nat \<Rightarrow> nat \<Rightarrow> 'h \<Rightarrow> 'h res"
    and pop :: "'h \<Rightarrow> ((nat \<times> nat) \<times> 'h) res"
  assumes len: "ok h \<Longrightarrow> qlen h = size (items h)"
    and push_item: "ok h \<Longrightarrow> i < 65536 \<Longrightarrow> z < 65536 \<Longrightarrow> \<exists>h'. push i z h = Inr h' \<and> ok h' \<and> items h' = add_mset (i, z) (items h)"
    and pop_item: "ok h \<Longrightarrow> items h \<noteq> {#} \<Longrightarrow>
      \<exists>p h'. pop h = Inr (p, h') \<and> ok h' \<and> items h = add_mset p (items h') \<and> (\<forall>q\<in>#items h. before p q)"
begin

lemma pop_nonempty:
  assumes "ok h" and "0 < qlen h"
  obtains p h' where "pop h = Inr (p, h')" "ok h'" "items h = add_mset p (items h')" "qlen h = Suc (qlen h')"
  using pop_item [OF assms(1)] assms len by fastforce

theorem run_refines:
  assumes "ok h" and "items h = mset qs" and "sorted_wrt before qs" and "\<forall>i z. Push i z \<in> set ops \<longrightarrow> i < 65536 \<and> z < 65536"
    and "queue_spec ops qs = Some (out, qs')"
  shows "\<exists>h'. queue_run push pop ops h = Inr (out, h') \<and> ok h' \<and> items h' = mset qs'"
  using assms
proof (induction ops qs arbitrary: h out rule: queue_spec.induct)
  case (2 i z ops qs)
  obtain h' where h': "push i z h = Inr h'" "ok h'" "items h' = add_mset (i, z) (items h)"
    using push_item [OF 2(2), of i z] 2(5) by auto
  with 2 show ?case
    by (simp add: mset_enqueue sorted_enqueue)
next
  case (4 ops q qs)
  obtain p h' where h': "pop h = Inr (p, h')" "ok h'" "items h = add_mset p (items h')" "\<forall>r\<in>#items h. before p r"
    using pop_item [OF 4(2)] 4(3) by (metis mset.simps(2) add_mset_not_empty)
  have mem: "p \<in># mset (q # qs)"
    using h'(3) 4(3) by simp
  have "before p q" "before q p"
    using h'(4) 4(3,4) mem by (auto simp: before_def)
  then have p: "p = q"
    by (rule before_antisym)
  obtain out' where out: "queue_spec ops qs = Some (out', qs')" "out = q # out'"
    using 4(6) by auto
  have "items h' = mset qs"
    using h'(3) 4(3) p by simp
  from 4(1) [OF h'(2) this _ _ out(1)] show ?case
    using 4(4,5) h'(1) p out(2) by auto
qed auto

end

section \<open>The heap is a work queue\<close>

definition heap_items :: "bucketHeap \<Rightarrow> (u16 \<times> u16) list" where
  "heap_items h = zip (hp_indices h) (hp_sizes h)"

definition heap_wf :: "bucketHeap \<Rightarrow> bool" where
  "heap_wf h \<longleftrightarrow> length (hp_sizes h) = length (hp_indices h)"

definition outranks :: "u16 \<times> u16 \<Rightarrow> u16 \<times> u16 \<Rightarrow> bool" where
  "outranks p q \<longleftrightarrow> snd q < snd p \<or> snd q = snd p \<and> fst p < fst q"

lemma outranks_trans: "outranks p q \<Longrightarrow> outranks q r \<Longrightarrow> outranks p r"
  by (auto simp: outranks_def)

lemma outranks_total: "outranks p q \<or> p = q \<or> outranks q p"
  by (auto simp: outranks_def prod_eq_iff)

lemma outranks_irrefl: "\<not> outranks p p"
  by (simp add: outranks_def)

lemma heap_items_nth: "heap_wf h \<Longrightarrow> i < heap_len h \<Longrightarrow> heap_items h ! i = (hp_indices h ! i, hp_sizes h ! i)"
  by (simp add: heap_items_def heap_wf_def heap_len_def)

lemma length_heap_items: "heap_wf h \<Longrightarrow> length (heap_items h) = heap_len h"
  by (simp add: heap_items_def heap_wf_def heap_len_def)

lemma heap_less_ok:
  "heap_wf h \<Longrightarrow> i < heap_len h \<Longrightarrow> j < heap_len h \<Longrightarrow> heap_less i j h = Inr (outranks (heap_items h ! i) (heap_items h ! j))"
  by (auto simp: heap_less_def heap_items_nth heap_wf_def heap_len_def outranks_def)

lemma heap_swap_ok:
  assumes "heap_wf h" and "i < heap_len h" and "j < heap_len h"
  shows "\<exists>h'. heap_swap i j h = Inr h' \<and> heap_wf h' \<and> heap_len h' = heap_len h \<and>
    heap_items h' = (heap_items h)[i := heap_items h ! j, j := heap_items h ! i]"
  using assms by (auto simp: heap_swap_def swap_at_def heap_wf_def heap_len_def heap_items_def zip_update nth_list_update)

definition parent :: "nat \<Rightarrow> nat" where "parent j = (j - 1) div 2"

lemma parent_less: "0 < j \<Longrightarrow> parent j < j"
  by (auto simp: parent_def)

lemma parent_children: "parent k = i \<and> 0 < k \<longleftrightarrow> k = 2 * i + 1 \<or> k = 2 * i + 2"
  by (auto simp: parent_def)

lemma not_outranks_trans: "\<not> outranks p q \<Longrightarrow> \<not> outranks q r \<Longrightarrow> \<not> outranks p r"
  using outranks_trans outranks_total by metis

lemma outranks_asym: "outranks p q \<Longrightarrow> \<not> outranks q p"
  using outranks_trans outranks_irrefl by metis

text \<open>A heap on the first \<open>n\<close> places, a heap but for place \<open>j\<close> being too strong, and a heap but for
  place \<open>i\<close> being too weak.\<close>

definition is_heap :: "nat \<Rightarrow> (u16 \<times> u16) list \<Rightarrow> bool" where
  "is_heap n xs \<longleftrightarrow> (\<forall>k. 0 < k \<and> k < n \<longrightarrow> \<not> outranks (xs ! k) (xs ! parent k))"

definition heap_upto :: "nat \<Rightarrow> nat \<Rightarrow> (u16 \<times> u16) list \<Rightarrow> bool" where
  "heap_upto n j xs \<longleftrightarrow> (\<forall>k. 0 < k \<and> k < n \<and> k \<noteq> j \<longrightarrow> \<not> outranks (xs ! k) (xs ! parent k)) \<and>
     (\<forall>k. 0 < k \<and> k < n \<and> parent k = j \<and> 0 < j \<longrightarrow> \<not> outranks (xs ! k) (xs ! parent j))"

definition heap_downto :: "nat \<Rightarrow> nat \<Rightarrow> (u16 \<times> u16) list \<Rightarrow> bool" where
  "heap_downto n i xs \<longleftrightarrow> (\<forall>k. 0 < k \<and> k < n \<and> parent k \<noteq> i \<longrightarrow> \<not> outranks (xs ! k) (xs ! parent k)) \<and>
     (\<forall>k. 0 < k \<and> k < n \<and> parent k = i \<and> 0 < i \<longrightarrow> \<not> outranks (xs ! k) (xs ! parent i))"

lemma heap_root: "is_heap n xs \<Longrightarrow> k < n \<Longrightarrow> \<not> outranks (xs ! k) (xs ! 0)"
proof (induction k rule: less_induct)
  case (less k)
  show ?case
  proof (cases "k = 0")
    case False
    then have "\<not> outranks (xs ! parent k) (xs ! 0)" "\<not> outranks (xs ! k) (xs ! parent k)"
      using less parent_less [of k] by (auto simp: is_heap_def)
    then show ?thesis
      using not_outranks_trans by blast
  qed (simp add: outranks_irrefl)
qed

lemma swap_nth:
  assumes "i < length xs" and "j < length xs"
  shows "xs[i := xs ! j, j := xs ! i] ! k = (if k = j then xs ! i else if k = i then xs ! j else xs ! k)"
  using assms by (auto simp: nth_list_update)

lemma heap_upto_swap:
  assumes h: "heap_upto n j xs" and n: "j < n" "n \<le> length xs" "0 < j" and less: "outranks (xs ! j) (xs ! parent j)"
  shows "heap_upto n (parent j) (xs[parent j := xs ! j, j := xs ! parent j])"
proof -
  let ?i = "parent j" and ?xs = "xs[parent j := xs ! j, j := xs ! parent j]"
  have ij: "?i < j"
    using parent_less n by blast
  have nth: "?xs ! k = (if k = j then xs ! ?i else if k = ?i then xs ! j else xs ! k)" for k
    by (rule swap_nth) (use ij n in linarith)+
  have H1: "\<not> outranks (xs ! k) (xs ! parent k)" if "0 < k" "k < n" "k \<noteq> j" for k
    using h that by (simp add: heap_upto_def)
  have H2: "\<not> outranks (xs ! k) (xs ! ?i)" if "0 < k" "k < n" "parent k = j" for k
    using h that n by (simp add: heap_upto_def)
  have A: "\<not> outranks (?xs ! k) (?xs ! parent k)" if k: "0 < k" "k < n" "k \<noteq> ?i" for k
  proof (cases "k = j")
    case True
    then show ?thesis
      using outranks_asym [OF less] ij by (simp add: nth)
  next
    case False
    note K = H1 [OF k(1,2) False]
    consider "parent k = j" | "parent k = ?i" | "parent k \<noteq> j" "parent k \<noteq> ?i"
      by blast
    then show ?thesis
    proof cases
      case 1
      then show ?thesis
        using H2 [OF k(1,2) 1] False k(3) by (simp add: nth)
    next
      case 2
      then have "\<not> outranks (xs ! k) (xs ! j)"
        using K outranks_trans [OF _ less, of "xs ! k"] by auto
      then show ?thesis
        using 2 False k(3) ij by (simp add: nth)
    next
      case 3
      then show ?thesis
        using K False k(3) by (simp add: nth)
    qed
  qed
  have B: "\<not> outranks (?xs ! k) (?xs ! parent ?i)" if k: "0 < k" "k < n" "parent k = ?i" "0 < ?i" for k
  proof -
    have pi: "parent ?i < ?i" "\<not> outranks (xs ! ?i) (xs ! parent ?i)"
      using parent_less [OF k(4)] H1 [OF k(4)] ij n by simp_all
    have "k \<noteq> ?i"
      using k parent_less [of k] by auto
    have "\<not> outranks (xs ! k) (xs ! parent ?i)" if "k \<noteq> j"
      using H1 [OF k(1,2) that] not_outranks_trans [OF _ pi(2), of "xs ! k"] k(3) by simp
    then show ?thesis
      using pi ij \<open>k \<noteq> ?i\<close> by (cases "k = j") (simp_all add: nth)
  qed
  show ?thesis
    unfolding heap_upto_def by (intro conjI allI impI; elim conjE) (rule A B; assumption)+
qed

lemma heap_up_ok:
  assumes "heap_wf h" and "j < heap_len h" and "heap_upto (heap_len h) j (heap_items h)"
  shows "\<exists>h'. heap_up j h = Inr h' \<and> heap_wf h' \<and> heap_len h' = heap_len h \<and> mset (heap_items h') = mset (heap_items h) \<and>
    is_heap (heap_len h') (heap_items h')"
  using assms
proof (induction j h rule: heap_up.induct)
  case (1 j h)
  let ?i = "(j - 1) div 2"
  have i: "?i = parent j"
    by (simp add: parent_def)
  show ?case
  proof (cases "j = 0")
    case True
    then show ?thesis
      using "1.prems" by (simp add: heap_up.simps [of 0 h] is_heap_def heap_upto_def)
  next
    case False
    then have ij: "parent j < j"
      using parent_less by blast
    let ?xs = "heap_items h"
    have less: "heap_less j ?i h = Inr (outranks (?xs ! j) (?xs ! parent j))"
      using heap_less_ok "1.prems"(1,2) ij i by simp
    show ?thesis
    proof (cases "outranks (?xs ! j) (?xs ! parent j)")
      case True
      obtain h' where h': "heap_swap ?i j h = Inr h'" "heap_wf h'" "heap_len h' = heap_len h" "heap_items h' = ?xs[parent j := ?xs ! j, j := ?xs ! parent j]"
        using heap_swap_ok [of h ?i j] "1.prems"(1,2) ij i by auto
      have "heap_upto (heap_len h') ?i (heap_items h')"
        using heap_upto_swap [OF "1.prems"(3,2) _ _ True] "1.prems"(1) False h'(3,4) i by (simp add: length_heap_items)
      then obtain h'' where "heap_up ?i h' = Inr h''" "heap_wf h''" "heap_len h'' = heap_len h'" "mset (heap_items h'') = mset (heap_items h')"
        "is_heap (heap_len h'') (heap_items h'')"
        using "1.IH" [OF refl _ less _ h'(1)] True h' ij i "1.prems"(2) by auto
      moreover have "mset (heap_items h') = mset ?xs"
        unfolding h'(4) using "1.prems"(1,2) ij by (subst mset_swap) (simp_all add: length_heap_items)
      ultimately show ?thesis
        using less True ij i h' by (simp add: heap_up.simps [of j h] Let_def)
    next
      case False': False
      then have "is_heap (heap_len h) ?xs"
        using "1.prems"(3) by (auto simp: heap_upto_def is_heap_def)
      then show ?thesis
        using less False' ij i "1.prems" by (simp add: heap_up.simps [of j h] Let_def)
    qed
  qed
qed

lemma heap_downto_swap:
  assumes h: "heap_downto n i xs" and n: "n \<le> length xs" "i < n" and j: "j < n" "0 < j" "parent j = i"
    and best: "\<And>k. 0 < k \<Longrightarrow> k < n \<Longrightarrow> parent k = i \<Longrightarrow> \<not> outranks (xs ! k) (xs ! j)"
    and less: "outranks (xs ! j) (xs ! i)"
  shows "heap_downto n j (xs[i := xs ! j, j := xs ! i])"
proof -
  let ?xs = "xs[i := xs ! j, j := xs ! i]"
  have ij: "i < j"
    using parent_less [OF j(2)] j(3) by simp
  have nth: "?xs ! k = (if k = j then xs ! i else if k = i then xs ! j else xs ! k)" for k
    by (rule swap_nth) (use ij n j in linarith)+
  have H1: "\<not> outranks (xs ! k) (xs ! parent k)" if "0 < k" "k < n" "parent k \<noteq> i" for k
    using h that by (simp add: heap_downto_def)
  have H2: "\<not> outranks (xs ! k) (xs ! parent i)" if "0 < k" "k < n" "parent k = i" "0 < i" for k
    using h that by (simp add: heap_downto_def)
  have A: "\<not> outranks (?xs ! k) (?xs ! parent k)" if k: "0 < k" "k < n" "parent k \<noteq> j" for k
  proof (cases "parent k = i")
    case True
    then show ?thesis
      using best [OF k(1,2) True] outranks_asym [OF less] parent_less [OF k(1)] ij by (cases "k = j") (simp_all add: nth)
  next
    case False
    then have kj: "k \<noteq> j"
      using j(3) by auto
    show ?thesis
    proof (cases "k = i")
      case True
      then show ?thesis
        using H2 [OF j(2,1,3)] k(1) parent_less [OF k(1)] ij kj by (simp add: nth)
    next
      case False': False
      then show ?thesis
        using H1 [OF k(1,2) False] kj False k(3) by (simp add: nth)
    qed
  qed
  have B: "\<not> outranks (?xs ! k) (?xs ! parent j)" if k: "0 < k" "k < n" "parent k = j" for k
  proof -
    have "parent k \<noteq> i" "k \<noteq> i" "k \<noteq> j"
      using k(3) ij parent_less [OF k(1)] by auto
    then show ?thesis
      using H1 [OF k(1,2)] k(3) j(3) ij by (simp add: nth)
  qed
  show ?thesis
    unfolding heap_downto_def by (intro conjI allI impI; elim conjE) (rule A B; assumption)+
qed

lemma best_child:
  assumes "0 < k" and "k < n" and "parent k = i"
  shows "\<not> outranks (xs ! k)
    (xs ! (if 2 * i + 1 + 1 < n \<and> outranks (xs ! (2 * i + 1 + 1)) (xs ! (2 * i + 1)) then 2 * i + 1 + 1 else 2 * i + 1))"
    (is "\<not> outranks _ (xs ! (if ?right then _ else _))")
proof -
  have "k = 2 * i + 1 \<or> k = 2 * i + 1 + 1"
    using assms(1,3) parent_children [of k i] by simp
  then show ?thesis
  proof
    assume "k = 2 * i + 1"
    then show ?thesis
      using outranks_asym [of "xs ! (2 * i + 1 + 1)" "xs ! (2 * i + 1)"] outranks_irrefl by (simp only: split: if_splits) blast
  next
    assume k: "k = 2 * i + 1 + 1"
    then show ?thesis
      using assms(2) outranks_irrefl by (simp only: split: if_splits) blast
  qed
qed

lemma heap_down_ok:
  assumes "heap_wf h" and "n \<le> heap_len h" and "i < n \<or> n = 0" and "heap_downto n i (heap_items h)"
  shows "\<exists>h'. heap_down i n h = Inr h' \<and> heap_wf h' \<and> heap_len h' = heap_len h \<and> mset (heap_items h') = mset (heap_items h) \<and>
    is_heap n (heap_items h') \<and> (\<forall>k\<ge>n. heap_items h' ! k = heap_items h ! k)"
  using assms
proof (induction i n h rule: heap_down.induct)
  case (1 i n h)
  let ?xs = "heap_items h" and ?j1 = "2 * i + 1"
  show ?case
  proof (cases "?j1 \<ge> n")
    case True
    then have "0 < k \<and> k < n \<longrightarrow> parent k \<noteq> i" for k
      using parent_children [of k i] by auto
    then show ?thesis
      using "1.prems"(1,4) True by (subst heap_down.simps) (simp add: heap_downto_def is_heap_def)
  next
    case False
    define right where "right = (?j1 + 1 < n \<and> outranks (?xs ! (?j1 + 1)) (?xs ! ?j1))"
    define j where "j = (if right then ?j1 + 1 else ?j1)"
    have r: "(if ?j1 + 1 < n then heap_less (?j1 + 1) ?j1 h else Inr False) = Inr right"
      using heap_less_ok [OF "1.prems"(1), of "?j1 + 1" ?j1] "1.prems"(2) by (simp add: right_def)
    have j: "j < n" "0 < j" "parent j = i" "j < heap_len h" "i < heap_len h" "i < n"
      using False "1.prems"(2) parent_children [of j i] by (auto simp: j_def right_def)
    have best: "\<not> outranks (?xs ! k) (?xs ! j)" if "0 < k" "k < n" "parent k = i" for k
      unfolding j_def right_def by (rule best_child [OF that])
    have less: "heap_less j i h = Inr (outranks (?xs ! j) (?xs ! i))"
      by (rule heap_less_ok [OF "1.prems"(1) j(4,5)])
    show ?thesis
    proof (cases "outranks (?xs ! j) (?xs ! i)")
      case True
      obtain h' where h': "heap_swap i j h = Inr h'" "heap_wf h'" "heap_len h' = heap_len h" "heap_items h' = ?xs[i := ?xs ! j, j := ?xs ! i]"
        using heap_swap_ok [OF "1.prems"(1) j(5,4)] by blast
      have "n \<le> length ?xs"
        using "1.prems"(1,2) by (simp add: length_heap_items)
      then have "heap_downto n j (heap_items h')"
        unfolding h'(4) by (intro heap_downto_swap [where i = i and j = j] "1.prems"(4) j(6,1-3) best True)
      then obtain h'' where h'': "heap_down j n h' = Inr h''" "heap_wf h''" "heap_len h'' = heap_len h'" "mset (heap_items h'') = mset (heap_items h')"
        "is_heap n (heap_items h'')" "\<forall>k\<ge>n. heap_items h'' ! k = heap_items h' ! k"
        using "1.IH" [OF refl False r j_def less _ h'(1)] True h'(2,3) j(1) "1.prems"(2) by auto
      have "mset (heap_items h') = mset ?xs"
        unfolding h'(4) using "1.prems"(1) j(4,5) by (subst mset_swap) (simp_all add: length_heap_items)
      moreover have "\<forall>k\<ge>n. heap_items h' ! k = ?xs ! k"
        unfolding h'(4) using j(1,6) by simp
      moreover have "heap_down i n h = Inr h''"
        unfolding heap_down.simps [of i n h] Let_def if_not_P [OF False] r rbind_Inr j_def [symmetric] less h'(1)
        using True h''(1) by simp
      ultimately show ?thesis
        using h''(2-6) h'(3) by simp
    next
      case False': False
      have "\<not> outranks (?xs ! k) (?xs ! parent k)" if "0 < k" "k < n" for k
      proof (cases "parent k = i")
        case True
        then show ?thesis
          using not_outranks_trans [OF best [OF that True] False'] by simp
      next
        case False
        then show ?thesis
          using "1.prems"(4) that by (simp add: heap_downto_def)
      qed
      then have "is_heap n ?xs"
        by (simp add: is_heap_def)
      moreover have "heap_down i n h = Inr h"
        unfolding heap_down.simps [of i n h] Let_def if_not_P [OF False] r rbind_Inr j_def [symmetric] less using False' by simp
      ultimately show ?thesis
        using "1.prems"(1) by simp
    qed
  qed
qed

definition heap_ok :: "bucketHeap \<Rightarrow> bool" where
  "heap_ok h \<longleftrightarrow> heap_wf h \<and> is_heap (heap_len h) (heap_items h)"

definition heap_contents :: "bucketHeap \<Rightarrow> (nat \<times> nat) multiset" where
  "heap_contents h = image_mset (\<lambda>(i, z). (unat i, unat z)) (mset (heap_items h))"

lemma heap_push_ok:
  assumes "heap_ok h" and "i < 65536" and "z < 65536"
  shows "\<exists>h'. heap_push i z h = Inr h' \<and> heap_ok h' \<and> heap_contents h' = add_mset (i, z) (heap_contents h)"
proof -
  let ?h = "\<lparr>hp_indices = hp_indices h @ [of_nat i], hp_sizes = hp_sizes h @ [of_nat z]\<rparr>" and ?n = "heap_len h"
  have wf: "heap_wf h" "is_heap ?n (heap_items h)"
    using assms(1) by (simp_all add: heap_ok_def)
  have it: "heap_items ?h = heap_items h @ [(of_nat i, of_nat z)]" "heap_wf ?h" "heap_len ?h = Suc ?n" "length (heap_items h) = ?n"
    using wf(1) by (simp_all add: heap_items_def heap_wf_def heap_len_def)
  have "heap_upto (Suc ?n) ?n (heap_items ?h)"
  proof -
    have "parent k \<noteq> ?n" if "0 < k" "k < Suc ?n" for k
      using parent_less [OF that(1)] that(2) by simp
    moreover have "\<not> outranks (heap_items ?h ! k) (heap_items ?h ! parent k)" if "0 < k" "k < Suc ?n" "k \<noteq> ?n" for k
      using wf(2) that parent_less [OF that(1)] it(1,4) by (simp add: is_heap_def nth_append)
    ultimately show ?thesis
      unfolding heap_upto_def by blast
  qed
  then obtain h' where "heap_up ?n ?h = Inr h'" "heap_wf h'" "mset (heap_items h') = mset (heap_items ?h)" "is_heap (heap_len h') (heap_items h')"
    using heap_up_ok [OF it(2), of ?n] it(3) by auto
  then show ?thesis
    using it(1) assms(2,3) by (simp add: heap_push_def Let_def heap_ok_def heap_contents_def heap_len_def)
qed

lemma heap_pop_ok:
  assumes ok: "heap_ok h" and ne: "heap_contents h \<noteq> {#}"
  shows "\<exists>p h'. heap_pop h = Inr (p, h') \<and> heap_ok h' \<and> heap_contents h = add_mset p (heap_contents h') \<and> (\<forall>q\<in>#heap_contents h. before p q)"
proof -
  let ?xs = "heap_items h" and ?n = "heap_len h - 1"
  have wf: "heap_wf h" "is_heap (heap_len h) ?xs"
    using ok by (simp_all add: heap_ok_def)
  have pos: "0 < heap_len h" "?n < heap_len h"
    using ne length_heap_items [OF wf(1)] by (cases "heap_len h"; simp add: heap_contents_def)+
  obtain h1 where h1: "heap_swap 0 ?n h = Inr h1" "heap_wf h1" "heap_len h1 = heap_len h" "heap_items h1 = ?xs[0 := ?xs ! ?n, ?n := ?xs ! 0]"
    using heap_swap_ok [OF wf(1) pos] by blast
  have nth1: "heap_items h1 ! k = (if k = ?n then ?xs ! 0 else if k = 0 then ?xs ! ?n else ?xs ! k)" for k
    unfolding h1(4) by (rule swap_nth) (use pos length_heap_items [OF wf(1)] in simp_all)
  have "heap_downto ?n 0 (heap_items h1)"
    unfolding heap_downto_def
  proof (intro conjI allI impI)
    fix k assume k: "0 < k \<and> k < ?n \<and> parent k \<noteq> 0"
    then have "\<not> outranks (?xs ! k) (?xs ! parent k)" "parent k < k" "0 < k"
      using wf(2) parent_less [of k] by (auto simp: is_heap_def)
    then show "\<not> outranks (heap_items h1 ! k) (heap_items h1 ! parent k)"
      using k by (simp add: nth1)
  qed simp
  moreover have "?n \<le> heap_len h1" "0 < ?n \<or> ?n = 0"
    using h1(3) by linarith+
  ultimately obtain h2 where h2: "heap_down 0 ?n h1 = Inr h2" "heap_wf h2" "heap_len h2 = heap_len h" "mset (heap_items h2) = mset (heap_items h1)"
    "is_heap ?n (heap_items h2)" "heap_items h2 ! ?n = ?xs ! 0"
    using heap_down_ok [OF h1(2), of ?n 0] h1(3) nth1 [of ?n] by auto
  let ?h3 = "\<lparr>hp_indices = take ?n (hp_indices h2), hp_sizes = take ?n (hp_sizes h2)\<rparr>"
  have it3: "heap_items ?h3 = take ?n (heap_items h2)" "heap_wf ?h3" "heap_len ?h3 = ?n"
    using h2(2,3) pos by (simp_all add: heap_items_def heap_wf_def heap_len_def take_zip)
  have last: "(hp_indices h2 ! ?n, hp_sizes h2 ! ?n) = ?xs ! 0"
    using heap_items_nth [OF h2(2), of ?n] h2(3,6) pos by simp
  have "heap_items h2 = take ?n (heap_items h2) @ [?xs ! 0]"
    using h2(2,3,6) pos length_heap_items [OF h2(2)] by (metis Suc_pred' take_Suc_conv_app_nth take_all_iff order_refl)
  then have "mset (heap_items h2) = add_mset (?xs ! 0) (mset (heap_items ?h3))"
    unfolding it3(1) by (metis mset_append mset_single_iff_right union_mset_add_mset_right add_0_right mset.simps(1) mset.simps(2))
  moreover have "mset (heap_items h1) = mset ?xs"
    unfolding h1(4) using pos length_heap_items [OF wf(1)] by (subst mset_swap) simp_all
  ultimately have ms: "mset ?xs = add_mset (?xs ! 0) (mset (heap_items ?h3))"
    using h2(4) by simp
  let ?p = "(unat (hp_indices h2 ! ?n), unat (hp_sizes h2 ! ?n))"
  have pr: "?p = (\<lambda>(i, z). (unat i, unat z)) (?xs ! 0)"
    by (simp flip: last)
  have run: "heap_pop h = Inr (?p, ?h3)"
    using h1(1) h2(1,2,3) pos by (simp add: heap_pop_def Let_def heap_len_def heap_wf_def)
  have "parent k < ?n" if "0 < k" "k < ?n" for k
    using parent_less [OF that(1)] that(2) by simp
  then have "heap_ok ?h3"
    using h2(5) it3(2) unfolding heap_ok_def is_heap_def it3(1,3) by simp
  moreover have "heap_contents h = add_mset ?p (heap_contents ?h3)"
    unfolding heap_contents_def ms pr by simp
  moreover have "before ?p q" if "q \<in># heap_contents h" for q
  proof -
    have "q \<in> (\<lambda>(i, z). (unat i, unat z)) ` set ?xs"
      using that by (simp add: heap_contents_def)
    then obtain e where "e \<in> set ?xs" "q = (\<lambda>(i, z). (unat i, unat z)) e"
      by blast
    then obtain k where k: "k < heap_len h" "q = (\<lambda>(i, z). (unat i, unat z)) (?xs ! k)"
      using length_heap_items [OF wf(1)] by (auto simp: in_set_conv_nth)
    then show ?thesis
      using heap_root [OF wf(2) k(1)] unfolding pr k(2)
      by (auto simp: outranks_def before_def word_less_nat_alt word_unat_eq_iff case_prod_beta not_less)
  qed
  ultimately show ?thesis
    using run by blast
qed

interpretation bucket_queue: work_queue heap_ok heap_contents heap_len heap_push heap_pop
proof
  fix h i z
  show "heap_ok h \<Longrightarrow> heap_len h = size (heap_contents h)"
    by (simp add: heap_ok_def heap_contents_def length_heap_items)
  show "heap_ok h \<Longrightarrow> i < 65536 \<Longrightarrow> z < 65536 \<Longrightarrow> \<exists>h'. heap_push i z h = Inr h' \<and> heap_ok h' \<and> heap_contents h' = add_mset (i, z) (heap_contents h)"
    by (rule heap_push_ok)
  show "heap_ok h \<Longrightarrow> heap_contents h \<noteq> {#} \<Longrightarrow>
      \<exists>p h'. heap_pop h = Inr (p, h') \<and> heap_ok h' \<and> heap_contents h = add_mset p (heap_contents h') \<and> (\<forall>q\<in>#heap_contents h. before p q)"
    by (rule heap_pop_ok)
qed

lemma newBucketHeap_ok: "heap_ok newBucketHeap" "heap_contents newBucketHeap = {#}"
  by (simp_all add: newBucketHeap_def heap_ok_def heap_wf_def heap_len_def is_heap_def heap_contents_def heap_items_def)

lemma heap_clear_ok: "heap_ok (heap_clear h)" "heap_contents (heap_clear h) = {#}"
  by (simp_all add: heap_clear_def heap_ok_def heap_wf_def heap_len_def is_heap_def heap_contents_def heap_items_def)

end
