(* ===== verification/Ptr_Sort.thy ===== *)
theory Ptr_Sort
  imports SH_Prelude "HOL-Library.Multiset"
begin

text \<open>
  The order in which the PTRHash solver visits buckets, \<^verbatim>\<open>internal/ptrhash/counting_sort.go\<close>, and its
  equivalence with a stable sort: larger buckets first, buckets of one size by index.
\<close>

definition bucket_size_at :: "u16 list \<Rightarrow> nat \<Rightarrow> nat res" where
  "bucket_size_at bucketStarts i =
    rbind (get_at bucketStarts (i + 1)) (\<lambda>e. rbind (get_at bucketStarts i) (\<lambda>s. Inr (unat (e - s))))"

definition countingSortBucketsInto :: "u16 list \<Rightarrow> u16 list \<Rightarrow> nat list \<Rightarrow> nat list \<Rightarrow> (u16 list \<times> nat list \<times> nat list) res" where
  "countingSortBucketsInto bucketStarts result counts positions =
    (let n = length bucketStarts - 1 in
     if n = 0 then Inr (result, counts, positions)
     else
       rbind (rfold (\<lambda>i maxSize. rbind (bucket_size_at bucketStarts i) (\<lambda>sz. Inr (if sz > maxSize then sz else maxSize)))
                [0..<n] 0) (\<lambda>maxSize.
       if maxSize = 0 then
         if n > length result then Inl (GoPanic ''slice bounds out of range'')
         else rbind (rfold (\<lambda>i result. set_at result i (of_nat i)) [0..<n] result) (\<lambda>result.
                Inr (result, counts, positions))
       else
         rbind (rfold (\<lambda>i counts. set_at counts i 0) [0..<Suc maxSize] counts) (\<lambda>counts.
         rbind (rfold (\<lambda>i counts. rbind (bucket_size_at bucketStarts i) (\<lambda>sz.
                   rbind (get_at counts sz) (\<lambda>c. set_at counts sz (c + 1)))) [0..<n] counts) (\<lambda>counts.
         rbind (rfold (\<lambda>sz (positions, pos). rbind (set_at positions sz pos) (\<lambda>positions.
                   rbind (get_at counts sz) (\<lambda>c. Inr (positions, pos + c)))) (rev [0..<Suc maxSize]) (positions, 0)) (\<lambda>(positions, _).
         rbind (rfold (\<lambda>i (result, positions). rbind (bucket_size_at bucketStarts i) (\<lambda>sz.
                   rbind (get_at positions sz) (\<lambda>p.
                   rbind (set_at result p (of_nat i)) (\<lambda>result.
                   rbind (set_at positions sz (p + 1)) (\<lambda>positions. Inr (result, positions)))))) [0..<n] (result, positions)) (\<lambda>(result, positions).
           Inr (result, counts, positions)))))))"

section \<open>The order is the stable sort by size\<close>

text \<open>
  \<open>sz i\<close> is the size of bucket \<open>i\<close>. The reference order lists the classes of equal size from the
  largest down; bucket \<open>i\<close> stands at \<open>class_pos sz n i\<close> in it.
\<close>

definition by_size :: "(nat \<Rightarrow> nat) \<Rightarrow> nat \<Rightarrow> nat \<Rightarrow> nat list" where
  "by_size sz n m = concat (map (\<lambda>z. filter (\<lambda>i. sz i = z) [0..<n]) (rev [0..<Suc m]))"

definition class_start :: "(nat \<Rightarrow> nat) \<Rightarrow> nat \<Rightarrow> nat \<Rightarrow> nat" where
  "class_start sz n z = length (filter (\<lambda>i. z < sz i) [0..<n])"

definition class_rank :: "(nat \<Rightarrow> nat) \<Rightarrow> nat \<Rightarrow> nat \<Rightarrow> nat" where
  "class_rank sz z i = length (filter (\<lambda>j. sz j = z) [0..<i])"

definition class_pos :: "(nat \<Rightarrow> nat) \<Rightarrow> nat \<Rightarrow> nat \<Rightarrow> nat" where
  "class_pos sz n i = class_start sz n (sz i) + class_rank sz (sz i) i"

lemma mset_classes:
  "mset (concat (map (\<lambda>z. filter (\<lambda>i. sz i = z) xs) (rev [a..<b]))) = mset (filter (\<lambda>i. a \<le> sz i \<and> sz i < b) xs)"
proof (induction b)
  case (Suc b)
  have "mset (filter (\<lambda>i. a \<le> sz i \<and> sz i < Suc b) xs) =
      mset (filter (\<lambda>i. a \<le> sz i \<and> sz i < b) xs) + (if a \<le> b then mset (filter (\<lambda>i. sz i = b) xs) else {#})"
    by (induction xs) (auto simp: less_Suc_eq)
  with Suc show ?case
    by auto
qed simp

lemma mset_by_size: "\<forall>i<n. sz i \<le> m \<Longrightarrow> mset (by_size sz n m) = mset [0..<n]"
proof -
  assume "\<forall>i<n. sz i \<le> m"
  then have "filter (\<lambda>i. 0 \<le> sz i \<and> sz i < Suc m) [0..<n] = [0..<n]"
    by (auto simp: filter_id_conv less_Suc_eq_le)
  then show ?thesis
    unfolding by_size_def mset_classes by simp
qed

lemma by_size_perm:
  assumes "\<forall>i<n. sz i \<le> m"
  shows "distinct (by_size sz n m)" and "length (by_size sz n m) = n" and "set (by_size sz n m) = {0..<n}"
  using mset_eq_imp_distinct_iff [OF mset_by_size [OF assms]] mset_eq_length [OF mset_by_size [OF assms]]
    mset_eq_setD [OF mset_by_size [OF assms]] by simp_all

lemma filter_nth_rank: "i < n \<Longrightarrow> P i \<Longrightarrow> filter P [0..<n] ! length (filter P [0..<i]) = i \<and> length (filter P [0..<i]) < length (filter P [0..<n])"
proof -
  assume i: "i < n" and p: "P i"
  have "[0..<n] = [0..<i] @ i # [Suc i..<n]"
    using i by (metis le0 less_imp_le_nat upt_add_eq_append upt_conv_Cons le_add_diff_inverse)
  then show ?thesis
    using p by (simp add: nth_append)
qed

lemma by_size_pos:
  assumes le: "\<forall>i<n. sz i \<le> m" and i: "i < n"
  shows "by_size sz n m ! class_pos sz n i = i" and "class_pos sz n i < n"
proof -
  let ?g = "\<lambda>z. filter (\<lambda>i. sz i = z) [0..<n]" and ?z = "sz i"
  have z: "?z \<le> m"
    using le i by simp
  have "[0..<Suc m] = [0..<?z] @ ?z # [Suc ?z..<Suc m]"
    using z by (metis le0 le_SucI upt_add_eq_append upt_conv_Cons le_add_diff_inverse less_Suc_eq_le)
  then have split: "by_size sz n m = concat (map ?g (rev [Suc ?z..<Suc m])) @ ?g ?z @ concat (map ?g (rev [0..<?z]))"
    unfolding by_size_def by simp
  have "filter (\<lambda>i. Suc ?z \<le> sz i \<and> sz i < Suc m) [0..<n] = filter (\<lambda>i. ?z < sz i) [0..<n]"
    using le by (intro filter_cong) (auto simp: less_Suc_eq_le)
  then have start: "length (concat (map ?g (rev [Suc ?z..<Suc m]))) = class_start sz n ?z"
    using mset_eq_length [OF mset_classes [of sz "[0..<n]" "Suc ?z" "Suc m"]] unfolding class_start_def by (simp only:)
  have rank: "?g ?z ! class_rank sz ?z i = i" "class_rank sz ?z i < length (?g ?z)"
    using filter_nth_rank [OF i, of "\<lambda>j. sz j = ?z"] by (simp_all add: class_rank_def)
  show "by_size sz n m ! class_pos sz n i = i"
    unfolding split class_pos_def start [symmetric] using rank by (simp add: nth_append)
  have "class_pos sz n i < length (by_size sz n m)"
    unfolding split class_pos_def start [symmetric] using rank(2) by simp
  then show "class_pos sz n i < n"
    by (simp add: by_size_perm(2) [OF le])
qed

lemma class_pos_inj:
  assumes "\<forall>i<n. sz i \<le> m" and "i < n" and "j < n" and "class_pos sz n i = class_pos sz n j"
  shows "i = j"
  using by_size_pos(1) [OF assms(1,2)] by_size_pos(1) [OF assms(1,3)] unfolding assms(4) by (rule trans [OF sym])

lemma by_size_sorted: "sorted (map (\<lambda>i. - int (sz i)) (by_size sz n m))"
proof -
  have "sorted (map (\<lambda>i. - int (sz i)) (concat (map (\<lambda>z. filter (\<lambda>i. sz i = z) [0..<n]) (rev [0..<k]))))" for k
  proof (induction k)
    case (Suc k)
    have "sorted (map (\<lambda>i. - int (sz i)) (filter (\<lambda>i. sz i = k) xs))" for xs
      by (induction xs) auto
    with Suc show ?case
      by (auto simp: sorted_append)
  qed simp
  then show ?thesis
    unfolding by_size_def .
qed


lemma by_size_sort_key: "\<forall>i<n. sz i \<le> m \<Longrightarrow> by_size sz n m = sort_key (\<lambda>i. - int (sz i)) [0..<n]"
proof (rule sym, rule properties_for_sort_key)
  assume le: "\<forall>i<n. sz i \<le> m"
  show "mset (by_size sz n m) = mset [0..<n]"
    by (rule mset_by_size [OF le])
  fix k assume "k \<in> set (by_size sz n m)"
  then have k: "sz k < Suc m"
    using le by_size_perm(3) [OF le] by (simp add: less_Suc_eq_le)
  have "filter (\<lambda>x. sz k = sz x) (concat (map (\<lambda>z. filter (\<lambda>i. sz i = z) xs) (rev [0..<b]))) =
      (if sz k < b then filter (\<lambda>x. sz k = sz x) xs else [])" for xs b
    by (induction b) (auto simp: less_Suc_eq filter_empty_conv intro!: filter_cong)
  then show "filter (\<lambda>x. - int (sz k) = - int (sz x)) (by_size sz n m) = filter (\<lambda>x. - int (sz k) = - int (sz x)) [0..<n]"
    using k by (simp add: by_size_def del: upt_Suc)
qed (rule by_size_sorted)

section \<open>The loops\<close>

lemma max_loop_ok:
  assumes "\<And>i. i < n \<Longrightarrow> bucket_size_at starts i = Inr (sz i)"
  shows "\<exists>m. rfold (\<lambda>i maxSize. rbind (bucket_size_at starts i) (\<lambda>sz. Inr (if sz > maxSize then sz else maxSize))) [0..<n] 0 = Inr m \<and>
    (\<forall>i<n. sz i \<le> m) \<and> (m = 0 \<or> (\<exists>i<n. sz i = m))"
proof -
  have "\<exists>m. rfold (\<lambda>i maxSize. rbind (bucket_size_at starts i) (\<lambda>sz. Inr (if sz > maxSize then sz else maxSize))) [0..<n] 0 = Inr m \<and>
    ((\<forall>i<n. sz i \<le> m) \<and> (m = 0 \<or> (\<exists>i<n. sz i = m)))"
    by (rule rfold_upt_inv) (auto simp: assms less_Suc_eq)
  then show ?thesis by blast
qed

lemma zero_loop_ok:
  "n \<le> length xs \<Longrightarrow> rfold (\<lambda>i xs. set_at xs i (f i)) [0..<n] xs = Inr (map f [0..<n] @ drop n xs)"
proof (induction n)
  case (Suc n)
  then have "drop n xs = xs ! n # drop (Suc n) xs"
    by (simp add: Cons_nth_drop_Suc)
  with Suc show ?case
    by (simp add: rfold_append list_update_append)
qed simp

lemma count_loop_ok:
  assumes "\<And>i. i < n \<Longrightarrow> bucket_size_at starts i = Inr (sz i)" and "\<And>i. i < n \<Longrightarrow> sz i \<le> m"
    and "m < length counts" and "\<And>z. z \<le> m \<Longrightarrow> counts ! z = 0"
  shows "\<exists>c. rfold (\<lambda>i counts. rbind (bucket_size_at starts i) (\<lambda>sz. rbind (get_at counts sz) (\<lambda>c. set_at counts sz (c + 1)))) [0..<n] counts = Inr c \<and>
    (length c = length counts \<and> (\<forall>z\<le>m. c ! z = length (filter (\<lambda>i. sz i = z) [0..<n])))"
proof (rule rfold_upt_inv [where I = "\<lambda>k c. length c = length counts \<and> (\<forall>z\<le>m. c ! z = length (filter (\<lambda>i. sz i = z) [0..<k]))"])
  fix i c assume "i < n" and I: "length c = length counts \<and> (\<forall>z\<le>m. c ! z = length (filter (\<lambda>i. sz i = z) [0..<i]))"
  then have "bucket_size_at starts i = Inr (sz i)" "sz i \<le> m" "sz i < length c"
    using assms(1,2) [of i] assms(3) by simp_all
  then show "\<exists>s'. rbind (bucket_size_at starts i) (\<lambda>sz. rbind (get_at c sz) (\<lambda>ca. set_at c sz (ca + 1))) = Inr s' \<and>
      length s' = length counts \<and> (\<forall>z\<le>m. s' ! z = length (filter (\<lambda>i. sz i = z) [0..<Suc i]))"
    using I by (auto simp: nth_list_update)
qed (use assms(4) in simp)

lemma position_loop_ok:
  assumes "\<And>i. i < n \<Longrightarrow> sz i \<le> m" and "m < length counts" and "\<And>z. z \<le> m \<Longrightarrow> counts ! z = length (filter (\<lambda>i. sz i = z) [0..<n])"
    and "m < length positions" and "a \<le> Suc m"
  shows "\<exists>p. rfold (\<lambda>sz (positions, pos). rbind (set_at positions sz pos) (\<lambda>positions. rbind (get_at counts sz) (\<lambda>c. Inr (positions, pos + c))))
      (rev [a..<Suc m]) (positions, 0) = Inr (p, length (filter (\<lambda>i. a \<le> sz i) [0..<n])) \<and> length p = length positions \<and>
    (\<forall>z. a \<le> z \<longrightarrow> z \<le> m \<longrightarrow> p ! z = class_start sz n z)"
  using assms(5)
proof (induction rule: inc_induct)
  case base
  have "filter (\<lambda>i. Suc m \<le> sz i) [0..<n] = []"
    using assms(1) by (fastforce simp: filter_empty_conv)
  then show ?case by simp
next
  case (step a)
  then obtain p where p: "rfold (\<lambda>sz (positions, pos). rbind (set_at positions sz pos) (\<lambda>positions. rbind (get_at counts sz) (\<lambda>c. Inr (positions, pos + c))))
      (rev [Suc a..<Suc m]) (positions, 0) = Inr (p, length (filter (\<lambda>i. Suc a \<le> sz i) [0..<n]))" "length p = length positions"
    "\<forall>z. Suc a \<le> z \<longrightarrow> z \<le> m \<longrightarrow> p ! z = class_start sz n z"
    by blast
  have ca: "counts ! a = length (filter (\<lambda>i. sz i = a) [0..<n])"
    using assms(3) [of a] step.hyps by simp
  have "length (filter (\<lambda>i. a \<le> sz i) xs) = length (filter (\<lambda>i. Suc a \<le> sz i) xs) + length (filter (\<lambda>i. sz i = a) xs)" for xs
    by (induction xs) auto
  moreover have "[a..<Suc m] = a # [Suc a..<Suc m]"
    using step.hyps by (simp add: upt_conv_Cons del: upt_Suc)
  ultimately show ?case
    using p step.hyps assms(2,4) ca
    by (simp add: rfold_append nth_list_update class_start_def Suc_le_eq le_eq_less_or_eq [of a] del: upt_Suc)
qed


lemma class_rank_Suc: "class_rank sz z (Suc i) = class_rank sz z i + (if sz i = z then 1 else 0)"
  by (simp add: class_rank_def)

lemma place_loop_ok:
  fixes result :: "u16 list"
  assumes bs: "\<And>i. i < n \<Longrightarrow> bucket_size_at starts i = Inr (sz i)" and le: "\<forall>i<n. sz i \<le> m"
    and pos: "m < length positions" "\<forall>z\<le>m. positions ! z = class_start sz n z" and res: "length result = n"
  shows "\<exists>p. rfold (\<lambda>i (result, positions). rbind (bucket_size_at starts i) (\<lambda>sz. rbind (get_at positions sz) (\<lambda>p.
      rbind (set_at result p (of_nat i)) (\<lambda>result. rbind (set_at positions sz (p + 1)) (\<lambda>positions. Inr (result, positions))))))
      [0..<n] (result, positions) = Inr (map of_nat (by_size sz n m), p) \<and> length p = length positions"
proof -
  let ?I = "\<lambda>k (r, p). length p = length positions \<and> length r = n \<and> (\<forall>z\<le>m. p ! z = class_start sz n z + class_rank sz z k) \<and>
    (\<forall>j<k. r ! class_pos sz n j = of_nat j)"
  have "\<exists>s'. rfold (\<lambda>i (result, positions). rbind (bucket_size_at starts i) (\<lambda>sz. rbind (get_at positions sz) (\<lambda>p.
      rbind (set_at result p (of_nat i)) (\<lambda>result. rbind (set_at positions sz (p + 1)) (\<lambda>positions. Inr (result, positions))))))
      [0..<n] (result, positions) = Inr s' \<and> ?I n s'"
  proof (rule rfold_upt_inv [where I = ?I])
    show "?I 0 (result, positions)"
      using pos res by (simp add: class_rank_def)
  next
    fix i :: nat and s :: "16 word list \<times> nat list" assume i: "i < n" and I: "?I i s"
    obtain r p where s: "s = (r, p)" by (cases s)
    have z: "sz i \<le> m" "sz i < length p" "p ! sz i = class_pos sz n i" "class_pos sz n i < length r"
      using I i le pos(1) by_size_pos(2) [OF le i] by (auto simp: s class_pos_def)
    have "r[class_pos sz n i := of_nat i] ! class_pos sz n j = of_nat j" if "j < Suc i" for j
    proof (cases "j = i")
      case False
      then have j: "j < i" "class_pos sz n i \<noteq> class_pos sz n j"
        using that i class_pos_inj [OF le, of j i] by auto
      then show ?thesis
        using I by (simp add: s)
    qed (use z in simp)
    then have "?I (Suc i) (r[class_pos sz n i := of_nat i], p[sz i := class_pos sz n i + 1])"
      using I z by (auto simp: s class_rank_Suc nth_list_update class_pos_def)
    then show "\<exists>s'. (case s of (result, positions) \<Rightarrow> rbind (bucket_size_at starts i) (\<lambda>sz. rbind (get_at positions sz) (\<lambda>p.
        rbind (set_at result p (of_nat i)) (\<lambda>result. rbind (set_at positions sz (p + 1)) (\<lambda>positions. Inr (result, positions)))))) = Inr s' \<and> ?I (Suc i) s'"
      using bs [OF i] z by (simp add: s)
  qed
  then obtain r p where run: "rfold (\<lambda>i (result, positions). rbind (bucket_size_at starts i) (\<lambda>sz. rbind (get_at positions sz) (\<lambda>p.
      rbind (set_at result p (of_nat i)) (\<lambda>result. rbind (set_at positions sz (p + 1)) (\<lambda>positions. Inr (result, positions))))))
      [0..<n] (result, positions) = Inr (r, p)" and I: "?I n (r, p)"
    by force
  have "r = map of_nat (by_size sz n m)"
  proof (rule nth_equalityI)
    show "length r = length (map of_nat (by_size sz n m))"
      using I by_size_perm(2) [OF le] by simp
    fix q assume "q < length r"
    then have q: "q < length (by_size sz n m)"
      using I by_size_perm(2) [OF le] by simp
    define j where "j = by_size sz n m ! q"
    have j: "j < n"
      using nth_mem [OF q] by_size_perm(3) [OF le] by (simp add: j_def)
    have "by_size sz n m ! class_pos sz n j = by_size sz n m ! q"
      using by_size_pos(1) [OF le j] j_def by simp
    then have "class_pos sz n j = q"
      using by_size_pos(2) [OF le j] by_size_perm(1,2) [OF le] q by (simp add: nth_eq_iff_index_eq)
    then show "r ! q = map of_nat (by_size sz n m) ! q"
      using I j q by (auto simp: j_def)
  qed
  with run I show ?thesis by auto
qed

theorem countingSort_ok:
  assumes starts: "length starts = Suc n" "\<And>i. i < n \<Longrightarrow> unat (starts ! Suc i - starts ! i) = sz i"
    and res: "length result = n" and fit: "\<And>i. i < n \<Longrightarrow> sz i < length counts \<and> sz i < length positions"
  shows "\<exists>c p. countingSortBucketsInto starts result counts positions = Inr (map of_nat (sort_key (\<lambda>i. - int (sz i)) [0..<n]), c, p) \<and>
    length c = length counts \<and> length p = length positions"
proof (cases "n = 0")
  case False
  have bs: "bucket_size_at starts i = Inr (sz i)" if "i < n" for i
    using starts that by (simp add: bucket_size_at_def)
  from max_loop_ok [OF bs]
  obtain m where m: "rfold (\<lambda>i maxSize. rbind (bucket_size_at starts i) (\<lambda>sz. Inr (if sz > maxSize then sz else maxSize))) [0..<n] 0 = Inr m"
    and le: "\<forall>i<n. sz i \<le> m" and hit: "m = 0 \<or> (\<exists>i<n. sz i = m)"
    by blast
  note ref = by_size_sort_key [OF le, symmetric]
  show ?thesis
  proof (cases "m = 0")
    case True
    then have "by_size sz n m = [0..<n]"
      using le by (simp add: by_size_def filter_id_conv)
    then show ?thesis
      using False starts(1) res True zero_loop_ok [of n result of_nat] unfolding ref by (simp add: countingSortBucketsInto_def m)
  next
    case pos: False
    then have fits: "m < length counts" "m < length positions"
      using hit fit by auto
    define c0 where "c0 = map (\<lambda>_. 0) [0..<Suc m] @ drop (Suc m) counts"
    have c0: "rfold (\<lambda>i counts. set_at counts i 0) [0..<Suc m] counts = Inr c0" "length c0 = length counts" "\<And>z. z \<le> m \<Longrightarrow> c0 ! z = 0"
      using zero_loop_ok [of "Suc m" counts "\<lambda>_. 0"] fits(1) unfolding c0_def by (simp_all add: nth_append del: upt_Suc)
    obtain c1 where c1: "rfold (\<lambda>i counts. rbind (bucket_size_at starts i) (\<lambda>sz. rbind (get_at counts sz) (\<lambda>c. set_at counts sz (c + 1)))) [0..<n] c0 = Inr c1"
      "length c1 = length counts" "\<forall>z\<le>m. c1 ! z = length (filter (\<lambda>i. sz i = z) [0..<n])"
      using count_loop_ok [where starts = starts and counts = c0, OF bs le [rule_format] _ c0(3)] fits(1) unfolding c0(2) by blast
    obtain p1 where p1: "rfold (\<lambda>sz (positions, pos). rbind (set_at positions sz pos) (\<lambda>positions. rbind (get_at c1 sz) (\<lambda>c. Inr (positions, pos + c))))
      (rev [0..<Suc m]) (positions, 0) = Inr (p1, length (filter (\<lambda>i. 0 \<le> sz i) [0..<n]))" "length p1 = length positions"
      "\<forall>z. 0 \<le> z \<longrightarrow> z \<le> m \<longrightarrow> p1 ! z = class_start sz n z"
      using position_loop_ok [of n sz m c1 positions 0, OF le [rule_format] _ c1(3) [rule_format] fits(2) le0] fits(1) unfolding c1(2) by blast
    obtain p2 where p2: "rfold (\<lambda>i (result, positions). rbind (bucket_size_at starts i) (\<lambda>sz. rbind (get_at positions sz) (\<lambda>p.
        rbind (set_at result p (of_nat i)) (\<lambda>result. rbind (set_at positions sz (p + 1)) (\<lambda>positions. Inr (result, positions))))))
        [0..<n] (result, p1) = Inr (map of_nat (by_size sz n m), p2)" "length p2 = length positions"
      using place_loop_ok [OF bs le _ _ res, of p1] p1(2,3) fits(2) by auto
    show ?thesis
      unfolding ref using False pos starts(1) c1(2) p2(2)
      by (simp add: countingSortBucketsInto_def m c0(1) c1(1) [simplified] p1(1) p2(1) [simplified] del: upt_Suc)
  qed
qed (use starts(1) res in \<open>simp add: countingSortBucketsInto_def\<close>)

end
