(* ===== verification/Ptr_Solver.thy ===== *)
theory Ptr_Solver
  imports Ptr_Pilot Ptr_Heap Ptr_Sort
begin

text \<open>
  The PTRHash solver, \<^verbatim>\<open>internal/ptrhash/solver.go\<close> and \<^verbatim>\<open>pilot_search.go\<close>, as functions on the solver's
  state. Slice accesses out of range are panics, and so is a raw access through \<^verbatim>\<open>slotGenIsTaken\<close>, which
  the code makes without a check. Capacities beyond the length of a slice are not represented.
\<close>

record ptrEntry =
  pe_suffix :: u64
  pe_k0 :: u64
  pe_payload :: u64
  pe_fingerprint :: u32

definition pinnedSize :: nat where "pinnedSize = 16"
definition maxEvictionMultiplier :: nat where "maxEvictionMultiplier = 10"
definition bitsPerWord :: nat where "bitsPerWord = 64"
definition minBufferAlloc :: nat where "minBufferAlloc = 16"

record solver =
  sv_numBuckets :: nat
  sv_numSlots :: u32
  sv_numKeys :: nat
  sv_globalSeed :: u64
  sv_pilotHPs :: "u64 list"
  sv_buckets :: "ptrEntry list list"
  sv_bucketStarts :: "u16 list"
  sv_bucketOrder :: "u16 list"
  sv_pilots :: bytes
  sv_slotOwner :: "u16 list"
  sv_slotGen :: "u8 list"
  sv_processedGen :: "u8 list"
  sv_generation :: u8
  sv_phase2SlotGen :: "u32 list"
  sv_phase2Gen :: u32
  sv_pinned :: "u16 list"
  sv_pinnedBits :: "u64 list"
  sv_pinnedIdx :: nat
  sv_evictions :: nat
  sv_slotsBuffer :: "u16 list"
  sv_foldedBuffer :: "u64 list"
  sv_pendingHeap :: bucketHeap
  sv_bestSlots :: "u16 list"
  sv_evictedOwners :: "u16 list"
  sv_remapBuffer :: "u16 list"
  sv_sortCounts :: "nat list"
  sv_sortPositions :: "nat list"
  sv_maxNumBuckets :: nat
  sv_maxNumSlots :: u32

definition bucketSize :: "solver \<Rightarrow> nat \<Rightarrow> nat res" where
  "bucketSize sv idx = rbind (get_at (sv_buckets sv) idx) (\<lambda>b. Inr (length b))"

definition isProcessed :: "solver \<Rightarrow> nat \<Rightarrow> bool res" where
  "isProcessed sv bucketIdx = rbind (get_at (sv_processedGen sv) bucketIdx) (\<lambda>g. Inr (g = sv_generation sv))"

definition setProcessed :: "nat \<Rightarrow> solver \<Rightarrow> solver res" where
  "setProcessed bucketIdx sv =
    rbind (set_at (sv_processedGen sv) bucketIdx (sv_generation sv)) (\<lambda>pg. Inr (sv\<lparr>sv_processedGen := pg\<rparr>))"

definition clearProcessed :: "nat \<Rightarrow> solver \<Rightarrow> solver res" where
  "clearProcessed bucketIdx sv =
    rbind (set_at (sv_processedGen sv) bucketIdx 0) (\<lambda>pg. Inr (sv\<lparr>sv_processedGen := pg\<rparr>))"

text \<open>\<^verbatim>\<open>-1\<close> is \<open>None\<close>.\<close>

definition getOwner :: "solver \<Rightarrow> nat \<Rightarrow> nat option res" where
  "getOwner sv slot =
    rbind (get_at (sv_slotGen sv) slot) (\<lambda>g.
      if g \<noteq> sv_generation sv then Inr None
      else rbind (get_at (sv_slotOwner sv) slot) (\<lambda>owner. Inr (Some (unat owner))))"

definition isPinned :: "solver \<Rightarrow> nat \<Rightarrow> bool res" where
  "isPinned sv bucketIdx =
    rbind (get_at (sv_pinnedBits sv) (bucketIdx div bitsPerWord)) (\<lambda>w.
      Inr (w AND push_bit (bucketIdx mod bitsPerWord) 1 \<noteq> 0))"

text \<open>The circular buffer holds \<^verbatim>\<open>int16\<close> values; \<^verbatim>\<open>-1\<close> marks an empty place.\<close>

definition pin :: "nat \<Rightarrow> solver \<Rightarrow> solver res" where
  "pin bucketIdx sv =
    rbind (get_at (sv_pinned sv) (sv_pinnedIdx sv)) (\<lambda>oldBucket.
    rbind (if sint oldBucket \<ge> 0 then
             let ob = nat (sint oldBucket) in
             rbind (get_at (sv_pinnedBits sv) (ob div bitsPerWord)) (\<lambda>w.
               set_at (sv_pinnedBits sv) (ob div bitsPerWord) (w AND NOT (push_bit (ob mod bitsPerWord) 1)))
           else Inr (sv_pinnedBits sv)) (\<lambda>bits.
    rbind (set_at (sv_pinned sv) (sv_pinnedIdx sv) (of_nat bucketIdx)) (\<lambda>pinned.
    rbind (get_at bits (bucketIdx div bitsPerWord)) (\<lambda>w.
    rbind (set_at bits (bucketIdx div bitsPerWord) (w OR push_bit (bucketIdx mod bitsPerWord) 1)) (\<lambda>bits.
      Inr (sv\<lparr>sv_pinned := pinned, sv_pinnedBits := bits, sv_pinnedIdx := (sv_pinnedIdx sv + 1) mod pinnedSize\<rparr>))))))"

definition splitMix64 :: "u64 \<Rightarrow> u64" where
  "splitMix64 x =
    (let x = x + 0x9E3779B97F4A7C15;
         x = (x XOR drop_bit 30 x) * 0xBF58476D1CE4E5B9;
         x = (x XOR drop_bit 27 x) * 0x94D049BB133111EB
     in x XOR drop_bit 31 x)"

section \<open>The eviction random numbers\<close>

text \<open>The PCG generator of \<^verbatim>\<open>math/rand/v2\<close>: a 128-bit state (high and low word), and \<^verbatim>\<open>IntN(n)\<close> for \<open>n\<close> a power of two below $2^{32}$.\<close>

type_synonym pcg = "u64 \<times> u64"

definition pcg_Uint64 :: "pcg \<Rightarrow> u64 \<times> pcg" where
  "pcg_Uint64 = (\<lambda>(sh, sl).
    let mulHi = 2549297995355413924; mulLo = 4865540595714422341;
        incHi = 6364136223846793005; incLo = 1442695040888963407;
        (hi, lo) = Mul64 sl mulLo;
        hi = hi + (sh * mulLo + sl * mulHi);
        lo' = lo + incLo;
        c = (if lo' < lo then 1 else 0);
        hi' = hi + incHi + c;
        h = hi' XOR drop_bit 32 hi';
        h = h * 0xda942042e4dd58b5;
        h = h XOR drop_bit 48 h;
        h = h * (lo' OR 1)
    in (h, (hi', lo')))"

definition rng_IntN :: "nat \<Rightarrow> pcg \<Rightarrow> nat \<times> pcg" where
  "rng_IntN n rng = (case pcg_Uint64 rng of (x, rng) \<Rightarrow> (unat ((ucast x :: u32) AND (of_nat n - 1)), rng))"

section \<open>Slots of a bucket\<close>

text \<open>\<^verbatim>\<open>pilotHPs\<close> is an array of 256 values indexed by a byte, so the access is always in range.\<close>

definition pilotHP :: "solver \<Rightarrow> u8 \<Rightarrow> u64" where
  "pilotHP sv pilot = sv_pilotHPs sv ! unat pilot"

definition entry_fold :: "ptrEntry \<Rightarrow> u64" where
  "entry_fold e = foldSlotInput (pe_k0 e) (pe_suffix e)"

definition slotGenIsTaken :: "solver \<Rightarrow> u32 \<Rightarrow> bool res" where
  "slotGenIsTaken sv slot = rbind (get_at (sv_slotGen sv) (unat slot)) (\<lambda>g. Inr (g = sv_generation sv))"

definition ror :: "bool res \<Rightarrow> bool res \<Rightarrow> bool res" where
  "ror a b = rbind a (\<lambda>x. if x then Inr True else b)"

text \<open>Writing the slots found to \<^verbatim>\<open>slotsBuffer[0..]\<close>.\<close>

definition put_slots :: "u32 list \<Rightarrow> solver \<Rightarrow> solver res" where
  "put_slots slots sv =
    rbind (rfold (\<lambda>(i, slot) buf. set_at buf i (ucast slot)) (List.enumerate 0 slots) (sv_slotsBuffer sv)) (\<lambda>buf.
      Inr (sv\<lparr>sv_slotsBuffer := buf\<rparr>))"

text \<open>
  The frame of the specialised searches: read the first \<open>k\<close> entries, try the pilots in order with the
  search's own test, and write the slots of the pilot found.
\<close>

definition pilot_search :: "nat \<Rightarrow> (solver \<Rightarrow> (nat \<Rightarrow> u32) \<Rightarrow> bool res) \<Rightarrow> ptrEntry list \<Rightarrow> solver \<Rightarrow> (u8 \<times> bool \<times> solver) res" where
  "pilot_search k test bucket sv =
    rbind (get_at (sv_slotGen sv) 0) (\<lambda>_.
    if length bucket < k then Inl (GoPanic ''index out of range'')
    else
      let slot = (\<lambda>pilot i. pilotSlotFolded (entry_fold (bucket ! i)) (pilotHP sv pilot) (sv_numSlots sv)) in
      rbind (first_upto_res (\<lambda>p. test sv (slot (of_nat p))) 0 numPilotValues) (\<lambda>r. case r of
        None \<Rightarrow> Inr (0, False, sv)
      | Some p \<Rightarrow> rbind (put_slots (map (slot (of_nat p)) [0..<k]) sv) (\<lambda>sv. Inr (of_nat p, True, sv))))"

definition findFreePilot1 :: "ptrEntry list \<Rightarrow> solver \<Rightarrow> (u8 \<times> bool \<times> solver) res" where
  "findFreePilot1 = pilot_search 1 (\<lambda>sv s. rbind (slotGenIsTaken sv (s 0)) (\<lambda>t. Inr (\<not> t)))"

definition findFreePilot2 :: "ptrEntry list \<Rightarrow> solver \<Rightarrow> (u8 \<times> bool \<times> solver) res" where
  "findFreePilot2 = pilot_search 2 (\<lambda>sv s.
    rbind (slotGenIsTaken sv (s 0)) (\<lambda>t0.
      if t0 then Inr False
      else if s 0 = s 1 then Inr False
      else rbind (slotGenIsTaken sv (s 1)) (\<lambda>t1. Inr (\<not> t1))))"

definition findFreePilot3 :: "ptrEntry list \<Rightarrow> solver \<Rightarrow> (u8 \<times> bool \<times> solver) res" where
  "findFreePilot3 = pilot_search 3 (\<lambda>sv s.
    rbind (ror (slotGenIsTaken sv (s 0)) (ror (slotGenIsTaken sv (s 1)) (slotGenIsTaken sv (s 2)))) (\<lambda>taken.
      if taken then Inr False
      else if s 0 = s 1 \<or> s 0 = s 2 \<or> s 1 = s 2 then Inr False
      else Inr True))"

definition findFreePilot4 :: "ptrEntry list \<Rightarrow> solver \<Rightarrow> (u8 \<times> bool \<times> solver) res" where
  "findFreePilot4 = pilot_search 4 (\<lambda>sv s.
    rbind (ror (slotGenIsTaken sv (s 0)) (ror (slotGenIsTaken sv (s 1)) (ror (slotGenIsTaken sv (s 2)) (slotGenIsTaken sv (s 3))))) (\<lambda>taken.
      if taken then Inr False
      else
        let hasCollision = s 0 = s 1 \<or> s 0 = s 2 \<or> s 0 = s 3 \<or> s 1 = s 2 \<or> s 1 = s 3 \<or> s 2 = s 3 in
        if hasCollision then Inr False else Inr True))"

text \<open>The searches for five to eight entries read the occupancy of all slots before they decide.\<close>

fun taken_all :: "solver \<Rightarrow> u32 list \<Rightarrow> bool list res" where
  "taken_all sv [] = Inr []"
| "taken_all sv (s # ss) = rbind (slotGenIsTaken sv s) (\<lambda>t. rbind (taken_all sv ss) (\<lambda>ts. Inr (t # ts)))"

definition findFreePilot5 :: "ptrEntry list \<Rightarrow> solver \<Rightarrow> (u8 \<times> bool \<times> solver) res" where
  "findFreePilot5 = pilot_search 5 (\<lambda>sv s.
    rbind (taken_all sv [s 0, s 1, s 2, s 3, s 4]) (\<lambda>t.
      if t ! 0 \<or> t ! 1 \<or> t ! 2 \<or> t ! 3 \<or> t ! 4 then Inr False
      else
        let noDup = s 0 \<noteq> s 1 \<and> s 0 \<noteq> s 2 \<and> s 0 \<noteq> s 3 \<and> s 0 \<noteq> s 4 \<and>
              s 1 \<noteq> s 2 \<and> s 1 \<noteq> s 3 \<and> s 1 \<noteq> s 4 \<and>
              s 2 \<noteq> s 3 \<and> s 2 \<noteq> s 4 \<and>
              s 3 \<noteq> s 4
        in Inr noDup))"

definition findFreePilot6 :: "ptrEntry list \<Rightarrow> solver \<Rightarrow> (u8 \<times> bool \<times> solver) res" where
  "findFreePilot6 = pilot_search 6 (\<lambda>sv s.
    rbind (taken_all sv [s 0, s 1, s 2, s 3, s 4, s 5]) (\<lambda>t.
      if t ! 0 \<or> t ! 1 \<or> t ! 2 \<or> t ! 3 \<or> t ! 4 \<or> t ! 5 then Inr False
      else
        let noDup = s 0 \<noteq> s 1 \<and> s 0 \<noteq> s 2 \<and> s 0 \<noteq> s 3 \<and> s 0 \<noteq> s 4 \<and> s 0 \<noteq> s 5 \<and>
              s 1 \<noteq> s 2 \<and> s 1 \<noteq> s 3 \<and> s 1 \<noteq> s 4 \<and> s 1 \<noteq> s 5 \<and>
              s 2 \<noteq> s 3 \<and> s 2 \<noteq> s 4 \<and> s 2 \<noteq> s 5 \<and>
              s 3 \<noteq> s 4 \<and> s 3 \<noteq> s 5 \<and>
              s 4 \<noteq> s 5
        in Inr noDup))"

definition findFreePilot7 :: "ptrEntry list \<Rightarrow> solver \<Rightarrow> (u8 \<times> bool \<times> solver) res" where
  "findFreePilot7 = pilot_search 7 (\<lambda>sv s.
    rbind (taken_all sv [s 0, s 1, s 2, s 3, s 4, s 5, s 6]) (\<lambda>t.
      if t ! 0 \<or> t ! 1 \<or> t ! 2 \<or> t ! 3 \<or> t ! 4 \<or> t ! 5 \<or> t ! 6 then Inr False
      else
        let noDup = s 0 \<noteq> s 1 \<and> s 0 \<noteq> s 2 \<and> s 0 \<noteq> s 3 \<and> s 0 \<noteq> s 4 \<and> s 0 \<noteq> s 5 \<and> s 0 \<noteq> s 6 \<and>
              s 1 \<noteq> s 2 \<and> s 1 \<noteq> s 3 \<and> s 1 \<noteq> s 4 \<and> s 1 \<noteq> s 5 \<and> s 1 \<noteq> s 6 \<and>
              s 2 \<noteq> s 3 \<and> s 2 \<noteq> s 4 \<and> s 2 \<noteq> s 5 \<and> s 2 \<noteq> s 6 \<and>
              s 3 \<noteq> s 4 \<and> s 3 \<noteq> s 5 \<and> s 3 \<noteq> s 6 \<and>
              s 4 \<noteq> s 5 \<and> s 4 \<noteq> s 6 \<and>
              s 5 \<noteq> s 6
        in Inr noDup))"

definition findFreePilot8 :: "ptrEntry list \<Rightarrow> solver \<Rightarrow> (u8 \<times> bool \<times> solver) res" where
  "findFreePilot8 = pilot_search 8 (\<lambda>sv s.
    rbind (taken_all sv [s 0, s 1, s 2, s 3, s 4, s 5, s 6, s 7]) (\<lambda>t.
      if t ! 0 \<or> t ! 1 \<or> t ! 2 \<or> t ! 3 \<or> t ! 4 \<or> t ! 5 \<or> t ! 6 \<or> t ! 7 then Inr False
      else
        let noDup = s 0 \<noteq> s 1 \<and> s 0 \<noteq> s 2 \<and> s 0 \<noteq> s 3 \<and> s 0 \<noteq> s 4 \<and> s 0 \<noteq> s 5 \<and> s 0 \<noteq> s 6 \<and> s 0 \<noteq> s 7 \<and>
              s 1 \<noteq> s 2 \<and> s 1 \<noteq> s 3 \<and> s 1 \<noteq> s 4 \<and> s 1 \<noteq> s 5 \<and> s 1 \<noteq> s 6 \<and> s 1 \<noteq> s 7 \<and>
              s 2 \<noteq> s 3 \<and> s 2 \<noteq> s 4 \<and> s 2 \<noteq> s 5 \<and> s 2 \<noteq> s 6 \<and> s 2 \<noteq> s 7 \<and>
              s 3 \<noteq> s 4 \<and> s 3 \<noteq> s 5 \<and> s 3 \<noteq> s 6 \<and> s 3 \<noteq> s 7 \<and>
              s 4 \<noteq> s 5 \<and> s 4 \<noteq> s 6 \<and> s 4 \<noteq> s 7 \<and>
              s 5 \<noteq> s 6 \<and> s 5 \<noteq> s 7 \<and>
              s 6 \<noteq> s 7
        in Inr noDup))"

section \<open>Search in larger buckets\<close>

text \<open>One iteration of each loop of \<^verbatim>\<open>hasNoDuplicateSlots\<close>.\<close>

definition clear_slots :: "u16 list \<Rightarrow> u8 list \<Rightarrow> u8 list res" where
  "clear_slots slots slotGen = rfold (\<lambda>slot g. set_at g (unat slot) 0) slots slotGen"

fun dup_loop :: "u8 \<Rightarrow> u16 list \<Rightarrow> u16 list \<Rightarrow> u8 list \<Rightarrow> (bool \<times> u8 list) res" where
  "dup_loop localGen seen [] slotGen = rbind (clear_slots seen slotGen) (\<lambda>g. Inr (True, g))"
| "dup_loop localGen seen (slot # rest) slotGen =
    rbind (get_at slotGen (unat slot)) (\<lambda>g.
      if g = localGen then rbind (clear_slots seen slotGen) (\<lambda>g. Inr (False, g))
      else rbind (set_at slotGen (unat slot) localGen) (\<lambda>slotGen. dup_loop localGen (seen @ [slot]) rest slotGen))"

definition hasNoDuplicateSlots :: "u16 list \<Rightarrow> solver \<Rightarrow> (bool \<times> solver) res" where
  "hasNoDuplicateSlots slots sv =
    (let localGen = sv_generation sv + 1 in
     rbind (dup_loop localGen [] slots (sv_slotGen sv)) (\<lambda>(r, g). Inr (r, sv\<lparr>sv_slotGen := g\<rparr>)))"

text \<open>\<open>slots[i] = uint16(pilotSlotFolded(folded[i], pilotHPs[pilot], numSlots))\<close>, and the slot written.\<close>

definition put_slot :: "u8 \<Rightarrow> nat \<Rightarrow> solver \<Rightarrow> (u16 \<times> solver) res" where
  "put_slot pilot i sv =
    rbind (get_at (sv_foldedBuffer sv) i) (\<lambda>h.
    let slot = ucast (pilotSlotFolded h (pilotHP sv pilot) (sv_numSlots sv)) in
    rbind (set_at (sv_slotsBuffer sv) i slot) (\<lambda>buf. Inr (slot, sv\<lparr>sv_slotsBuffer := buf\<rparr>)))"

text \<open>The chunks of four, and the remaining slots one at a time; the result says whether a slot is taken.\<close>

fun chunk_loop :: "u8 \<Rightarrow> nat \<Rightarrow> nat \<Rightarrow> solver \<Rightarrow> (bool \<times> solver) res" where
  "chunk_loop pilot i 0 sv = Inr (False, sv)"
| "chunk_loop pilot i (Suc k) sv =
    rbind (put_slot pilot i sv) (\<lambda>(s0, sv).
    rbind (put_slot pilot (i + 1) sv) (\<lambda>(s1, sv).
    rbind (put_slot pilot (i + 2) sv) (\<lambda>(s2, sv).
    rbind (put_slot pilot (i + 3) sv) (\<lambda>(s3, sv).
    rbind (taken_all sv [ucast s0, ucast s1, ucast s2, ucast s3]) (\<lambda>t.
      if t ! 0 \<or> t ! 1 \<or> t ! 2 \<or> t ! 3 then Inr (True, sv) else chunk_loop pilot (i + 4) k sv)))))"

fun single_loop :: "u8 \<Rightarrow> nat \<Rightarrow> nat \<Rightarrow> solver \<Rightarrow> (bool \<times> solver) res" where
  "single_loop pilot i 0 sv = Inr (False, sv)"
| "single_loop pilot i (Suc k) sv =
    rbind (put_slot pilot i sv) (\<lambda>(s, sv).
    rbind (slotGenIsTaken sv (ucast s)) (\<lambda>t.
      if t then Inr (True, sv) else single_loop pilot (i + 1) k sv))"

definition slice_try :: "nat \<Rightarrow> u8 \<Rightarrow> solver \<Rightarrow> (bool \<times> solver) res" where
  "slice_try n pilot sv =
    rbind (chunk_loop pilot 0 (n div 4) sv) (\<lambda>(anyTaken, sv).
    rbind (if \<not> anyTaken then single_loop pilot ((n div 4) * 4) (n - (n div 4) * 4) sv else Inr (anyTaken, sv)) (\<lambda>(anyTaken, sv).
      if anyTaken then Inr (False, sv) else hasNoDuplicateSlots (take n (sv_slotsBuffer sv)) sv))"

fun slice_pilots :: "nat \<Rightarrow> nat list \<Rightarrow> solver \<Rightarrow> (u8 \<times> bool \<times> solver) res" where
  "slice_pilots n [] sv = Inr (0, False, sv)"
| "slice_pilots n (p # ps) sv =
    rbind (slice_try n (of_nat p) sv) (\<lambda>(ok, sv). if ok then Inr (of_nat p, True, sv) else slice_pilots n ps sv)"

text \<open>\<^verbatim>\<open>folded[i] = foldSlotInput(bucket[i].k0, bucket[i].suffix)\<close> for all entries.\<close>

definition put_folded :: "ptrEntry list \<Rightarrow> solver \<Rightarrow> solver res" where
  "put_folded bucket sv =
    rbind (rfold (\<lambda>(i, e) buf. set_at buf i (entry_fold e)) (List.enumerate 0 bucket) (sv_foldedBuffer sv)) (\<lambda>buf.
      Inr (sv\<lparr>sv_foldedBuffer := buf\<rparr>))"

definition findFreePilotSlice :: "ptrEntry list \<Rightarrow> solver \<Rightarrow> (u8 \<times> bool \<times> solver) res" where
  "findFreePilotSlice bucket sv =
    rbind (get_at (sv_slotGen sv) 0) (\<lambda>_.
    let n = length bucket in
    if n > length (sv_slotsBuffer sv) \<or> n > length (sv_foldedBuffer sv) then Inl (GoPanic ''slice bounds out of range'')
    else rbind (put_folded bucket sv) (slice_pilots n [0..<numPilotValues]))"

definition findFreePilot :: "ptrEntry list \<Rightarrow> nat \<Rightarrow> solver \<Rightarrow> (u8 \<times> bool \<times> solver) res" where
  "findFreePilot bucket bsize sv =
    (if bsize = 1 then findFreePilot1 bucket sv
     else if bsize = 2 then findFreePilot2 bucket sv
     else if bsize = 3 then findFreePilot3 bucket sv
     else if bsize = 4 then findFreePilot4 bucket sv
     else if bsize = 5 then findFreePilot5 bucket sv
     else if bsize = 6 then findFreePilot6 bucket sv
     else if bsize = 7 then findFreePilot7 bucket sv
     else if bsize = 8 then findFreePilot8 bucket sv
     else findFreePilotSlice bucket sv)"

section \<open>Duplicates\<close>

fun hasDuplicateSlotInput :: "ptrEntry list \<Rightarrow> bool" where
  "hasDuplicateSlotInput [] = False"
| "hasDuplicateSlotInput (e # es) =
    (if \<exists>e'\<in>set es. pe_k0 e XOR pe_suffix e = pe_k0 e' XOR pe_suffix e' then True else hasDuplicateSlotInput es)"

fun phase2_dup_loop :: "u32 \<Rightarrow> u16 list \<Rightarrow> u32 list \<Rightarrow> (bool \<times> u32 list) res" where
  "phase2_dup_loop localGen [] g = Inr (True, g)"
| "phase2_dup_loop localGen (slot # rest) g =
    rbind (get_at g (unat slot)) (\<lambda>v.
      if v = localGen then Inr (False, g)
      else rbind (set_at g (unat slot) localGen) (phase2_dup_loop localGen rest))"

definition hasNoDuplicateSlotsPhase2 :: "u16 list \<Rightarrow> solver \<Rightarrow> (bool \<times> solver) res" where
  "hasNoDuplicateSlotsPhase2 slots sv =
    (let sv = sv\<lparr>sv_phase2Gen := sv_phase2Gen sv + 1\<rparr>;
         sv = (if sv_phase2Gen sv = 0
               then sv\<lparr>sv_phase2SlotGen := map (\<lambda>_. 0) (sv_phase2SlotGen sv), sv_phase2Gen := 1\<rparr> else sv)
     in rbind (phase2_dup_loop (sv_phase2Gen sv) slots (sv_phase2SlotGen sv)) (\<lambda>(r, g).
          Inr (r, sv\<lparr>sv_phase2SlotGen := g\<rparr>)))"

section \<open>Placing and evicting\<close>

definition placeBucket :: "nat \<Rightarrow> u8 \<Rightarrow> u16 list \<Rightarrow> solver \<Rightarrow> solver res" where
  "placeBucket bucketIdx pilot slots sv =
    rbind (set_at (sv_pilots sv) bucketIdx pilot) (\<lambda>pilots.
    rbind (rfold (\<lambda>slot (own, g).
        rbind (set_at own (unat slot) (of_nat bucketIdx)) (\<lambda>own.
        rbind (set_at g (unat slot) (sv_generation sv)) (\<lambda>g. Inr (own, g)))) slots (sv_slotOwner sv, sv_slotGen sv)) (\<lambda>(own, g).
      Inr (sv\<lparr>sv_pilots := pilots, sv_slotOwner := own, sv_slotGen := g\<rparr>)))"

definition evictBucket :: "nat \<Rightarrow> solver \<Rightarrow> solver res" where
  "evictBucket bucketIdx sv =
    rbind (get_at (sv_pilots sv) bucketIdx) (\<lambda>pilot.
    rbind (get_at (sv_buckets sv) bucketIdx) (\<lambda>bucket.
    let hp = pilotHP sv pilot in
    rbind (rfold (\<lambda>entry g.
        let slot = unat (pilotSlotFolded (entry_fold entry) hp (sv_numSlots sv)) in
        rbind (get_at g slot) (\<lambda>v.
          if v = sv_generation sv then
            rbind (get_at (sv_slotOwner sv) slot) (\<lambda>ow.
              if ow = of_nat bucketIdx then set_at g slot 0 else Inr g)
          else Inr g)) bucket (sv_slotGen sv)) (\<lambda>g.
      Inr (sv\<lparr>sv_slotGen := g\<rparr>))))"

section \<open>Processing one bucket\<close>

definition maxInt :: nat where "maxInt = 2 ^ 63 - 1"

text \<open>The collision score of the slots; \<open>None\<close> when the pilot is not viable.\<close>

fun score_loop :: "solver \<Rightarrow> nat \<Rightarrow> u16 list \<Rightarrow> nat \<Rightarrow> nat option res" where
  "score_loop sv bestScore [] score = Inr (Some score)"
| "score_loop sv bestScore (slot # rest) score =
    rbind (getOwner sv (unat slot)) (\<lambda>r. case r of
      None \<Rightarrow> score_loop sv bestScore rest score
    | Some owner \<Rightarrow>
        rbind (isPinned sv owner) (\<lambda>p.
          if p then Inr None
          else rbind (bucketSize sv owner) (\<lambda>ownerSize.
            let score = score + ownerSize * ownerSize in
            if score \<ge> bestScore then Inr None else score_loop sv bestScore rest score)))"

definition fill_slots :: "u8 \<Rightarrow> nat \<Rightarrow> solver \<Rightarrow> solver res" where
  "fill_slots pilot n sv = rfold (\<lambda>i sv. rbind (put_slot pilot i sv) (\<lambda>(_, sv). Inr sv)) [0..<n] sv"

text \<open>The loop over the pilots of the second phase; the accumulators are the best pilot and its score.\<close>

fun phase2_loop :: "u8 \<Rightarrow> nat \<Rightarrow> nat list \<Rightarrow> u8 \<Rightarrow> nat \<Rightarrow> solver \<Rightarrow> (u8 \<times> solver) res" where
  "phase2_loop p0 n [] bestPilot bestScore sv = Inr (bestPilot, sv)"
| "phase2_loop p0 n (delta # ds) bestPilot bestScore sv =
    (let pilot = of_nat ((unat p0 + delta) mod numPilotValues) in
     rbind (fill_slots pilot n sv) (\<lambda>sv.
     let slots = take n (sv_slotsBuffer sv) in
     rbind (score_loop sv bestScore slots 0) (\<lambda>r. case r of
       None \<Rightarrow> phase2_loop p0 n ds bestPilot bestScore sv
     | Some score \<Rightarrow>
         rbind (hasNoDuplicateSlotsPhase2 slots sv) (\<lambda>(nodup, sv).
           if \<not> nodup then phase2_loop p0 n ds bestPilot bestScore sv
           else if score < bestScore then
             let sv = sv\<lparr>sv_bestSlots := slots\<rparr> in
             if score \<le> n * n then Inr (pilot, sv) else phase2_loop p0 n ds pilot score sv
           else phase2_loop p0 n ds bestPilot bestScore sv))))"

text \<open>The owners to evict, in the order of their first slot.\<close>

fun owners_loop :: "solver \<Rightarrow> nat \<Rightarrow> u16 list \<Rightarrow> u16 list \<Rightarrow> u16 list res" where
  "owners_loop sv bucketIdx [] acc = Inr acc"
| "owners_loop sv bucketIdx (slot # rest) acc =
    rbind (getOwner sv (unat slot)) (\<lambda>r. case r of
      None \<Rightarrow> owners_loop sv bucketIdx rest acc
    | Some owner \<Rightarrow>
        if owner \<noteq> bucketIdx \<and> of_nat owner \<notin> set acc then owners_loop sv bucketIdx rest (acc @ [of_nat owner])
        else owners_loop sv bucketIdx rest acc)"

definition evict_owner :: "u16 \<Rightarrow> solver \<Rightarrow> solver res" where
  "evict_owner owner16 sv =
    (let owner = unat owner16 in
     rbind (evictBucket owner sv) (\<lambda>sv.
     rbind (clearProcessed owner sv) (\<lambda>sv.
     rbind (bucketSize sv owner) (\<lambda>sz.
     rbind (heap_push owner sz (sv_pendingHeap sv)) (\<lambda>h.
       Inr (sv\<lparr>sv_pendingHeap := h, sv_evictions := sv_evictions sv + 1\<rparr>))))))"

definition processBucketWithHeap :: "nat \<Rightarrow> pcg \<Rightarrow> solver \<Rightarrow> (pcg \<times> solver) res" where
  "processBucketWithHeap bucketIdx rng sv =
    rbind (get_at (sv_buckets sv) bucketIdx) (\<lambda>bucket.
    let n = length bucket in
    rbind (findFreePilot bucket n sv) (\<lambda>(pilot, ok, sv).
    if ok then
      rbind (placeBucket bucketIdx pilot (take n (sv_slotsBuffer sv)) sv) (\<lambda>sv.
      rbind (setProcessed bucketIdx sv) (\<lambda>sv. Inr (rng, sv)))
    else
      case rng_IntN numPilotValues rng of (p0, rng) \<Rightarrow>
      let sv = sv\<lparr>sv_bestSlots := []\<rparr> in
      if n > length (sv_slotsBuffer sv) \<or> n > length (sv_foldedBuffer sv) then Inl (GoPanic ''slice bounds out of range'')
      else
        rbind (put_folded bucket sv) (\<lambda>sv.
        rbind (phase2_loop (of_nat p0) n [0..<numPilotValues] 0 maxInt sv) (\<lambda>(bestPilot, sv).
        if length (sv_bestSlots sv) = 0 then
          if hasDuplicateSlotInput bucket then Inl ErrDuplicateKey else Inl ErrIndistinguishableHashes
        else
          rbind (owners_loop sv bucketIdx (sv_bestSlots sv) []) (\<lambda>owners.
          let sv = sv\<lparr>sv_evictedOwners := owners\<rparr> in
          rbind (rfold evict_owner owners sv) (\<lambda>sv.
          rbind (placeBucket bucketIdx bestPilot (sv_bestSlots sv) sv) (\<lambda>sv.
          rbind (pin bucketIdx sv) (\<lambda>sv.
          rbind (setProcessed bucketIdx sv) (\<lambda>sv. Inr (rng, sv)))))))))) "

section \<open>The eviction loop\<close>

text \<open>
  The loop that empties the heap stops when the eviction limit is exceeded. It ends because every
  round either takes a bucket from the heap without evicting, or evicts and so approaches the limit.
\<close>

lemma swap_at_length: "swap_at i j xs = Inr ys \<Longrightarrow> length ys = length xs"
  by (auto simp: swap_at_def res_simps)

lemma heap_swap_len: "heap_swap i j h = Inr h' \<Longrightarrow> heap_len h' = heap_len h"
  by (auto simp: heap_swap_def heap_len_def res_simps dest!: swap_at_length)

lemma heap_up_len: "heap_up j h = Inr h' \<Longrightarrow> heap_len h' = heap_len h"
proof (induction j h rule: heap_up.induct)
  case (1 j h)
  let ?i = "(j - 1) div 2"
  have run: "(if ?i = j then Inr h else rbind (heap_less j ?i h) (\<lambda>l. if \<not> l then Inr h else rbind (heap_swap ?i j h) (heap_up ?i))) = Inr h'"
    using "1.prems" unfolding heap_up.simps [of j h] Let_def .
  show ?case
  proof (cases "h' = h")
    case False
    then obtain h1 where "?i \<noteq> j" "heap_less j ?i h = Inr True" "heap_swap ?i j h = Inr h1" "heap_up ?i h1 = Inr h'"
      using run by (auto simp: res_simps split: if_splits)
    then show ?thesis
      using "1.IH" [OF refl] heap_swap_len by simp
  qed simp
qed

lemma heap_down_len: "heap_down i n h = Inr h' \<Longrightarrow> heap_len h' = heap_len h"
proof (induction i n h rule: heap_down.induct)
  case (1 i n h)
  let ?j1 = "2 * i + 1" and ?j = "\<lambda>right. if right then 2 * i + 1 + 1 else 2 * i + 1"
  have run: "(if ?j1 \<ge> n then Inr h else rbind (if ?j1 + 1 < n then heap_less (?j1 + 1) ?j1 h else Inr False) (\<lambda>right.
      rbind (heap_less (?j right) i h) (\<lambda>l. if \<not> l then Inr h else rbind (heap_swap i (?j right) h) (heap_down (?j right) n)))) = Inr h'"
    using "1.prems" unfolding heap_down.simps [of i n h] Let_def .
  show ?case
  proof (cases "h' = h")
    case False
    then have j1: "\<not> n \<le> ?j1"
      using run by (cases "n \<le> ?j1") simp_all
    obtain right l where r: "(if ?j1 + 1 < n then heap_less (?j1 + 1) ?j1 h else Inr False) = Inr right" "heap_less (?j right) i h = Inr l"
      and l: "(if \<not> l then Inr h else rbind (heap_swap i (?j right) h) (heap_down (?j right) n)) = Inr h'"
      using run unfolding if_not_P [OF j1] rbind_eq_Inr by blast
    then have "l"
      using False by (cases l) simp_all
    with l obtain h1 where h1: "heap_swap i (?j right) h = Inr h1" "heap_down (?j right) n h1 = Inr h'"
      by (auto simp: rbind_eq_Inr simp del: One_nat_def)
    show ?thesis
      using "1.IH" [OF refl j1 r(1) refl r(2) _ h1] \<open>l\<close> heap_swap_len [OF h1(1)] by simp
  qed simp
qed

lemma heap_push_len: "heap_push i z h = Inr h' \<Longrightarrow> heap_len h' = heap_len h + 1"
  by (auto simp: heap_push_def Let_def heap_len_def [of "bucketHeap_ext _ _ _"] dest!: heap_up_len) (simp add: heap_len_def)

lemma heap_pop_len: "heap_pop h = Inr (p, h') \<Longrightarrow> heap_len h' < heap_len h"
  by (auto simp: heap_pop_def Let_def res_simps heap_len_def min_def neq_Nil_conv split: if_splits)

text \<open>The searches change only their buffers and the generation marks.\<close>

definition search_core :: "solver \<Rightarrow> solver" where
  "search_core sv = sv\<lparr>sv_slotsBuffer := [], sv_foldedBuffer := [], sv_slotGen := [], sv_phase2SlotGen := [], sv_phase2Gen := 0, sv_bestSlots := []\<rparr>"

lemma search_core_upd [simp]:
  "search_core (sv\<lparr>sv_slotsBuffer := sb\<rparr>) = search_core sv" "search_core (sv\<lparr>sv_foldedBuffer := fb\<rparr>) = search_core sv"
  "search_core (sv\<lparr>sv_slotGen := sg\<rparr>) = search_core sv" "search_core (sv\<lparr>sv_phase2SlotGen := pg\<rparr>) = search_core sv"
  "search_core (sv\<lparr>sv_phase2Gen := p2\<rparr>) = search_core sv" "search_core (sv\<lparr>sv_bestSlots := bs\<rparr>) = search_core sv"
  by (simp_all add: search_core_def)

lemma put_slots_core: "put_slots slots sv = Inr sv' \<Longrightarrow> search_core sv' = search_core sv"
  by (auto simp: put_slots_def res_simps)

lemma pilot_search_core: "pilot_search k test bucket sv = Inr (p, ok, sv') \<Longrightarrow> search_core sv' = search_core sv"
  by (auto simp: pilot_search_def Let_def res_simps dest: put_slots_core split: if_splits option.splits)

lemma hasNoDuplicateSlots_core: "hasNoDuplicateSlots slots sv = Inr (r, sv') \<Longrightarrow> search_core sv' = search_core sv"
  by (auto simp: hasNoDuplicateSlots_def res_simps)

lemma put_slot_core: "put_slot pilot i sv = Inr (s, sv') \<Longrightarrow> search_core sv' = search_core sv"
  by (auto simp: put_slot_def Let_def res_simps)

lemma chunk_loop_core: "chunk_loop pilot i k sv = Inr (r, sv') \<Longrightarrow> search_core sv' = search_core sv"
proof (induction k arbitrary: i sv)
  case (Suc k)
  obtain s0 sv0 s1 sv1 s2 sv2 s3 sv3 where sv: "put_slot pilot i sv = Inr (s0, sv0)" "put_slot pilot (i + 1) sv0 = Inr (s1, sv1)"
    "put_slot pilot (i + 2) sv1 = Inr (s2, sv2)" "put_slot pilot (i + 3) sv2 = Inr (s3, sv3)"
    and "rbind (taken_all sv3 [ucast s0, ucast s1, ucast s2, ucast s3]) (\<lambda>t.
      if t ! 0 \<or> t ! 1 \<or> t ! 2 \<or> t ! 3 then Inr (True, sv3) else chunk_loop pilot (i + 4) k sv3) = Inr (r, sv')"
    using Suc.prems unfolding chunk_loop.simps rbind_pair_Inr by blast
  then have "sv' = sv3 \<or> chunk_loop pilot (i + 4) k sv3 = Inr (r, sv')"
    unfolding rbind_eq_Inr by (metis Inr_inject Pair_inject)
  then have "search_core sv' = search_core sv3"
    using Suc.IH by blast
  with sv [THEN put_slot_core] show ?case by simp
qed simp

lemma single_loop_core: "single_loop pilot i k sv = Inr (r, sv') \<Longrightarrow> search_core sv' = search_core sv"
  by (induction k arbitrary: i sv) (auto simp: res_simps split: if_splits prod.splits dest: put_slot_core)


lemma slice_try_core: "slice_try n pilot sv = Inr (r, sv') \<Longrightarrow> search_core sv' = search_core sv"
  by (auto simp: slice_try_def rbind_eq_Inr split: if_splits prod.splits
      dest!: chunk_loop_core single_loop_core hasNoDuplicateSlots_core)

lemma slice_pilots_core: "slice_pilots n ps sv = Inr (p, ok, sv') \<Longrightarrow> search_core sv' = search_core sv"
  by (induction ps arbitrary: sv) (auto simp: rbind_eq_Inr split: if_splits dest!: slice_try_core)

lemma put_folded_core: "put_folded bucket sv = Inr sv' \<Longrightarrow> search_core sv' = search_core sv"
  by (auto simp: put_folded_def rbind_eq_Inr)

lemma findFreePilot_core: "findFreePilot bucket n sv = Inr (p, ok, sv') \<Longrightarrow> search_core sv' = search_core sv"
  by (auto simp: findFreePilot_def findFreePilot1_def findFreePilot2_def findFreePilot3_def findFreePilot4_def findFreePilot5_def
      findFreePilot6_def findFreePilot7_def findFreePilot8_def findFreePilotSlice_def Let_def rbind_eq_Inr
      split: if_splits dest!: pilot_search_core slice_pilots_core put_folded_core)

lemma fill_slots_core: "fill_slots pilot n sv = Inr sv' \<Longrightarrow> search_core sv' = search_core sv"
proof -
  have "rfold (\<lambda>i sv. rbind (put_slot pilot i sv) (\<lambda>(_, sv). Inr sv)) is sv = Inr sv' \<Longrightarrow> search_core sv' = search_core sv" for "is"
    by (induction "is" arbitrary: sv) (auto simp: rbind_eq_Inr split: prod.splits dest!: put_slot_core)
  then show "fill_slots pilot n sv = Inr sv' \<Longrightarrow> search_core sv' = search_core sv"
    unfolding fill_slots_def .
qed

lemma hasNoDuplicateSlotsPhase2_core: "hasNoDuplicateSlotsPhase2 slots sv = Inr (r, sv') \<Longrightarrow> search_core sv' = search_core sv"
  by (auto simp: hasNoDuplicateSlotsPhase2_def Let_def rbind_eq_Inr split: if_splits)

lemma phase2_loop_core: "phase2_loop p0 n ds bp bs sv = Inr (p, sv') \<Longrightarrow> search_core sv' = search_core sv"
  by (induction ds arbitrary: bp bs sv)
    (auto simp: Let_def rbind_eq_Inr split: if_splits option.splits prod.splits dest!: fill_slots_core hasNoDuplicateSlotsPhase2_core)


text \<open>What the termination argument needs to know of a state: evictions and heap size.\<close>

definition work_of :: "solver \<Rightarrow> nat \<times> nat" where
  "work_of sv = (sv_evictions sv, heap_len (sv_pendingHeap sv))"

lemma work_of_core: "search_core sv' = search_core sv \<Longrightarrow> work_of sv' = work_of sv"
proof -
  assume "search_core sv' = search_core sv"
  then have "sv_evictions (search_core sv') = sv_evictions (search_core sv)" "sv_pendingHeap (search_core sv') = sv_pendingHeap (search_core sv)"
    by simp_all
  then show ?thesis
    by (simp add: search_core_def work_of_def)
qed

lemma placeBucket_work: "placeBucket i p slots sv = Inr sv' \<Longrightarrow> work_of sv' = work_of sv"
  by (auto simp: placeBucket_def rbind_eq_Inr work_of_def)

lemma setProcessed_work: "setProcessed i sv = Inr sv' \<Longrightarrow> work_of sv' = work_of sv"
  by (auto simp: setProcessed_def rbind_eq_Inr work_of_def)

lemma pin_work: "pin i sv = Inr sv' \<Longrightarrow> work_of sv' = work_of sv"
  unfolding pin_def rbind_eq_Inr by (elim exE conjE) (simp only: sum.inject, hypsubst, simp add: work_of_def)

lemma evict_owner_work: "evict_owner ow sv = Inr sv' \<Longrightarrow> \<exists>k. work_of sv' = (fst (work_of sv) + 1, snd (work_of sv) + 1)"
  by (auto simp: evict_owner_def evictBucket_def clearProcessed_def Let_def rbind_eq_Inr work_of_def dest!: heap_push_len)

lemma evict_owners_work:
  "rfold evict_owner owners sv = Inr sv' \<Longrightarrow> work_of sv' = (fst (work_of sv) + length owners, snd (work_of sv) + length owners)"
  by (induction owners arbitrary: sv) (auto simp: rbind_eq_Inr dest!: evict_owner_work)

lemma process_work:
  assumes "processBucketWithHeap i rng sv = Inr (rng', sv')"
  shows "\<exists>k. work_of sv' = (fst (work_of sv) + k, snd (work_of sv) + k)"
proof -
  obtain bucket pilot ok sv1 where b: "get_at (sv_buckets sv) i = Inr bucket" and
    f: "findFreePilot bucket (length bucket) sv = Inr (pilot, ok, sv1)"
    using assms unfolding processBucketWithHeap_def Let_def by (auto simp: rbind_eq_Inr)
  note c1 = work_of_core [OF findFreePilot_core [OF f]]
  show ?thesis
  proof (cases ok)
    case True
    then have "work_of sv' = work_of sv1"
      using assms b f unfolding processBucketWithHeap_def Let_def
      by (auto simp: rbind_eq_Inr dest!: placeBucket_work setProcessed_work)
    with c1 show ?thesis
      by (intro exI [of _ 0]) simp
  next
    case False
    let ?sv = "sv1\<lparr>sv_bestSlots := []\<rparr>" and ?n = "length bucket"
    obtain p0 where r: "rng_IntN numPilotValues rng = (p0, rng')"
      using assms b f False unfolding processBucketWithHeap_def Let_def
      by (cases "rng_IntN numPilotValues rng") (auto simp: rbind_eq_Inr split: if_splits)
    obtain sv2 bp sv3 owners sv4 sv5 sv6 where "put_folded bucket ?sv = Inr sv2"
      "phase2_loop (of_nat p0) ?n [0..<numPilotValues] 0 maxInt sv2 = Inr (bp, sv3)"
      "rfold evict_owner owners (sv3\<lparr>sv_evictedOwners := owners\<rparr>) = Inr sv4"
      "placeBucket i bp (sv_bestSlots sv4) sv4 = Inr sv5" "pin i sv5 = Inr sv6" "setProcessed i sv6 = Inr sv'"
      using assms b f False r unfolding processBucketWithHeap_def Let_def
      by (auto simp: rbind_eq_Inr split: if_splits)
    note w = work_of_core [OF put_folded_core [OF this(1)]] work_of_core [OF phase2_loop_core [OF this(2)]]
      evict_owners_work [OF this(3)] placeBucket_work [OF this(4)] pin_work [OF this(5)] setProcessed_work [OF this(6)]
    have "work_of ?sv = work_of sv1" "work_of (sv3\<lparr>sv_evictedOwners := owners\<rparr>) = work_of sv3"
      by (simp_all add: work_of_def)
    with w c1 show ?thesis
      by (intro exI [of _ "length owners"]) simp
  qed
qed

text \<open>The result says whether the eviction limit was hit.\<close>

function drain_heap :: "nat \<Rightarrow> pcg \<Rightarrow> solver \<Rightarrow> (bool \<times> pcg \<times> solver) res" where
  "drain_heap maxEvictions rng sv =
    (if heap_len (sv_pendingHeap sv) = 0 then Inr (False, rng, sv)
     else
       rbind (heap_pop (sv_pendingHeap sv)) (\<lambda>r.
       let currentIdx = fst (fst r); sv = sv\<lparr>sv_pendingHeap := snd r\<rparr> in
       rbind (isProcessed sv currentIdx) (\<lambda>processed.
       if processed then drain_heap maxEvictions rng sv
       else
         rbind (processBucketWithHeap currentIdx rng sv) (\<lambda>(rng, sv).
         if sv_evictions sv > maxEvictions then Inr (True, rng, sv) else drain_heap maxEvictions rng sv))))"
  by pat_completeness auto
termination
proof (relation "measures [\<lambda>(m, rng, sv). m + 1 - sv_evictions sv, \<lambda>(m, rng, sv). heap_len (sv_pendingHeap sv)]", goal_cases)
  case (2 m rng sv r i sv1 d)
  then show ?case
    using heap_pop_len [of "sv_pendingHeap sv" "fst r" "snd r"] by simp
next
  case (3 m rng sv r i sv1 d q rng' sv2)
  from process_work [of i rng sv1 rng' sv2] 3(7,8) obtain k where
    "sv_evictions sv2 = sv_evictions sv1 + k" "heap_len (sv_pendingHeap sv2) = heap_len (sv_pendingHeap sv1) + k"
    by (auto simp: work_of_def)
  then show ?case
    using 3 heap_pop_len [of "sv_pendingHeap sv" "fst r" "snd r"] by (cases "k = 0") auto
qed simp

declare drain_heap.simps [simp del]

section \<open>The remap table\<close>

text \<open>\<open>next_hole numKeys sv c\<close> advances the cursor while its slot is taken.\<close>

function next_hole :: "nat \<Rightarrow> solver \<Rightarrow> nat \<Rightarrow> nat res" where
  "next_hole numKeys sv holeCursor =
    rbind (get_at (sv_slotGen sv) holeCursor) (\<lambda>g.
      if g = sv_generation sv then
        if holeCursor + 1 \<ge> numKeys then Inl (GoPanic ''ptrhash buildRemap: out of holes in valid range'')
        else next_hole numKeys sv (holeCursor + 1)
      else Inr holeCursor)"
  by pat_completeness auto
termination
  by (relation "measure (\<lambda>(n, sv, c). n - c)") auto

declare next_hole.simps [simp del]

definition remap_step :: "nat \<Rightarrow> solver \<Rightarrow> nat \<Rightarrow> nat \<times> u16 list \<Rightarrow> (nat \<times> u16 list) res" where
  "remap_step numKeys sv overflowSlot = (\<lambda>(holeCursor, remap).
    rbind (get_at (sv_slotGen sv) overflowSlot) (\<lambda>g.
      if g \<noteq> sv_generation sv then Inr (holeCursor, remap)
      else
        rbind (next_hole numKeys sv holeCursor) (\<lambda>holeCursor.
        rbind (set_at remap (overflowSlot - numKeys) (of_nat holeCursor)) (\<lambda>remap.
          Inr (holeCursor + 1, remap)))))"

definition buildRemap :: "solver \<Rightarrow> (u16 list \<times> solver) res" where
  "buildRemap sv =
    (let numKeys = sv_numKeys sv; numSlots = unat (sv_numSlots sv);
         remapSize = unat (sv_numSlots sv - of_nat numKeys) in
     rbind (rfold (remap_step numKeys sv) [numKeys..<numSlots] (0, replicate remapSize 0)) (\<lambda>(_, remap).
       Inr (remap, sv\<lparr>sv_remapBuffer := remap\<rparr>)))"

section \<open>Solving a block\<close>

text \<open>
  One round of the main loop. The flag says that the eviction limit was hit, which ends the loop.
\<close>

definition solve_bucket_step :: "nat \<Rightarrow> nat \<Rightarrow> pcg \<Rightarrow> solver \<Rightarrow> (bool \<times> pcg \<times> solver) res" where
  "solve_bucket_step maxEvictions bucketIdx rng sv =
    rbind (bucketSize sv bucketIdx) (\<lambda>sz.
    if sz = 0 then
      rbind (set_at (sv_pilots sv) bucketIdx 0) (\<lambda>pilots.
      rbind (setProcessed bucketIdx (sv\<lparr>sv_pilots := pilots\<rparr>)) (\<lambda>sv. Inr (False, rng, sv)))
    else
      rbind (isProcessed sv bucketIdx) (\<lambda>processed.
      if processed then Inr (False, rng, sv)
      else
        rbind (processBucketWithHeap bucketIdx rng sv) (\<lambda>(rng, sv).
        rbind (drain_heap maxEvictions rng sv) (\<lambda>(_, rng, sv).
          Inr (sv_evictions sv > maxEvictions, rng, sv)))))"

fun ptr_solve_loop :: "nat \<Rightarrow> u16 list \<Rightarrow> pcg \<Rightarrow> solver \<Rightarrow> (bool \<times> solver) res" where
  "ptr_solve_loop maxEvictions [] rng sv = Inr (False, sv)"
| "ptr_solve_loop maxEvictions (b # bs) rng sv =
    rbind (solve_bucket_step maxEvictions (unat b) rng sv) (\<lambda>(limit, rng, sv).
      if limit then Inr (True, sv) else ptr_solve_loop maxEvictions bs rng sv)"

text \<open>
  \<open>solve\<close> returns the remap table, or \<open>None\<close> for the internal signal \<^verbatim>\<open>errEvictionLimitExceeded\<close>;
  the pilots are in the state.
\<close>

definition solver_solve :: "nat \<Rightarrow> solver \<Rightarrow> (u16 list option \<times> solver) res" where
  "solver_solve attempt sv =
    (if sv_numKeys sv = 0 then Inr (Some [], sv)
     else if unat (sv_numSlots sv) > 65535 then Inl ErrBlockOverflow
     else
       let seedBase = splitMix64 (sv_globalSeed sv XOR ((of_nat attempt + 1) * 0x9E3779B97F4A7C15));
           rng = (seedBase, splitMix64 seedBase);
           maxEvictions = maxEvictionMultiplier * unat (sv_numSlots sv);
           sv = sv\<lparr>sv_pendingHeap := heap_clear (sv_pendingHeap sv), sv_bestSlots := [], sv_evictedOwners := []\<rparr>
       in if sv_numBuckets sv > length (sv_bucketOrder sv) then Inl (GoPanic ''slice bounds out of range'')
          else
            rbind (ptr_solve_loop maxEvictions (take (sv_numBuckets sv) (sv_bucketOrder sv)) rng sv) (\<lambda>(evictionLimitHit, sv).
            if evictionLimitHit then Inr (None, sv)
            else rbind (buildRemap sv) (\<lambda>(remap, sv). Inr (Some remap, sv))))"

section \<open>Creating and resetting a solver\<close>

definition pinned_words :: "nat \<Rightarrow> nat" where
  "pinned_words numBuckets = unat ((of_nat numBuckets + of_nat bitsPerWord - 1 :: u32) div of_nat bitsPerWord)"

definition newSolver :: "nat \<Rightarrow> nat \<Rightarrow> solver" where
  "newSolver maxNumBuckets maxNumKeys =
    (let maxNumSlots = computeNumSlots maxNumKeys;
         maxBucketSize = max (f64_ceil (f64_round (3 * 316 / 100))) minBufferAlloc;
         maxRemapSize = unat maxNumSlots - maxNumKeys
     in \<lparr>sv_numBuckets = 0, sv_numSlots = 0, sv_numKeys = 0, sv_globalSeed = 0,
         sv_pilotHPs = replicate numPilotValues 0, sv_buckets = [],
         sv_bucketStarts = replicate (maxNumBuckets + 1) 0, sv_bucketOrder = replicate maxNumBuckets 0,
         sv_pilots = replicate maxNumBuckets 0, sv_slotOwner = replicate (unat maxNumSlots) 0,
         sv_slotGen = replicate (unat maxNumSlots) 0, sv_processedGen = replicate maxNumBuckets 0,
         sv_generation = 1, sv_phase2SlotGen = [], sv_phase2Gen = 0,
         sv_pinned = replicate pinnedSize (- 1), sv_pinnedBits = replicate (pinned_words maxNumBuckets) 0,
         sv_pinnedIdx = 0, sv_evictions = 0, sv_slotsBuffer = replicate maxBucketSize 0,
         sv_foldedBuffer = replicate maxBucketSize 0, sv_pendingHeap = newBucketHeap,
         sv_bestSlots = [], sv_evictedOwners = [], sv_remapBuffer = replicate maxRemapSize 0,
         sv_sortCounts = replicate (maxBucketSize + 1) 0, sv_sortPositions = replicate (maxBucketSize + 1) 0,
         sv_maxNumBuckets = maxNumBuckets, sv_maxNumSlots = maxNumSlots\<rparr>)"

text \<open>The cumulative counts: \<^verbatim>\<open>bucketStarts\<close> and, at the end, the total and the largest bucket.\<close>

definition starts_loop :: "ptrEntry list list \<Rightarrow> u16 list \<Rightarrow> (u16 list \<times> nat \<times> nat) res" where
  "starts_loop buckets bucketStarts =
    rfold (\<lambda>(i, bucket) (starts, totalKeys, maxBucketSize).
      rbind (set_at starts i (of_nat totalKeys)) (\<lambda>starts.
        Inr (starts, totalKeys + length bucket, max maxBucketSize (length bucket))))
      (List.enumerate 0 buckets) (bucketStarts, 0, 0)"

definition grow_slots :: "u32 \<Rightarrow> solver \<Rightarrow> solver" where
  "grow_slots numSlots sv =
    (if numSlots > sv_maxNumSlots sv then
       sv\<lparr>sv_maxNumSlots := numSlots, sv_slotOwner := replicate (unat numSlots) 0, sv_slotGen := replicate (unat numSlots) 0\<rparr>
     else sv)"

definition grow_buckets :: "nat \<Rightarrow> bool \<Rightarrow> solver \<Rightarrow> solver" where
  "grow_buckets numBuckets noDst sv =
    (if numBuckets > sv_maxNumBuckets sv then
       sv\<lparr>sv_maxNumBuckets := numBuckets, sv_bucketStarts := replicate (numBuckets + 1) 0, sv_bucketOrder := replicate numBuckets 0,
         sv_pilots := (if noDst then replicate numBuckets 0 else sv_pilots sv),
         sv_processedGen := replicate numBuckets 0, sv_pinnedBits := replicate (pinned_words numBuckets) 0\<rparr>
     else sv)"

definition set_pilots :: "nat \<Rightarrow> bytes option \<Rightarrow> solver \<Rightarrow> solver res" where
  "set_pilots numBuckets pilotsDst sv =
    (case pilotsDst of
       Some dst \<Rightarrow> if numBuckets > length dst then Inl (GoPanic ''slice bounds out of range'')
                   else Inr (sv\<lparr>sv_pilots := take numBuckets dst\<rparr>)
     | None \<Rightarrow> Inr (if length (sv_pilots sv) < numBuckets then sv\<lparr>sv_pilots := replicate numBuckets 0\<rparr> else sv))"

definition grow_buffers :: "nat \<Rightarrow> u32 \<Rightarrow> solver \<Rightarrow> solver" where
  "grow_buffers maxBucketSize numSlots sv =
    (let sv = (if maxBucketSize > length (sv_slotsBuffer sv)
               then sv\<lparr>sv_slotsBuffer := replicate maxBucketSize 0, sv_foldedBuffer := replicate maxBucketSize 0\<rparr> else sv);
         sv = (if unat numSlots > length (sv_phase2SlotGen sv) then sv\<lparr>sv_phase2SlotGen := replicate (unat numSlots) 0\<rparr> else sv)
     in if maxBucketSize + 1 > length (sv_sortCounts sv)
        then sv\<lparr>sv_sortCounts := replicate (maxBucketSize + 1) 0, sv_sortPositions := replicate (maxBucketSize + 1) 0\<rparr> else sv)"

definition next_generation :: "nat \<Rightarrow> solver \<Rightarrow> solver res" where
  "next_generation numBuckets sv =
    (let sv = sv\<lparr>sv_generation := sv_generation sv + 1\<rparr> in
     if sv_generation sv \<ge> 254 then
       if numBuckets > length (sv_processedGen sv) then Inl (GoPanic ''slice bounds out of range'')
       else Inr (sv\<lparr>sv_generation := 1, sv_slotGen := map (\<lambda>_. 0) (sv_slotGen sv),
                 sv_processedGen := replicate numBuckets 0 @ drop numBuckets (sv_processedGen sv)\<rparr>)
     else Inr sv)"

definition clear_pins :: "nat \<Rightarrow> solver \<Rightarrow> solver res" where
  "clear_pins numBuckets sv =
    (let words = pinned_words numBuckets in
     if words > length (sv_pinnedBits sv) then Inl (GoPanic ''slice bounds out of range'')
     else Inr (sv\<lparr>sv_pinned := map (\<lambda>_. - 1) (sv_pinned sv),
               sv_pinnedBits := replicate words 0 @ drop words (sv_pinnedBits sv)\<rparr>))"

definition solver_reset :: "ptrEntry list list \<Rightarrow> nat \<Rightarrow> u64 \<Rightarrow> bytes option \<Rightarrow> solver \<Rightarrow> solver res" where
  "solver_reset buckets numKeys globalSeed pilotsDst sv =
    (let numBuckets = length buckets;
         numSlots = computeNumSlots numKeys;
         sv = sv\<lparr>sv_globalSeed := globalSeed, sv_numBuckets := numBuckets, sv_numSlots := numSlots, sv_numKeys := numKeys,
                sv_evictions := 0, sv_pinnedIdx := 0, sv_pilotHPs := initPilotHPs globalSeed, sv_buckets := buckets\<rparr>;
         sv = grow_buckets numBuckets (pilotsDst = None) (grow_slots numSlots sv)
     in rbind (set_pilots numBuckets pilotsDst sv) (\<lambda>sv.
        rbind (starts_loop buckets (sv_bucketStarts sv)) (\<lambda>(starts, totalKeys, maxBucketSize).
        rbind (set_at starts numBuckets (of_nat totalKeys)) (\<lambda>starts.
        let sv = grow_buffers maxBucketSize numSlots (sv\<lparr>sv_bucketStarts := starts\<rparr>) in
        if numBuckets + 1 > length (sv_bucketStarts sv) \<or> numBuckets > length (sv_bucketOrder sv)
        then Inl (GoPanic ''slice bounds out of range'')
        else
          rbind (countingSortBucketsInto (take (numBuckets + 1) (sv_bucketStarts sv)) (take numBuckets (sv_bucketOrder sv))
                   (sv_sortCounts sv) (sv_sortPositions sv)) (\<lambda>(order, counts, positions).
          let sv = sv\<lparr>sv_bucketOrder := order @ drop numBuckets (sv_bucketOrder sv), sv_sortCounts := counts, sv_sortPositions := positions\<rparr> in
          rbind (next_generation numBuckets sv) (clear_pins numBuckets))))))"

end
