(* ===== verification/Ptr_Builder.thy ===== *)
theory Ptr_Builder
  imports Ptr_Solver Entry_Codec
begin

text \<open>
  The PTRHash block builder, \<^verbatim>\<open>internal/ptrhash/builder.go\<close>. The solver writes the pilots into the
  metadata buffer itself; here it works on the prefix of the buffer, which is copied back after each
  attempt. As for the other algorithm, an operation that returns an error leaves no builder.
\<close>

definition blockOverflowSigmas :: rat where "blockOverflowSigmas = 7"
definition metadataEstimateMargin :: nat where "metadataEstimateMargin = 100"

text \<open>\<^verbatim>\<open>int(float64(bucketsPerBlock) * lambda * solverMaxKeysMultiplier)\<close> is a constant, 10000 * 3.16 * 1.2.\<close>

definition solverMaxKeys :: nat where "solverMaxKeys = 37920"

record ptrBuilder =
  pb_numBlocks :: u32
  pb_globalSeed :: u64
  pb_payloadSize :: nat
  pb_fingerprintSize :: nat
  pb_buckets :: "ptrEntry list list"
  pb_maxKeysPerBlock :: nat
  pb_keysInBlock :: nat
  pb_solver :: solver
  pb_numSlots :: nat
  pb_pilots :: bytes
  pb_remap :: "u16 list"

definition ptr_maxKeysPerBlock :: "u64 \<Rightarrow> nat" where
  "ptr_maxKeysPerBlock totalKeys =
    (let nb = ptr_numBlocks totalKeys;
         expectedAvg = f64_div (f64_of_nat (unat totalKeys)) (f64_of_nat (unat nb));
         sigma = f64_sqrt expectedAvg
     in f64_trunc (f64_add expectedAvg (f64_mul blockOverflowSigmas sigma)))"

definition ptr_NewBuilder :: "u64 \<Rightarrow> u64 \<Rightarrow> nat \<Rightarrow> nat \<Rightarrow> ptrBuilder" where
  "ptr_NewBuilder totalKeys globalSeed payloadSize fingerprintSize =
    \<lparr>pb_numBlocks = ptr_numBlocks totalKeys, pb_globalSeed = globalSeed, pb_payloadSize = payloadSize,
     pb_fingerprintSize = fingerprintSize, pb_buckets = replicate ptr_bucketsPerBlock [],
     pb_maxKeysPerBlock = ptr_maxKeysPerBlock totalKeys, pb_keysInBlock = 0,
     pb_solver = newSolver ptr_bucketsPerBlock solverMaxKeys,
     pb_numSlots = 0, pb_pilots = [], pb_remap = []\<rparr>"

definition ptr_AddKey :: "ptrBuilder \<Rightarrow> u64 \<Rightarrow> u64 \<Rightarrow> u64 \<Rightarrow> u32 \<Rightarrow> ptrBuilder res" where
  "ptr_AddKey b k0 k1 payload fingerprint =
    (let localBucketIdx = unat (cubicEpsBucket k1 (of_nat ptr_bucketsPerBlock)) in
     rbind (get_at (pb_buckets b) localBucketIdx) (\<lambda>bucket.
     rbind (set_at (pb_buckets b) localBucketIdx
              (bucket @ [\<lparr>pe_suffix = k1, pe_k0 = k0, pe_payload = payload, pe_fingerprint = fingerprint\<rparr>])) (\<lambda>buckets.
       Inr (b\<lparr>pb_buckets := buckets, pb_keysInBlock := pb_keysInBlock b + 1\<rparr>))))"

definition ptr_KeysAdded :: "ptrBuilder \<Rightarrow> nat" where "ptr_KeysAdded b = pb_keysInBlock b"

definition ptr_Reset :: "ptrBuilder \<Rightarrow> ptrBuilder" where
  "ptr_Reset b = b\<lparr>pb_buckets := map (\<lambda>_. []) (pb_buckets b), pb_keysInBlock := 0, pb_numSlots := 0, pb_pilots := [], pb_remap := []\<rparr>"

definition ptr_NumBlocks :: "ptrBuilder \<Rightarrow> u32" where "ptr_NumBlocks b = pb_numBlocks b"
definition ptr_GlobalConfigSize :: "ptrBuilder \<Rightarrow> nat" where "ptr_GlobalConfigSize b = 0"
definition ptr_EncodeGlobalConfigInto :: "ptrBuilder \<Rightarrow> bytes \<Rightarrow> (nat \<times> bytes) res" where
  "ptr_EncodeGlobalConfigInto b dst = Inr (0, dst)"

text \<open>\<^verbatim>\<open>1.0/alpha - 1.0\<close> is a constant, 1/99, converted to \<^verbatim>\<open>float64\<close>.\<close>

definition ptr_MaxIndexMetadataSize :: "ptrBuilder \<Rightarrow> nat" where
  "ptr_MaxIndexMetadataSize b =
    (let maxKeys = solverMaxKeys;
         maxOverflow = f64_ceil (f64_mul (f64_of_nat maxKeys) (f64_round (1 / 99))) + 1
     in ptr_bucketsPerBlock + remapTableHeaderSize + maxOverflow * remapTableEntrySize + metadataEstimateMargin)"

definition ptr_estimateMetadataSize :: "nat \<Rightarrow> nat" where
  "ptr_estimateMetadataSize numKeys =
    (if numKeys = 0 then ptr_bucketsPerBlock + remapTableHeaderSize
     else
       let pilotBytes = ptr_bucketsPerBlock;
           numSlots = unat (computeNumSlots numKeys);
           numOverflowSlots = numSlots - numKeys + 1;
           remapBytes = remapTableHeaderSize + numOverflowSlots * remapTableEntrySize
       in pilotBytes + remapBytes)"

definition ptr_MaxMetadataSizeForCurrentBlock :: "ptrBuilder \<Rightarrow> nat" where
  "ptr_MaxMetadataSizeForCurrentBlock b = ptr_estimateMetadataSize (pb_keysInBlock b)"

definition ptr_entrySize :: "ptrBuilder \<Rightarrow> nat" where
  "ptr_entrySize b = pb_fingerprintSize b + pb_payloadSize b"

text \<open>The attempts of \<^verbatim>\<open>solve\<close>; after the last one the signal itself is the error.\<close>

fun solve_attempts :: "nat list \<Rightarrow> bytes \<Rightarrow> ptrBuilder \<Rightarrow> (bytes \<times> ptrBuilder) res" where
  "solve_attempts [] metadataDst b = Inl (ErrOther ''ptrhash solver: eviction limit exceeded'')"
| "solve_attempts (attempt # rest) metadataDst b =
    rbind (solver_reset (pb_buckets b) (pb_keysInBlock b) (pb_globalSeed b) (Some metadataDst) (pb_solver b)) (\<lambda>sv.
    rbind (solver_solve attempt sv) (\<lambda>(r, sv).
    let metadataDst = copy_at metadataDst 0 (sv_pilots sv); b = b\<lparr>pb_solver := sv\<rparr> in
    case r of
      Some remap \<Rightarrow> Inr (metadataDst, b\<lparr>pb_pilots := sv_pilots sv, pb_remap := remap, pb_numSlots := unat (sv_numSlots sv)\<rparr>)
    | None \<Rightarrow> solve_attempts rest metadataDst (b\<lparr>pb_pilots := [], pb_remap := []\<rparr>)))"

definition ptr_solve :: "bytes \<Rightarrow> ptrBuilder \<Rightarrow> (bytes \<times> ptrBuilder) res" where
  "ptr_solve metadataDst b = solve_attempts [0..<maxGlobalRetries] metadataDst b"

definition ptr_encodeMetadataInto :: "ptrBuilder \<Rightarrow> bytes \<Rightarrow> (nat \<times> bytes) res" where
  "ptr_encodeMetadataInto b dst =
    (let offset = length (pb_pilots b) in
     rbind (slice_from offset dst) (\<lambda>tl.
     rbind (encodeRemapTableInto (pb_remap b) tl) (\<lambda>(remapLen, tl).
       Inr (offset + remapLen, take offset dst @ tl))))"

definition ptr_entry_slot :: "ptrBuilder \<Rightarrow> u64 \<Rightarrow> ptrEntry \<Rightarrow> nat res" where
  "ptr_entry_slot b hp entry =
    (let numKeys = of_nat (pb_keysInBlock b) :: u32;
         slot = pilotSlotFolded (entry_fold entry) hp (of_nat (pb_numSlots b))
     in if slot \<ge> numKeys then rbind (get_at (pb_remap b) (unat (slot - numKeys))) (\<lambda>r. Inr (unat r)) else Inr (unat slot))"

fun ptr_write_entries :: "ptrBuilder \<Rightarrow> bool \<Rightarrow> nat \<Rightarrow> u64 \<Rightarrow> ptrEntry list \<Rightarrow> bytes \<Rightarrow> bytes res" where
  "ptr_write_entries b generic entrySize hp [] dst = Inr dst"
| "ptr_write_entries b generic entrySize hp (entry # es) dst =
    (let fpShift = pb_fingerprintSize b * 8 in
     rbind (ptr_entry_slot b hp entry) (\<lambda>slot.
     rbind (if generic then WriteEntryGeneric dst slot entrySize (pe_fingerprint entry) (pe_payload entry) fpShift
            else WriteEntry dst slot entrySize (pe_fingerprint entry) (pe_payload entry) fpShift) (\<lambda>dst.
       ptr_write_entries b generic entrySize hp es dst)))"

definition ptr_encodePayloadsWithWriter :: "ptrBuilder \<Rightarrow> bytes \<Rightarrow> nat \<Rightarrow> bool \<Rightarrow> bytes res" where
  "ptr_encodePayloadsWithWriter b dst entrySize generic =
    (if dst = [] then Inl (GoPanic ''index out of range'')
     else rfold (\<lambda>(bucketIdx, bucket) dst.
            rbind (get_at (pb_pilots b) bucketIdx) (\<lambda>pilot.
              ptr_write_entries b generic entrySize (pilotHash pilot (pb_globalSeed b)) bucket dst))
          (List.enumerate 0 (pb_buckets b)) dst)"

definition ptr_encodePayloadsInto :: "ptrBuilder \<Rightarrow> bytes \<Rightarrow> (nat \<times> bytes) res" where
  "ptr_encodePayloadsInto b dst =
    (let entrySize = ptr_entrySize b in
     if entrySize = 0 \<or> pb_keysInBlock b = 0 then Inr (0, dst)
     else let requiredLen = pb_keysInBlock b * entrySize in
       if length dst < requiredLen then Inl (GoPanic ''ptrhash: encodePayloadsInto: dst buffer too small'')
       else rbind (ptr_encodePayloadsWithWriter b dst entrySize (entrySize \<notin> {1, 4, 5, 8})) (\<lambda>dst.
              Inr (pb_keysInBlock b * entrySize, dst)))"

definition ptr_buildEmptyMetadataInto :: "bytes \<Rightarrow> (nat \<times> bytes) res" where
  "ptr_buildEmptyMetadataInto dst =
    rbind (put_bytes dst 0 (replicate ptr_bucketsPerBlock 0)) (\<lambda>dst.
    rbind (set_at dst ptr_bucketsPerBlock 0) (\<lambda>dst.
    rbind (set_at dst (ptr_bucketsPerBlock + 1) 0) (\<lambda>dst.
      Inr (ptr_bucketsPerBlock + remapTableHeaderSize, dst))))"

definition ptr_BuildSeparatedInto :: "ptrBuilder \<Rightarrow> bytes \<Rightarrow> bytes \<Rightarrow> (nat \<times> nat \<times> nat \<times> bytes \<times> bytes \<times> ptrBuilder) res" where
  "ptr_BuildSeparatedInto b metadataDst payloadsDst =
    (if pb_keysInBlock b = 0 then
       rbind (ptr_buildEmptyMetadataInto metadataDst) (\<lambda>(metaLen, metadataDst).
         Inr (metaLen, 0, 0, metadataDst, payloadsDst, b))
     else if pb_keysInBlock b > pb_maxKeysPerBlock b then Inl ErrBlockOverflow
     else
       rbind (ptr_solve metadataDst b) (\<lambda>(metadataDst, b).
       rbind (ptr_encodeMetadataInto b metadataDst) (\<lambda>(metadataLen, metadataDst).
       rbind (ptr_encodePayloadsInto b payloadsDst) (\<lambda>(payloadsLen, payloadsDst).
         Inr (metadataLen, payloadsLen, pb_keysInBlock b, metadataDst, payloadsDst, b)))))"

end
