(* ===== verification/Index_Safety.thy ===== *)
theory Index_Safety
  imports Index_Query
begin

text \<open>
  Robustness of opening and querying on arbitrary bytes: no slice or index expression of
  \<^verbatim>\<open>index.go\<close> is out of range, whatever the file holds, as long as the block decoder itself does not
  panic and keeps its slots in a sane range (locale \<open>safe_decoder\<close>). The invariant of an opened index
  is \<open>index_ok\<close>.
\<close>

section \<open>64-bit offsets that do not wrap\<close>

lemma unat_add_lt: "unat a + unat b < 2 ^ LENGTH('a) \<Longrightarrow> unat (a + b :: 'a::len word) = unat a + unat b"
  by (simp add: unat_word_ariths)

lemma unat_mult_lt: "unat a * unat b < 2 ^ LENGTH('a) \<Longrightarrow> unat (a * b :: 'a::len word) = unat a * unat b"
  by (simp add: unat_word_ariths)

lemma unat_sub_le: "b \<le> a \<Longrightarrow> unat (a - b :: 'a::len word) = unat a - unat b"
  by (simp add: unat_sub word_le_nat_alt)

lemma unat_of_nat_63: "n < 2 ^ 63 \<Longrightarrow> unat (of_nat n :: u64) = n"
  by simp

lemma unat_le_get_less: "8 * length bs \<le> LENGTH('a) \<Longrightarrow> unat (le_get bs :: 'a::len word) < 2 ^ (8 * length bs)"
  by (metis take_bit_le_get order_refl take_bit_nat_less_exp unsigned_take_bit_eq)

section \<open>Decoders\<close>

text \<open>What the reader relies on from a decoder: it never panics, and a slot is far from wrapping 64 bits.\<close>

locale safe_decoder =
  fixes decode :: blockDecoder
  assumes no_panic: "\<not> is_panic (decode k0 k1 md n)"
    and slot_bound: "decode k0 k1 md n = Inr s \<Longrightarrow> s < 2 ^ 33"

definition index_ok :: "index \<Rightarrow> bool" where
  "index_ok idx \<longleftrightarrow> 304 \<le> length (ix_data idx) \<and> length (ix_data idx) < 2 ^ 63 \<and> header_valid (ix_header idx) \<and>
     ix_numRAMEntries idx = NumBlocks (ix_header idx) + 1 \<and>
     length (ix_ramIndexBytes idx) = 10 * unat (ix_numRAMEntries idx) \<and>
     unat (ix_ramIndexOffset idx) + 10 * unat (ix_numRAMEntries idx) = unat (ix_payloadRegionOffset idx) \<and>
     unat (ix_payloadRegionOffset idx) + 32 \<le> length (ix_data idx) \<and> ix_entrySize idx = header_entrySize (ix_header idx)"

lemma is_panic_Inl [simp]: "is_panic (Inl e :: 'a res) \<longleftrightarrow> (\<exists>m. e = GoPanic m)"
  by (cases e) simp_all

lemma is_panic_rbind: "is_panic (rbind m f) \<longleftrightarrow> is_panic m \<or> (\<exists>x. m = Inr x \<and> is_panic (f x))"
  by (cases m) simp_all

section \<open>Opening\<close>

lemma read_section_ok:
  assumes len: "length data < 2 ^ 63" and off: "unat offset \<le> length data"
  shows "\<not> is_panic (read_section data offset)"
    and "read_section data offset = Inr (sec, offset') \<Longrightarrow> unat offset' \<le> length data"
proof -
  let ?n = "of_nat (length data) :: u64"
  have n: "unat ?n = length data"
    using len by simp
  have o4: "unat (offset + 4) = unat offset + 4"
    using len off by (simp add: unat_add_lt)
  have l: "unat (offset + 4 + ucast (len :: u32)) = unat offset + 4 + unat len" for len
  proof -
    have "unat len < 2 ^ 32"
      using unat_lt2p [of len] by simp
    then show ?thesis
      using len off o4 by (subst unat_add_lt) simp_all
  qed
  show "\<not> is_panic (read_section data offset)"
    unfolding read_section_def Let_def word_less_nat_alt n o4 l
    by (simp add: is_panic_rbind from64_def slice_from_def get_le_def slice64_def slice_def o4 l) auto
  assume "read_section data offset = Inr (sec, offset')"
  then show "unat offset' \<le> length data"
    unfolding read_section_def Let_def word_less_nat_alt n o4 l
    by (auto simp: res_simps l split: if_splits)
qed

lemma header_valid_blocks:
  assumes "header_valid h"
  shows "unat (NumBlocks h + 1) = unat (NumBlocks h) + 1"
proof -
  have "NumBlocks h \<noteq> NOT 0"
    using assms by (simp add: header_valid_def)
  then have "1 + NumBlocks h \<noteq> 0"
    by (metis add.commute add_eq_0_iff bit.compl_zero)
  then show ?thesis
    by (metis Suc_eq_plus1 add.commute unatSuc)
qed

lemma ram_index_end:
  assumes "unat (offset :: u64) < 2 ^ 63"
  shows "unat (offset + ucast (m :: u32) * of_nat ramIndexEntrySize) = unat offset + 10 * unat m"
proof -
  have m: "unat m < 2 ^ 32"
    using unat_lt2p [of m] by simp
  have "unat (ucast m * (10 :: u64)) = 10 * unat m"
    using m by (subst unat_mult_lt) simp_all
  then show ?thesis
    using m assms by (simp add: ramIndexEntrySize_def unat_add_lt)
qed

lemma initFromData_Inr:
  assumes len: "304 \<le> length data" "length data < 2 ^ 63" and run: "initFromData nd mm data = Inr idx"
  shows "index_ok idx \<and> ix_data idx = data \<and> ix_mmap idx = mm \<and> \<not> ix_closed idx \<and>
    (\<exists>cfg. nd (BlockAlgorithm (ix_header idx)) cfg (Seed (ix_header idx)) = Inr (ix_decoder idx))"
proof -
  obtain hdr um o1 ac o2 rb dec where h: "decodeHeader (take 64 data) = Inr hdr"
    and s1: "read_section data 64 = Inr (um, o1)" and s2: "read_section data o1 = Inr (ac, o2)"
    and guard: "\<not> o2 + ucast (NumBlocks hdr + 1) * of_nat ramIndexEntrySize > of_nat (length data) - of_nat footerSize"
    and rb: "slice64 o2 (o2 + ucast (NumBlocks hdr + 1) * of_nat ramIndexEntrySize) data = Inr rb"
    and dec: "nd (BlockAlgorithm hdr) ac (Seed hdr) = Inr dec"
    and idx: "idx = \<lparr>ix_mmap = mm, ix_data = data, ix_header = hdr, ix_userMetadata = um,
                   ix_ramIndexBytes = rb, ix_numRAMEntries = NumBlocks hdr + 1,
                   ix_ramIndexOffset = o2, ix_payloadRegionOffset = o2 + ucast (NumBlocks hdr + 1) * of_nat ramIndexEntrySize,
                   ix_metadataRegionOffset = o2 + ucast (NumBlocks hdr + 1) * of_nat ramIndexEntrySize + TotalKeys hdr * of_nat (header_entrySize hdr),
                   ix_entrySize = header_entrySize hdr, ix_decoder = dec, ix_closed = False\<rparr>"
    using run len unfolding initFromData_def Let_def
    by (auto simp: res_simps headerSize_def split: prod.splits if_splits)
  have o1: "unat o1 \<le> length data"
    using read_section_ok(2) [OF len(2) _ s1] len by simp
  then have o2: "unat o2 \<le> length data"
    using read_section_ok(2) [OF len(2) _ s2] by simp
  have e: "unat (o2 + ucast (NumBlocks hdr + 1) * of_nat ramIndexEntrySize) = unat o2 + 10 * unat (NumBlocks hdr + 1)"
    using ram_index_end [of o2] o2 len by simp
  have "unat (of_nat (length data) - of_nat footerSize :: u64) = length data - 32"
    using len by (simp add: footerSize_def unat_sub_le word_le_nat_alt)
  then have bound: "unat o2 + 10 * unat (NumBlocks hdr + 1) \<le> length data - 32"
    using guard by (simp add: word_less_nat_alt e)
  have "length rb = 10 * unat (NumBlocks hdr + 1)"
    using rb bound by (auto simp: slice64_def slice_def e split: if_splits)
  then show ?thesis
    using len bound dec decodeHeader_valid [OF h] by (auto simp: index_ok_def idx e)
qed

lemma initFromData_no_panic:
  assumes len: "304 \<le> length data" "length data < 2 ^ 63" and nd: "\<And>a c s. \<not> is_panic (nd a c s)"
  shows "\<not> is_panic (initFromData nd mm data)"
proof -
  have h: "\<not> is_panic (decodeHeader hb)" for hb
    by (simp add: decodeHeader_def Let_def)
  have s1: "\<not> is_panic (read_section data 64)"
    using read_section_ok(1) [OF len(2), of 64] len by simp
  have s2: "\<not> is_panic (read_section data o1)" if "read_section data 64 = Inr (um, o1)" for um o1
    using read_section_ok(1) [OF len(2), of o1] read_section_ok(2) [OF len(2) _ that] len by simp
  have s3: "\<not> is_panic (slice64 o2 (o2 + ucast m * of_nat ramIndexEntrySize) data)"
    if r: "read_section data 64 = Inr (um, o1)" "read_section data o1 = Inr (ac, o2)"
      and guard: "\<not> o2 + ucast m * of_nat ramIndexEntrySize > of_nat (length data) - of_nat footerSize"
    for um o1 ac o2 and m :: u32
  proof -
    have o2: "unat o2 \<le> length data"
      using read_section_ok(2) [OF len(2) _ r(2)] read_section_ok(2) [OF len(2) _ r(1)] len by simp
    have e: "unat (o2 + ucast m * of_nat ramIndexEntrySize) = unat o2 + 10 * unat m"
      using ram_index_end [of o2] o2 len by simp
    have "unat (of_nat (length data) - of_nat footerSize :: u64) = length data - 32"
      using len by (simp add: footerSize_def unat_sub_le word_le_nat_alt)
    then show ?thesis
      using guard by (simp add: word_less_nat_alt e slice64_def slice_def)
  qed
  have "\<not> is_panic (slice 0 headerSize data)"
    using len by (simp add: headerSize_def)
  then show ?thesis
    unfolding initFromData_def Let_def is_panic_rbind
    using h s1 s2 s3 nd by (simp add: headerSize_def is_panic_rbind split: prod.split)
qed

lemma ramEntry_total:
  assumes ok: "index_ok idx" and i: "unat i < unat (ix_numRAMEntries idx)"
  shows "\<exists>e. ramEntry idx i = Inr e \<and> unat (KeysBefore e) < 2 ^ 40 \<and> unat (MetadataOffset e) < 2 ^ 40"
proof -
  have off: "unat (ucast i * of_nat ramIndexEntrySize :: u64) = 10 * unat i"
    using ram_index_end [of 0 i] by simp
  let ?s = "drop (10 * unat i) (ix_ramIndexBytes idx)"
  have len: "10 * unat i + 10 \<le> length (ix_ramIndexBytes idx)"
    using ok i by (simp add: index_ok_def)
  then have "ramEntry idx i = Inr \<lparr>KeysBefore = le_get (take 5 ?s), MetadataOffset = le_get (take 5 (drop 5 ?s))\<rparr>"
    by (simp add: ramEntry_def from64_def off decodeRAMIndexEntry_eq)
  moreover have ls: "length (take 5 ?s) = 5" "length (take 5 (drop 5 ?s)) = 5"
    using len by simp_all
  moreover have "unat (le_get (take 5 ?s) :: u64) < 2 ^ 40" "unat (le_get (take 5 (drop 5 ?s)) :: u64) < 2 ^ 40"
    using unat_le_get_less [of "take 5 ?s", where 'a = 64] unat_le_get_less [of "take 5 (drop 5 ?s)", where 'a = 64] ls
    by simp_all
  ultimately show ?thesis
    by simp
qed

section \<open>Lookups\<close>

lemma route_bounds:
  assumes "index_ok idx" and "b = FastRange32 h (NumBlocks (ix_header idx))"
  shows "unat b \<le> unat (NumBlocks (ix_header idx))" and "unat (b + 1) = unat b + 1"
proof -
  let ?n = "NumBlocks (ix_header idx)"
  show le: "unat b \<le> unat ?n"
    using unat_FastRange32_less [of ?n h] assms(2) by (cases "unat ?n = 0") (simp_all add: unat_FastRange32)
  have "unat ?n + 1 < 2 ^ 32"
    using header_valid_blocks [of "ix_header idx"] assms(1) unat_lt2p [of "?n + 1"] by (simp add: index_ok_def)
  with le show "unat (b + 1) = unat b + 1"
    by (subst unat_add_lt) simp_all
qed

lemma entrySize_le: "index_ok idx \<Longrightarrow> ix_entrySize idx \<le> 12"
  by (simp add: index_ok_def header_valid_def header_entrySize_def)

lemma entry_offset:
  assumes ok: "index_ok idx" and r: "unat r < 2 ^ 41"
  shows "unat (ix_payloadRegionOffset idx + r * of_nat (ix_entrySize idx)) =
      unat (ix_payloadRegionOffset idx) + unat r * ix_entrySize idx"
    and "unat (ix_payloadRegionOffset idx) + unat r * ix_entrySize idx < 2 ^ 63 + 2 ^ 45"
proof -
  have es: "ix_entrySize idx \<le> 12"
    by (rule entrySize_le [OF ok])
  have p: "unat (ix_payloadRegionOffset idx) < 2 ^ 63"
    using ok by (simp add: index_ok_def)
  have "unat r * ix_entrySize idx \<le> 2 ^ 41 * 12"
    using r es by (intro mult_le_mono) simp_all
  then show "unat (ix_payloadRegionOffset idx) + unat r * ix_entrySize idx < 2 ^ 63 + 2 ^ 45"
    using p by simp
  moreover have u: "unat (of_nat (ix_entrySize idx) :: u64) = ix_entrySize idx"
    using es by simp
  ultimately show "unat (ix_payloadRegionOffset idx + r * of_nat (ix_entrySize idx)) =
      unat (ix_payloadRegionOffset idx) + unat r * ix_entrySize idx"
    using p by (subst unat_add_lt; subst unat_mult_lt) (simp_all only: u, simp_all)
qed

lemma verifyFingerprint_no_panic:
  assumes ok: "index_ok idx" and r: "unat r < 2 ^ 41"
  shows "\<not> is_panic (verifyFingerprintSeparated idx k0 k1 r)"
proof -
  let ?o = "ix_payloadRegionOffset idx + r * of_nat (ix_entrySize idx)" and ?f = "fingerprintSizeInt (ix_header idx)"
  have f: "?f \<le> 4"
    using ok by (simp add: index_ok_def header_valid_def fingerprintSizeInt_def)
  have o: "unat ?o < 2 ^ 63 + 2 ^ 45"
    using entry_offset [OF ok r] by simp
  have u: "unat (?o + of_nat ?f) = unat ?o + ?f"
    using o f by (subst unat_add_lt) simp_all
  have n: "unat (of_nat (length (ix_data idx)) :: u64) = length (ix_data idx)"
    using ok by (simp add: index_ok_def)
  have unp: "\<not> is_panic (unpackFingerprintFromBytes s ?f)" if "?f \<le> length s" for s
    using that f by (auto simp: unpackFingerprintFromBytes_def is_panic_rbind)
  show ?thesis
    unfolding verifyFingerprintSeparated_def Let_def word_less_nat_alt u n
    using unp [of "drop (unat ?o) (ix_data idx)"] by (auto simp: is_panic_rbind from64_def)
qed

context safe_decoder
begin

lemma lookup_safe:
  assumes ok: "index_ok idx" and dec: "ix_decoder idx = decode" and key: "16 \<le> length key"
  shows "\<not> is_panic (lookup idx key c) \<and> (\<forall>r. lookup idx key c = Inr r \<longrightarrow> unat r < 2 ^ 41)"
proof -
  define b where "b = FastRange32 (ReverseBytes64 (le_get (take 8 key))) (NumBlocks (ix_header idx))"
  note rb = route_bounds [OF ok b_def]
  show ?thesis
  proof (cases "b + 1 \<ge> ix_numRAMEntries idx")
    case True
    then show ?thesis
      using key by (simp add: lookup_def Let_def flip: b_def)
  next
    case False
    then have lt: "unat b < unat (ix_numRAMEntries idx)" "unat (b + 1) < unat (ix_numRAMEntries idx)"
      using rb by (simp_all add: word_le_nat_alt)
    obtain e e' where e: "ramEntry idx b = Inr e" "ramEntry idx (b + 1) = Inr e'" "unat (KeysBefore e) < 2 ^ 40"
      using ramEntry_total [OF ok lt(1)] ramEntry_total [OF ok lt(2)] by blast
    have rank: "unat (KeysBefore e + of_nat s) < 2 ^ 41" if "decode k0 k1 md n = Inr s" for k0 k1 md n s
      using slot_bound [OF that] e(3) by (subst unat_add_lt) simp_all
    have sl: "\<not> is_panic (slice64 lo hi (ix_data idx))" if "\<not> lo \<ge> hi" "\<not> hi > of_nat (length (ix_data idx))" for lo hi
      using that ok by (simp add: slice64_def word_le_nat_alt word_less_nat_alt index_ok_def)
    have vf: "\<not> is_panic (verifyFingerprintSeparated idx k0 k1 (KeysBefore e + of_nat s))"
      if "decode k0' k1' md n = Inr s" for k0 k1 k0' k1' md n s
      using verifyFingerprint_no_panic [OF ok rank [OF that]] .
    show ?thesis
      unfolding lookup_def Let_def b_def [symmetric]
      using key False e sl vf rank no_panic dec
      by (auto simp: is_panic_rbind res_simps split: if_splits)
  qed
qed

lemma QueryRank_safe:
  assumes "index_ok idx" and "ix_decoder idx = decode"
  shows "\<not> is_panic (QueryRank idx key)"
  using lookup_safe [OF assms, of key True] by (simp add: QueryRank_def queryInternal_def MinKeySize_def)

lemma QueryPayload_safe:
  assumes ok: "index_ok idx" and dec: "ix_decoder idx = decode"
  shows "\<not> is_panic (QueryPayload idx key)"
proof (cases "16 \<le> length key")
  case True
  note ls = lookup_safe [OF ok dec True, of True]
  let ?f = "fingerprintSizeInt (ix_header idx)" and ?p = "payloadSizeInt (ix_header idx)"
  have fp: "?f \<le> 4" "?p \<le> 8"
    using ok by (simp_all add: index_ok_def header_valid_def fingerprintSizeInt_def payloadSizeInt_def)
  have n: "unat (of_nat (length (ix_data idx)) :: u64) = length (ix_data idx)"
    using ok by (simp add: index_ok_def)
  have rd: "\<not> is_panic (rbind (from64 off (ix_data idx)) (\<lambda>s. rbind (unpackPayloadFromBytes s ?p) (\<lambda>v. Inr (r, v))))"
    if r: "unat r < 2 ^ 41" and off: "off = ix_payloadRegionOffset idx + r * of_nat (ix_entrySize idx) + of_nat ?f"
      and g: "\<not> off + of_nat ?p > of_nat (length (ix_data idx))" for r off
  proof -
    have o: "unat off < 2 ^ 63 + 2 ^ 45 + 4"
      unfolding off using entry_offset [OF ok r] fp by (subst unat_add_lt) simp_all
    have "unat (off + of_nat ?p) = unat off + ?p"
      using o fp by (subst unat_add_lt) simp_all
    then have "unat off + ?p \<le> length (ix_data idx)"
      using g by (simp add: word_less_nat_alt n)
    then show ?thesis
      by (auto simp: is_panic_rbind from64_def unpackPayloadFromBytes_def)
  qed
  show ?thesis
    unfolding QueryPayload_def queryInternal_def Let_def using ls rd
    by (simp add: is_panic_rbind [of "lookup idx key True"])
qed (simp add: QueryPayload_def MinKeySize_def)

lemma QueryBatch_safe:
  assumes "index_ok idx" and "ix_decoder idx = decode" and "r \<in> set (QueryBatch idx keys)"
  shows "\<not> is_panic r"
  using assms QueryRank_safe QueryPayload_safe
  by (auto simp: QueryBatch_def batch_one_def Index_WithPayload_def is_panic_rbind split: sum.splits if_splits)

end

lemma concat_res_panic: "is_panic (concat_res f xs) \<Longrightarrow> \<exists>x\<in>set xs. is_panic (f x)"
  by (induction xs) (auto simp: is_panic_rbind)

lemma concat_res_all:
  "(\<And>x. x \<in> set xs \<Longrightarrow> \<exists>ys. f x = Inr ys \<and> (\<forall>y\<in>set ys. P y)) \<Longrightarrow>
   \<exists>zs. concat_res f xs = Inr zs \<and> (\<forall>z\<in>set zs. P z)"
proof (induction xs)
  case (Cons x xs)
  obtain ys where "f x = Inr ys" "\<forall>y\<in>set ys. P y"
    using Cons.prems by (metis list.set_intros(1))
  moreover obtain zs where "concat_res f xs = Inr zs" "\<forall>z\<in>set zs. P z"
    using Cons.IH Cons.prems by (metis list.set_intros(2))
  ultimately show ?case
    by auto
qed simp

section \<open>Verification\<close>

lemma verify_block_safe:
  assumes ok: "index_ok idx" and b: "unat b < unat (NumBlocks (ix_header idx))"
  shows "\<not> is_panic (verify_block xxh idx b)"
proof -
  have n: "unat (ix_numRAMEntries idx) = unat (NumBlocks (ix_header idx)) + 1"
    using ok header_valid_blocks [of "ix_header idx"] by (simp add: index_ok_def)
  have b1: "unat (b + 1) = unat b + 1"
    using b unat_lt2p [of "NumBlocks (ix_header idx)"] by (subst unat_add_lt) simp_all
  obtain e where e: "ramEntry idx b = Inr e" "unat (KeysBefore e) < 2 ^ 40"
    using ramEntry_total [OF ok, of b] b n by auto
  obtain e' where e': "ramEntry idx (b + 1) = Inr e'" "unat (KeysBefore e') < 2 ^ 40"
    using ramEntry_total [OF ok, of "b + 1"] b b1 n by auto
  have o: "unat (ix_payloadRegionOffset idx + KeysBefore x * of_nat (ix_entrySize idx)) =
      unat (ix_payloadRegionOffset idx) + unat (KeysBefore x) * ix_entrySize idx" if "unat (KeysBefore x) < 2 ^ 40" for x
    using entry_offset(1) [OF ok, of "KeysBefore x"] that by simp
  have len: "unat (of_nat (length (ix_data idx)) :: u64) = length (ix_data idx)"
    using ok by (simp add: index_ok_def)
  show ?thesis
    unfolding verify_block_def e(1) e'(1) rbind_Inr Let_def word_less_nat_alt o [OF e(2)] o [OF e'(2)] len
    by (auto simp: is_panic_rbind slice64_def slice_def o [OF e(2)] o [OF e'(2)] mult_right_mono)
qed

lemma Verify_safe:
  assumes ok: "index_ok idx"
  shows "\<not> is_panic (Verify xxh idx)"
proof -
  let ?n = "length (ix_data idx)"
  have n: "304 \<le> ?n" "?n < 2 ^ 63"
    using ok by (simp_all add: index_ok_def)
  have f: "unat (of_nat ?n - of_nat footerSize :: u64) = ?n - 32"
    using n by (simp add: footerSize_def unat_sub_le word_le_nat_alt)
  have vb: "\<not> is_panic (concat_res (\<lambda>i. verify_block xxh idx (of_nat i)) [0..<unat (NumBlocks (ix_header idx))])"
  proof
    assume "is_panic (concat_res (\<lambda>i. verify_block xxh idx (of_nat i)) [0..<unat (NumBlocks (ix_header idx))])"
    then obtain i where i: "i < unat (NumBlocks (ix_header idx))" "is_panic (verify_block xxh idx (of_nat i))"
      using concat_res_panic by fastforce
    have "i < 2 ^ 32"
      using i(1) unat_lt2p [of "NumBlocks (ix_header idx)"] by simp
    then show False
      using verify_block_safe [OF ok, of "of_nat i" xxh] i by simp
  qed
  have df: "\<not> is_panic (decodeFooter fb)" for fb
    by (simp add: decodeFooter_def)
  show ?thesis
    unfolding Verify_def Let_def using vb df n f
    by (auto simp: is_panic_rbind from64_def slice64_def slice_def word_less_nat_alt)
qed

section \<open>Prefetching\<close>

text \<open>A range given to the adviser lies within the file.\<close>

definition range_in :: "nat \<Rightarrow> byteRange \<Rightarrow> bool" where
  "range_in n r \<longleftrightarrow> unat (fst r) \<le> unat (snd r) \<and> unat (snd r) \<le> n"

lemma willNeed_merge_in:
  assumes "range_in n r" and "\<forall>x\<in>set rs. range_in n x" and "x \<in> set (willNeed_merge r rs)"
  shows "range_in n x"
  using assms
proof (induction r rs rule: willNeed_merge.induct)
  case (2 s e s' e' rs)
  then show ?case
    by (auto simp: range_in_def max_def word_le_nat_alt split: if_splits)
qed simp

lemma willNeed_in: "\<forall>x\<in>set rs. range_in n x \<Longrightarrow> x \<in> set (willNeed rs) \<Longrightarrow> range_in n x"
  by (cases rs) (auto simp: willNeed_def dest!: willNeed_merge_in [rotated 2])

lemma prefetch_block_bound:
  assumes ok: "index_ok idx" and b: "b \<in> set (prefetch_blocks idx keys)"
  shows "unat b + 1 < unat (ix_numRAMEntries idx)" and "unat (b + 1) = unat b + 1"
proof -
  obtain h where h: "b = FastRange32 h (NumBlocks (ix_header idx))" "b + 1 < ix_numRAMEntries idx"
    using b by (auto simp: prefetch_blocks_def Let_def)
  show "unat (b + 1) = unat b + 1"
    by (rule route_bounds(2) [OF ok h(1)])
  with h(2) show "unat b + 1 < unat (ix_numRAMEntries idx)"
    by (simp add: word_less_nat_alt)
qed

lemma prefetch_ram_in:
  assumes ok: "index_ok idx" and b: "b \<in> set (prefetch_blocks idx keys)"
  shows "range_in (length (ix_data idx)) (prefetch_ram idx b)"
proof -
  note bb = prefetch_block_bound [OF ok b]
  have o: "unat (ix_ramIndexOffset idx) + 10 * unat (ix_numRAMEntries idx) \<le> length (ix_data idx)"
    "length (ix_data idx) < 2 ^ 63"
    using ok unfolding index_ok_def by linarith+
  then have s: "unat (ix_ramIndexOffset idx + ucast b * of_nat ramIndexEntrySize) = unat (ix_ramIndexOffset idx) + 10 * unat b"
    by (intro ram_index_end) simp
  then have "unat (ix_ramIndexOffset idx + ucast b * of_nat ramIndexEntrySize + 20) = unat (ix_ramIndexOffset idx) + 10 * unat b + 20"
    using o bb by (subst unat_add_lt) simp_all
  then show ?thesis
    using s o bb by (simp add: range_in_def prefetch_ram_def Let_def ramIndexEntrySize_def)
qed

lemma prefetch_meta_safe:
  assumes ok: "index_ok idx" and b: "b \<in> set (prefetch_blocks idx keys)"
  shows "\<exists>ys. prefetch_meta idx b = Inr ys \<and> (\<forall>y\<in>set ys. range_in (length (ix_data idx)) y)"
proof -
  note bb = prefetch_block_bound [OF ok b]
  obtain e e' where e: "ramEntry idx b = Inr e" "ramEntry idx (b + 1) = Inr e'"
    using ramEntry_total [OF ok, of b] ramEntry_total [OF ok, of "b + 1"] bb by auto
  have "length (ix_data idx) < 2 ^ 63"
    using ok by (simp add: index_ok_def)
  then show ?thesis
    by (auto simp: prefetch_meta_def e Let_def range_in_def word_less_nat_alt word_le_nat_alt)
qed

context safe_decoder
begin

lemma prefetch_entry_safe:
  assumes ok: "index_ok idx" and dec: "ix_decoder idx = decode"
  shows "\<exists>ys. prefetch_entry idx key = Inr ys \<and> (\<forall>y\<in>set ys. range_in (length (ix_data idx)) y)"
proof (cases "16 \<le> length key \<and> (\<exists>r. locate idx key = Inr r)")
  case True
  then obtain r where r: "16 \<le> length key" "locate idx key = Inr r" by blast
  let ?s = "ix_payloadRegionOffset idx + r * of_nat (ix_entrySize idx)"
  have "unat r < 2 ^ 41"
    using lookup_safe [OF ok dec r(1), of False] r(2) by (simp add: locate_def)
  then have "unat ?s < 2 ^ 63 + 2 ^ 45"
    using entry_offset [OF ok] by simp
  then have "unat (?s + of_nat (ix_entrySize idx)) = unat ?s + ix_entrySize idx"
    using entrySize_le [OF ok] by (subst unat_add_lt) simp_all
  moreover have "length (ix_data idx) < 2 ^ 63"
    using ok by (simp add: index_ok_def)
  ultimately show ?thesis
    using r by (simp add: prefetch_entry_def Let_def MinKeySize_def range_in_def word_le_nat_alt)
next
  case False
  have "\<not> is_panic (locate idx key)" if "16 \<le> length key"
    using lookup_safe [OF ok dec that, of False] by (simp add: locate_def)
  then show ?thesis
    using False by (cases "locate idx key") (auto simp: prefetch_entry_def MinKeySize_def)
qed

lemma prefetch_safe:
  assumes ok: "index_ok idx" and dec: "ix_decoder idx = decode"
  shows "\<exists>rs. prefetch idx keys = Inr rs \<and> (\<forall>r\<in>set rs. range_in (length (ix_data idx)) r)"
proof -
  let ?bs = "prefetch_blocks idx keys" and ?in = "range_in (length (ix_data idx))"
  have ram: "\<forall>r\<in>set (map (prefetch_ram idx) ?bs). ?in r"
    using prefetch_ram_in [OF ok] by auto
  obtain ms where ms: "concat_res (prefetch_meta idx) ?bs = Inr ms" "\<forall>r\<in>set ms. ?in r"
    using concat_res_all [of ?bs "prefetch_meta idx" ?in] prefetch_meta_safe [OF ok] by blast
  obtain es where es: "concat_res (prefetch_entry idx) keys = Inr es" "\<forall>r\<in>set es. ?in r"
    using concat_res_all [of keys "prefetch_entry idx" ?in] prefetch_entry_safe [OF ok dec] by blast
  have "\<forall>r\<in>set (sort_key fst es). ?in r"
    using es(2) by simp
  then show ?thesis
    using willNeed_in [OF ram] willNeed_in [OF ms(2)] willNeed_in [of "sort_key fst es"]
    by (auto simp: prefetch_def Let_def ms(1) es(1))
qed

end

end
