(* ===== verification/Index_Writer.thy ===== *)
theory Index_Writer
  imports Header_Codec Block_Algo
begin

text \<open>
  The index file writer, \<^verbatim>\<open>index_writer.go\<close>, and the build configuration of
  \<^verbatim>\<open>builder_options.go\<close>. An operation that may fail but leaves its receiver usable is an action: it
  returns the error, if any, together with the new state. The file at the output path is \<open>iw_disk\<close>
  (\<open>None\<close> when it does not exist), an open descriptor is \<open>iw_open\<close>. The system is an environment
  argument: \<open>sys_io n\<close> is the error of the \<open>n\<close>-th system call, \<open>sys_xxh\<close> is xxHash64 of the
  \<^verbatim>\<open>cespare/xxhash\<close> package, whose streaming digest is determined by the bytes written to it, and
  \<open>sys_extends\<close> says whether \<^verbatim>\<open>preallocFile\<close> changes the file size (Linux and others) or not (macOS).
\<close>

section \<open>Actions\<close>

type_synonym 's act = "'s \<Rightarrow> sherr option \<times> 's"

definition andThen :: "'s act \<Rightarrow> 's act \<Rightarrow> 's act" where
  "andThen a b s = (case a s of (None, s) \<Rightarrow> b s | (Some e, s) \<Rightarrow> (Some e, s))"

definition upd :: "('s \<Rightarrow> 's) \<Rightarrow> 's act" where
  "upd f s = (None, f s)"

lemma andThen_None: "andThen a b s = (None, s'') \<longleftrightarrow> (\<exists>s'. a s = (None, s') \<and> b s' = (None, s''))"
  by (auto simp: andThen_def split: prod.splits option.splits)

lemma upd_None [simp]: "upd f s = (r, s') \<longleftrightarrow> r = None \<and> s' = f s"
  by (auto simp: upd_def)

section \<open>Configuration\<close>

record buildConfig =
  cfg_workers :: int
  cfg_payloadSize :: int
  cfg_fingerprintSize :: int
  cfg_globalSeed :: u64
  cfg_userMetadata :: bytes
  cfg_unsortedTempDir :: string
  cfg_algorithm :: u16
  cfg_totalKeys :: u64

type_synonym buildOption = "buildConfig \<Rightarrow> buildConfig"

definition defaultBuildConfig :: buildConfig where
  "defaultBuildConfig = \<lparr>cfg_workers = 0, cfg_payloadSize = 0, cfg_fingerprintSize = 0,
     cfg_globalSeed = 0x1234567890abcdef, cfg_userMetadata = [], cfg_unsortedTempDir = '''',
     cfg_algorithm = 0, cfg_totalKeys = 0\<rparr>"

definition WithWorkers :: "int \<Rightarrow> buildOption" where "WithWorkers n c = c\<lparr>cfg_workers := n\<rparr>"
definition WithPayload :: "int \<Rightarrow> buildOption" where "WithPayload sizeBytes c = c\<lparr>cfg_payloadSize := sizeBytes\<rparr>"
definition WithFingerprint :: "int \<Rightarrow> buildOption" where "WithFingerprint sizeBytes c = c\<lparr>cfg_fingerprintSize := sizeBytes\<rparr>"
definition WithGlobalSeed :: "u64 \<Rightarrow> buildOption" where "WithGlobalSeed seed c = c\<lparr>cfg_globalSeed := seed\<rparr>"
definition WithMetadata :: "bytes \<Rightarrow> buildOption" where "WithMetadata data c = c\<lparr>cfg_userMetadata := data\<rparr>"
definition WithAlgorithm :: "u16 \<Rightarrow> buildOption" where "WithAlgorithm algo c = c\<lparr>cfg_algorithm := algo\<rparr>"

text \<open>\<open>payloadSize + fingerprintSize\<close>, non-negative once the sizes have been validated.\<close>

definition cfg_entrySize :: "buildConfig \<Rightarrow> nat" where
  "cfg_entrySize cfg = nat (cfg_payloadSize cfg + cfg_fingerprintSize cfg)"

section \<open>The writer and its file\<close>

record sysEnv =
  sys_io :: "nat \<Rightarrow> sherr option"
  sys_xxh :: "bytes \<Rightarrow> u64"
  sys_extends :: bool

record indexWriter =
  iw_disk :: "bytes option"
  iw_open :: bool
  iw_calls :: nat
  iw_payloadRegionOffset :: u64
  iw_metadataRegionOffset :: u64
  iw_userMetadataOffset :: u64
  iw_algoConfigOffset :: u64
  iw_ramIndexOffset :: u64
  iw_metadataWriteOffset :: u64
  iw_ramIndex :: "ramIndexEntry list"
  iw_payloadHasher :: bytes
  iw_metadataHasher :: bytes
  iw_header :: header
  iw_cfg :: buildConfig
  iw_numBlocks :: u32
  iw_estimatedSize :: u64
  iw_userMetadata :: bytes
  iw_keyCount :: u64
  iw_blockCount :: u32

definition syscall :: "sysEnv \<Rightarrow> indexWriter act \<Rightarrow> indexWriter act" where
  "syscall env a iw =
    (let iw' = iw\<lparr>iw_calls := Suc (iw_calls iw)\<rparr> in
     case sys_io env (iw_calls iw) of Some e \<Rightarrow> (Some e, iw') | None \<Rightarrow> a iw')"

text \<open>\<open>WriteAt\<close> fills a gap beyond the end of the file with zeros, as the system does.\<close>

definition file_write :: "bytes \<Rightarrow> nat \<Rightarrow> bytes \<Rightarrow> bytes" where
  "file_write d off src =
    (if length src = 0 then d else copy_at (d @ replicate (off + length src - length d) 0) off src)"

definition file_resize :: "nat \<Rightarrow> bytes \<Rightarrow> bytes" where
  "file_resize n d = take n (d @ replicate (n - length d) 0)"

definition on_file :: "(bytes \<Rightarrow> bytes) \<Rightarrow> indexWriter act" where
  "on_file f iw =
    (case iw_disk iw of
       Some d \<Rightarrow> if iw_open iw then (None, iw\<lparr>iw_disk := Some (f d)\<rparr>) else (Some (ErrOther ''invalid argument''), iw)
     | None \<Rightarrow> (Some (ErrOther ''invalid argument''), iw))"

definition WriteAt :: "sysEnv \<Rightarrow> bytes \<Rightarrow> u64 \<Rightarrow> indexWriter act" where
  "WriteAt env src off =
    (if off \<ge> push_bit 63 1 then (\<lambda>iw. (Some (ErrOther ''negative offset''), iw))
     else syscall env (on_file (\<lambda>d. file_write d (unat off) src)))"

section \<open>Operations\<close>

definition estimateFileSizeForAlgo :: "buildConfig \<Rightarrow> u32 \<Rightarrow> 'b blockOps \<Rightarrow> 'b \<Rightarrow> nat \<Rightarrow> nat \<Rightarrow> u64" where
  "estimateFileSizeForAlgo cfg numBlocks ops algo userMetadataLen algoConfigLen =
    (let variableSectionSize = of_nat (4 + userMetadataLen + 4 + algoConfigLen);
         ramIndexSize = ucast (numBlocks + 1) * of_nat ramIndexEntrySize;
         payloadRegionSize = cfg_totalKeys cfg * of_nat (cfg_entrySize cfg);
         metadataPerBlock = of_nat (op_MaxIndexMetadataSize ops algo) + 16;
         estimatedMetadataSize = ucast numBlocks * metadataPerBlock
     in of_nat headerSize + variableSectionSize + ramIndexSize + payloadRegionSize + estimatedMetadataSize + of_nat footerSize)"

definition newIndexWriter :: "sysEnv \<Rightarrow> buildConfig \<Rightarrow> u32 \<Rightarrow> 'b blockOps \<Rightarrow> 'b \<Rightarrow> indexWriter res" where
  "newIndexWriter env cfg numBlocks ops algo =
    (let userMetadataLen = length (cfg_userMetadata cfg) in
     if userMetadataLen > 2 ^ 32 - 1 then Inl (ErrOther ''user metadata size exceeds maximum'')
     else
       let algoConfigLen = op_GlobalConfigSize ops algo;
           estimatedSize = estimateFileSizeForAlgo cfg numBlocks ops algo userMetadataLen algoConfigLen
       in case sys_io env 0 of Some e \<Rightarrow> Inl e
       | None \<Rightarrow>
         let entrySize = cfg_entrySize cfg;
             userMetadataOffset = of_nat headerSize :: u64;
             algoConfigOffset = userMetadataOffset + 4 + of_nat userMetadataLen;
             ramIndexOffset = algoConfigOffset + 4 + of_nat algoConfigLen;
             ramIndexSize = ucast (numBlocks + 1) * of_nat ramIndexEntrySize;
             payloadRegionOffset = ramIndexOffset + ramIndexSize;
             payloadRegionSize = cfg_totalKeys cfg * of_nat entrySize;
             metadataRegionOffset = payloadRegionOffset + payloadRegionSize
         in case sys_io env 1 of Some e \<Rightarrow> Inl e
         | None \<Rightarrow> Inr
            \<lparr>iw_disk = Some (if sys_extends env then replicate (unat estimatedSize) 0 else []),
             iw_open = True,
             iw_calls = 2,
             iw_payloadRegionOffset = payloadRegionOffset,
             iw_metadataRegionOffset = metadataRegionOffset,
             iw_userMetadataOffset = userMetadataOffset,
             iw_algoConfigOffset = algoConfigOffset,
             iw_ramIndexOffset = ramIndexOffset,
             iw_metadataWriteOffset = metadataRegionOffset,
             iw_ramIndex = [],
             iw_payloadHasher = [],
             iw_metadataHasher = [],
             iw_header = \<lparr>Magic = magic, Version = version, TotalKeys = cfg_totalKeys cfg, NumBlocks = numBlocks,
               PayloadSize = of_int (cfg_payloadSize cfg), FingerprintSize = of_int (cfg_fingerprintSize cfg),
               Seed = cfg_globalSeed cfg, BlockAlgorithm = cfg_algorithm cfg, Reserved = replicate 31 0\<rparr>,
             iw_cfg = cfg,
             iw_numBlocks = numBlocks,
             iw_estimatedSize = estimatedSize,
             iw_userMetadata = cfg_userMetadata cfg,
             iw_keyCount = 0,
             iw_blockCount = 0\<rparr>)"

definition writePayloadsDirect :: "sysEnv \<Rightarrow> bytes \<Rightarrow> u64 \<Rightarrow> indexWriter act" where
  "writePayloadsDirect env data offset iw =
    (if length data = 0 then (None, iw)
     else let absoluteOffset = iw_payloadRegionOffset iw + offset in
       if absoluteOffset + of_nat (length data) > iw_metadataRegionOffset iw
       then (Some (ErrOther ''writePayloadsDirect: write exceeds payload region boundary''), iw)
       else WriteAt env data absoluteOffset iw)"

definition foldPayloadHash :: "u64 \<Rightarrow> indexWriter \<Rightarrow> indexWriter" where
  "foldPayloadHash blockPayloadHash iw =
    iw\<lparr>iw_payloadHasher := iw_payloadHasher iw @ le_put 8 blockPayloadHash\<rparr>"

definition recordAndWriteMetadata :: "sysEnv \<Rightarrow> bytes \<Rightarrow> indexWriter act" where
  "recordAndWriteMetadata env metadata iw =
    (let metadataRelOffset = iw_metadataWriteOffset iw - iw_metadataRegionOffset iw;
         iw = iw\<lparr>iw_ramIndex := iw_ramIndex iw @
                [\<lparr>KeysBefore = iw_keyCount iw, MetadataOffset = metadataRelOffset\<rparr>]\<rparr>
     in if length metadata > 0 then
          andThen (WriteAt env metadata (iw_metadataWriteOffset iw))
            (upd (\<lambda>iw. iw\<lparr>iw_metadataHasher := iw_metadataHasher iw @ metadata,
                          iw_metadataWriteOffset := iw_metadataWriteOffset iw + of_nat (length metadata)\<rparr>)) iw
        else (None, iw))"

definition writeMetadata :: "sysEnv \<Rightarrow> bytes \<Rightarrow> nat \<Rightarrow> indexWriter act" where
  "writeMetadata env metadata numKeys =
    andThen (recordAndWriteMetadata env metadata)
      (upd (\<lambda>iw. iw\<lparr>iw_keyCount := iw_keyCount iw + of_nat numKeys, iw_blockCount := iw_blockCount iw + 1\<rparr>))"

definition commitPayloads :: "sysEnv \<Rightarrow> bytes \<Rightarrow> nat \<Rightarrow> indexWriter act" where
  "commitPayloads env payloads numKeys iw =
    (let entrySize = cfg_entrySize (iw_cfg iw) in
     if entrySize > 0 \<and> numKeys > 0 then
       let payloadOffset = iw_payloadRegionOffset iw + iw_keyCount iw * of_nat entrySize in
       andThen (WriteAt env payloads payloadOffset) (upd (foldPayloadHash (sys_xxh env payloads))) iw
     else (None, foldPayloadHash (sys_xxh env []) iw))"

definition commitBlockWithData :: "sysEnv \<Rightarrow> bytes \<Rightarrow> bytes \<Rightarrow> nat \<Rightarrow> indexWriter act" where
  "commitBlockWithData env metadata payloads numKeys =
    andThen (recordAndWriteMetadata env metadata)
    (andThen (commitPayloads env payloads numKeys)
      (upd (\<lambda>iw. iw\<lparr>iw_keyCount := iw_keyCount iw + of_nat numKeys, iw_blockCount := iw_blockCount iw + 1\<rparr>)))"

text \<open>\<open>close\<close> reports the error of closing, and forgets the descriptor in either case.\<close>

definition iw_close :: "sysEnv \<Rightarrow> indexWriter act" where
  "iw_close env iw =
    (if iw_open iw then syscall env (\<lambda>iw. (None, iw)) (iw\<lparr>iw_open := False\<rparr>) else (None, iw))"

text \<open>\<^verbatim>\<open>errors.Join(primaryErr, iw.close())\<close>: the joined error answers to its first part.\<close>

definition orClose :: "sysEnv \<Rightarrow> indexWriter act \<Rightarrow> indexWriter act" where
  "orClose env a iw = (case a iw of (None, iw) \<Rightarrow> (None, iw) | (Some e, iw) \<Rightarrow> (Some e, snd (iw_close env iw)))"

fun encode_ram_loop :: "nat \<Rightarrow> ramIndexEntry list \<Rightarrow> bytes \<Rightarrow> bytes res" where
  "encode_ram_loop i [] buf = Inr buf"
| "encode_ram_loop i (entry # es) buf =
    (let offset = i * ramIndexEntrySize in
     rbind (slice_from offset buf) (\<lambda>suffix.
     rbind (encodeRAMIndexEntryTo entry suffix) (\<lambda>suffix.
       encode_ram_loop (Suc i) es (take offset buf @ suffix))))"

definition write_res :: "sysEnv \<Rightarrow> bytes res \<Rightarrow> u64 \<Rightarrow> indexWriter act" where
  "write_res env r off iw = (case r of Inl e \<Rightarrow> (Some e, iw) | Inr bs \<Rightarrow> orClose env (WriteAt env bs off) iw)"

definition algoConfigBuf :: "'b blockOps \<Rightarrow> 'b \<Rightarrow> bytes res" where
  "algoConfigBuf ops algo =
    (let algoConfigLen = op_GlobalConfigSize ops algo in
     if algoConfigLen > 0
     then rbind (op_EncodeGlobalConfigInto ops algo (replicate algoConfigLen 0)) (\<lambda>(_, cfg).
       Inr (le_put 4 (of_nat algoConfigLen :: u32) @ cfg))
     else Inr (le_put 4 (of_nat algoConfigLen :: u32)))"

definition finalize :: "sysEnv \<Rightarrow> 'b blockOps \<Rightarrow> 'b \<Rightarrow> indexWriter act" where
  "finalize env ops algo iw =
    (let actualSize = iw_metadataWriteOffset iw + of_nat footerSize in
     if actualSize > iw_estimatedSize iw
     then (Some (ErrOther ''actual size exceeds estimated size''), snd (iw_close env iw))
     else
       let metadataRelOffset = iw_metadataWriteOffset iw - iw_metadataRegionOffset iw;
           iw = iw\<lparr>iw_ramIndex := iw_ramIndex iw @
                  [\<lparr>KeysBefore = iw_keyCount iw, MetadataOffset = metadataRelOffset\<rparr>]\<rparr>;
           payloadRegionHash = sys_xxh env (iw_payloadHasher iw);
           metadataRegionHash = sys_xxh env (iw_metadataHasher iw);
           iw = iw\<lparr>iw_header := (iw_header iw)\<lparr>TotalKeys := iw_keyCount iw, NumBlocks := iw_blockCount iw\<rparr>\<rparr>;
           userMetaBuf = le_put 4 (of_nat (length (iw_userMetadata iw)) :: u32) @ iw_userMetadata iw;
           ramIndexBuf = encode_ram_loop 0 (iw_ramIndex iw) (replicate (length (iw_ramIndex iw) * ramIndexEntrySize) 0);
           ftr = \<lparr>PayloadRegionHash = payloadRegionHash, MetadataRegionHash = metadataRegionHash, fReserved = replicate 16 0\<rparr>
       in andThen (write_res env (encodeHeaderTo (iw_header iw) (replicate headerSize 0)) 0)
         (andThen (write_res env (Inr userMetaBuf) (iw_userMetadataOffset iw))
         (andThen (write_res env (algoConfigBuf ops algo) (iw_algoConfigOffset iw))
         (andThen (write_res env ramIndexBuf (iw_ramIndexOffset iw))
         (andThen (write_res env (encodeFooterTo ftr (replicate footerSize 0)) (iw_metadataWriteOffset iw))
         (andThen (orClose env (syscall env (on_file (file_resize (unat actualSize)))))
         (andThen (orClose env (syscall env (on_file (\<lambda>d. d))))
           (iw_close env))))))) iw)"

end
