(* ===== verification/Sorted_Builder.thy ===== *)
theory Sorted_Builder
  imports Index_Writer
begin

text \<open>
  The builder core and \<open>SortedBuilder\<close>, \<^verbatim>\<open>builder.go\<close>, over an arbitrary block algorithm \<open>ops\<close>.
  The parallel pipeline of \<^verbatim>\<open>builder_parallel.go\<close> is the argument \<open>par\<close>; everything that runs with one
  worker is written out. \<open>ctxErr\<close> is the value of \<^verbatim>\<open>ctx.Err()\<close> when a call looks at the context.
  Buffers are the whole backing arrays: \<^verbatim>\<open>buf[:n]\<close> is \<open>take n buf\<close>. A failed block build leaves the
  block builder with its keys; its scratch arrays are recomputed by the next build.
\<close>

definition contextCheckInterval :: nat where "contextCheckInterval = 10000"
definition maxKeyLength :: nat where "maxKeyLength = 65535"
definition maxKeys :: u64 where "maxKeys = push_bit 40 1 - 1"

record 'b builder =
  bl_cfg :: buildConfig
  bl_numBlocks :: u32
  bl_iw :: indexWriter
  bl_builder :: 'b
  bl_nextBlockToWrite :: u32
  bl_currentBlockIdx :: u32
  bl_firstKey :: bool
  bl_keyCounter :: nat
  bl_closed :: bool
  bl_workers :: int
  bl_metadataBuf :: bytes
  bl_payloadsBuf :: bytes
  bl_lastBlockID :: int
  bl_totalKeysAdded :: u64

record 'b parOps =
  par_check :: "'b builder act"
  par_addKey :: "u64 \<Rightarrow> u64 \<Rightarrow> u64 \<Rightarrow> u32 \<Rightarrow> 'b builder act"
  par_finish :: "'b builder act"
  par_shutdown :: "'b builder \<Rightarrow> 'b builder"
  par_init :: "'b builder \<Rightarrow> 'b builder"

definition newBuilder ::
    "sysEnv \<Rightarrow> (u16 \<Rightarrow> u64 \<Rightarrow> u64 \<Rightarrow> nat \<Rightarrow> nat \<Rightarrow> 'b res) \<Rightarrow> 'b blockOps \<Rightarrow> u64 \<Rightarrow> buildOption list \<Rightarrow> 'b builder res" where
  "newBuilder env newBlockBuilder ops totalKeys opts =
    (if totalKeys > maxKeys then Inl ErrTooManyKeys
     else
       let cfg = fold (\<lambda>opt cfg. opt cfg) opts defaultBuildConfig;
           cfg = cfg\<lparr>cfg_totalKeys := totalKeys\<rparr>
       in if cfg_payloadSize cfg < 0 \<or> cfg_payloadSize cfg > int maxPayloadSize then Inl ErrPayloadTooLarge
          else if cfg_fingerprintSize cfg < 0 \<or> cfg_fingerprintSize cfg > int maxFingerprintSize then Inl ErrFingerprintTooLarge
          else
            rbind (newBlockBuilder (cfg_algorithm cfg) totalKeys (cfg_globalSeed cfg)
                     (nat (cfg_payloadSize cfg)) (nat (cfg_fingerprintSize cfg))) (\<lambda>bldr.
            let numBlocks = op_NumBlocks ops bldr in
            rbind (newIndexWriter env cfg numBlocks ops bldr) (\<lambda>iw.
              let workers = cfg_workers cfg;
                  workers = (if workers \<le> 0 then 1 else workers);
                  workers = (if workers > int (unat numBlocks) then int (unat numBlocks) else workers);
                  workers = (if totalKeys = 0 then 1 else workers)
              in Inr \<lparr>bl_cfg = cfg, bl_numBlocks = numBlocks, bl_iw = iw, bl_builder = bldr,
                   bl_nextBlockToWrite = 0, bl_currentBlockIdx = 0, bl_firstKey = True, bl_keyCounter = 0,
                   bl_closed = False, bl_workers = workers, bl_metadataBuf = [], bl_payloadsBuf = [],
                   bl_lastBlockID = -1, bl_totalKeysAdded = 0\<rparr>)))"

definition validateKey :: "'b builder \<Rightarrow> bytes \<Rightarrow> u64 \<Rightarrow> sherr option" where
  "validateKey b key payload =
    (if length key > maxKeyLength then Some ErrKeyTooLong
     else if length key < MinKeySize then Some ErrKeyTooShort
     else let ps = cfg_payloadSize (bl_cfg b) in
       if ps > 0 \<and> ps < 8 \<and> payload > push_bit (nat ps * 8) 1 - 1 then Some ErrPayloadOverflow
       else None)"

definition checkContextSlow :: "'b parOps \<Rightarrow> sherr option \<Rightarrow> 'b builder act" where
  "checkContextSlow par ctxErr b =
    (let b = b\<lparr>bl_keyCounter := 0\<rparr> in
     case ctxErr of Some e \<Rightarrow> (Some e, b)
     | None \<Rightarrow> if bl_workers b > 1 then par_check par b else (None, b))"

definition currentBlockKeysAdded :: "'b blockOps \<Rightarrow> 'b builder \<Rightarrow> nat" where
  "currentBlockKeysAdded ops b = op_KeysAdded ops (bl_builder b)"

definition resetCurrentBuilder :: "'b blockOps \<Rightarrow> 'b builder \<Rightarrow> 'b builder" where
  "resetCurrentBuilder ops b = b\<lparr>bl_builder := op_Reset ops (bl_builder b)\<rparr>"

definition bl_estimateMetadataSize :: "'b blockOps \<Rightarrow> 'b builder \<Rightarrow> nat" where
  "bl_estimateMetadataSize ops b = op_MaxMetadataSizeForCurrentBlock ops (bl_builder b)"

definition resize_buf :: "bytes \<Rightarrow> nat \<Rightarrow> bytes" where
  "resize_buf buf needed = (if length buf < needed then replicate needed 0 else buf)"

definition on_iw :: "indexWriter act \<Rightarrow> 'b builder act" where
  "on_iw a b = (case a (bl_iw b) of (r, iw) \<Rightarrow> (r, b\<lparr>bl_iw := iw\<rparr>))"

text \<open>The error of building an empty block is dropped by the code, whose length result is then 0.\<close>

definition commitEmptyBlock :: "sysEnv \<Rightarrow> 'b blockOps \<Rightarrow> 'b builder act" where
  "commitEmptyBlock env ops b =
    (let b = resetCurrentBuilder ops b;
         metadataNeeded = bl_estimateMetadataSize ops b;
         buf = resize_buf (bl_metadataBuf b) metadataNeeded
     in case op_BuildSeparatedInto ops (bl_builder b) (take metadataNeeded buf) [] of
          Inl e \<Rightarrow> if is_panic (Inl e :: unit res) then (Some e, b)
                   else on_iw (commitBlockWithData env [] [] 0) (b\<lparr>bl_metadataBuf := buf\<rparr>)
        | Inr (metadataLen, _, _, mdst, _, bb) \<Rightarrow>
            on_iw (commitBlockWithData env (take metadataLen mdst) [] 0)
              (b\<lparr>bl_metadataBuf := mdst @ drop metadataNeeded buf, bl_builder := bb\<rparr>))"

definition buildBlock :: "sysEnv \<Rightarrow> 'b blockOps \<Rightarrow> 'b builder act" where
  "buildBlock env ops b =
    (let numKeys = currentBlockKeysAdded ops b;
         entrySize = cfg_entrySize (bl_cfg b);
         payloadsNeeded = numKeys * entrySize;
         pbuf = resize_buf (bl_payloadsBuf b) payloadsNeeded;
         metadataNeeded = bl_estimateMetadataSize ops b;
         mbuf = resize_buf (bl_metadataBuf b) metadataNeeded
     in case op_BuildSeparatedInto ops (bl_builder b) (take metadataNeeded mbuf) (take payloadsNeeded pbuf) of
          Inl e \<Rightarrow> (Some e, b\<lparr>bl_metadataBuf := mbuf, bl_payloadsBuf := pbuf\<rparr>)
        | Inr (metadataLen, _, builtNumKeys, mdst, pdst, bb) \<Rightarrow>
            on_iw (commitBlockWithData env (take metadataLen mdst) pdst builtNumKeys)
              (b\<lparr>bl_metadataBuf := mdst @ drop metadataNeeded mbuf,
                 bl_payloadsBuf := pdst @ drop payloadsNeeded pbuf, bl_builder := bb\<rparr>))"

text \<open>\<^verbatim>\<open>for b.nextBlockToWrite < blockIdx { commitEmptyBlock; nextBlockToWrite++ }\<close>; \<open>n\<close> is the number
  of iterations left.\<close>

fun emit_gaps :: "nat \<Rightarrow> sysEnv \<Rightarrow> 'b blockOps \<Rightarrow> 'b builder act" where
  "emit_gaps 0 env ops b = (None, b)"
| "emit_gaps (Suc n) env ops b =
    andThen (commitEmptyBlock env ops)
    (andThen (upd (\<lambda>b. b\<lparr>bl_nextBlockToWrite := bl_nextBlockToWrite b + 1\<rparr>)) (emit_gaps n env ops)) b"

definition emitEmptyBlocks :: "sysEnv \<Rightarrow> 'b blockOps \<Rightarrow> u32 \<Rightarrow> 'b builder act" where
  "emitEmptyBlocks env ops blockIdx b = emit_gaps (unat blockIdx - unat (bl_nextBlockToWrite b)) env ops b"

definition addToBlock :: "'b blockOps \<Rightarrow> u64 \<Rightarrow> u64 \<Rightarrow> u64 \<Rightarrow> u32 \<Rightarrow> 'b builder act" where
  "addToBlock ops k0 k1 payload fingerprint b =
    (case op_AddKey ops (bl_builder b) k0 k1 payload fingerprint of
       Inl e \<Rightarrow> (Some e, b) | Inr bb \<Rightarrow> (None, b\<lparr>bl_builder := bb\<rparr>))"

definition addKeySingleThreaded :: "sysEnv \<Rightarrow> 'b blockOps \<Rightarrow> u64 \<Rightarrow> u64 \<Rightarrow> u64 \<Rightarrow> u32 \<Rightarrow> u32 \<Rightarrow> 'b builder act" where
  "addKeySingleThreaded env ops k0 k1 payload fingerprint blockIdx b =
    (if bl_firstKey b then
       andThen (emitEmptyBlocks env ops blockIdx)
       (andThen (upd (\<lambda>b. (resetCurrentBuilder ops b)\<lparr>bl_currentBlockIdx := blockIdx, bl_firstKey := False\<rparr>))
         (addToBlock ops k0 k1 payload fingerprint)) b
     else if blockIdx \<noteq> bl_currentBlockIdx b then
       andThen (\<lambda>b. if currentBlockKeysAdded ops b > 0
                    then andThen (buildBlock env ops)
                           (upd (\<lambda>b. b\<lparr>bl_nextBlockToWrite := bl_nextBlockToWrite b + 1\<rparr>)) b
                    else (None, b))
       (andThen (emitEmptyBlocks env ops blockIdx)
       (andThen (upd (\<lambda>b. (resetCurrentBuilder ops b)\<lparr>bl_currentBlockIdx := blockIdx\<rparr>))
         (addToBlock ops k0 k1 payload fingerprint))) b
     else addToBlock ops k0 k1 payload fingerprint b)"

definition cleanup :: "sysEnv \<Rightarrow> 'b parOps \<Rightarrow> 'b builder \<Rightarrow> sherr option \<times> 'b builder" where
  "cleanup env par b =
    (let b = (if bl_workers b > 1 then par_shutdown par b else b) in
     case on_iw (iw_close env) b of (e1, b) \<Rightarrow>
     case on_iw (syscall env (\<lambda>iw. (None, iw\<lparr>iw_disk := None\<rparr>))) b of (e2, b) \<Rightarrow>
       (case e1 of Some e \<Rightarrow> Some e | None \<Rightarrow> e2, b))"

text \<open>\<^verbatim>\<open>errors.Join(err, b.cleanup())\<close>: the joined error answers to its first part.\<close>

definition orCleanup :: "sysEnv \<Rightarrow> 'b parOps \<Rightarrow> 'b builder act \<Rightarrow> 'b builder act" where
  "orCleanup env par a b = (case a b of (None, b) \<Rightarrow> (None, b) | (Some e, b) \<Rightarrow> (Some e, snd (cleanup env par b)))"

definition finalizeIndex :: "sysEnv \<Rightarrow> 'b parOps \<Rightarrow> 'b blockOps \<Rightarrow> 'b builder act" where
  "finalizeIndex env par ops = orCleanup env par (\<lambda>b. on_iw (finalize env ops (bl_builder b)) b)"

fun trailing_blocks :: "nat \<Rightarrow> sysEnv \<Rightarrow> 'b parOps \<Rightarrow> 'b blockOps \<Rightarrow> 'b builder act" where
  "trailing_blocks 0 env par ops b = (None, b)"
| "trailing_blocks (Suc n) env par ops b =
    andThen (orCleanup env par (commitEmptyBlock env ops)) (trailing_blocks n env par ops) b"

text \<open>\<^verbatim>\<open>for b.iw.blockCount < b.numBlocks\<close>: each round commits one block.\<close>

definition commitTrailingEmptyBlocksAndFinalize :: "sysEnv \<Rightarrow> 'b parOps \<Rightarrow> 'b blockOps \<Rightarrow> 'b builder act" where
  "commitTrailingEmptyBlocksAndFinalize env par ops b =
    andThen (trailing_blocks (unat (bl_numBlocks b) - unat (iw_blockCount (bl_iw b))) env par ops)
      (finalizeIndex env par ops) b"

definition finishSingleThreaded :: "sysEnv \<Rightarrow> 'b parOps \<Rightarrow> 'b blockOps \<Rightarrow> 'b builder act" where
  "finishSingleThreaded env par ops =
    andThen (\<lambda>b. if currentBlockKeysAdded ops b > 0 then orCleanup env par (buildBlock env ops) b else (None, b))
      (commitTrailingEmptyBlocksAndFinalize env par ops)"

definition finishSorted :: "sysEnv \<Rightarrow> 'b parOps \<Rightarrow> 'b blockOps \<Rightarrow> 'b builder act" where
  "finishSorted env par ops b =
    (if bl_closed b then (Some ErrBuilderClosed, b)
     else
       let b = b\<lparr>bl_closed := True\<rparr> in
       if bl_totalKeysAdded b \<noteq> cfg_totalKeys (bl_cfg b)
       then (Some ErrKeyCountMismatch, snd (cleanup env par b))
       else if bl_workers b > 1 then par_finish par b
       else finishSingleThreaded env par ops b)"

definition bl_close :: "sysEnv \<Rightarrow> 'b parOps \<Rightarrow> 'b builder act" where
  "bl_close env par b =
    (if bl_closed b then (None, if bl_workers b > 1 then par_shutdown par b else b)
     else cleanup env par (b\<lparr>bl_closed := True\<rparr>))"

section \<open>SortedBuilder\<close>

definition NewSortedBuilder ::
    "sysEnv \<Rightarrow> 'b parOps \<Rightarrow> (u16 \<Rightarrow> u64 \<Rightarrow> u64 \<Rightarrow> nat \<Rightarrow> nat \<Rightarrow> 'b res) \<Rightarrow> 'b blockOps \<Rightarrow> u64 \<Rightarrow> buildOption list \<Rightarrow> 'b builder res" where
  "NewSortedBuilder env par newBlockBuilder ops totalKeys opts =
    rbind (newBuilder env newBlockBuilder ops totalKeys opts) (\<lambda>b.
      Inr (if bl_workers b > 1 then par_init par b else b))"

definition AddKey :: "sysEnv \<Rightarrow> 'b parOps \<Rightarrow> 'b blockOps \<Rightarrow> sherr option \<Rightarrow> bytes \<Rightarrow> u64 \<Rightarrow> 'b builder act" where
  "AddKey env par ops ctxErr key payload b =
    (if bl_closed b then (Some ErrBuilderClosed, b)
     else if length key > maxKeyLength then (Some ErrKeyTooLong, b)
     else if length key < MinKeySize then (Some ErrKeyTooShort, b)
     else if (let ps = cfg_payloadSize (bl_cfg b) in ps > 0 \<and> ps < 8 \<and> payload > push_bit (nat ps * 8) 1 - 1)
     then (Some ErrPayloadOverflow, b)
     else
       let b = b\<lparr>bl_keyCounter := bl_keyCounter b + 1\<rparr>;
           k0 = le_get (take 8 key) :: u64;
           k1 = le_get (take 8 (drop 8 key)) :: u64;
           prefix = ReverseBytes64 k0;
           blockIdx = FastRange32 prefix (bl_numBlocks b)
       in andThen (\<lambda>b. if bl_keyCounter b \<ge> contextCheckInterval then checkContextSlow par ctxErr b else (None, b))
         (\<lambda>b. if int (unat blockIdx) < bl_lastBlockID b then (Some ErrUnsortedInput, b)
              else
                let b = b\<lparr>bl_lastBlockID := int (unat blockIdx)\<rparr> in
                andThen (if bl_workers b > 1 then par_addKey par k0 k1 payload blockIdx
                         else addKeySingleThreaded env ops k0 k1 payload
                                (extractFingerprint k0 k1 (nat (cfg_fingerprintSize (bl_cfg b)))) blockIdx)
                  (upd (\<lambda>b. b\<lparr>bl_totalKeysAdded := bl_totalKeysAdded b + 1\<rparr>)) b) b)"

definition Finish :: "sysEnv \<Rightarrow> 'b parOps \<Rightarrow> 'b blockOps \<Rightarrow> 'b builder act" where
  "Finish env par ops = finishSorted env par ops"

definition Close :: "sysEnv \<Rightarrow> 'b parOps \<Rightarrow> 'b builder act" where
  "Close env par = bl_close env par"

text \<open>A client that adds a sequence of keys, each with the context value of its call, and finishes.\<close>

fun add_keys :: "sysEnv \<Rightarrow> 'b parOps \<Rightarrow> 'b blockOps \<Rightarrow> (sherr option \<times> bytes \<times> u64) list \<Rightarrow> 'b builder act" where
  "add_keys env par ops [] b = (None, b)"
| "add_keys env par ops ((ctxErr, key, payload) # kvs) b =
    andThen (AddKey env par ops ctxErr key payload) (add_keys env par ops kvs) b"

end
