(* ===== verification/Algorithms.thy ===== *)
theory Algorithms
  imports Bij_Limits Ptr_Builder Index_Safety Sorted_Builder
begin

text \<open>
  The algorithm table of \<^verbatim>\<open>algorithm.go\<close>, and both decoders as instances of \<open>safe_decoder\<close>. A block
  builder is either the bijection builder or the PTRHash builder.
\<close>

definition AlgoBijection :: u16 where "AlgoBijection = 0"
definition AlgoPTRHash :: u16 where "AlgoPTRHash = 1"

definition Algorithm_String :: "u16 \<Rightarrow> string" where
  "Algorithm_String a =
    (if a = AlgoBijection then ''bijection'' else if a = AlgoPTRHash then ''ptrhash'' else ''unknown'')"

definition bij_NumBlocks :: "bijBuilder \<Rightarrow> u32" where "bij_NumBlocks bb = bb_numBlocks bb"
definition bij_GlobalConfigSize :: "bijBuilder \<Rightarrow> nat" where "bij_GlobalConfigSize bb = 0"
definition bij_EncodeGlobalConfigInto :: "bijBuilder \<Rightarrow> bytes \<Rightarrow> (nat \<times> bytes) res" where
  "bij_EncodeGlobalConfigInto bb dst = Inr (0, dst)"

section \<open>Dispatch\<close>

type_synonym algoBuilder = "bijBuilder + ptrBuilder"

definition newBlockBuilder :: "u16 \<Rightarrow> u64 \<Rightarrow> u64 \<Rightarrow> nat \<Rightarrow> nat \<Rightarrow> algoBuilder res" where
  "newBlockBuilder algo totalKeys globalSeed payloadSize fingerprintSize =
    (if algo = AlgoBijection then Inr (Inl (bij_NewBuilder totalKeys globalSeed payloadSize fingerprintSize))
     else if algo = AlgoPTRHash then Inr (Inr (ptr_NewBuilder totalKeys globalSeed payloadSize fingerprintSize))
     else Inl ErrInvalidGeometry)"

definition newBlockDecoder :: "u16 \<Rightarrow> bytes \<Rightarrow> u64 \<Rightarrow> blockDecoder res" where
  "newBlockDecoder algo globalConfig globalSeed =
    (if algo = AlgoBijection then rbind (bij_NewDecoder globalConfig globalSeed) (\<lambda>d. Inr (bij_QuerySlot d))
     else if algo = AlgoPTRHash then rbind (ptr_NewDecoder globalConfig globalSeed) (\<lambda>d. Inr (ptr_QuerySlot d))
     else Inl ErrInvalidGeometry)"

text \<open>A call through the interface goes to the operation of the builder's own type.\<close>

definition algo_ops :: "algoBuilder blockOps" where
  "algo_ops =
    \<lparr>op_NumBlocks = case_sum bij_NumBlocks ptr_NumBlocks,
     op_GlobalConfigSize = case_sum bij_GlobalConfigSize ptr_GlobalConfigSize,
     op_EncodeGlobalConfigInto = case_sum bij_EncodeGlobalConfigInto ptr_EncodeGlobalConfigInto,
     op_AddKey = (\<lambda>b k0 k1 payload fp. case b of
       Inl bb \<Rightarrow> rbind (bij_AddKey bb k0 k1 payload fp) (\<lambda>bb. Inr (Inl bb))
     | Inr p \<Rightarrow> rbind (ptr_AddKey p k0 k1 payload fp) (\<lambda>p. Inr (Inr p))),
     op_KeysAdded = case_sum bij_KeysAdded ptr_KeysAdded,
     op_Reset = map_sum bij_Reset ptr_Reset,
     op_MaxIndexMetadataSize = case_sum bij_MaxIndexMetadataSize ptr_MaxIndexMetadataSize,
     op_MaxMetadataSizeForCurrentBlock =
       case_sum bij_MaxMetadataSizeForCurrentBlock ptr_MaxMetadataSizeForCurrentBlock,
     op_BuildSeparatedInto = (\<lambda>b mdst pdst. case b of
       Inl bb \<Rightarrow> rbind (bij_BuildSeparatedInto bb mdst pdst) (\<lambda>(ml, pl, n, mdst, pdst, bb). Inr (ml, pl, n, mdst, pdst, Inl bb))
     | Inr p \<Rightarrow> rbind (ptr_BuildSeparatedInto p mdst pdst) (\<lambda>(ml, pl, n, mdst, pdst, p). Inr (ml, pl, n, mdst, pdst, Inr p)))\<rparr>"

section \<open>The bijection decoder is safe\<close>

definition small_res :: "nat res \<Rightarrow> bool" where
  "small_res r \<longleftrightarrow> (\<forall>s. r = Inr s \<longrightarrow> s < 2 ^ 33)"

lemma small_res_intros:
  "small_res (Inl e)" "(\<And>x. small_res (f x)) \<Longrightarrow> small_res (rbind m f)"
  "small_res r \<Longrightarrow> small_res r' \<Longrightarrow> small_res (if c then r else r')"
  by (auto simp: small_res_def res_simps)

lemma small_res_sum: "small_res (Inr (unat (a :: u16) + unat (b :: u32)))"
  using unat_lt2p [of a] unat_lt2p [of b] by (simp add: small_res_def)

lemma bij_QuerySlot_bound: "small_res (bij_QuerySlot d k0 k1 md n)"
  unfolding bij_QuerySlot_def Let_def by (intro small_res_intros small_res_sum)

interpretation bij_dec: safe_decoder "bij_QuerySlot d" for d
proof
  fix k0 k1 md n s
  show "\<not> is_panic (bij_QuerySlot d k0 k1 md n)"
    using bij_QuerySlot_outcome [of d k0 k1 md n] by auto
  show "bij_QuerySlot d k0 k1 md n = Inr s \<Longrightarrow> s < 2 ^ 33"
    using bij_QuerySlot_bound by (simp add: small_res_def)
qed


interpretation ptr_dec: safe_decoder "ptr_QuerySlot \<lparr>pd_pilotHPs = initPilotHPs s\<rparr>" for s
proof
  fix k0 k1 md n i
  note o = ptr_QuerySlot_outcome [of "\<lparr>pd_pilotHPs = initPilotHPs s\<rparr>" s k0 k1 md n]
  show "\<not> is_panic (ptr_QuerySlot \<lparr>pd_pilotHPs = initPilotHPs s\<rparr> k0 k1 md n)"
    using o by auto
  show "ptr_QuerySlot \<lparr>pd_pilotHPs = initPilotHPs s\<rparr> k0 k1 md n = Inr i \<Longrightarrow> i < 2 ^ 33"
    using o by auto
qed

lemma newBlockDecoder_safe:
  "\<not> is_panic (newBlockDecoder a c s)" "newBlockDecoder a c s = Inr dec \<Longrightarrow> safe_decoder dec"
  using bij_dec.safe_decoder_axioms ptr_dec.safe_decoder_axioms
  by (auto simp: newBlockDecoder_def bij_NewDecoder_def ptr_NewDecoder_def split: if_splits)

end
