(* ===== verification/File_Image.thy ===== *)
theory File_Image
  imports Index_Writer
begin

text \<open>
  Contents of the index file. \<open>at_off d off xs\<close> says that the bytes \<open>xs\<close> stand at offset \<open>off\<close> of \<open>d\<close>;
  positional writes establish it and keep it for ranges they do not touch. \<open>index_image\<close> is the reference
  layout of a finished file.
\<close>

definition at_off :: "bytes \<Rightarrow> nat \<Rightarrow> bytes \<Rightarrow> bool" where
  "at_off d off xs \<longleftrightarrow> take (length xs) (drop off d) = xs"

lemma at_off_Nil [simp]: "at_off d off []"
  by (simp add: at_off_def)

lemma at_off_bound:
  assumes "at_off d off xs" and "xs \<noteq> []"
  shows "off + length xs \<le> length d"
proof -
  have "min (length d - off) (length xs) = length xs"
    using assms(1) by (metis at_off_def length_drop length_take min.commute)
  moreover have "0 < length xs"
    using assms(2) by simp
  ultimately show ?thesis
    by linarith
qed

lemma at_off_nth: "at_off d off xs \<longleftrightarrow> (\<forall>i<length xs. off + i < length d \<and> d ! (off + i) = xs ! i)"
proof
  assume a: "at_off d off xs"
  show "\<forall>i<length xs. off + i < length d \<and> d ! (off + i) = xs ! i"
  proof (intro allI impI)
    fix i assume i: "i < length xs"
    then have b: "off + length xs \<le> length d"
      using at_off_bound [OF a] by fastforce
    have "xs ! i = take (length xs) (drop off d) ! i"
      using a by (simp add: at_off_def)
    then show "off + i < length d \<and> d ! (off + i) = xs ! i"
      using i b by simp
  qed
next
  assume a: "\<forall>i<length xs. off + i < length d \<and> d ! (off + i) = xs ! i"
  show "at_off d off xs"
  proof (cases "xs = []")
    case False
    then have "off + (length xs - 1) < length d"
      using a by simp
    then have b: "off + length xs \<le> length d"
      using False by (cases xs) simp_all
    show ?thesis
      unfolding at_off_def by (rule nth_equalityI) (use a b in auto)
  qed simp
qed

lemma at_off_append: "at_off d off (xs @ ys) \<longleftrightarrow> at_off d off xs \<and> at_off d (off + length xs) ys"
proof -
  have "(\<forall>i<length (xs @ ys). P i ((xs @ ys) ! i)) \<longleftrightarrow>
      (\<forall>i<length xs. P i (xs ! i)) \<and> (\<forall>i<length ys. P (length xs + i) (ys ! i))" for P
  proof (intro iffI conjI allI impI)
    fix i
    assume "(\<forall>i<length xs. P i (xs ! i)) \<and> (\<forall>i<length ys. P (length xs + i) (ys ! i))" "i < length (xs @ ys)"
    then show "P i ((xs @ ys) ! i)"
      by (cases "i < length xs") (auto simp: nth_append dest: spec [of _ "i - length xs"])
  next
    fix i
    assume a: "\<forall>i<length (xs @ ys). P i ((xs @ ys) ! i)"
    show "P i (xs ! i)" if "i < length xs"
      using a [rule_format, of i] that by (simp add: nth_append)
    show "P (length xs + i) (ys ! i)" if "i < length ys"
      using a [rule_format, of "length xs + i"] that by simp
  qed
  from this [of "\<lambda>i v. off + i < length d \<and> d ! (off + i) = v"] show ?thesis
    unfolding at_off_nth by (simp add: add.assoc)
qed

lemma length_file_write: "length (file_write d off src) = (if src = [] then length d else max (length d) (off + length src))"
  by (auto simp: file_write_def)

lemma nth_file_write:
  assumes "i < length (file_write d off src)"
  shows "file_write d off src ! i =
    (if off \<le> i \<and> i < off + length src then src ! (i - off) else if i < length d then d ! i else 0)"
  using assms by (auto simp: file_write_def nth_copy_at nth_append split: if_splits)

lemma at_off_write: "at_off (file_write d off src) off src"
  by (auto simp: at_off_nth length_file_write nth_file_write)

lemma at_off_write_other:
  assumes "at_off d a xs" and "a + length xs \<le> off \<or> off + length src \<le> a"
  shows "at_off (file_write d off src) a xs"
  using assms by (auto simp: at_off_nth length_file_write nth_file_write)

lemma at_off_resize:
  assumes "at_off d a xs" and "a + length xs \<le> n"
  shows "at_off (file_resize n d) a xs"
  using assms by (auto simp: at_off_nth file_resize_def nth_append)

lemma length_file_resize [simp]: "length (file_resize n d) = n"
  by (simp add: file_resize_def)

lemma at_off_all: "at_off d 0 xs \<Longrightarrow> length d = length xs \<Longrightarrow> d = xs"
  by (simp add: at_off_def)

end
