(* ===== verification/Writer_Correct.thy ===== *)
theory Writer_Correct
  imports File_Image Index_Safety
begin

text \<open>
  The state of the index writer after a sequence of committed blocks. A committed block is its number
  of keys with its metadata and payload bytes; \<open>iw_inv\<close> says that the file holds the metadata and the
  payloads of the blocks in their regions and that the RAM index, the hashers and the counters agree
  with them. A successful commit adds one block, and a successful \<open>finalize\<close> leaves exactly the file
  \<open>index_image\<close>.
\<close>

section \<open>Committed blocks\<close>

type_synonym cblock = "nat \<times> bytes \<times> bytes"

definition cb_keys :: "cblock list \<Rightarrow> nat" where "cb_keys bl = sum_list (map fst bl)"
definition cb_metas :: "cblock list \<Rightarrow> bytes" where "cb_metas bl = concat (map (fst \<circ> snd) bl)"
definition cb_pays :: "cblock list \<Rightarrow> bytes" where "cb_pays bl = concat (map (snd \<circ> snd) bl)"

definition ram_at :: "nat \<Rightarrow> nat \<Rightarrow> ramIndexEntry" where
  "ram_at k m = \<lparr>KeysBefore = of_nat k, MetadataOffset = of_nat m\<rparr>"

text \<open>The RAM-index entry before block \<open>i\<close>; the entry before the block after the last is the sentinel.\<close>

definition ram_before :: "cblock list \<Rightarrow> nat \<Rightarrow> ramIndexEntry" where
  "ram_before bl i = ram_at (cb_keys (take i bl)) (length (cb_metas (take i bl)))"

lemma cb_snoc [simp]:
  "cb_keys (bl @ [(n, md, pl)]) = cb_keys bl + n" "cb_metas (bl @ [(n, md, pl)]) = cb_metas bl @ md"
  "cb_pays (bl @ [(n, md, pl)]) = cb_pays bl @ pl"
  by (simp_all add: cb_keys_def cb_metas_def cb_pays_def)

lemma cb_Nil [simp]: "cb_keys [] = 0" "cb_metas [] = []" "cb_pays [] = []"
  by (simp_all add: cb_keys_def cb_metas_def cb_pays_def)

lemma length_cb_pays: "\<forall>(n, md, pl)\<in>set bl. length pl = n * es \<Longrightarrow> length (cb_pays bl) = cb_keys bl * es"
  by (induction bl) (auto simp: cb_pays_def cb_keys_def algebra_simps)

section \<open>System calls\<close>

lemma syscall_None:
  "syscall env a iw = (None, iw') \<longleftrightarrow> sys_io env (iw_calls iw) = None \<and> a (iw\<lparr>iw_calls := Suc (iw_calls iw)\<rparr>) = (None, iw')"
  by (auto simp: syscall_def Let_def split: option.splits)

lemma on_file_None:
  "on_file f iw = (None, iw') \<longleftrightarrow> (\<exists>d. iw_disk iw = Some d \<and> iw_open iw \<and> iw' = iw\<lparr>iw_disk := Some (f d)\<rparr>)"
  by (auto simp: on_file_def split: option.splits)

lemma WriteAt_None:
  "WriteAt env src off iw = (None, iw') \<longleftrightarrow> unat off < 2 ^ 63 \<and> sys_io env (iw_calls iw) = None \<and>
    (\<exists>d. iw_disk iw = Some d \<and> iw_open iw \<and>
      iw' = iw\<lparr>iw_calls := Suc (iw_calls iw), iw_disk := Some (file_write d (unat off) src)\<rparr>)"
proof -
  have "off \<ge> push_bit 63 1 \<longleftrightarrow> \<not> unat off < 2 ^ 63"
    by (simp add: word_le_nat_alt push_bit_eq_mult not_less)
  then show ?thesis
    by (auto simp: WriteAt_def syscall_None on_file_None)
qed

section \<open>Invariant and commits\<close>

definition iw_const :: "indexWriter \<Rightarrow> u64 \<times> u64 \<times> u64 \<times> u64 \<times> u64 \<times> header \<times> buildConfig \<times> u32 \<times> u64 \<times> bytes" where
  "iw_const iw = (iw_payloadRegionOffset iw, iw_metadataRegionOffset iw, iw_userMetadataOffset iw, iw_algoConfigOffset iw,
     iw_ramIndexOffset iw, iw_header iw, iw_cfg iw, iw_numBlocks iw, iw_estimatedSize iw, iw_userMetadata iw)"

definition iw_inv :: "sysEnv \<Rightarrow> indexWriter \<Rightarrow> cblock list \<Rightarrow> bool" where
  "iw_inv env iw bl \<longleftrightarrow> iw_open iw \<and>
     (\<exists>d. iw_disk iw = Some d \<and> at_off d (unat (iw_metadataRegionOffset iw)) (cb_metas bl) \<and>
        at_off d (unat (iw_payloadRegionOffset iw)) (cb_pays bl)) \<and>
     iw_ramIndex iw = map (ram_before bl) [0..<length bl] \<and>
     iw_payloadHasher iw = concat (map (\<lambda>(n, md, pl). le_put 8 (sys_xxh env pl)) bl) \<and>
     iw_metadataHasher iw = cb_metas bl \<and>
     unat (iw_metadataWriteOffset iw) = unat (iw_metadataRegionOffset iw) + length (cb_metas bl) \<and>
     iw_keyCount iw = of_nat (cb_keys bl) \<and> iw_blockCount iw = of_nat (length bl) \<and>
     (\<forall>(n, md, pl)\<in>set bl. length pl = n * cfg_entrySize (iw_cfg iw))"

lemma ram_before_snoc:
  "map (ram_before (bl @ [b])) [0..<length (bl @ [b])] =
   map (ram_before bl) [0..<length bl] @ [ram_at (cb_keys bl) (length (cb_metas bl))]"
  by (simp add: ram_before_def)

lemma recordAndWriteMetadata_ok:
  assumes inv: "iw_inv env iw bl" and md: "md \<noteq> []"
    and room: "unat (iw_payloadRegionOffset iw) + length (cb_pays bl) \<le> unat (iw_metadataRegionOffset iw)"
    and run: "recordAndWriteMetadata env md iw = (None, iw')"
  obtains d where "iw' = iw\<lparr>iw_ramIndex := iw_ramIndex iw @ [ram_at (cb_keys bl) (length (cb_metas bl))],
      iw_calls := Suc (iw_calls iw), iw_disk := Some d, iw_metadataHasher := cb_metas bl @ md,
      iw_metadataWriteOffset := iw_metadataWriteOffset iw + of_nat (length md)\<rparr>"
    and "at_off d (unat (iw_metadataRegionOffset iw)) (cb_metas bl @ md)"
    and "at_off d (unat (iw_payloadRegionOffset iw)) (cb_pays bl)"
proof -
  have rel: "iw_metadataWriteOffset iw - iw_metadataRegionOffset iw = of_nat (length (cb_metas bl))"
  proof -
    have "iw_metadataWriteOffset iw = of_nat (unat (iw_metadataRegionOffset iw) + length (cb_metas bl))"
      using inv by (intro word_of_unat) (simp add: iw_inv_def)
    then show ?thesis by simp
  qed
  obtain d where d: "iw_disk iw = Some d" "at_off d (unat (iw_metadataRegionOffset iw)) (cb_metas bl)"
    "at_off d (unat (iw_payloadRegionOffset iw)) (cb_pays bl)"
    "iw_metadataHasher iw = cb_metas bl" "iw_keyCount iw = of_nat (cb_keys bl)"
    "unat (iw_metadataWriteOffset iw) = unat (iw_metadataRegionOffset iw) + length (cb_metas bl)"
    using inv by (auto simp: iw_inv_def)
  let ?d = "file_write d (unat (iw_metadataWriteOffset iw)) md"
  have 1: "at_off ?d (unat (iw_metadataRegionOffset iw)) (cb_metas bl @ md)"
    unfolding at_off_append using at_off_write_other [OF d(2), of "unat (iw_metadataWriteOffset iw)" md]
      at_off_write [of d "unat (iw_metadataWriteOffset iw)" md] d(6) by simp
  have 2: "at_off ?d (unat (iw_payloadRegionOffset iw)) (cb_pays bl)"
    using at_off_write_other [OF d(3)] room d(6) by simp
  show ?thesis
    using run md d rel by (intro that [OF _ 1 2]) (auto simp: recordAndWriteMetadata_def Let_def andThen_None WriteAt_None ram_at_def)
qed

lemma commitPayloads_ok:
  assumes open_disk: "iw_disk iw = Some d" and es: "es = cfg_entrySize (iw_cfg iw)"
    and pl: "length pl = n * es" "n = 0 \<longrightarrow> pl = []"
    and pos: "n * es > 0 \<longrightarrow> unat (iw_payloadRegionOffset iw + iw_keyCount iw * of_nat es) = unat (iw_payloadRegionOffset iw) + k * es"
    and run: "commitPayloads env pl n iw = (None, iw')"
  shows "\<exists>c. iw' = iw\<lparr>iw_calls := c, iw_disk := Some (file_write d (unat (iw_payloadRegionOffset iw) + k * es) pl),
      iw_payloadHasher := iw_payloadHasher iw @ le_put 8 (sys_xxh env pl)\<rparr>"
proof (cases "es > 0 \<and> n > 0")
  case True
  then show ?thesis
    using run pos open_disk unfolding commitPayloads_def es [symmetric] Let_def
    by (auto simp: andThen_None WriteAt_None foldPayloadHash_def)
next
  case False
  then have "pl = []"
    using pl by auto
  moreover have "iw = iw\<lparr>iw_calls := iw_calls iw, iw_disk := Some d\<rparr>"
    using open_disk by simp
  ultimately show ?thesis
    using run False unfolding commitPayloads_def es [symmetric] Let_def
    by (auto simp: foldPayloadHash_def file_write_def intro!: exI [of _ "iw_calls iw"])
qed


lemma commitBlockWithData_ok:
  assumes inv: "iw_inv env iw bl" and md: "md \<noteq> []"
    and es: "es = cfg_entrySize (iw_cfg iw)" "es \<le> 12" and pl: "length pl = n * es" "n = 0 \<longrightarrow> pl = []"
    and room: "unat (iw_payloadRegionOffset iw) + (cb_keys bl + n) * es \<le> unat (iw_metadataRegionOffset iw)"
    and small: "unat (iw_metadataRegionOffset iw) + length (cb_metas bl) + length md < 2 ^ 63" "cb_keys bl < 2 ^ 40"
    and run: "commitBlockWithData env md pl n iw = (None, iw')"
  shows "iw_inv env iw' (bl @ [(n, md, pl)])" and "iw_const iw' = iw_const iw"
proof -
  let ?P = "unat (iw_payloadRegionOffset iw)" and ?M = "unat (iw_metadataRegionOffset iw)"
  obtain iw1 iw2 where 1: "recordAndWriteMetadata env md iw = (None, iw1)" and 2: "commitPayloads env pl n iw1 = (None, iw2)"
    and 3: "iw' = iw2\<lparr>iw_keyCount := iw_keyCount iw2 + of_nat n, iw_blockCount := iw_blockCount iw2 + 1\<rparr>"
    using run by (auto simp: commitBlockWithData_def andThen_None)
  have lp: "length (cb_pays bl) = cb_keys bl * es"
    using inv es by (intro length_cb_pays) (simp add: iw_inv_def)
  define K where "K = cb_keys bl * es"
  define N where "N = n * es"
  have room': "?P + K + N \<le> ?M"
    using room unfolding K_def N_def add_mult_distrib by linarith
  have lp: "length (cb_pays bl) = K"
    using lp by (simp add: K_def)
  have "?P + length (cb_pays bl) \<le> ?M"
    using room' lp by linarith
  from recordAndWriteMetadata_ok [OF inv md this 1]
  obtain d where iw1: "iw1 = iw\<lparr>iw_ramIndex := iw_ramIndex iw @ [ram_at (cb_keys bl) (length (cb_metas bl))],
      iw_calls := Suc (iw_calls iw), iw_disk := Some d, iw_metadataHasher := cb_metas bl @ md,
      iw_metadataWriteOffset := iw_metadataWriteOffset iw + of_nat (length md)\<rparr>"
    and d: "at_off d ?M (cb_metas bl @ md)" "at_off d ?P (cb_pays bl)" .
  have kc: "unat (iw_keyCount iw) = cb_keys bl"
    using inv small(2) by (simp add: iw_inv_def)
  have "K \<le> 2 ^ 40 * 12"
    unfolding K_def using small(2) es(2) by (intro mult_le_mono) simp_all
  moreover have "unat (of_nat es :: u64) = es"
    using es(2) by simp
  ultimately have ke: "unat (iw_keyCount iw * of_nat es) = K"
    by (subst unat_mult_lt) (simp_all add: kc K_def)
  have pos: "unat (iw_payloadRegionOffset iw + iw_keyCount iw * of_nat es) = ?P + K"
    using room' small(1) by (subst unat_add_lt) (simp_all add: ke)
  have iw1_f: "iw_disk iw1 = Some d" "iw_cfg iw1 = iw_cfg iw" "iw_keyCount iw1 = iw_keyCount iw"
    "iw_payloadRegionOffset iw1 = iw_payloadRegionOffset iw" "iw_payloadHasher iw1 = iw_payloadHasher iw"
    by (simp_all add: iw1)
  have "es = cfg_entrySize (iw_cfg iw1)"
    using es(1) iw1_f(2) by simp
  from commitPayloads_ok [OF iw1_f(1) this pl, of "cb_keys bl" env iw2] 2
  obtain c where iw2: "iw2 = iw1\<lparr>iw_calls := c, iw_disk := Some (file_write d (?P + K) pl),
      iw_payloadHasher := iw_payloadHasher iw @ le_put 8 (sys_xxh env pl)\<rparr>"
    using pos unfolding iw1_f K_def by blast
  have mw: "unat (iw_metadataWriteOffset iw + of_nat (length md)) = ?M + length (cb_metas bl) + length md"
    using inv small(1) by (subst unat_add_lt) (simp_all add: iw_inv_def)
  let ?d = "file_write d (?P + K) pl"
  have m: "at_off ?d ?M (cb_metas bl @ md)"
    using at_off_write_other [OF d(1), of "?P + K" pl] room' pl(1) by (simp add: N_def)
  have p: "at_off ?d ?P (cb_pays bl @ pl)"
    unfolding at_off_append using at_off_write_other [OF d(2), of "?P + K" pl]
      at_off_write [of d "?P + K" pl] lp by simp
  show "iw_inv env iw' (bl @ [(n, md, pl)])"
    unfolding iw_inv_def ram_before_snoc
    using inv m p mw pl es(1) by (simp add: 3 iw2 iw1 iw_inv_def)
  show "iw_const iw' = iw_const iw"
    by (simp add: 3 iw2 iw1 iw_const_def)
qed

section \<open>The finished file\<close>

definition index_image :: "header \<Rightarrow> bytes \<Rightarrow> ramIndexEntry list \<Rightarrow> bytes \<Rightarrow> bytes \<Rightarrow> footer \<Rightarrow> bytes" where
  "index_image h um ram pays metas ft =
    header_bytes h @ (le_put 4 (of_nat (length um) :: u32) @ um) @ le_put 4 (0 :: u32) @
    concat (map ram_bytes ram) @ pays @ metas @ footer_bytes ft"

lemma encode_ram_loop_ok:
  "length buf = (i + length es) * 10 \<Longrightarrow> encode_ram_loop i es buf = Inr (take (i * 10) buf @ concat (map ram_bytes es))"
proof (induction es arbitrary: i buf)
  case (Cons e es)
  let ?s = "copy_at (drop (i * 10) buf) 0 (ram_bytes e)"
  have s: "length ?s = length (drop (i * 10) buf)" "take 10 ?s = ram_bytes e"
    using Cons.prems by (simp_all add: copy_at_def)
  have l: "length (take (i * 10) buf @ ?s) = (Suc i + length es) * 10"
    using Cons.prems s(1) by simp
  have "take (Suc i * 10) (take (i * 10) buf @ ?s) = take (i * 10) buf @ ram_bytes e"
    using Cons.prems s(2) by (simp add: min_def)
  then show ?case
    using Cons.IH [OF l] Cons.prems by (simp add: ramIndexEntrySize_def encodeRAMIndexEntryTo_eq)
qed simp

lemma length_ram_image: "length (concat (map ram_bytes es)) = 10 * length es"
  by (simp add: length_concat_const [where k = 10])

lemma write_res_None:
  "write_res env r off iw = (None, iw') \<longleftrightarrow> (\<exists>bs. r = Inr bs \<and> WriteAt env bs off iw = (None, iw'))"
  by (auto simp: write_res_def orClose_def split: sum.splits prod.splits option.splits)

lemma orClose_None: "orClose env a iw = (None, iw') \<longleftrightarrow> a iw = (None, iw')"
  by (auto simp: orClose_def split: prod.splits option.splits)

definition final_header :: "indexWriter \<Rightarrow> header" where
  "final_header iw = (iw_header iw)\<lparr>TotalKeys := iw_keyCount iw, NumBlocks := iw_blockCount iw\<rparr>"

definition final_footer :: "sysEnv \<Rightarrow> indexWriter \<Rightarrow> footer" where
  "final_footer env iw = \<lparr>PayloadRegionHash = sys_xxh env (iw_payloadHasher iw),
     MetadataRegionHash = sys_xxh env (iw_metadataHasher iw), fReserved = replicate 16 0\<rparr>"

text \<open>The five writes of \<open>finalize\<close>, in order, and the truncation.\<close>

definition final_disk :: "indexWriter \<Rightarrow> bytes \<Rightarrow> bytes \<Rightarrow> bytes \<Rightarrow> bytes \<Rightarrow> bytes \<Rightarrow> bytes \<Rightarrow> nat \<Rightarrow> bytes" where
  "final_disk iw d hb ub ab rb fb n =
    file_resize n (file_write (file_write (file_write (file_write (file_write d 0 hb)
      (unat (iw_userMetadataOffset iw)) ub) (unat (iw_algoConfigOffset iw)) ab) (unat (iw_ramIndexOffset iw)) rb)
      (unat (iw_metadataWriteOffset iw)) fb)"

lemma finalize_disk:
  assumes cfg: "op_GlobalConfigSize ops algo = 0" and res: "length (Reserved (iw_header iw)) = 31"
    and ram: "ram = iw_ramIndex iw @ [\<lparr>KeysBefore = iw_keyCount iw, MetadataOffset = iw_metadataWriteOffset iw - iw_metadataRegionOffset iw\<rparr>]"
    and run: "finalize env ops algo iw = (None, iw')"
  shows "\<exists>d. iw_disk iw = Some d \<and> iw_disk iw' =
    Some (final_disk iw d (header_bytes (final_header iw)) (le_put 4 (of_nat (length (iw_userMetadata iw)) :: u32) @ iw_userMetadata iw)
      (le_put 4 (0 :: u32)) (concat (map ram_bytes ram)) (footer_bytes (final_footer env iw))
      (unat (iw_metadataWriteOffset iw + of_nat footerSize)))"
proof -
  have h: "encodeHeaderTo (final_header iw) (replicate headerSize 0) = Inr (header_bytes (final_header iw))"
    using encodeHeaderTo_eq [of "final_header iw" "replicate 64 0"] res by (simp add: final_header_def headerSize_def copy_at_def)
  have f: "encodeFooterTo (final_footer env iw) (replicate footerSize 0) = Inr (footer_bytes (final_footer env iw))"
    using encodeFooterTo_eq [of "final_footer env iw" "replicate 32 0"]
    by (simp add: final_footer_def footerSize_def copy_at_def footer_bytes_def)
  have a: "algoConfigBuf ops algo = Inr (le_put 4 (0 :: u32))"
    by (simp add: algoConfigBuf_def cfg)
  have r: "encode_ram_loop 0 ram (replicate (length ram * ramIndexEntrySize) 0) = Inr (concat (map ram_bytes ram))"
    using encode_ram_loop_ok [of "replicate (length ram * ramIndexEntrySize) 0" 0 ram] by (simp add: ramIndexEntrySize_def)
  define iw0 where "iw0 = iw\<lparr>iw_ramIndex := ram, iw_header := final_header iw\<rparr>"
  have "andThen (write_res env (Inr (header_bytes (final_header iw))) 0)
         (andThen (write_res env (Inr (le_put 4 (of_nat (length (iw_userMetadata iw)) :: u32) @ iw_userMetadata iw)) (iw_userMetadataOffset iw))
         (andThen (write_res env (Inr (le_put 4 (0 :: u32))) (iw_algoConfigOffset iw))
         (andThen (write_res env (Inr (concat (map ram_bytes ram))) (iw_ramIndexOffset iw))
         (andThen (write_res env (Inr (footer_bytes (final_footer env iw))) (iw_metadataWriteOffset iw))
         (andThen (orClose env (syscall env (on_file (file_resize (unat (iw_metadataWriteOffset iw + of_nat footerSize))))))
         (andThen (orClose env (syscall env (on_file (\<lambda>d. d))))
           (iw_close env))))))) iw0 = (None, iw')"
    using run unfolding finalize_def Let_def
    by (simp add: iw0_def ram [symmetric] final_header_def [symmetric] final_footer_def [symmetric] h f a r split: if_splits)
  then show ?thesis
    unfolding andThen_None write_res_None orClose_None WriteAt_None syscall_None on_file_None
    by (auto simp: iw0_def final_disk_def iw_close_def syscall_None split: if_splits)
qed

text \<open>Where the sections start, once the writer has been created for \<open>nb\<close> blocks and \<open>tk\<close> keys.\<close>

definition iw_layout :: "indexWriter \<Rightarrow> nat \<Rightarrow> nat \<Rightarrow> bool" where
  "iw_layout iw nb tk \<longleftrightarrow> (let u = length (iw_userMetadata iw) in
     unat (iw_userMetadataOffset iw) = 64 \<and> unat (iw_algoConfigOffset iw) = 68 + u \<and> unat (iw_ramIndexOffset iw) = 72 + u \<and>
     unat (iw_payloadRegionOffset iw) = 72 + u + 10 * (nb + 1) \<and>
     unat (iw_metadataRegionOffset iw) = unat (iw_payloadRegionOffset iw) + tk * cfg_entrySize (iw_cfg iw) \<and>
     length (Reserved (iw_header iw)) = 31)"

lemma final_disk_image:
  assumes "length hb = 64" and "length ub = 4 + u" and "length ab = 4" and "length rb = 10 * (nb + 1)" and "length fb = 32"
    and "unat (iw_userMetadataOffset iw) = 64" and "unat (iw_algoConfigOffset iw) = 68 + u" and "unat (iw_ramIndexOffset iw) = 72 + u"
    and P: "P = 72 + u + 10 * (nb + 1)" and M: "M = P + length pb" and W: "unat (iw_metadataWriteOffset iw) = M + length mb"
    and d: "at_off d P pb" "at_off d M mb" and n: "n = M + length mb + 32"
  shows "final_disk iw d hb ub ab rb fb n = hb @ ub @ ab @ rb @ pb @ mb @ fb"
proof (rule at_off_all)
  note lens = assms(1-5)
  let ?d1 = "file_write d 0 hb" and ?W = "M + length mb"
  let ?d2 = "file_write ?d1 64 ub"
  let ?d3 = "file_write ?d2 (68 + u) ab"
  let ?d4 = "file_write ?d3 (72 + u) rb"
  let ?d5 = "file_write ?d4 ?W fb"
  have h: "at_off ?d5 0 hb" and b: "at_off ?d5 64 ub" and a: "at_off ?d5 (68 + u) ab" and r: "at_off ?d5 (72 + u) rb"
    and f: "at_off ?d5 ?W fb" and p: "at_off ?d5 P pb" and m: "at_off ?d5 M mb"
    using lens d by (intro at_off_write at_off_write_other; simp add: P M)+
  have off: "64 + length ub = 68 + u" "68 + u + length ab = 72 + u" "72 + u + length rb = P" "P + length pb = M"
    using lens P M by simp_all
  have "at_off ?d5 0 (hb @ ub @ ab @ rb @ pb @ mb @ fb)"
    unfolding at_off_append add_0 lens(1) off using h b a r p m f by blast
  then show "at_off (final_disk iw d hb ub ab rb fb n) 0 (hb @ ub @ ab @ rb @ pb @ mb @ fb)"
    unfolding final_disk_def assms(6-8) W using lens by (intro at_off_resize) (simp_all add: n P M)
  show "length (final_disk iw d hb ub ab rb fb n) = length (hb @ ub @ ab @ rb @ pb @ mb @ fb)"
    using lens by (simp add: final_disk_def n P M)
qed

lemma finalize_image:
  assumes inv: "iw_inv env iw bl" and lay: "iw_layout iw (length bl) (cb_keys bl)"
    and cfg: "op_GlobalConfigSize ops algo = 0"
    and small: "unat (iw_metadataRegionOffset iw) + length (cb_metas bl) + 32 < 2 ^ 63"
    and run: "finalize env ops algo iw = (None, iw')"
  shows "iw_disk iw' = Some (index_image (final_header iw) (iw_userMetadata iw)
    (map (ram_before bl) [0..<length bl + 1]) (cb_pays bl) (cb_metas bl) (final_footer env iw))"
proof -
  have iv: "unat (iw_metadataWriteOffset iw) = unat (iw_metadataRegionOffset iw) + length (cb_metas bl)"
    "iw_keyCount iw = of_nat (cb_keys bl)" "iw_ramIndex iw = map (ram_before bl) [0..<length bl]"
    using inv by (simp_all add: iw_inv_def)
  have rel: "iw_metadataWriteOffset iw - iw_metadataRegionOffset iw = of_nat (length (cb_metas bl))"
    using word_of_unat [OF iv(1)] by simp
  define ram where "ram = map (ram_before bl) [0..<length bl + 1]"
  have ram: "ram = iw_ramIndex iw @ [\<lparr>KeysBefore = iw_keyCount iw, MetadataOffset = iw_metadataWriteOffset iw - iw_metadataRegionOffset iw\<rparr>]"
    by (simp add: ram_def iv rel ram_before_def ram_at_def)
  have res: "length (Reserved (iw_header iw)) = 31"
    using lay by (simp add: iw_layout_def Let_def)
  have act: "unat (iw_metadataWriteOffset iw + of_nat footerSize) = unat (iw_metadataRegionOffset iw) + length (cb_metas bl) + 32"
    using small by (subst unat_add_lt) (simp_all add: iv footerSize_def)
  obtain d where d: "iw_disk iw = Some d" and out: "iw_disk iw' =
    Some (final_disk iw d (header_bytes (final_header iw)) (le_put 4 (of_nat (length (iw_userMetadata iw)) :: u32) @ iw_userMetadata iw)
      (le_put 4 (0 :: u32)) (concat (map ram_bytes ram)) (footer_bytes (final_footer env iw))
      (unat (iw_metadataWriteOffset iw + of_nat footerSize)))"
    using finalize_disk [OF cfg res ram run] by blast
  have at: "at_off d (unat (iw_payloadRegionOffset iw)) (cb_pays bl)" "at_off d (unat (iw_metadataRegionOffset iw)) (cb_metas bl)"
    using inv d by (simp_all add: iw_inv_def)
  have lp: "length (cb_pays bl) = cb_keys bl * cfg_entrySize (iw_cfg iw)"
    using inv by (intro length_cb_pays) (simp add: iw_inv_def)
  show ?thesis
    unfolding out index_image_def ram_def [symmetric] option.inject append_assoc
  proof (subst final_disk_image [OF _ _ _ _ _ _ _ _ _ _ iv(1) at act])
    show "unat (iw_payloadRegionOffset iw) = 72 + length (iw_userMetadata iw) + 10 * (length bl + 1)"
      "unat (iw_metadataRegionOffset iw) = unat (iw_payloadRegionOffset iw) + length (cb_pays bl)"
      "unat (iw_userMetadataOffset iw) = 64" "unat (iw_algoConfigOffset iw) = 68 + length (iw_userMetadata iw)"
      "unat (iw_ramIndexOffset iw) = 72 + length (iw_userMetadata iw)"
      using lay lp by (simp_all add: iw_layout_def Let_def)
    show "length (header_bytes (final_header iw)) = 64"
      using res by (simp add: final_header_def)
    show "length (concat (map ram_bytes ram)) = 10 * (length bl + 1)"
      unfolding length_ram_image by (simp add: ram_def)
  qed (simp_all add: footer_bytes_def final_footer_def)
qed

end
