(* ===== verification/Reader_Correct.thy ===== *)
theory Reader_Correct
  imports Writer_Correct
begin

text \<open>
  Reading a finished file. \<open>reads_blocks\<close> describes an opened index whose regions hold a list of
  committed blocks; opening the file \<open>index_image\<close> gives such an index, and lookups in it find the slot
  of a key through the RAM index, the metadata and the stored entry. Verification recomputes the two
  hashes over the same bytes.
\<close>

section \<open>Opening the image\<close>

definition image_index :: "bool \<Rightarrow> bytes \<Rightarrow> header \<Rightarrow> bytes \<Rightarrow> ramIndexEntry list \<Rightarrow> blockDecoder \<Rightarrow> index" where
  "image_index mm data h um ram dec =
    (let o2 = 72 + length um; p = of_nat (o2 + 10 * length ram) in
     \<lparr>ix_mmap = mm, ix_data = data, ix_header = h, ix_userMetadata = um, ix_ramIndexBytes = concat (map ram_bytes ram),
      ix_numRAMEntries = NumBlocks h + 1, ix_ramIndexOffset = of_nat o2, ix_payloadRegionOffset = p,
      ix_metadataRegionOffset = p + TotalKeys h * of_nat (header_entrySize h),
      ix_entrySize = header_entrySize h, ix_decoder = dec, ix_closed = False\<rparr>)"

lemma read_section_at:
  assumes sec: "at_off data off (le_put 4 (of_nat n :: u32) @ sec)" and n: "n = length sec" "n < 2 ^ 32"
    and len: "length data < 2 ^ 63"
  shows "read_section data (of_nat off) = Inr (sec, of_nat (off + 4 + n))"
proof -
  have at: "at_off data off (le_put 4 (of_nat n :: u32))" "at_off data (off + 4) sec"
    using sec by (simp_all add: at_off_append)
  have b: "off + 4 + n \<le> length data"
    using at_off_bound [OF sec] n by (simp add: le_put_def)
  have u: "unat (of_nat off + 4 :: u64) = off + 4" "unat (of_nat off + 4 + of_nat n :: u64) = off + 4 + n"
    using b len n by (simp_all add: unat_add_lt)
  have g: "\<not> of_nat (length data) < (of_nat off + 4 :: u64)" "\<not> of_nat (length data) < (of_nat off + 4 + of_nat n :: u64)"
    using b len by (simp_all add: word_less_nat_alt u)
  have "take 4 (drop off data) = le_put 4 (of_nat n :: u32)"
    using at(1) by (simp add: at_off_def)
  then have get: "get_le 4 (drop off data) = Inr (of_nat n :: u32)"
    using b by (simp add: get_le_def)
  have uc: "ucast (of_nat n :: u32) = (of_nat n :: u64)"
    using n(2) by (simp add: word_unat_eq_iff)
  have sl: "slice64 (of_nat off + 4) (of_nat off + 4 + of_nat n) data = Inr sec"
    unfolding slice64_def u using at(2) b n(1) by (simp add: at_off_def)
  show ?thesis
    unfolding read_section_def Let_def using g b len get
    by (simp add: from64_def uc sl)
qed

lemma initFromData_image:
  assumes data: "data = index_image h um ram pays metas ft" and h: "header_valid h"
    and um: "length um < 2 ^ 32" and ram: "length ram = unat (NumBlocks h) + 1"
    and ft: "length (fReserved ft) = 16" and len: "length data < 2 ^ 63"
    and nd: "nd (BlockAlgorithm h) [] (Seed h) = Inr dec"
  shows "initFromData nd mm data = Inr (image_index mm data h um ram dec)"
proof -
  have res: "length (Reserved h) = 31"
    using h by (simp add: header_valid_def)
  then have hl: "length (header_bytes h) = 64"
    by simp
  have "at_off data 0 data"
    by (simp add: at_off_def)
  then have at: "at_off data 64 (le_put 4 (of_nat (length um) :: u32) @ um)" "at_off data (68 + length um) (le_put 4 (of_nat 0 :: u32) @ [])"
    "at_off data (72 + length um) (concat (map ram_bytes ram))"
    by (subst (asm) (2) data; simp add: index_image_def at_off_append hl)+
  have dl: "length data = 72 + length um + 10 * length ram + length pays + length metas + 32"
    using ft by (simp add: data index_image_def hl length_ram_image footer_bytes_def)
  have hd: "take 64 data = header_bytes h"
    using hl by (simp add: data index_image_def)
  have dh: "decodeHeader (take 64 data) = Inr h"
    using decodeHeader_bytes [OF h, of "[]"] by (simp add: hd)
  have s1: "read_section data (of_nat headerSize) = Inr (um, of_nat (68 + length um))"
    using read_section_at [OF at(1) refl um len] by (simp add: headerSize_def)
  have s2: "read_section data (of_nat (68 + length um)) = Inr ([], of_nat (72 + length um))"
    using read_section_at [OF at(2) _ _ len] by simp
  have e: "of_nat (72 + length um) + ucast (NumBlocks h + 1) * of_nat ramIndexEntrySize = (of_nat (72 + length um + 10 * length ram) :: u64)"
  proof -
    have "unat (of_nat (72 + length um) :: u64) = 72 + length um"
      by (rule unat_of_nat_63) (use um in simp)
    then show ?thesis
      using ram_index_end [of "of_nat (72 + length um)" "NumBlocks h + 1"] um header_valid_blocks [OF h] ram
      by (intro word_of_unat) simp
  qed
  have uE: "unat (of_nat (72 + length um + 10 * length ram) :: u64) = 72 + length um + 10 * length ram"
    "unat (of_nat (72 + length um) :: u64) = 72 + length um"
    by (rule unat_of_nat_63, use dl len in simp)+
  have g: "\<not> of_nat (72 + length um + 10 * length ram) > (of_nat (length data) - of_nat footerSize :: u64)"
  proof -
    have n: "unat (of_nat (length data) :: u64) = length data"
      by (rule unat_of_nat_63 [OF len])
    have "32 \<le> length data"
      using dl by simp
    then have "unat (of_nat (length data) - of_nat footerSize :: u64) = length data - 32"
      by (subst unat_sub_le) (simp_all add: word_le_nat_alt n footerSize_def)
    then show ?thesis
      unfolding word_less_nat_alt uE using dl by linarith
  qed
  have sl: "slice64 (of_nat (72 + length um)) (of_nat (72 + length um + 10 * length ram)) data = Inr (concat (map ram_bytes ram))"
    using at(3) dl by (simp only: slice64_def uE slice_def) (simp add: at_off_def length_ram_image)
  have s0: "slice 0 headerSize data = Inr (take 64 data)"
    using dl by (simp add: headerSize_def)
  show ?thesis
    unfolding initFromData_def Let_def s0 rbind_Inr dh s1 s2 case_prod_conv e sl nd
    by (simp only: if_not_P [OF g] rbind_Inr image_index_def Let_def)
qed

section \<open>An index that reads a list of blocks\<close>

definition reads_blocks :: "index \<Rightarrow> cblock list \<Rightarrow> bool" where
  "reads_blocks idx bl \<longleftrightarrow> \<not> ix_closed idx \<and> header_valid (ix_header idx) \<and>
     ix_entrySize idx = header_entrySize (ix_header idx) \<and>
     NumBlocks (ix_header idx) = of_nat (length bl) \<and> length bl + 1 < 2 ^ 32 \<and> ix_numRAMEntries idx = of_nat (length bl + 1) \<and>
     length (ix_data idx) < 2 ^ 63 \<and>
     (\<forall>i\<le>length bl. ramEntry idx (of_nat i) = Inr (ram_before bl i)) \<and>
     at_off (ix_data idx) (unat (ix_payloadRegionOffset idx)) (cb_pays bl) \<and>
     at_off (ix_data idx) (unat (ix_metadataRegionOffset idx)) (cb_metas bl) \<and>
     unat (ix_metadataRegionOffset idx) = unat (ix_payloadRegionOffset idx) + cb_keys bl * ix_entrySize idx \<and>
     length (ix_data idx) = unat (ix_metadataRegionOffset idx) + length (cb_metas bl) + 32 \<and>
     cb_keys bl < 2 ^ 40 \<and> length (cb_metas bl) < 2 ^ 40 \<and> (\<forall>(n, md, pl)\<in>set bl. length pl = n * ix_entrySize idx)"

lemma reads_blocksD:
  assumes "reads_blocks idx bl"
  shows "header_valid (ix_header idx)" "ix_entrySize idx = header_entrySize (ix_header idx)" "length (ix_data idx) < 2 ^ 63"
    "at_off (ix_data idx) (unat (ix_payloadRegionOffset idx)) (cb_pays bl)"
    "at_off (ix_data idx) (unat (ix_metadataRegionOffset idx)) (cb_metas bl)"
    "unat (ix_metadataRegionOffset idx) = unat (ix_payloadRegionOffset idx) + cb_keys bl * ix_entrySize idx"
    "length (ix_data idx) = unat (ix_metadataRegionOffset idx) + length (cb_metas bl) + 32"
    "\<forall>(n, md, pl)\<in>set bl. length pl = n * ix_entrySize idx" "\<not> ix_closed idx"
  using assms unfolding reads_blocks_def by blast+

lemma cb_keys_take_le: "cb_keys (take i bl) \<le> cb_keys bl"
  unfolding cb_keys_def by (metis append_take_drop_id le_add1 map_append sum_list_append)

lemma cb_metas_take_le: "length (cb_metas (take i bl)) \<le> length (cb_metas bl)"
  unfolding cb_metas_def by (metis append_take_drop_id concat_append le_add1 length_append map_append)

lemma cb_take_Suc:
  assumes "i < length bl" and "bl ! i = (n, md, pl)"
  shows "cb_keys (take (Suc i) bl) = cb_keys (take i bl) + n"
    and "cb_metas (take (Suc i) bl) = cb_metas (take i bl) @ md"
    and "cb_metas bl = cb_metas (take i bl) @ md @ cb_metas (drop (Suc i) bl)"
    and "cb_pays bl = cb_pays (take i bl) @ pl @ cb_pays (drop (Suc i) bl)"
proof -
  have s: "take (Suc i) bl = take i bl @ [(n, md, pl)]"
    using assms by (simp add: take_Suc_conv_app_nth)
  then show "cb_keys (take (Suc i) bl) = cb_keys (take i bl) + n" "cb_metas (take (Suc i) bl) = cb_metas (take i bl) @ md"
    by simp_all
  have d: "bl = take i bl @ (n, md, pl) # drop (Suc i) bl"
    using assms by (metis id_take_nth_drop)
  show "cb_metas bl = cb_metas (take i bl) @ md @ cb_metas (drop (Suc i) bl)"
    by (subst d) (simp add: cb_metas_def)
  show "cb_pays bl = cb_pays (take i bl) @ pl @ cb_pays (drop (Suc i) bl)"
    by (subst d) (simp add: cb_pays_def)
qed

lemma ramEntry_image:
  assumes "ix_ramIndexBytes idx = concat (map ram_bytes ram)" and "i < length ram" and "i < 2 ^ 32"
  shows "ramEntry idx (of_nat i) =
    Inr \<lparr>KeysBefore = take_bit 40 (KeysBefore (ram ! i)), MetadataOffset = take_bit 40 (MetadataOffset (ram ! i))\<rparr>"
proof -
  have off: "unat (ucast (of_nat i :: u32) * of_nat ramIndexEntrySize :: u64) = 10 * i"
    using ram_index_end [of 0 "of_nat i"] assms(3) by simp
  have d: "ram = take i ram @ ram ! i # drop (Suc i) ram"
    using assms(2) by (rule id_take_nth_drop)
  have "concat (map ram_bytes ram) = concat (map ram_bytes (take i ram)) @ ram_bytes (ram ! i) @ concat (map ram_bytes (drop (Suc i) ram))"
    by (subst d) simp
  moreover have "length (concat (map ram_bytes (take i ram))) = 10 * i"
    using assms(2) by (subst length_ram_image) simp
  ultimately have "drop (10 * i) (concat (map ram_bytes ram)) = ram_bytes (ram ! i) @ concat (map ram_bytes (drop (Suc i) ram))"
    by simp
  moreover have "10 * i \<le> length (concat (map ram_bytes ram))"
    using assms(2) by (simp add: length_ram_image)
  ultimately show ?thesis
    unfolding ramEntry_def from64_def off by (simp add: assms(1) decodeRAMIndexEntry_bytes)
qed

lemma take_bit_40: "k < 2 ^ 40 \<Longrightarrow> take_bit 40 (of_nat k :: u64) = of_nat k"
  by (simp add: word_unat_eq_iff unsigned_take_bit_eq take_bit_nat_eq_self)

lemma ram_before_trunc:
  assumes "cb_keys bl < 2 ^ 40" and "length (cb_metas bl) < 2 ^ 40"
  shows "\<lparr>KeysBefore = take_bit 40 (KeysBefore (ram_before bl i)), MetadataOffset = take_bit 40 (MetadataOffset (ram_before bl i))\<rparr> =
    ram_before bl i"
proof -
  have "cb_keys (take i bl) < 2 ^ 40" "length (cb_metas (take i bl)) < 2 ^ 40"
    using assms cb_keys_take_le [of i bl] cb_metas_take_le [of i bl] by simp_all
  then show ?thesis
    by (simp only: ram_before_def ram_at_def ramIndexEntry.simps take_bit_40)
qed

lemma image_reads_blocks:
  assumes data: "data = index_image h um (map (ram_before bl) [0..<length bl + 1]) (cb_pays bl) (cb_metas bl) ft"
    and h: "header_valid h" "NumBlocks h = of_nat (length bl)" "TotalKeys h = of_nat (cb_keys bl)"
    and sz: "length bl + 1 < 2 ^ 32" "cb_keys bl < 2 ^ 40" "length (cb_metas bl) < 2 ^ 40" "length um < 2 ^ 32"
    and pl: "\<forall>(n, md, pl)\<in>set bl. length pl = n * header_entrySize h"
    and ft: "length (fReserved ft) = 16"
    and nd: "nd (BlockAlgorithm h) [] (Seed h) = Inr dec"
  shows "initFromData nd mm data = Inr (image_index mm data h um (map (ram_before bl) [0..<length bl + 1]) dec)"
    and "reads_blocks (image_index mm data h um (map (ram_before bl) [0..<length bl + 1]) dec) bl"
proof -
  let ?ram = "map (ram_before bl) [0..<length bl + 1]"
  let ?idx = "image_index mm data h um ?ram dec"
  define P where "P = 72 + length um + 10 * (length bl + 1)"
  have hl: "length (header_bytes h) = 64"
    using h(1) by (simp add: header_valid_def)
  have es: "header_entrySize h \<le> 12"
    using h(1) by (simp add: header_valid_def header_entrySize_def)
  have lp: "length (cb_pays bl) = cb_keys bl * header_entrySize h"
    by (rule length_cb_pays [OF pl])
  have ke: "cb_keys bl * header_entrySize h \<le> 2 ^ 40 * 12"
    using sz(2) es by (intro mult_le_mono) simp_all
  have rl: "length (concat (map ram_bytes ?ram)) = 10 * (length bl + 1)"
    unfolding length_ram_image by simp
  have dl: "length data = P + cb_keys bl * header_entrySize h + length (cb_metas bl) + 32"
    unfolding data index_image_def length_append hl rl lp using ft by (simp add: footer_bytes_def P_def)
  then have len: "length data < 2 ^ 63"
    using sz ke by (simp add: P_def)
  have nb: "length ?ram = unat (NumBlocks h) + 1"
    using h(2) sz(1) by simp
  show "initFromData nd mm data = Inr ?idx"
    using initFromData_image [of data h um ?ram "cb_pays bl" "cb_metas bl" ft nd dec mm] data h(1) sz(4) nb ft len nd by blast
  have "at_off data 0 data"
    by (simp add: at_off_def)
  then have at: "at_off data P (cb_pays bl)" "at_off data (P + cb_keys bl * header_entrySize h) (cb_metas bl)"
    by (subst (asm) (2) data; simp only: index_image_def at_off_append hl rl length_le_put lp P_def add_0; simp add: add.assoc)+
  have uP: "unat (of_nat P :: u64) = P"
    by (rule unat_of_nat_63) (use dl len in simp)
  have uM: "unat (of_nat P + TotalKeys h * of_nat (header_entrySize h) :: u64) = P + cb_keys bl * header_entrySize h"
  proof -
    have "of_nat P + TotalKeys h * of_nat (header_entrySize h) = (of_nat (P + cb_keys bl * header_entrySize h) :: u64)"
      by (simp add: h(3))
    then show ?thesis
      using unat_of_nat_63 [of "P + cb_keys bl * header_entrySize h"] dl len by simp
  qed
  have f: "ix_payloadRegionOffset ?idx = of_nat P" "ix_metadataRegionOffset ?idx = of_nat P + TotalKeys h * of_nat (header_entrySize h)"
    "ix_data ?idx = data" "ix_header ?idx = h" "ix_entrySize ?idx = header_entrySize h" "\<not> ix_closed ?idx"
    "ix_numRAMEntries ?idx = of_nat (length bl + 1)" "ix_ramIndexBytes ?idx = concat (map ram_bytes ?ram)"
    by (simp_all add: image_index_def Let_def P_def h(2) add.commute del: map_upt_Suc)
  have ram: "ramEntry ?idx (of_nat i) = Inr (ram_before bl i)" if "i \<le> length bl" for i
  proof -
    have "?ram ! i = ram_before bl i"
      using that by (simp del: upt_Suc add: nth_append)
    then show ?thesis
      using ramEntry_image [OF f(8), of i] ram_before_trunc [OF sz(2,3), of i] that sz(1) by simp
  qed
  show "reads_blocks ?idx bl"
    unfolding reads_blocks_def f uP uM using f(6) h sz len at dl ram pl by (simp del: upt_Suc)
qed

section \<open>Lookups\<close>

lemma unat_add_of_nat: "unat a < 2 ^ 63 \<Longrightarrow> k < 2 ^ 63 \<Longrightarrow> unat (a + of_nat k :: u64) = unat a + k"
  by (subst unat_add_lt) simp_all

definition key_k0 :: "bytes \<Rightarrow> u64" where "key_k0 key = le_get (take 8 key)"
definition key_k1 :: "bytes \<Rightarrow> u64" where "key_k1 key = le_get (take 8 (drop 8 key))"

lemma lookup_block:
  assumes rd: "reads_blocks idx bl" and key: "16 \<le> length key" and i: "i < length bl" and b: "bl ! i = (n, md, pl)"
    and route: "blockRoute (key_k0 key) (of_nat (length bl)) = of_nat i"
  shows "lookup idx key c =
    (if n = 0 then Inl ErrNotFound
     else if md = [] then Inl ErrCorruptedIndex
     else rbind (ix_decoder idx (key_k0 key) (key_k1 key) md n) (\<lambda>s.
       let rank = of_nat (cb_keys (take i bl)) + of_nat s in
       if c \<and> hasFingerprint (ix_header idx) then
         rbind (verifyFingerprintSeparated idx (key_k0 key) (key_k1 key) rank) (\<lambda>ok. if \<not> ok then Inl ErrNotFound else Inr rank)
       else Inr rank))"
proof -
  let ?K = "cb_keys (take i bl)" and ?D = "length (cb_metas (take i bl))" and ?M = "unat (ix_metadataRegionOffset idx)"
  note r = rd [unfolded reads_blocks_def]
  note tk = cb_take_Suc [OF i b]
  have rD: "length (ix_data idx) < 2 ^ 63" "length (ix_data idx) = ?M + length (cb_metas bl) + 32"
    using r by blast+
  have small: "?K + n < 2 ^ 40" "?D + length md < 2 ^ 40"
    using cb_keys_take_le [of "Suc i" bl] cb_metas_take_le [of "Suc i" bl] r tk by simp_all
  have nb: "FastRange32 (ReverseBytes64 (key_k0 key)) (NumBlocks (ix_header idx)) = of_nat i"
    using route r by (simp add: blockRoute_def)
  have k1: "key_k1 key = key_k0 (drop 8 key)"
    by (simp add: key_k0_def key_k1_def)
  have guard: "\<not> of_nat i + 1 \<ge> ix_numRAMEntries idx"
  proof -
    have "unat (of_nat i + 1 :: u32) = i + 1" "unat (of_nat (length bl + 1) :: u32) = length bl + 1"
      using i r by (simp_all add: unat_add_lt)
    then show ?thesis
      using r i by (simp add: word_le_nat_alt)
  qed
  have e: "ramEntry idx (of_nat i) = Inr (ram_at ?K ?D)"
    using r i by (simp add: ram_before_def)
  have e': "ramEntry idx (of_nat i + 1) = Inr (ram_at (?K + n) (?D + length md))"
  proof -
    have "ramEntry idx (of_nat (Suc i)) = Inr (ram_before bl (Suc i))"
      using r i by (simp del: of_nat_Suc)
    then show ?thesis
      by (simp add: ram_before_def tk add.commute)
  qed
  have uk: "unat (of_nat ?K :: u64) = ?K" "unat (of_nat (?K + n) :: u64) = ?K + n"
    by (rule unat_of_nat_63, use small in simp)+
  have ord: "\<not> KeysBefore (ram_at (?K + n) (?D + length md)) < KeysBefore (ram_at ?K ?D)"
    using uk by (simp only: ram_at_def ramIndexEntry.simps word_less_nat_alt)
  have kib: "unat (KeysBefore (ram_at (?K + n) (?D + length md)) - KeysBefore (ram_at ?K ?D)) = n"
    unfolding ram_at_def ramIndexEntry.simps using uk by (simp add: unat_sub_le word_le_nat_alt del: of_nat_add)
  have m63: "?M < 2 ^ 63" "?D < 2 ^ 63" "?D + length md < 2 ^ 63"
    using rD small(2) by simp_all
  have um: "unat (ix_metadataRegionOffset idx + of_nat ?D) = ?M + ?D"
    "unat (ix_metadataRegionOffset idx + of_nat (?D + length md)) = ?M + ?D + length md"
    unfolding unat_add_of_nat [OF m63(1,2)] unat_add_of_nat [OF m63(1,3)] by simp_all
  have lenM: "?M + ?D + length md \<le> length (ix_data idx)" "unat (of_nat (length (ix_data idx)) :: u64) = length (ix_data idx)"
  proof -
    show "unat (of_nat (length (ix_data idx)) :: u64) = length (ix_data idx)"
      by (rule unat_of_nat_63) (use r in blast)
    show "?M + ?D + length md \<le> length (ix_data idx)"
      using rD(2) arg_cong [OF tk(3), of length] by simp
  qed
  have mg: "(ix_metadataRegionOffset idx + of_nat ?D \<ge> ix_metadataRegionOffset idx + of_nat (?D + length md) \<or>
      ix_metadataRegionOffset idx + of_nat (?D + length md) > of_nat (length (ix_data idx))) \<longleftrightarrow> md = []"
    unfolding word_le_nat_alt word_less_nat_alt um lenM(2) using lenM(1) by auto
  have sl: "slice64 (ix_metadataRegionOffset idx + of_nat ?D) (ix_metadataRegionOffset idx + of_nat (?D + length md)) (ix_data idx) = Inr md"
  proof -
    have "at_off (ix_data idx) ?M (cb_metas (take i bl) @ md @ cb_metas (drop (Suc i) bl))"
      unfolding tk(3) [symmetric] using r by blast
    then have "at_off (ix_data idx) (?M + ?D) md"
      by (simp add: at_off_append)
    then show ?thesis
      unfolding slice64_def um using lenM(1) by (simp add: at_off_def)
  qed
  show ?thesis
    unfolding lookup_def Let_def key_k0_def [symmetric] key_k1_def [symmetric] nb if_not_P [OF guard] e e' rbind_Inr
      if_not_P [OF ord] kib
    using key sl mg unfolding ram_at_def ramIndexEntry.simps k1 by simp
qed


section \<open>Entries\<close>

text \<open>The entry of slot \<open>s\<close> of block \<open>i\<close> stands at its global rank in the payload region.\<close>

lemma entry_at_rank:
  assumes rd: "reads_blocks idx bl" and i: "i < length bl" and b: "bl ! i = (n, md, pl)" and s: "s < n"
    and e: "take (ix_entrySize idx) (drop (s * ix_entrySize idx) pl) = e"
  shows "at_off (ix_data idx) (unat (ix_payloadRegionOffset idx) + (cb_keys (take i bl) + s) * ix_entrySize idx) e"
    and "length e = ix_entrySize idx"
    and "unat (ix_payloadRegionOffset idx) + (cb_keys (take i bl) + s) * ix_entrySize idx + ix_entrySize idx \<le> length (ix_data idx)"
proof -
  let ?P = "unat (ix_payloadRegionOffset idx)" and ?es = "ix_entrySize idx"
  note r = reads_blocksD [OF rd]
  note pl = r(8)
  then have lpl: "length pl = n * ?es"
    using nth_mem [OF i] b by auto
  have lt: "length (cb_pays (take i bl)) = cb_keys (take i bl) * ?es"
    using pl by (intro length_cb_pays) (auto dest: in_set_takeD)
  have "at_off (ix_data idx) ?P (cb_pays (take i bl) @ pl @ cb_pays (drop (Suc i) bl))"
    unfolding cb_take_Suc(4) [OF i b, symmetric] by (rule r(4))
  then have at: "at_off (ix_data idx) (?P + cb_keys (take i bl) * ?es) pl"
    by (simp add: at_off_append lt)
  have fit: "s * ?es + ?es \<le> length pl"
    unfolding lpl by (rule slot_fits [OF s])
  then show le: "length e = ?es"
    using e by auto
  have split: "pl = take (s * ?es) pl @ e @ drop ?es (drop (s * ?es) pl)"
    using e by (metis append_take_drop_id)
  have "at_off (ix_data idx) (?P + cb_keys (take i bl) * ?es + s * ?es) e"
    using at fit by (subst (asm) split) (simp add: at_off_append)
  then show "at_off (ix_data idx) (?P + (cb_keys (take i bl) + s) * ?es) e"
    by (simp add: add_mult_distrib add.assoc)
  have "(cb_keys (take i bl) + s) * ?es + ?es \<le> cb_keys bl * ?es"
    using slot_fits [of "cb_keys (take i bl) + s" "cb_keys bl" ?es] s cb_take_Suc(1) [OF i b] cb_keys_take_le [of "Suc i" bl] by simp
  then show "?P + (cb_keys (take i bl) + s) * ?es + ?es \<le> length (ix_data idx)"
    using r(6,7) by linarith
qed

lemma rank_offset:
  assumes rd: "reads_blocks idx bl" and r: "r < cb_keys bl"
  shows "unat (ix_payloadRegionOffset idx + of_nat r * of_nat (ix_entrySize idx)) = unat (ix_payloadRegionOffset idx) + r * ix_entrySize idx"
    and "unat (ix_payloadRegionOffset idx) + r * ix_entrySize idx + ix_entrySize idx < 2 ^ 63"
    and "unat (of_nat (length (ix_data idx)) :: u64) = length (ix_data idx)"
proof -
  have "r * ix_entrySize idx + ix_entrySize idx \<le> cb_keys bl * ix_entrySize idx"
    by (rule slot_fits [OF r])
  then show lt: "unat (ix_payloadRegionOffset idx) + r * ix_entrySize idx + ix_entrySize idx < 2 ^ 63"
    using reads_blocksD(3,6,7) [OF rd] by linarith
  have "unat (ix_payloadRegionOffset idx + of_nat (r * ix_entrySize idx)) = unat (ix_payloadRegionOffset idx) + r * ix_entrySize idx"
    using lt by (intro unat_add_of_nat) linarith+
  then show "unat (ix_payloadRegionOffset idx + of_nat r * of_nat (ix_entrySize idx)) = unat (ix_payloadRegionOffset idx) + r * ix_entrySize idx"
    by simp
  show "unat (of_nat (length (ix_data idx)) :: u64) = length (ix_data idx)"
    by (rule unat_of_nat_63 [OF reads_blocksD(3) [OF rd]])
qed

lemma le_get_Nil: "le_get [] = 0"
  by (simp add: le_get_def)

lemma unpackFingerprint_at: "fs \<le> 4 \<Longrightarrow> fs \<le> length s \<Longrightarrow> unpackFingerprintFromBytes s fs = Inr (le_get (take fs s))"
  by (auto simp: unpackFingerprintFromBytes_def min_def ucast_le_get le_get_Nil)

lemma unpackPayload_at: "ps \<le> 8 \<Longrightarrow> ps \<le> length s \<Longrightarrow> unpackPayloadFromBytes s ps = Inr (le_get (take ps s))"
  by (auto simp: unpackPayloadFromBytes_def ucast_le_get)


lemma query_found:
  assumes rd: "reads_blocks idx bl" and key: "16 \<le> length key" and i: "i < length bl" and b: "bl ! i = (n, md, pl)"
    and route: "blockRoute (key_k0 key) (of_nat (length bl)) = of_nat i" and md: "md \<noteq> []"
    and dec: "ix_decoder idx (key_k0 key) (key_k1 key) md n = Inr s" and s: "s < n"
    and fs: "fs = fingerprintSizeInt (ix_header idx)" and ps: "ps = payloadSizeInt (ix_header idx)"
    and e: "take (ix_entrySize idx) (drop (s * ix_entrySize idx) pl) =
      entry_bytes fs ps (extractFingerprint (key_k0 key) (key_k1 key) fs) payload"
  shows "QueryRank idx key = Inr (of_nat (cb_keys (take i bl) + s))"
    and "QueryPayload idx key = Inr (of_nat (cb_keys (take i bl) + s), take_bit (8 * ps) payload)"
proof -
  let ?fp = "extractFingerprint (key_k0 key) (key_k1 key) fs" and ?P = "unat (ix_payloadRegionOffset idx)"
  define r where "r = cb_keys (take i bl) + s"
  note R = reads_blocksD [OF rd]
  have es: "ix_entrySize idx = fs + ps" "fs \<le> 4" "ps \<le> 8"
    using R(1,2) by (simp_all add: fs ps header_entrySize_def fingerprintSizeInt_def payloadSizeInt_def header_valid_def)
  have rk: "r < cb_keys bl"
    using s cb_take_Suc(1) [OF i b] cb_keys_take_le [of "Suc i" bl] by (simp add: r_def)
  note ro = rank_offset [OF rd rk]
  note en = entry_at_rank [OF rd i b s e, folded r_def]
  have at: "at_off (ix_data idx) (?P + r * ix_entrySize idx) (le_put fs ?fp)"
    "at_off (ix_data idx) (?P + r * ix_entrySize idx + fs) (le_put ps payload)"
    using en(1) by (simp_all add: entry_bytes_def at_off_append)
  have fp: "take_bit (8 * fs) ?fp = ?fp"
    using extractFingerprint_bits [OF es(2)] by (simp add: take_bit_take_bit)
  have ufs: "unat (ix_payloadRegionOffset idx + of_nat r * of_nat (ix_entrySize idx) + of_nat fs) = ?P + r * ix_entrySize idx + fs"
    using unat_add_of_nat [of "ix_payloadRegionOffset idx + of_nat r * of_nat (ix_entrySize idx)" fs] ro(1,2) es by simp
  have vf: "verifyFingerprintSeparated idx (key_k0 key) (key_k1 key) (of_nat r) = Inr True"
  proof -
    have g: "\<not> ix_payloadRegionOffset idx + of_nat r * of_nat (ix_entrySize idx) + of_nat fs > of_nat (length (ix_data idx))"
      unfolding word_less_nat_alt ufs ro(3) using en(3) es(1) by linarith
    have "unpackFingerprintFromBytes (drop (?P + r * ix_entrySize idx) (ix_data idx)) fs = Inr ?fp"
      using at(1) en(3) es fp by (subst unpackFingerprint_at) (simp_all add: at_off_def le_get_le_put)
    then show ?thesis
      unfolding verifyFingerprintSeparated_def Let_def fs [symmetric] if_not_P [OF g] from64_def ro(1) using en(3) by simp
  qed
  have lk: "queryInternal idx key = Inr (of_nat r)"
    unfolding queryInternal_def lookup_block [OF rd key i b route] using s md dec vf by (simp add: r_def Let_def)
  then show "QueryRank idx key = Inr (of_nat (cb_keys (take i bl) + s))"
    using key R(9) by (simp add: QueryRank_def MinKeySize_def r_def)
  have ups: "unat (ix_payloadRegionOffset idx + of_nat r * of_nat (ix_entrySize idx) + of_nat fs + of_nat ps) = ?P + r * ix_entrySize idx + fs + ps"
    using unat_add_of_nat [of "ix_payloadRegionOffset idx + of_nat r * of_nat (ix_entrySize idx) + of_nat fs" ps] ufs ro(2) es by simp
  have g: "\<not> ix_payloadRegionOffset idx + of_nat r * of_nat (ix_entrySize idx) + of_nat fs + of_nat ps > of_nat (length (ix_data idx))"
    unfolding word_less_nat_alt ups ro(3) using en(3) es(1) by linarith
  have pay: "unpackPayloadFromBytes (drop (?P + r * ix_entrySize idx + fs) (ix_data idx)) ps = Inr (take_bit (8 * ps) payload)"
    using at(2) en(3) es by (subst unpackPayload_at) (simp_all add: at_off_def le_get_le_put)
  have k: "\<not> length key < MinKeySize"
    using key by (simp add: MinKeySize_def)
  show "QueryPayload idx key = Inr (of_nat (cb_keys (take i bl) + s), take_bit (8 * ps) payload)"
    unfolding QueryPayload_def if_not_P [OF R(9)] if_not_P [OF k] lk rbind_Inr Let_def fs [symmetric] ps [symmetric]
      if_not_P [OF g] from64_def ufs r_def [symmetric] using en(3) es(1) pay by simp
qed


lemma query_empty_block:
  assumes "reads_blocks idx bl" and "16 \<le> length key" and "i < length bl" and "bl ! i = (0, md, pl)"
    and "blockRoute (key_k0 key) (of_nat (length bl)) = of_nat i"
  shows "QueryRank idx key = Inl ErrNotFound"
  using lookup_block [OF assms] reads_blocksD(9) [OF assms(1)] assms(2)
  by (simp add: QueryRank_def MinKeySize_def queryInternal_def)

section \<open>Verification\<close>

lemma verify_block_ok:
  assumes rd: "reads_blocks idx bl" and i: "i < length bl" and b: "bl ! i = (n, md, pl)"
  shows "verify_block xxh idx (of_nat i) = Inr (le_put 8 (xxh pl))"
proof -
  let ?K = "cb_keys (take i bl)" and ?P = "unat (ix_payloadRegionOffset idx)" and ?es = "ix_entrySize idx"
  note R = reads_blocksD [OF rd]
  note tk = cb_take_Suc [OF i b]
  have ram: "\<forall>i\<le>length bl. ramEntry idx (of_nat i) = Inr (ram_before bl i)" and kb: "cb_keys bl < 2 ^ 40"
    using rd unfolding reads_blocks_def by blast+
  have e: "ramEntry idx (of_nat i) = Inr (ram_before bl i)" "ramEntry idx (of_nat i + 1) = Inr (ram_before bl (Suc i))"
    using ram [rule_format, of i] ram [rule_format, of "Suc i"] i by (simp_all add: add.commute)
  have kn: "?K + n \<le> cb_keys bl"
    using cb_keys_take_le [of "Suc i" bl] tk(1) by simp
  have u: "unat (of_nat ?K :: u64) = ?K" "unat (of_nat (?K + n) :: u64) = ?K + n"
    by (rule unat_of_nat_63, use kn kb in simp)+
  have kbf: "KeysBefore (ram_before bl i) = of_nat ?K" "KeysBefore (ram_before bl (Suc i)) = of_nat (?K + n)"
    by (simp_all add: ram_before_def ram_at_def tk(1))
  have lpl: "length pl = n * ?es"
    using R(8) nth_mem [OF i] b by auto
  have num: "(of_nat (?K + n) - of_nat ?K :: u64) > 0 \<longleftrightarrow> n > 0"
    using kn kb by (simp add: word_less_nat_alt)
  have le: "\<not> of_nat ?K > (of_nat (?K + n) :: u64)"
    unfolding word_less_nat_alt u by simp
  show ?thesis
  proof (cases "n > 0 \<and> ?es > 0")
    case False
    then have "pl = []"
      using lpl by auto
    then show ?thesis
      unfolding verify_block_def e rbind_Inr Let_def kbf if_not_P [OF le] num using False by auto
  next
    case True
    have knm: "(?K + n) * ?es \<le> cb_keys bl * ?es"
      using kn by (rule mult_right_mono) simp
    have off: "unat (ix_payloadRegionOffset idx + of_nat k * of_nat ?es) = ?P + k * ?es" if "k \<le> ?K + n" for k
    proof -
      have "k * ?es \<le> cb_keys bl * ?es"
        using that knm by (meson le_trans mult_le_mono1)
      then have "unat (ix_payloadRegionOffset idx + of_nat (k * ?es)) = ?P + k * ?es"
        using R(3,6,7) by (intro unat_add_of_nat) linarith+
      then show ?thesis by simp
    qed
    have "at_off (ix_data idx) ?P (cb_pays (take i bl) @ pl @ cb_pays (drop (Suc i) bl))"
      unfolding tk(4) [symmetric] by (rule R(4))
    moreover have "length (cb_pays (take i bl)) = ?K * ?es"
      using R(8) by (intro length_cb_pays) (auto dest: in_set_takeD)
    ultimately have at: "at_off (ix_data idx) (?P + ?K * ?es) pl"
      by (simp add: at_off_append)
    have o1: "unat (ix_payloadRegionOffset idx + of_nat ?K * of_nat ?es) = ?P + ?K * ?es"
      and o2: "unat (ix_payloadRegionOffset idx + of_nat (?K + n) * of_nat ?es) = ?P + (?K + n) * ?es"
      using off [of ?K] off [of "?K + n"] by simp_all
    have len: "unat (of_nat (length (ix_data idx)) :: u64) = length (ix_data idx)"
      by (rule unat_of_nat_63 [OF R(3)])
    have bound: "?P + (?K + n) * ?es \<le> length (ix_data idx)"
      using knm R(6,7) by linarith
    have g: "\<not> ix_payloadRegionOffset idx + of_nat (?K + n) * of_nat ?es > of_nat (length (ix_data idx))"
      unfolding word_less_nat_alt o2 len using bound by simp
    have sl: "slice64 (ix_payloadRegionOffset idx + of_nat ?K * of_nat ?es) (ix_payloadRegionOffset idx + of_nat (?K + n) * of_nat ?es) (ix_data idx) = Inr pl"
      unfolding slice64_def o1 o2 using bound at lpl by (simp add: add_mult_distrib at_off_def)
    show ?thesis
      unfolding verify_block_def e rbind_Inr Let_def kbf if_not_P [OF le] num if_P [OF True] if_not_P [OF g] sl ..
  qed
qed

lemma concat_res_map: "(\<And>x. x \<in> set xs \<Longrightarrow> f x = Inr (g x)) \<Longrightarrow> concat_res f xs = Inr (concat (map g xs))"
  by (induction xs) simp_all

lemma Verify_ok:
  assumes rd: "reads_blocks idx bl"
    and ft: "at_off (ix_data idx) (unat (ix_metadataRegionOffset idx) + length (cb_metas bl)) (footer_bytes ft)" "length (fReserved ft) = 16"
    and ph: "PayloadRegionHash ft = xxh (concat (map (\<lambda>(n, md, pl). le_put 8 (xxh pl)) bl))"
    and mh: "MetadataRegionHash ft = xxh (cb_metas bl)"
  shows "Verify xxh idx = Inr ()"
proof -
  note R = reads_blocksD [OF rd]
  let ?n = "length (ix_data idx)" and ?M = "unat (ix_metadataRegionOffset idx)"
  have "NumBlocks (ix_header idx) = of_nat (length bl)" "length bl + 1 < 2 ^ 32"
    using rd unfolding reads_blocks_def by blast+
  then have nb: "unat (NumBlocks (ix_header idx)) = length bl"
    by (simp add: unat_of_nat take_bit_nat_eq_self)
  have n32: "32 \<le> ?n" and fo: "?n - 32 = ?M + length (cb_metas bl)"
    using R(7) by linarith+
  have f: "unat (of_nat ?n - of_nat footerSize :: u64) = ?n - 32"
    using n32 by (subst unat_sub_le) (simp_all add: footerSize_def word_le_nat_alt unat_of_nat_63 [OF R(3)])
  have dr: "drop (?n - 32) (ix_data idx) = footer_bytes ft"
  proof -
    have "length (footer_bytes ft) = 32" "at_off (ix_data idx) (?n - 32) (footer_bytes ft)"
      using ft by (simp_all add: footer_bytes_def fo)
    then show ?thesis
      by (simp add: at_off_def)
  qed
  have vb: "concat_res (\<lambda>i. verify_block xxh idx (of_nat i)) [0..<length bl] = Inr (concat (map (\<lambda>(n, md, pl). le_put 8 (xxh pl)) bl))"
  proof -
    have "verify_block xxh idx (of_nat i) = Inr (le_put 8 (xxh (snd (snd (bl ! i)))))" if "i < length bl" for i
      using verify_block_ok [OF rd that] by (cases "bl ! i") simp
    then have "concat_res (\<lambda>i. verify_block xxh idx (of_nat i)) [0..<length bl] =
        Inr (concat (map (\<lambda>i. le_put 8 (xxh (snd (snd (bl ! i))))) [0..<length bl]))"
      by (intro concat_res_map) simp
    also have "map (\<lambda>i. le_put 8 (xxh (snd (snd (bl ! i))))) [0..<length bl] = map (\<lambda>(n, md, pl). le_put 8 (xxh pl)) bl"
      by (intro nth_equalityI) (auto simp: case_prod_beta)
    finally show ?thesis .
  qed
  have sl: "slice64 (ix_metadataRegionOffset idx) (of_nat ?n - of_nat footerSize) (ix_data idx) = Inr (cb_metas bl)"
  proof -
    have "?M + length (cb_metas bl) \<le> ?n"
      using fo by linarith
    then show ?thesis
      unfolding slice64_def f fo using R(5) by (simp add: at_off_def)
  qed
  have g: "\<not> of_nat ?n - of_nat footerSize < ix_metadataRegionOffset idx"
    unfolding word_less_nat_alt f fo by simp
  have dec: "from64 (of_nat ?n - of_nat footerSize) (ix_data idx) = Inr (footer_bytes ft)" "decodeFooter (footer_bytes ft) = Inr ft"
    using dr decodeFooter_bytes [OF ft(2), of "[]"] by (simp_all add: from64_def f)
  show ?thesis
    unfolding Verify_def if_not_P [OF R(9)] Let_def nb dec rbind_Inr vb ph mh sl using g by simp
qed

end
