(* ===== verification/Index_Props.thy ===== *)
theory Index_Props
  imports Algorithms Reader_Correct
begin

text \<open>
  Properties of opening and querying an index file whose bytes are untrusted: no call reads out of
  range, whatever the file holds.
\<close>

section \<open>An index with two empty blocks\<close>

definition sample_blocks :: "cblock list" where
  "sample_blocks = [(0, replicate 100 0, []), (0, replicate 100 0, [])]"

definition sample_index_header :: header where
  "sample_index_header = \<lparr>Magic = magic, Version = version, TotalKeys = 0, NumBlocks = 2, PayloadSize = 4,
     FingerprintSize = 1, Seed = 42, BlockAlgorithm = 0, Reserved = replicate 31 0\<rparr>"

definition sample_file :: bytes where
  "sample_file = index_image sample_index_header [] (map (ram_before sample_blocks) [0..<length sample_blocks + 1])
     (cb_pays sample_blocks) (cb_metas sample_blocks) \<lparr>PayloadRegionHash = 0, MetadataRegionHash = 0, fReserved = replicate 16 0\<rparr>"

definition sample_index :: index where
  "sample_index = image_index False sample_file sample_index_header [] (map (ram_before sample_blocks) [0..<length sample_blocks + 1])
     (bij_QuerySlot \<lparr>bd_globalSeed = 42\<rparr>)"

lemma sample_file_length: "length sample_file = 334"
  unfolding sample_file_def index_image_def length_append length_ram_image
  by (simp add: sample_blocks_def cb_pays_def cb_metas_def footer_bytes_def sample_index_header_def)

lemma sample_open: "OpenBytes newBlockDecoder sample_file = Inr sample_index" "reads_blocks sample_index sample_blocks"
proof -
  have "newBlockDecoder (BlockAlgorithm sample_index_header) [] (Seed sample_index_header) = Inr (bij_QuerySlot \<lparr>bd_globalSeed = 42\<rparr>)"
    by (simp add: newBlockDecoder_def AlgoBijection_def sample_index_header_def bij_NewDecoder_def)
  note im = image_reads_blocks [where nd = newBlockDecoder and mm = False, OF sample_file_def _ _ _ _ _ _ _ _ _ this]
  have "header_valid sample_index_header" "NumBlocks sample_index_header = of_nat (length sample_blocks)"
    "TotalKeys sample_index_header = of_nat (cb_keys sample_blocks)"
    "length sample_blocks + 1 < 2 ^ 32" "cb_keys sample_blocks < 2 ^ 40" "length (cb_metas sample_blocks) < 2 ^ 40"
    "\<forall>(n, md, pl)\<in>set sample_blocks. length pl = n * header_entrySize sample_index_header"
    by (simp_all add: header_valid_def sample_index_header_def sample_blocks_def cb_keys_def cb_metas_def)
  from im [OF this(1-6) _ this(7)]
  show "OpenBytes newBlockDecoder sample_file = Inr sample_index" "reads_blocks sample_index sample_blocks"
    by (simp_all add: OpenBytes_def minFileSize_def sample_file_length sample_index_def)
qed

section \<open>Robustness\<close>

lemma opened_index:
  assumes "length data < 2 ^ 63" and "OpenBytes newBlockDecoder data = Inr idx"
  shows "index_ok idx" "safe_decoder (ix_decoder idx)" "ix_data idx = data" "\<not> ix_closed idx"
proof -
  have "304 \<le> length data" "initFromData newBlockDecoder False data = Inr idx"
    using assms(2) by (simp_all add: OpenBytes_def minFileSize_def split: if_splits)
  from initFromData_Inr [OF this(1) assms(1) this(2)] newBlockDecoder_safe(2)
  show "index_ok idx" "safe_decoder (ix_decoder idx)" "ix_data idx = data" "\<not> ix_closed idx"
    by blast+
qed

text \<open>C15: opening arbitrary bytes never panics: the result is an index or an error value.\<close>

theorem open_never_panics:
  assumes "length data < 2 ^ 63"
  shows "\<not> is_panic (OpenBytes newBlockDecoder data) \<and> \<not> is_panic (OpenPayloadBytes newBlockDecoder data)"
proof -
  have "\<not> is_panic (OpenBytes newBlockDecoder data)"
    using initFromData_no_panic [OF _ assms, of newBlockDecoder False] newBlockDecoder_safe(1)
    by (simp add: OpenBytes_def minFileSize_def)
  then show ?thesis
    by (simp add: OpenPayloadBytes_def is_panic_rbind Index_WithPayload_def)
qed

lemma open_never_panics_witness:
  "length (replicate 400 (77 :: u8)) < 2 ^ 63 \<and> \<not> is_panic (OpenBytes newBlockDecoder (replicate 400 77)) \<and>
    \<not> is_panic (OpenPayloadBytes newBlockDecoder (replicate 400 77))"
  using open_never_panics [of "replicate 400 77"] by simp

text \<open>C14: on an index opened from arbitrary bytes, rank, payload and batch queries and verification
  never panic, for every key.\<close>

theorem queries_never_panic:
  assumes "length data < 2 ^ 63" and "OpenBytes newBlockDecoder data = Inr idx"
  shows "\<not> is_panic (QueryRank idx key) \<and> \<not> is_panic (QueryPayload idx key) \<and>
    (\<forall>r\<in>set (QueryBatch idx keys). \<not> is_panic r) \<and> \<not> is_panic (Verify xxh idx)"
proof -
  note o = opened_index [OF assms]
  show ?thesis
    using safe_decoder.QueryRank_safe [OF o(2) o(1)] safe_decoder.QueryPayload_safe [OF o(2) o(1)]
      safe_decoder.QueryBatch_safe [OF o(2) o(1)] Verify_safe [OF o(1)] by blast
qed

lemma queries_never_panic_witness:
  "OpenBytes newBlockDecoder sample_file = Inr sample_index \<and> \<not> is_panic (QueryRank sample_index (replicate 16 7)) \<and>
    \<not> is_panic (QueryPayload sample_index (replicate 16 7))"
  using queries_never_panic [OF _ sample_open(1)] sample_open(1) sample_file_length by simp

text \<open>C16: prefetching on an index opened from arbitrary bytes never panics, and every byte range handed
  to the memory adviser lies within the file.\<close>

theorem prefetch_in_range:
  assumes "length data < 2 ^ 63" and "OpenBytes newBlockDecoder data = Inr idx"
  shows "\<exists>rs. prefetch idx keys = Inr rs \<and> (\<forall>r\<in>set rs. unat (fst r) \<le> unat (snd r) \<and> unat (snd r) \<le> length data)"
  using opened_index [OF assms] safe_decoder.prefetch_safe [of "ix_decoder idx" idx keys] by (simp add: range_in_def)

lemma prefetch_in_range_witness:
  "\<exists>rs. prefetch sample_index [replicate 16 7] = Inr rs \<and>
    (\<forall>r\<in>set rs. unat (fst r) \<le> unat (snd r) \<and> unat (snd r) \<le> length sample_file)"
  using prefetch_in_range [OF _ sample_open(1)] sample_file_length by simp

end
