(* ===== verification/Builder_Correct.thy ===== *)
theory Builder_Correct
  imports Reader_Correct Sorted_Builder
begin

text \<open>
  The sorted builder with one worker, over any block algorithm that keeps the contract \<open>block_algo\<close>.
  After a sequence of successful \<open>AddKey\<close> calls the file holds one committed block per block index
  before the current one, built from exactly the keys routed there, and the block builder holds the keys
  of the current block; a successful \<open>Finish\<close> commits the rest and leaves the file \<open>index_image\<close> of all
  blocks.
\<close>

section \<open>Committed blocks\<close>

definition block_built :: "(u64 \<Rightarrow> u64 \<Rightarrow> bytes \<Rightarrow> nat \<Rightarrow> nat res) \<Rightarrow> nat \<Rightarrow> nat \<Rightarrow> blockKey list \<Rightarrow> cblock \<Rightarrow> bool" where
  "block_built query ps fs ks cb \<longleftrightarrow>
    (case cb of (n, md, pl) \<Rightarrow> n = length ks \<and> length pl = n * (ps + fs) \<and>
       (\<exists>slot. block_slots query ks md slot \<and> block_entries fs ps ks pl slot))"

definition key_route :: "u32 \<Rightarrow> blockKey \<Rightarrow> nat" where
  "key_route nb k = unat (blockRoute (bk_k0 k) nb)"

definition blocks_of :: "(u64 \<Rightarrow> u64 \<Rightarrow> bytes \<Rightarrow> nat \<Rightarrow> nat res) \<Rightarrow> nat \<Rightarrow> nat \<Rightarrow> u32 \<Rightarrow> blockKey list \<Rightarrow> cblock list \<Rightarrow> bool" where
  "blocks_of query ps fs nb ks bl \<longleftrightarrow>
    (\<forall>i<length bl. block_built query ps fs (filter (\<lambda>k. key_route nb k = i) ks) (bl ! i))"

lemma blocks_of_keys:
  assumes "blocks_of query ps fs nb ks bl"
  shows "cb_keys bl = length (filter (\<lambda>k. key_route nb k < length bl) ks)"
proof -
  have "map fst bl = map (\<lambda>i. length (filter (\<lambda>k. key_route nb k = i) ks)) [0..<length bl]"
    using assms by (intro nth_equalityI) (simp_all add: blocks_of_def block_built_def case_prod_beta)
  then have "cb_keys bl = length (concat (map (\<lambda>i. filter (\<lambda>k. key_route nb k = i) ks) [0..<length bl]))"
    by (simp add: cb_keys_def length_concat comp_def)
  also have "\<dots> = length (filter (\<lambda>k. key_route nb k < length bl) ks)"
    using mset_groups [of "key_route nb" ks "length bl"] by (metis size_mset)
  finally show ?thesis .
qed

lemma blocks_of_cur:
  assumes "blocks_of query ps fs nb ks bl"
  shows "cb_keys bl + length (filter (\<lambda>k. key_route nb k = length bl) ks) \<le> length ks"
  unfolding blocks_of_keys [OF assms] by (induction ks) auto

lemma blocks_of_snoc:
  "blocks_of query ps fs nb ks (bl @ [cb]) \<longleftrightarrow>
    blocks_of query ps fs nb ks bl \<and> block_built query ps fs (filter (\<lambda>k. key_route nb k = length bl) ks) cb"
  by (auto simp: blocks_of_def nth_append less_Suc_eq)

lemma blocks_of_Nil [simp]: "blocks_of query ps fs nb ks []"
  by (simp add: blocks_of_def)

lemma blocks_of_later_key:
  "key_route nb k \<ge> length bl \<Longrightarrow> blocks_of query ps fs nb (ks @ [k]) bl \<longleftrightarrow> blocks_of query ps fs nb ks bl"
  by (simp add: blocks_of_def)

text \<open>What the writer of a builder looks like after the blocks \<open>bl\<close>.\<close>

definition committed :: "sysEnv \<Rightarrow> nat \<Rightarrow> nat \<Rightarrow> nat \<Rightarrow> nat \<Rightarrow> indexWriter \<Rightarrow> cblock list \<Rightarrow> bool" where
  "committed env tk es nb mm iw bl \<longleftrightarrow>
    iw_inv env iw bl \<and> iw_layout iw nb tk \<and> cfg_entrySize (iw_cfg iw) = es \<and> length (iw_userMetadata iw) < 2 ^ 32 \<and>
    (\<forall>(n, md, pl)\<in>set bl. 100 \<le> length md \<and> length md \<le> mm)"

lemma length_cb_metas_le: "\<forall>(n, md, pl)\<in>set bl. 100 \<le> length md \<and> length md \<le> mm \<Longrightarrow>
    100 * length bl \<le> length (cb_metas bl) \<and> length (cb_metas bl) \<le> mm * length bl"
  by (induction bl) (auto simp: cb_metas_def)

lemma iw_layout_const: "iw_const iw' = iw_const iw \<Longrightarrow> iw_layout iw' nb tk = iw_layout iw nb tk"
  by (simp add: iw_const_def iw_layout_def)

lemma committed_bounds:
  assumes "committed env tk es nb mm iw bl" and "tk < 2 ^ 40" and "es \<le> 12" and "nb < 2 ^ 31" and "mm \<le> 2 ^ 14" and "length bl \<le> nb"
  shows "unat (iw_metadataRegionOffset iw) + length (cb_metas bl) < 2 ^ 62"
    and "unat (iw_metadataRegionOffset iw) = unat (iw_payloadRegionOffset iw) + tk * es"
proof -
  have lay: "unat (iw_payloadRegionOffset iw) = 72 + length (iw_userMetadata iw) + 10 * (nb + 1)"
    "unat (iw_metadataRegionOffset iw) = unat (iw_payloadRegionOffset iw) + tk * cfg_entrySize (iw_cfg iw)"
    using assms(1) by (simp_all add: committed_def iw_layout_def Let_def)
  then show off: "unat (iw_metadataRegionOffset iw) = unat (iw_payloadRegionOffset iw) + tk * es"
    using assms(1) by (simp add: committed_def)
  have "tk * es \<le> 2 ^ 40 * 12" "mm * length bl \<le> 2 ^ 14 * 2 ^ 31"
    using assms(2-6) by (intro mult_le_mono; simp)+
  moreover have "length (cb_metas bl) \<le> mm * length bl" "length (iw_userMetadata iw) < 2 ^ 32"
    using assms(1) length_cb_metas_le [of bl mm] by (auto simp: committed_def)
  ultimately show "unat (iw_metadataRegionOffset iw) + length (cb_metas bl) < 2 ^ 62"
    using off lay(1) assms(4) by simp
qed

lemma commit_committed:
  assumes com: "committed env tk es nb mm iw bl" and lim: "tk < 2 ^ 40" "es \<le> 12" "nb < 2 ^ 31" "mm \<le> 2 ^ 14" "length bl \<le> nb"
    and md: "100 \<le> length md" "length md \<le> mm" and pl: "length pl = n * es" and room: "cb_keys bl + n \<le> tk"
    and run: "commitBlockWithData env md pl n iw = (None, iw')"
  shows "committed env tk es nb mm iw' (bl @ [(n, md, pl)])" and "iw_const iw' = iw_const iw"
proof -
  note b = committed_bounds [OF com lim]
  have inv: "iw_inv env iw bl" and es: "es = cfg_entrySize (iw_cfg iw)"
    using com by (simp_all add: committed_def)
  have ne: "md \<noteq> []" and z: "n = 0 \<longrightarrow> pl = []"
    using md pl by auto
  have "(cb_keys bl + n) * es \<le> tk * es"
    using room by simp
  then have r: "unat (iw_payloadRegionOffset iw) + (cb_keys bl + n) * es \<le> unat (iw_metadataRegionOffset iw)"
    using b(2) by simp
  have sm: "unat (iw_metadataRegionOffset iw) + length (cb_metas bl) + length md < 2 ^ 63" "cb_keys bl < 2 ^ 40"
    using b(1) md(2) lim room by simp_all
  note ok = commitBlockWithData_ok [OF inv ne es lim(2) pl z r sm run]
  show c: "iw_const iw' = iw_const iw"
    by (rule ok(2))
  have "iw_layout iw' nb tk" "iw_cfg iw' = iw_cfg iw" "iw_userMetadata iw' = iw_userMetadata iw"
    using com iw_layout_const [OF c] c by (auto simp: committed_def iw_const_def)
  then show "committed env tk es nb mm iw' (bl @ [(n, md, pl)])"
    using com ok(1) md by (auto simp: committed_def)
qed

section \<open>Builder steps\<close>

text \<open>The part of a builder that committing blocks leaves alone.\<close>

definition bl_frame :: "'b builder \<Rightarrow>
    (buildConfig \<times> u32 \<times> u32 \<times> bool \<times> nat) \<times> (bool \<times> int \<times> int \<times> u64) \<times>
    (u64 \<times> u64 \<times> u64 \<times> u64 \<times> u64 \<times> header \<times> buildConfig \<times> u32 \<times> u64 \<times> bytes)" where
  "bl_frame b = ((bl_cfg b, bl_numBlocks b, bl_currentBlockIdx b, bl_firstKey b, bl_keyCounter b),
     (bl_closed b, bl_workers b, bl_lastBlockID b, bl_totalKeysAdded b), iw_const (bl_iw b))"

lemma length_resize_buf [simp]: "min (length (resize_buf buf n)) n = n"
  by (simp add: resize_buf_def)

lemma on_iw_None: "on_iw a b = (None, b') \<longleftrightarrow> (\<exists>iw. a (bl_iw b) = (None, iw) \<and> b' = b\<lparr>bl_iw := iw\<rparr>)"
  by (auto simp: on_iw_def split: prod.splits)

text \<open>Where the builder stands after the keys \<open>ks\<close>: before the first key, or in block \<open>length bl\<close> with the
  keys \<open>cur\<close> of that block.\<close>

definition bl_at :: "'b builder \<Rightarrow> u32 \<Rightarrow> blockKey list \<Rightarrow> cblock list \<Rightarrow> blockKey list \<Rightarrow> bool" where
  "bl_at b nb ks bl cur \<longleftrightarrow>
    (if bl_firstKey b then ks = [] \<and> bl = [] \<and> cur = [] \<and> bl_lastBlockID b = -1
     else length bl < unat nb \<and> unat (bl_currentBlockIdx b) = length bl \<and> bl_lastBlockID b = int (length bl) \<and>
       cur = filter (\<lambda>k. key_route nb k = length bl) ks \<and> cur \<noteq> [] \<and> (\<forall>k\<in>set ks. key_route nb k \<le> length bl))"

lemma addToBlock_None:
  "addToBlock ops k0 k1 p fp b = (None, b') \<longleftrightarrow> (\<exists>bb. op_AddKey ops (bl_builder b) k0 k1 p fp = Inr bb \<and> b' = b\<lparr>bl_builder := bb\<rparr>)"
  by (auto simp: addToBlock_def split: sum.splits)

context block_algo
begin

lemma commitEmptyBlock_ok:
  assumes com: "committed env (unat tk) (ps + fs) (unat (nblocks tk)) (maxMeta tk) (bl_iw b) bl"
    and lim: "unat tk < 2 ^ 40" "ps + fs \<le> 12" "unat (nblocks tk) < 2 ^ 31" "length bl \<le> unat (nblocks tk)" "cb_keys bl \<le> unat tk"
    and holds: "holds tk s ps fs (bl_builder b) ks" and run: "commitEmptyBlock env ops b = (None, b')"
  obtains md where "committed env (unat tk) (ps + fs) (unat (nblocks tk)) (maxMeta tk) (bl_iw b') (bl @ [(0, md, [])])"
    "holds tk s ps fs (bl_builder b') []" "bl_frame b' = bl_frame b" "bl_nextBlockToWrite b' = bl_nextBlockToWrite b"
proof -
  let ?b = "resetCurrentBuilder ops b"
  let ?n = "bl_estimateMetadataSize ops ?b"
  let ?buf = "take ?n (resize_buf (bl_metadataBuf ?b) ?n)"
  have h: "holds tk s ps fs (bl_builder ?b) []"
    using reset_holds [OF holds] by (simp add: resetCurrentBuilder_def)
  have len: "length ?buf = op_MaxMetadataSizeForCurrentBlock ops (bl_builder ?b)"
    unfolding bl_estimateMetadataSize_def by simp
  obtain ml mdst' pdst' bb where bld: "op_BuildSeparatedInto ops (bl_builder ?b) ?buf [] = Inr (ml, 0, 0, mdst', pdst', bb)"
    and h': "holds tk s ps fs bb []" and ml: "100 \<le> ml" "ml \<le> maxMeta tk" "ml \<le> length mdst'"
    using empty_builds [OF lim(1) h len, of "[]"] by blast
  obtain iw' where c: "commitBlockWithData env (take ml mdst') [] 0 (bl_iw b) = (None, iw')"
    and b': "b' = ?b\<lparr>bl_metadataBuf := mdst' @ drop ?n (resize_buf (bl_metadataBuf ?b) ?n), bl_builder := bb, bl_iw := iw'\<rparr>"
    using run unfolding commitEmptyBlock_def Let_def bld by (auto simp: on_iw_None resetCurrentBuilder_def)
  have md: "100 \<le> length (take ml mdst')" "length (take ml mdst') \<le> maxMeta tk"
    using ml by simp_all
  note ok = commit_committed [OF com lim(1-3) meta_small [OF lim(1)] lim(4) md _ _ c]
  show ?thesis
    using ok lim(5) h' by (intro that [of "take ml mdst'"]) (simp_all add: b' bl_frame_def resetCurrentBuilder_def)
qed

lemma buildBlock_ok:
  assumes com: "committed env (unat tk) (ps + fs) (unat (nblocks tk)) (maxMeta tk) (bl_iw b) bl"
    and lim: "unat tk < 2 ^ 40" "ps + fs \<le> 12" "unat (nblocks tk) < 2 ^ 31" "length bl \<le> unat (nblocks tk)"
    and cfg: "cfg_entrySize (bl_cfg b) = ps + fs"
    and holds: "holds tk s ps fs (bl_builder b) ks" "ks \<noteq> []" "fps_fit fs ks" and room: "cb_keys bl + length ks \<le> unat tk"
    and run: "buildBlock env ops b = (None, b')"
  obtains cb where "committed env (unat tk) (ps + fs) (unat (nblocks tk)) (maxMeta tk) (bl_iw b') (bl @ [cb])"
    "block_built (query s) ps fs ks cb" "holds tk s ps fs (bl_builder b') ks" "bl_frame b' = bl_frame b"
    "bl_nextBlockToWrite b' = bl_nextBlockToWrite b"
proof -
  let ?n = "bl_estimateMetadataSize ops b" and ?p = "currentBlockKeysAdded ops b * cfg_entrySize (bl_cfg b)"
  let ?mb = "take ?n (resize_buf (bl_metadataBuf b) ?n)" and ?pb = "take ?p (resize_buf (bl_payloadsBuf b) ?p)"
  have k: "currentBlockKeysAdded ops b = length ks"
    using keys_added [OF holds(1)] by (simp add: currentBlockKeysAdded_def)
  have len: "length ?mb = op_MaxMetadataSizeForCurrentBlock ops (bl_builder b)" "length ?pb = length ks * (ps + fs)"
    by (simp add: bl_estimateMetadataSize_def) (simp add: k cfg)
  obtain ml pl nk mdst' pdst' bb iw' where bld: "op_BuildSeparatedInto ops (bl_builder b) ?mb ?pb = Inr (ml, pl, nk, mdst', pdst', bb)"
    and c: "commitBlockWithData env (take ml mdst') pdst' nk (bl_iw b) = (None, iw')"
    and b': "b' = b\<lparr>bl_metadataBuf := mdst' @ drop ?n (resize_buf (bl_metadataBuf b) ?n),
                 bl_payloadsBuf := pdst' @ drop ?p (resize_buf (bl_payloadsBuf b) ?p), bl_builder := bb, bl_iw := iw'\<rparr>"
    using run unfolding buildBlock_def Let_def by (auto simp: on_iw_None split: sum.splits prod.splits)
  have ok: "\<exists>slot. block_slots (query s) ks (take ml mdst') slot \<and> block_entries fs ps ks pdst' slot" "nk = length ks"
    "length pdst' = length ?pb" "holds tk s ps fs bb ks" "100 \<le> ml" "ml \<le> maxMeta tk" "ml \<le> length mdst'"
    using build_ok [OF lim(1) holds len bld] by blast+
  have md: "100 \<le> length (take ml mdst')" "length (take ml mdst') \<le> maxMeta tk"
    using ok by simp_all
  have pl: "length pdst' = nk * (ps + fs)" "cb_keys bl + nk \<le> unat tk"
    using ok(2,3) len(2) room by simp_all
  note cc = commit_committed [OF com lim(1-3) meta_small [OF lim(1)] lim(4) md pl c]
  show ?thesis
    using cc ok(1,2,4) pl(1) by (intro that [of "(nk, take ml mdst', pdst')"]) (simp_all add: b' bl_frame_def block_built_def)
qed

lemma emit_gaps_ok:
  assumes com: "committed env (unat tk) (ps + fs) (unat (nblocks tk)) (maxMeta tk) (bl_iw b) bl"
    and lim: "unat tk < 2 ^ 40" "ps + fs \<le> 12" "unat (nblocks tk) < 2 ^ 31" "length bl + n \<le> unat (nblocks tk)" "cb_keys bl \<le> unat tk"
    and holds: "holds tk s ps fs (bl_builder b) ks" and run: "emit_gaps n env ops b = (None, b')"
  shows "\<exists>gs ks'. committed env (unat tk) (ps + fs) (unat (nblocks tk)) (maxMeta tk) (bl_iw b') (bl @ gs) \<and> length gs = n \<and>
    (\<forall>g\<in>set gs. \<exists>md. g = (0, md, [])) \<and> holds tk s ps fs (bl_builder b') ks' \<and> bl_frame b' = bl_frame b \<and>
    bl_nextBlockToWrite b' = bl_nextBlockToWrite b + of_nat n"
  using assms
proof (induction n arbitrary: b bl ks)
  case 0
  then show ?case by auto
next
  case (Suc n)
  obtain b1 where 1: "commitEmptyBlock env ops b = (None, b1)"
    and 2: "emit_gaps n env ops (b1\<lparr>bl_nextBlockToWrite := bl_nextBlockToWrite b1 + 1\<rparr>) = (None, b')"
    using Suc.prems(8) by (auto simp: andThen_None)
  have "length bl \<le> unat (nblocks tk)"
    using Suc.prems(5) by simp
  from commitEmptyBlock_ok [OF Suc.prems(1-4) this Suc.prems(6,7) 1]
  obtain md where md: "committed env (unat tk) (ps + fs) (unat (nblocks tk)) (maxMeta tk) (bl_iw b1) (bl @ [(0, md, [])])"
    "holds tk s ps fs (bl_builder b1) []" "bl_frame b1 = bl_frame b" "bl_nextBlockToWrite b1 = bl_nextBlockToWrite b" .
  let ?b1 = "b1\<lparr>bl_nextBlockToWrite := bl_nextBlockToWrite b1 + 1\<rparr>"
  have c1: "committed env (unat tk) (ps + fs) (unat (nblocks tk)) (maxMeta tk) (bl_iw ?b1) (bl @ [(0, md, [])])"
    and h1: "holds tk s ps fs (bl_builder ?b1) []"
    and l1: "length (bl @ [(0, md, [])]) + n \<le> unat (nblocks tk)" "cb_keys (bl @ [(0, md, [])]) \<le> unat tk"
    using md Suc.prems(5,6) by simp_all
  obtain gs ks' where gs: "committed env (unat tk) (ps + fs) (unat (nblocks tk)) (maxMeta tk) (bl_iw b') ((bl @ [(0, md, [])]) @ gs)"
    "length gs = n" "\<forall>g\<in>set gs. \<exists>md. g = (0, md, [])" "holds tk s ps fs (bl_builder b') ks'" "bl_frame b' = bl_frame ?b1"
    "bl_nextBlockToWrite b' = bl_nextBlockToWrite ?b1 + of_nat n"
    using Suc.IH [OF c1 Suc.prems(2-4) l1 h1 2] by blast
  show ?case
    using gs md by (intro exI [of _ "(0, md, []) # gs"] exI [of _ ks']) (simp add: bl_frame_def)
qed

lemma block_built_empty: "block_built (query s) ps fs [] (0, md, [])"
  by (simp add: block_built_def block_slots_def block_entries_def)

lemma blocks_of_gaps:
  assumes "blocks_of (query s) ps fs nb ks bl" and "\<forall>g\<in>set gs. \<exists>md. g = (0, md, [])"
    and "\<forall>k\<in>set ks. key_route nb k < length bl \<or> length bl + length gs \<le> key_route nb k"
  shows "blocks_of (query s) ps fs nb ks (bl @ gs)"
  unfolding blocks_of_def
proof (intro allI impI)
  fix i assume i: "i < length (bl @ gs)"
  show "block_built (query s) ps fs (filter (\<lambda>k. key_route nb k = i) ks) ((bl @ gs) ! i)"
  proof (cases "i < length bl")
    case True
    then show ?thesis
      using assms(1) by (simp add: blocks_of_def nth_append)
  next
    case False
    then have "filter (\<lambda>k. key_route nb k = i) ks = []"
      using assms(3) i by (auto simp: filter_empty_conv)
    moreover have "(bl @ gs) ! i \<in> set gs"
      using False i by (simp add: nth_append)
    ultimately show ?thesis
      using assms(2) block_built_empty by fastforce
  qed
qed

text \<open>The invariant after the keys \<open>ks\<close>: \<open>bl\<close> are the committed blocks, \<open>cur\<close> the keys of the current one.\<close>

definition bl_state :: "sysEnv \<Rightarrow> u64 \<Rightarrow> u64 \<Rightarrow> nat \<Rightarrow> nat \<Rightarrow> 'b builder \<Rightarrow> blockKey list \<Rightarrow> cblock list \<Rightarrow> blockKey list \<Rightarrow> bool" where
  "bl_state env tk s ps fs b ks bl cur \<longleftrightarrow>
    (unat tk < 2 ^ 40 \<and> ps \<le> 8 \<and> fs \<le> 4 \<and> unat (nblocks tk) < 2 ^ 31) \<and>
    committed env (unat tk) (ps + fs) (unat (nblocks tk)) (maxMeta tk) (bl_iw b) bl \<and>
    (cfg_payloadSize (bl_cfg b) = int ps \<and> cfg_fingerprintSize (bl_cfg b) = int fs \<and> cfg_totalKeys (bl_cfg b) = tk) \<and>
    bl_numBlocks b = nblocks tk \<and> bl_workers b \<le> 1 \<and> holds tk s ps fs (bl_builder b) cur \<and>
    bl_nextBlockToWrite b = of_nat (length bl) \<and> blocks_of (query s) ps fs (nblocks tk) ks bl \<and>
    bl_totalKeysAdded b = of_nat (length ks) \<and> length ks \<le> unat tk \<and> fps_fit fs ks"

definition bl_inv :: "sysEnv \<Rightarrow> u64 \<Rightarrow> u64 \<Rightarrow> nat \<Rightarrow> nat \<Rightarrow> 'b builder \<Rightarrow> blockKey list \<Rightarrow> bool" where
  "bl_inv env tk s ps fs b ks \<longleftrightarrow> (\<exists>bl cur. bl_state env tk s ps fs b ks bl cur \<and> bl_at b (nblocks tk) ks bl cur)"

lemma key_route_less: "unat tk < 2 ^ 40 \<Longrightarrow> key_route (nblocks tk) k < unat (nblocks tk)"
  using two_blocks [of tk] blockRoute_less [of "nblocks tk" "bk_k0 k"] by (simp add: key_route_def)

text \<open>Filling the gap before block \<open>c\<close> and starting it with its first key.\<close>

lemma open_block_ok:
  assumes st: "bl_state env tk s ps fs b ks bl cur" and past: "\<forall>k\<in>set ks. key_route (nblocks tk) k < length bl"
    and c: "length bl \<le> c" "c = key_route (nblocks tk) k"
    and f: "\<And>b. bl_builder (f b) = bl_builder b"
    and run: "andThen (emitEmptyBlocks env ops (of_nat c))
      (andThen (upd (\<lambda>b. f (resetCurrentBuilder ops b))) (addToBlock ops (bk_k0 k) (bk_k1 k) (bk_payload k) (bk_fp k))) b = (None, b')"
  obtains bl' bb b1 where "committed env (unat tk) (ps + fs) (unat (nblocks tk)) (maxMeta tk) (bl_iw b1) bl'" "length bl' = c"
    "blocks_of (query s) ps fs (nblocks tk) (ks @ [k]) bl'" "holds tk s ps fs bb [k]"
    "b' = (f (resetCurrentBuilder ops b1))\<lparr>bl_builder := bb\<rparr>" "bl_frame b1 = bl_frame b" "bl_nextBlockToWrite b1 = of_nat c"
proof -
  note S = st [unfolded bl_state_def]
  have cn: "c < unat (nblocks tk)" and tk: "unat tk < 2 ^ 40"
    using S key_route_less [of tk k] c by auto
  have uc: "unat (of_nat c :: u32) = c"
    using cn unat_lt2p [of "nblocks tk"] by simp
  have un: "unat (bl_nextBlockToWrite b) = length bl"
    using S c cn unat_lt2p [of "nblocks tk"] by simp
  have all: "\<forall>k\<in>set ks. key_route (nblocks tk) k < length bl"
    by (rule past)
  have ck: "cb_keys bl \<le> unat tk"
    using blocks_of_keys [of "query s" ps fs "nblocks tk" ks bl] S length_filter_le le_trans by metis
  obtain b1 bb where g: "emit_gaps (c - length bl) env ops b = (None, b1)"
    and a: "op_AddKey ops (bl_builder (resetCurrentBuilder ops b1)) (bk_k0 k) (bk_k1 k) (bk_payload k) (bk_fp k) = Inr bb"
    and b': "b' = (f (resetCurrentBuilder ops b1))\<lparr>bl_builder := bb\<rparr>"
    using run by (auto simp: andThen_None emitEmptyBlocks_def uc un addToBlock_None f)
  have "length bl + (c - length bl) \<le> unat (nblocks tk)" "ps + fs \<le> 12"
    using c cn S by simp_all
  then obtain gs ks' where gs: "committed env (unat tk) (ps + fs) (unat (nblocks tk)) (maxMeta tk) (bl_iw b1) (bl @ gs)"
    "length gs = c - length bl" "\<forall>g\<in>set gs. \<exists>md. g = (0, md, [])" "holds tk s ps fs (bl_builder b1) ks'" "bl_frame b1 = bl_frame b"
    "bl_nextBlockToWrite b1 = bl_nextBlockToWrite b + of_nat (c - length bl)"
    using emit_gaps_ok [OF _ tk _ _ _ ck _ g] S by blast
  have len: "length (bl @ gs) = c"
    using gs(2) c by simp
  have "blocks_of (query s) ps fs (nblocks tk) ks (bl @ gs)"
    using S gs(3) all by (intro blocks_of_gaps) auto
  then have bo: "blocks_of (query s) ps fs (nblocks tk) (ks @ [k]) (bl @ gs)"
    using blocks_of_later_key [of "bl @ gs" "nblocks tk" k] len c by simp
  have "holds tk s ps fs (bl_builder (resetCurrentBuilder ops b1)) []"
    using reset_holds [OF gs(4)] by (simp add: resetCurrentBuilder_def)
  from add_holds [OF this, of k] a have hb: "holds tk s ps fs bb [k]"
    by auto
  have nx: "bl_nextBlockToWrite b1 = of_nat c"
    using gs(6) S c(1) by (simp flip: of_nat_add)
  show ?thesis
    by (rule that [OF gs(1) len bo hb b' gs(5) nx])
qed

lemma fps_fit_append: "fps_fit fs (ks @ [k]) \<longleftrightarrow> fps_fit fs ks \<and> take_bit (fs * 8) (bk_fp k) = bk_fp k"
  by (auto simp: fps_fit_def)

lemma fps_fit_filter: "fps_fit fs ks \<Longrightarrow> fps_fit fs (filter P ks)"
  by (simp add: fps_fit_def)

lemma bl_inv_next:
  assumes st: "bl_state env tk s ps fs b ks bl cur" and c: "c = key_route (nblocks tk) k"
    and fp: "take_bit (fs * 8) (bk_fp k) = bk_fp k" and room: "length ks < unat tk"
    and com: "committed env (unat tk) (ps + fs) (unat (nblocks tk)) (maxMeta tk) (bl_iw b') bl'" "length bl' = c"
      "blocks_of (query s) ps fs (nblocks tk) (ks @ [k]) bl'"
      "holds tk s ps fs (bl_builder b') (filter (\<lambda>k. key_route (nblocks tk) k = c) (ks @ [k]))"
      "\<forall>k\<in>set ks. key_route (nblocks tk) k \<le> c"
    and b': "bl_nextBlockToWrite b' = of_nat c" "bl_currentBlockIdx b' = of_nat c" "\<not> bl_firstKey b'" "bl_cfg b' = bl_cfg b"
      "bl_numBlocks b' = bl_numBlocks b" "bl_workers b' = bl_workers b" "bl_lastBlockID b' = int c"
      "bl_totalKeysAdded b' = bl_totalKeysAdded b + 1"
  shows "bl_inv env tk s ps fs b' (ks @ [k])"
proof -
  note S = st [unfolded bl_state_def]
  have cn: "c < unat (nblocks tk)"
    using S key_route_less c by blast
  then have uc: "unat (of_nat c :: u32) = c"
    using unat_lt2p [of "nblocks tk"] by simp
  have "bl_state env tk s ps fs b' (ks @ [k]) bl' (filter (\<lambda>k. key_route (nblocks tk) k = c) (ks @ [k]))"
    unfolding bl_state_def using S com(1-4) b' fp room by (simp add: fps_fit_append)
  moreover have "filter (\<lambda>k. key_route (nblocks tk) k = c) (ks @ [k]) \<noteq> []" "\<forall>k\<in>set (ks @ [k]). key_route (nblocks tk) k \<le> c"
    using c com(5) by simp_all
  ultimately show ?thesis
    unfolding bl_inv_def bl_at_def using b'(2,3,7) cn uc com(2) by (intro exI conjI) auto
qed

lemma addKeySingleThreaded_ok:
  assumes inv: "bl_inv env tk s ps fs b0 ks" and b: "b = b0\<lparr>bl_lastBlockID := int c\<rparr>"
    and c: "c = key_route (nblocks tk) k" and last: "bl_lastBlockID b0 \<le> int c"
    and fp: "take_bit (fs * 8) (bk_fp k) = bk_fp k" and room: "length ks < unat tk"
    and run: "addKeySingleThreaded env ops (bk_k0 k) (bk_k1 k) (bk_payload k) (bk_fp k) (of_nat c) b = (None, b')"
  shows "bl_inv env tk s ps fs (b'\<lparr>bl_totalKeysAdded := bl_totalKeysAdded b' + 1\<rparr>) (ks @ [k]) \<and>
    bl_cfg b' = bl_cfg b \<and> iw_const (bl_iw b') = iw_const (bl_iw b) \<and> bl_closed b' = bl_closed b"
proof -
  let ?nb = "nblocks tk"
  have eq: "bl_firstKey b0 = bl_firstKey b" "bl_currentBlockIdx b0 = bl_currentBlockIdx b"
    by (simp_all add: b)
  obtain bl cur where st0: "bl_state env tk s ps fs b0 ks bl cur" and fk0: "bl_at b0 (nblocks tk) ks bl cur"
    using inv unfolding bl_inv_def by blast
  note fk = fk0 [unfolded bl_at_def eq]
  have st: "bl_state env tk s ps fs b ks bl cur"
    using st0 by (simp add: bl_state_def b)
  note S = st [unfolded bl_state_def]
  have lb: "bl_lastBlockID b = int c"
    by (simp add: b)
  have cn: "c < unat ?nb" and uc: "unat (of_nat c :: u32) = c"
    using S key_route_less [of tk k] c unat_lt2p [of ?nb] by auto
  have flt: "filter (\<lambda>k. key_route ?nb k = c) (ks @ [k]) = [k]" if "\<forall>k\<in>set ks. key_route ?nb k < c"
    using that c by (auto simp: filter_empty_conv)
  have fin: ?thesis
    if "committed env (unat tk) (ps + fs) (unat ?nb) (maxMeta tk) (bl_iw b1) bl'" "length bl' = c"
      "blocks_of (query s) ps fs ?nb (ks @ [k]) bl'" "holds tk s ps fs (bl_builder b') (filter (\<lambda>k. key_route ?nb k = c) (ks @ [k]))"
      "b' = (f (resetCurrentBuilder ops b1))\<lparr>bl_builder := bb\<rparr>" "bl_nextBlockToWrite b1 = of_nat c"
      "f = (\<lambda>b. b\<lparr>bl_currentBlockIdx := of_nat c, bl_firstKey := False\<rparr>) \<or> f = (\<lambda>b. b\<lparr>bl_currentBlockIdx := of_nat c\<rparr>) \<and> \<not> bl_firstKey b"
      "bl_frame b1 = bl_frame b" "\<forall>k\<in>set ks. key_route ?nb k \<le> c"
    for b1 bl' bb f
  proof -
    let ?b' = "b'\<lparr>bl_totalKeysAdded := bl_totalKeysAdded b' + 1\<rparr>"
    have e: "bl_iw b' = bl_iw b1" "bl_nextBlockToWrite b' = of_nat c" "bl_currentBlockIdx b' = of_nat c" "\<not> bl_firstKey b'"
      "bl_cfg b' = bl_cfg b" "bl_numBlocks b' = bl_numBlocks b" "bl_workers b' = bl_workers b" "bl_lastBlockID b' = int c"
      "bl_totalKeysAdded b' = bl_totalKeysAdded b" "iw_const (bl_iw b1) = iw_const (bl_iw b)" "bl_closed b' = bl_closed b"
      using that(5-8) lb by (auto simp: bl_frame_def resetCurrentBuilder_def)
    have "bl_inv env tk s ps fs ?b' (ks @ [k])"
      by (rule bl_inv_next [OF st c fp room _ that(2,3) _ that(9)]) (use that(1,4) e in simp_all)
    then show ?thesis
      using e by simp
  qed
  show ?thesis
  proof (cases "bl_firstKey b")
    case True
    let ?f = "\<lambda>b :: 'b builder. b\<lparr>bl_currentBlockIdx := of_nat c, bl_firstKey := False\<rparr>"
    have ks: "ks = []" "bl = []"
      using True fk by auto
    have "andThen (emitEmptyBlocks env ops (of_nat c)) (andThen (upd (\<lambda>b. ?f (resetCurrentBuilder ops b)))
        (addToBlock ops (bk_k0 k) (bk_k1 k) (bk_payload k) (bk_fp k))) b = (None, b')"
      using run True unfolding addKeySingleThreaded_def by simp
    note run' = this
    have past: "\<forall>k\<in>set ks. key_route ?nb k < length bl" "length bl \<le> c" and f: "\<And>b. bl_builder (?f b) = bl_builder b"
      using ks by simp_all
    obtain bl' bb b1 where "committed env (unat tk) (ps + fs) (unat ?nb) (maxMeta tk) (bl_iw b1) bl'" "length bl' = c"
      "blocks_of (query s) ps fs ?nb (ks @ [k]) bl'" "holds tk s ps fs bb [k]"
      "b' = (?f (resetCurrentBuilder ops b1))\<lparr>bl_builder := bb\<rparr>" "bl_frame b1 = bl_frame b" "bl_nextBlockToWrite b1 = of_nat c"
      by (rule open_block_ok [OF st past c f run'])
    note O = this
    have "holds tk s ps fs (bl_builder b') (filter (\<lambda>k. key_route ?nb k = c) (ks @ [k]))"
      using O(4,5) flt ks by simp
    from fin [where f = ?f, OF O(1-3) this O(5,7) _ O(6)] ks show ?thesis
      by simp
  next
    case False
    note F = fk [unfolded if_not_P [OF False]]
    show ?thesis
    proof (cases "of_nat c = bl_currentBlockIdx b")
      case True
      then have cl: "c = length bl"
        using F uc by metis
      obtain bb where a: "op_AddKey ops (bl_builder b) (bk_k0 k) (bk_k1 k) (bk_payload k) (bk_fp k) = Inr bb" "b' = b\<lparr>bl_builder := bb\<rparr>"
        using run True False by (auto simp: addKeySingleThreaded_def addToBlock_None)
      have "holds tk s ps fs bb (cur @ [k])"
        using add_holds [of tk s ps fs "bl_builder b" cur k] S a(1) by auto
      moreover have "cur @ [k] = filter (\<lambda>k. key_route ?nb k = c) (ks @ [k])"
        using F c cl by simp
      ultimately have h: "holds tk s ps fs bb (filter (\<lambda>k. key_route ?nb k = c) (ks @ [k]))"
        by metis
      have bo: "blocks_of (query s) ps fs ?nb (ks @ [k]) bl" and le: "\<forall>k\<in>set ks. key_route ?nb k \<le> c"
        using S F c cl blocks_of_later_key [of bl ?nb k] by simp_all
      have f: "committed env (unat tk) (ps + fs) (unat ?nb) (maxMeta tk) (bl_iw b) bl" "bl_nextBlockToWrite b = of_nat c"
        using S cl by simp_all
      have "bl_inv env tk s ps fs (b'\<lparr>bl_totalKeysAdded := bl_totalKeysAdded b' + 1\<rparr>) (ks @ [k])"
        by (rule bl_inv_next [OF st c fp room _ cl [symmetric] bo _ le]) (use f h a(2) True False lb in simp_all)
      then show ?thesis
        using a(2) by simp
    next
      case False': False
      have ne: "cur \<noteq> []" and ka: "currentBlockKeysAdded ops b > 0"
        using F keys_added [of tk s ps fs "bl_builder b" cur] S by (auto simp: currentBlockKeysAdded_def)
      have lt: "length bl < c"
        using last F False' uc by (metis nat_less_le of_nat_le_iff word_of_unat)
      let ?f = "\<lambda>b :: 'b builder. b\<lparr>bl_currentBlockIdx := of_nat c\<rparr>"
      obtain b2 where bb: "buildBlock env ops b = (None, b2)"
        and rest: "andThen (emitEmptyBlocks env ops (of_nat c)) (andThen (upd (\<lambda>b. ?f (resetCurrentBuilder ops b)))
          (addToBlock ops (bk_k0 k) (bk_k1 k) (bk_payload k) (bk_fp k))) (b2\<lparr>bl_nextBlockToWrite := bl_nextBlockToWrite b2 + 1\<rparr>) = (None, b')"
        using run False False' ka by (auto simp: addKeySingleThreaded_def andThen_None)
      let ?b2 = "b2\<lparr>bl_nextBlockToWrite := bl_nextBlockToWrite b2 + 1\<rparr>"
      have fit: "fps_fit fs cur" and es: "cfg_entrySize (bl_cfg b) = ps + fs" "ps + fs \<le> 12" "length bl \<le> unat ?nb"
        using S F fps_fit_filter [of fs ks] by (auto simp: cfg_entrySize_def)
      have rm: "cb_keys bl + length cur \<le> unat tk"
        using blocks_of_cur [of "query s" ps fs ?nb ks bl] S F by simp
      from buildBlock_ok [OF _ _ es(2) _ es(3,1) _ ne fit rm bb] S
      obtain cb where cb: "committed env (unat tk) (ps + fs) (unat ?nb) (maxMeta tk) (bl_iw b2) (bl @ [cb])"
        "block_built (query s) ps fs cur cb" "holds tk s ps fs (bl_builder b2) cur" "bl_frame b2 = bl_frame b"
        "bl_nextBlockToWrite b2 = bl_nextBlockToWrite b"
        by blast
      have st2: "bl_state env tk s ps fs ?b2 ks (bl @ [cb]) cur"
        unfolding bl_state_def using S cb F by (simp add: bl_frame_def blocks_of_snoc)
      have past: "\<forall>k\<in>set ks. key_route ?nb k < length (bl @ [cb])" "length (bl @ [cb]) \<le> c" and f: "\<And>b. bl_builder (?f b) = bl_builder b"
        using F lt by (auto simp: less_Suc_eq_le)
      obtain bl' bb b1 where "committed env (unat tk) (ps + fs) (unat ?nb) (maxMeta tk) (bl_iw b1) bl'" "length bl' = c"
        "blocks_of (query s) ps fs ?nb (ks @ [k]) bl'" "holds tk s ps fs bb [k]"
        "b' = (?f (resetCurrentBuilder ops b1))\<lparr>bl_builder := bb\<rparr>" "bl_frame b1 = bl_frame ?b2" "bl_nextBlockToWrite b1 = of_nat c"
        by (rule open_block_ok [OF st2 past c f rest])
      note O = this
      have "\<forall>k\<in>set ks. key_route ?nb k < c"
        using F lt by auto
      then have "holds tk s ps fs (bl_builder b') (filter (\<lambda>k. key_route ?nb k = c) (ks @ [k]))" "\<forall>k\<in>set ks. key_route ?nb k \<le> c"
        using O(4,5) flt by auto
      moreover have "bl_frame b1 = bl_frame b"
        using O(6) cb(4) by (simp add: bl_frame_def)
      ultimately show ?thesis
        using fin [where f = ?f, OF O(1-3) _ O(5,7)] False by simp
    qed
  qed
qed

section \<open>Adding keys\<close>

lemma bl_inv_keyCounter [simp]: "bl_inv env tk s ps fs (b\<lparr>bl_keyCounter := n\<rparr>) ks \<longleftrightarrow> bl_inv env tk s ps fs b ks"
  and bl_inv_closed [simp]: "bl_inv env tk s ps fs (b\<lparr>bl_closed := c\<rparr>) ks \<longleftrightarrow> bl_inv env tk s ps fs b ks"
  by (simp_all add: bl_inv_def bl_state_def bl_at_def)

end

definition key_of :: "nat \<Rightarrow> bytes \<Rightarrow> u64 \<Rightarrow> blockKey" where
  "key_of fs key payload = \<lparr>bk_k0 = key_k0 key, bk_k1 = key_k1 key, bk_payload = payload,
     bk_fp = extractFingerprint (key_k0 key) (key_k1 key) fs\<rparr>"

lemma key_of_simps [simp]:
  "bk_k0 (key_of fs key p) = key_k0 key" "bk_k1 (key_of fs key p) = key_k1 key" "bk_payload (key_of fs key p) = p"
  "bk_fp (key_of fs key p) = extractFingerprint (key_k0 key) (key_k1 key) fs"
  by (simp_all add: key_of_def)

text \<open>What an accepted key looks like, and the state in which it reaches the block builder.\<close>

definition key_ok :: "nat \<Rightarrow> bytes \<Rightarrow> u64 \<Rightarrow> bool" where
  "key_ok ps key payload \<longleftrightarrow> 16 \<le> length key \<and> length key \<le> 65535 \<and> (ps = 0 \<or> take_bit (8 * ps) payload = payload)"

lemma unat_payload_max:
  assumes "0 < ps" and "ps < 8"
  shows "unat (push_bit (ps * 8) 1 - 1 :: u64) = 2 ^ (8 * ps) - 1"
proof -
  have "(2 :: nat) ^ (8 * ps) < 2 ^ 64"
    using assms by (intro power_strict_increasing) simp_all
  then have "unat (of_nat (2 ^ (8 * ps)) :: u64) = 2 ^ (8 * ps)"
    by (intro unat_of_nat_lt) simp
  then have "unat (push_bit (ps * 8) 1 :: u64) = 2 ^ (8 * ps)"
    by (simp add: push_bit_eq_mult mult.commute)
  then show ?thesis
    by (subst unat_sub_le) (simp_all add: word_le_nat_alt)
qed

lemma payload_fits:
  assumes "ps \<le> 8" and "\<not> (int ps > 0 \<and> int ps < 8 \<and> (payload :: u64) > push_bit (ps * 8) 1 - 1)"
  shows "ps = 0 \<or> take_bit (8 * ps) payload = payload"
proof (cases "ps = 0 \<or> ps = 8")
  case True
  then show ?thesis by (auto simp: take_bit_word_eq_self)
next
  case False
  then have p: "0 < ps" "ps < 8" "payload \<le> push_bit (ps * 8) 1 - 1"
    using assms by (auto simp: not_less)
  then have "unat payload \<le> 2 ^ (8 * ps) - 1"
    using unat_payload_max [OF p(1,2)] by (simp add: word_le_nat_alt)
  then have "unat payload < 2 ^ (8 * ps)"
    by (metis Suc_pred' le_imp_less_Suc zero_less_numeral zero_less_power)
  then have "unat (take_bit (8 * ps) payload) = unat payload"
    by (simp add: unsigned_take_bit_eq take_bit_nat_eq_self)
  then show ?thesis
    by (simp only: word_unat_eq_iff simp_thms)
qed

lemma AddKey_steps:
  assumes w: "bl_workers b \<le> 1" and cfg: "cfg_payloadSize (bl_cfg b) = int ps" "cfg_fingerprintSize (bl_cfg b) = int fs" "ps \<le> 8"
    and run: "AddKey env par ops ctxErr key payload b = (None, b')"
  obtains b1 n where "\<not> bl_closed b" "key_ok ps key payload"
    "bl_lastBlockID b \<le> int (unat (blockRoute (key_k0 key) (bl_numBlocks b)))"
    "addKeySingleThreaded env ops (key_k0 key) (key_k1 key) payload (extractFingerprint (key_k0 key) (key_k1 key) fs)
       (blockRoute (key_k0 key) (bl_numBlocks b))
       (b\<lparr>bl_keyCounter := n, bl_lastBlockID := int (unat (blockRoute (key_k0 key) (bl_numBlocks b)))\<rparr>) = (None, b1)"
    "b' = b1\<lparr>bl_totalKeysAdded := bl_totalKeysAdded b1 + 1\<rparr>"
proof -
  let ?b1 = "b\<lparr>bl_keyCounter := bl_keyCounter b + 1\<rparr>" and ?r = "blockRoute (key_k0 key) (bl_numBlocks b)"
  have g: "\<not> bl_closed b" "\<not> length key > maxKeyLength" "\<not> length key < MinKeySize"
    "\<not> (int ps > 0 \<and> int ps < 8 \<and> payload > push_bit (ps * 8) 1 - 1)"
    using run cfg by (auto simp: AddKey_def Let_def split: if_splits)
  have "andThen (\<lambda>b. if bl_keyCounter b \<ge> contextCheckInterval then checkContextSlow par ctxErr b else (None, b))
         (\<lambda>b. if int (unat ?r) < bl_lastBlockID b then (Some ErrUnsortedInput, b)
              else andThen (if bl_workers (b\<lparr>bl_lastBlockID := int (unat ?r)\<rparr>) > 1 then par_addKey par (key_k0 key) (key_k1 key) payload ?r
                         else addKeySingleThreaded env ops (key_k0 key) (key_k1 key) payload
                                (extractFingerprint (key_k0 key) (key_k1 key) (nat (cfg_fingerprintSize (bl_cfg (b\<lparr>bl_lastBlockID := int (unat ?r)\<rparr>))))) ?r)
                  (upd (\<lambda>b. b\<lparr>bl_totalKeysAdded := bl_totalKeysAdded b + 1\<rparr>)) (b\<lparr>bl_lastBlockID := int (unat ?r)\<rparr>)) ?b1 = (None, b')"
  proof -
    have g4: "\<not> (cfg_payloadSize (bl_cfg b) > 0 \<and> cfg_payloadSize (bl_cfg b) < 8 \<and> payload > push_bit (nat (cfg_payloadSize (bl_cfg b)) * 8) 1 - 1)"
      using g(4) cfg(1) by simp
    have nb: "bl_numBlocks ?b1 = bl_numBlocks b"
      by simp
    show ?thesis
      using run unfolding AddKey_def Let_def if_not_P [OF g(1)] if_not_P [OF g(2)] if_not_P [OF g(3)] if_not_P [OF g4] nb
        key_k0_def key_k1_def blockRoute_def .
  qed
  then obtain b2 where c: "(if bl_keyCounter ?b1 \<ge> contextCheckInterval then checkContextSlow par ctxErr ?b1 else (None, ?b1)) = (None, b2)"
    and r: "(if int (unat ?r) < bl_lastBlockID b2 then (Some ErrUnsortedInput, b2)
              else andThen (if bl_workers (b2\<lparr>bl_lastBlockID := int (unat ?r)\<rparr>) > 1 then par_addKey par (key_k0 key) (key_k1 key) payload ?r
                         else addKeySingleThreaded env ops (key_k0 key) (key_k1 key) payload
                                (extractFingerprint (key_k0 key) (key_k1 key) (nat (cfg_fingerprintSize (bl_cfg (b2\<lparr>bl_lastBlockID := int (unat ?r)\<rparr>))))) ?r)
                  (upd (\<lambda>b. b\<lparr>bl_totalKeysAdded := bl_totalKeysAdded b + 1\<rparr>)) (b2\<lparr>bl_lastBlockID := int (unat ?r)\<rparr>)) = (None, b')"
    unfolding andThen_None by blast
  obtain n where b2: "b2 = b\<lparr>bl_keyCounter := n\<rparr>"
    using c w by (auto simp: checkContextSlow_def Let_def split: if_splits option.splits)
  have le: "bl_lastBlockID b \<le> int (unat ?r)"
    using r b2 by (simp split: if_splits)
  obtain b1 where "addKeySingleThreaded env ops (key_k0 key) (key_k1 key) payload (extractFingerprint (key_k0 key) (key_k1 key) fs) ?r
       (b\<lparr>bl_keyCounter := n, bl_lastBlockID := int (unat ?r)\<rparr>) = (None, b1)" "b' = b1\<lparr>bl_totalKeysAdded := bl_totalKeysAdded b1 + 1\<rparr>"
    using r b2 le w cfg(2) by (auto simp: andThen_None)
  moreover have "key_ok ps key payload"
    using g payload_fits [OF cfg(3) g(4)] by (simp add: key_ok_def maxKeyLength_def MinKeySize_def)
  ultimately show ?thesis
    using that g(1) le by blast
qed

context block_algo
begin

lemma AddKey_ok:
  assumes inv: "bl_inv env tk s ps fs b ks" and room: "length ks < unat tk"
    and run: "AddKey env par ops ctxErr key payload b = (None, b')"
  shows "bl_inv env tk s ps fs b' (ks @ [key_of fs key payload]) \<and> key_ok ps key payload \<and>
    bl_cfg b' = bl_cfg b \<and> iw_const (bl_iw b') = iw_const (bl_iw b) \<and> bl_closed b' = bl_closed b"
proof -
  have S: "bl_workers b \<le> 1" "cfg_payloadSize (bl_cfg b) = int ps" "cfg_fingerprintSize (bl_cfg b) = int fs" "ps \<le> 8" "fs \<le> 4"
    "bl_numBlocks b = nblocks tk"
    using inv by (auto simp: bl_inv_def bl_state_def)
  let ?k = "key_of fs key payload" and ?r = "blockRoute (key_k0 key) (nblocks tk)"
  obtain b1 n where a: "key_ok ps key payload" "bl_lastBlockID b \<le> int (unat ?r)"
    "addKeySingleThreaded env ops (key_k0 key) (key_k1 key) payload (extractFingerprint (key_k0 key) (key_k1 key) fs) ?r
       (b\<lparr>bl_keyCounter := n, bl_lastBlockID := int (unat ?r)\<rparr>) = (None, b1)"
    "b' = b1\<lparr>bl_totalKeysAdded := bl_totalKeysAdded b1 + 1\<rparr>"
    using AddKey_steps [OF S(1-4) run] unfolding S(6) by metis
  let ?b0 = "b\<lparr>bl_keyCounter := n\<rparr>"
  have inv0: "bl_inv env tk s ps fs ?b0 ks" and fp: "take_bit (fs * 8) (bk_fp ?k) = bk_fp ?k"
    using inv extractFingerprint_fits [OF S(5)] by simp_all
  have r: "unat ?r = key_route (nblocks tk) ?k" "bl_lastBlockID ?b0 \<le> int (unat ?r)"
    using a(2) by (simp_all add: key_route_def)
  have "addKeySingleThreaded env ops (bk_k0 ?k) (bk_k1 ?k) (bk_payload ?k) (bk_fp ?k) (of_nat (unat ?r)) (?b0\<lparr>bl_lastBlockID := int (unat ?r)\<rparr>) = (None, b1)"
    using a(3) by simp
  note ok = addKeySingleThreaded_ok [OF inv0 refl r fp room this]
  show ?thesis
    using ok a(1,4) by simp
qed

lemma add_keys_ok:
  assumes "bl_inv env tk s ps fs b ks" and "length ks + length kvs \<le> unat tk" and "add_keys env par ops kvs b = (None, b')"
  shows "bl_inv env tk s ps fs b' (ks @ map (\<lambda>(c, key, payload). key_of fs key payload) kvs) \<and>
    (\<forall>(c, key, payload)\<in>set kvs. key_ok ps key payload) \<and> bl_cfg b' = bl_cfg b \<and> iw_const (bl_iw b') = iw_const (bl_iw b) \<and>
    bl_closed b' = bl_closed b"
  using assms
proof (induction kvs arbitrary: b ks)
  case (Cons kv kvs)
  obtain c key payload where kv: "kv = (c, key, payload)"
    by (cases kv)
  obtain b1 where 1: "AddKey env par ops c key payload b = (None, b1)" and 2: "add_keys env par ops kvs b1 = (None, b')"
    using Cons.prems(3) by (auto simp: kv andThen_None)
  have "length ks < unat tk"
    using Cons.prems(2) by simp
  note a = AddKey_ok [OF Cons.prems(1) this 1]
  have "length (ks @ [key_of fs key payload]) + length kvs \<le> unat tk"
    using Cons.prems(2) by simp
  from Cons.IH [OF _ this 2] a show ?case
    by (simp add: kv)
qed simp

end

section \<open>A new builder\<close>

lemma newIndexWriter_ok:
  assumes run: "newIndexWriter env cfg nb ops algo = Inr iw" and gc: "op_GlobalConfigSize ops algo = 0"
    and lim: "unat (cfg_totalKeys cfg) < 2 ^ 40" "cfg_entrySize cfg \<le> 12" "unat nb < 2 ^ 31"
  shows "committed env (unat (cfg_totalKeys cfg)) (cfg_entrySize cfg) (unat nb) mm iw []"
    and "iw_cfg iw = cfg" "iw_userMetadata iw = cfg_userMetadata cfg"
    "iw_header iw = \<lparr>Magic = magic, Version = version, TotalKeys = cfg_totalKeys cfg, NumBlocks = nb,
       PayloadSize = of_int (cfg_payloadSize cfg), FingerprintSize = of_int (cfg_fingerprintSize cfg),
       Seed = cfg_globalSeed cfg, BlockAlgorithm = cfg_algorithm cfg, Reserved = replicate 31 0\<rparr>"
proof -
  let ?u = "length (cfg_userMetadata cfg)" and ?es = "cfg_entrySize cfg" and ?tk = "cfg_totalKeys cfg"
  have u: "?u < 2 ^ 32"
    using run by (auto simp: newIndexWriter_def Let_def split: if_splits)
  have off: "iw_userMetadataOffset iw = 64" "iw_algoConfigOffset iw = 64 + 4 + of_nat ?u" "iw_ramIndexOffset iw = 64 + 4 + of_nat ?u + 4"
    "iw_payloadRegionOffset iw = 64 + 4 + of_nat ?u + 4 + ucast (nb + 1) * 10"
    "iw_metadataRegionOffset iw = 64 + 4 + of_nat ?u + 4 + ucast (nb + 1) * 10 + ?tk * of_nat ?es"
    and st: "iw_open iw" "\<exists>d. iw_disk iw = Some d" "iw_ramIndex iw = []" "iw_payloadHasher iw = []" "iw_metadataHasher iw = []"
      "iw_metadataWriteOffset iw = iw_metadataRegionOffset iw" "iw_keyCount iw = 0" "iw_blockCount iw = 0"
    and c: "iw_cfg iw = cfg" "iw_userMetadata iw = cfg_userMetadata cfg"
    "iw_header iw = \<lparr>Magic = magic, Version = version, TotalKeys = cfg_totalKeys cfg, NumBlocks = nb,
       PayloadSize = of_int (cfg_payloadSize cfg), FingerprintSize = of_int (cfg_fingerprintSize cfg),
       Seed = cfg_globalSeed cfg, BlockAlgorithm = cfg_algorithm cfg, Reserved = replicate 31 0\<rparr>"
    using run by (auto simp: newIndexWriter_def Let_def gc headerSize_def ramIndexEntrySize_def split: if_splits option.splits)
  show "iw_cfg iw = cfg" "iw_userMetadata iw = cfg_userMetadata cfg" "iw_header iw = \<lparr>Magic = magic, Version = version,
       TotalKeys = cfg_totalKeys cfg, NumBlocks = nb, PayloadSize = of_int (cfg_payloadSize cfg),
       FingerprintSize = of_int (cfg_fingerprintSize cfg), Seed = cfg_globalSeed cfg, BlockAlgorithm = cfg_algorithm cfg, Reserved = replicate 31 0\<rparr>"
    by (rule c)+
  have nb1: "unat (ucast (nb + 1) :: u64) = unat nb + 1"
  proof -
    have "unat (nb + 1) = unat nb + 1"
      using lim(3) by (simp add: unat_word_ariths)
    then show ?thesis
      using lim(3) by (simp add: unat_ucast_lt)
  qed
  have "unat ?tk * ?es \<le> 2 ^ 40 * 12"
    using lim(1,2) by (intro mult_le_mono) simp_all
  then have "unat (?tk * of_nat ?es) = unat ?tk * ?es" "unat ?tk * ?es \<le> 2 ^ 44"
    using lim(2) by (simp_all add: unat_mult_lt)
  note te = this
  have rs: "unat (ucast (nb + 1) * 10 :: u64) = 10 * (unat nb + 1)"
    using nb1 lim(3) by (subst unat_mult_lt) simp_all
  have o1: "unat (64 + 4 + of_nat ?u :: u64) = 68 + ?u"
    using u by (subst unat_add_lt) simp_all
  have o2: "unat (64 + 4 + of_nat ?u + 4 :: u64) = 72 + ?u"
    using o1 u by (subst unat_add_lt) simp_all
  have o3: "unat (64 + 4 + of_nat ?u + 4 + ucast (nb + 1) * 10 :: u64) = 72 + ?u + 10 * (unat nb + 1)"
    using o2 rs u lim(3) by (subst unat_add_lt) simp_all
  have o4: "unat (64 + 4 + of_nat ?u + 4 + ucast (nb + 1) * 10 + ?tk * of_nat ?es) = 72 + ?u + 10 * (unat nb + 1) + unat ?tk * ?es"
    using o3 te u lim(3) by (subst unat_add_lt) simp_all
  have "iw_layout iw (unat nb) (unat ?tk)"
    unfolding iw_layout_def Let_def c(1,2) off o1 o2 o3 o4 using c(3) by simp
  then show "committed env (unat ?tk) ?es (unat nb) mm iw []"
    unfolding committed_def iw_inv_def using st c u by (auto simp: at_off_def)
qed

definition finished_footer :: "sysEnv \<Rightarrow> cblock list \<Rightarrow> footer" where
  "finished_footer env bl = \<lparr>PayloadRegionHash = sys_xxh env (concat (map (\<lambda>(n, md, pl). le_put 8 (sys_xxh env pl)) bl)),
     MetadataRegionHash = sys_xxh env (cb_metas bl), fReserved = replicate 16 0\<rparr>"

definition sorted_config :: "u64 \<Rightarrow> buildOption list \<Rightarrow> buildConfig" where
  "sorted_config tk opts = (fold (\<lambda>opt cfg. opt cfg) opts defaultBuildConfig)\<lparr>cfg_totalKeys := tk\<rparr>"

lemma orCleanup_None: "orCleanup env par a b = (None, b') \<longleftrightarrow> a b = (None, b')"
  by (auto simp: orCleanup_def split: prod.splits option.splits)

context block_algo
begin

lemma NewSortedBuilder_ok:
  assumes run: "NewSortedBuilder env par newBlockBuilder ops tk opts = Inr b" and cfg: "cfg = sorted_config tk opts"
    and w: "cfg_workers cfg \<le> 1" and ps: "cfg_payloadSize cfg = int ps" and fs: "cfg_fingerprintSize cfg = int fs"
    and s: "s = cfg_globalSeed cfg" and nbb: "newBlockBuilder (cfg_algorithm cfg) tk s ps fs = Inr (newB tk s ps fs)"
    and nb: "unat tk < 2 ^ 40 \<Longrightarrow> unat (nblocks tk) < 2 ^ 31"
  shows "bl_inv env tk s ps fs b [] \<and> bl_cfg b = cfg \<and> \<not> bl_closed b \<and> bl_firstKey b \<and> iw_userMetadata (bl_iw b) = cfg_userMetadata cfg \<and>
    iw_header (bl_iw b) = \<lparr>Magic = magic, Version = version, TotalKeys = tk, NumBlocks = nblocks tk,
       PayloadSize = of_nat ps, FingerprintSize = of_nat fs, Seed = s, BlockAlgorithm = cfg_algorithm cfg, Reserved = replicate 31 0\<rparr>"
proof -
  have tk: "cfg_totalKeys cfg = tk" "unat tk < 2 ^ 40"
    using run cfg by (auto simp: sorted_config_def NewSortedBuilder_def newBuilder_def maxKeys_def word_less_nat_alt res_simps split: if_splits)
  note h = new_holds [OF tk(2), of s ps fs]
  have g: "ps \<le> 8" "fs \<le> 4"
    using run unfolding NewSortedBuilder_def newBuilder_def Let_def sorted_config_def [symmetric] cfg [symmetric]
    by (auto simp: ps fs maxPayloadSize_def maxFingerprintSize_def res_simps split: if_splits)
  obtain iw where iw: "newIndexWriter env cfg (nblocks tk) ops (newB tk s ps fs) = Inr iw"
    and b: "bl_cfg b = cfg" "bl_numBlocks b = nblocks tk" "bl_iw b = iw" "bl_builder b = newB tk s ps fs" "bl_nextBlockToWrite b = 0"
      "bl_firstKey b" "bl_workers b \<le> 1" "bl_lastBlockID b = -1" "bl_totalKeysAdded b = 0" "\<not> bl_closed b"
    using run w tk unfolding NewSortedBuilder_def newBuilder_def Let_def sorted_config_def [symmetric] cfg [symmetric]
    by (auto simp: ps fs s [symmetric] nbb num_blocks [OF h] res_simps split: if_splits)
  have es: "cfg_entrySize cfg = ps + fs"
    by (simp add: cfg_entrySize_def ps fs)
  note n = newIndexWriter_ok [OF iw config_size [OF h], unfolded tk(1) es, OF tk(2) _ nb [OF tk(2)]]
  have "bl_state env tk s ps fs b [] [] []"
    unfolding bl_state_def using tk g nb n(1) b h ps fs by (simp add: fps_fit_def)
  then have "bl_inv env tk s ps fs b []"
    unfolding bl_inv_def bl_at_def using b by auto
  then show ?thesis
    using b n(3,4) g ps fs s by simp
qed

section \<open>Finishing\<close>

lemma trailing_blocks_ok:
  assumes com: "committed env (unat tk) (ps + fs) (unat (nblocks tk)) (maxMeta tk) (bl_iw b) bl"
    and lim: "unat tk < 2 ^ 40" "ps + fs \<le> 12" "unat (nblocks tk) < 2 ^ 31" "length bl + n \<le> unat (nblocks tk)" "cb_keys bl \<le> unat tk"
    and holds: "holds tk s ps fs (bl_builder b) ks" and run: "trailing_blocks n env par ops b = (None, b')"
  shows "\<exists>gs ks'. committed env (unat tk) (ps + fs) (unat (nblocks tk)) (maxMeta tk) (bl_iw b') (bl @ gs) \<and> length gs = n \<and>
    (\<forall>g\<in>set gs. \<exists>md. g = (0, md, [])) \<and> holds tk s ps fs (bl_builder b') ks' \<and> bl_frame b' = bl_frame b"
  using assms
proof (induction n arbitrary: b bl ks)
  case 0
  then show ?case by auto
next
  case (Suc n)
  obtain b1 where 1: "commitEmptyBlock env ops b = (None, b1)" and 2: "trailing_blocks n env par ops b1 = (None, b')"
    using Suc.prems(8) by (auto simp: andThen_None orCleanup_None)
  have "length bl \<le> unat (nblocks tk)"
    using Suc.prems(5) by simp
  from commitEmptyBlock_ok [OF Suc.prems(1-4) this Suc.prems(6,7) 1]
  obtain md where md: "committed env (unat tk) (ps + fs) (unat (nblocks tk)) (maxMeta tk) (bl_iw b1) (bl @ [(0, md, [])])"
    "holds tk s ps fs (bl_builder b1) []" "bl_frame b1 = bl_frame b" .
  have l1: "length (bl @ [(0, md, [])]) + n \<le> unat (nblocks tk)" "cb_keys (bl @ [(0, md, [])]) \<le> unat tk"
    using Suc.prems(5,6) by simp_all
  obtain gs ks' where gs: "committed env (unat tk) (ps + fs) (unat (nblocks tk)) (maxMeta tk) (bl_iw b') ((bl @ [(0, md, [])]) @ gs)"
    "length gs = n" "\<forall>g\<in>set gs. \<exists>md. g = (0, md, [])" "holds tk s ps fs (bl_builder b') ks'" "bl_frame b' = bl_frame b1"
    using Suc.IH [OF md(1) Suc.prems(2-4) l1 md(2) 2] by blast
  show ?case
    using gs md by (intro exI [of _ "(0, md, []) # gs"] exI [of _ ks']) simp
qed

text \<open>The last block with keys, if any, is committed first.\<close>

lemma finish_current_ok:
  assumes inv: "bl_inv env tk s ps fs b ks"
    and run: "(if currentBlockKeysAdded ops b > 0 then orCleanup env par (buildBlock env ops) b else (None, b)) = (None, b')"
  obtains bl cur where "committed env (unat tk) (ps + fs) (unat (nblocks tk)) (maxMeta tk) (bl_iw b') bl" "length bl \<le> unat (nblocks tk)"
    "blocks_of (query s) ps fs (nblocks tk) ks bl" "\<forall>k\<in>set ks. key_route (nblocks tk) k < length bl"
    "holds tk s ps fs (bl_builder b') cur" "bl_frame b' = bl_frame b"
proof -
  obtain bl cur where st: "bl_state env tk s ps fs b ks bl cur" and fk0: "bl_at b (nblocks tk) ks bl cur"
    using inv unfolding bl_inv_def by blast
  note fk = fk0 [unfolded bl_at_def]
  note S = st [unfolded bl_state_def]
  have ka: "currentBlockKeysAdded ops b = length cur"
    using S keys_added by (auto simp: currentBlockKeysAdded_def)
  show ?thesis
  proof (cases "bl_firstKey b")
    case True
    then show ?thesis
      using S fk run ka by (intro that [of bl cur]) auto
  next
    case False
    note F = fk [unfolded if_not_P [OF False]]
    have "currentBlockKeysAdded ops b > 0"
      using ka F by (metis length_greater_0_conv)
    then have bb: "buildBlock env ops b = (None, b')"
      using run by (simp only: if_True orCleanup_None)
    have fit: "fps_fit fs cur" and es: "cfg_entrySize (bl_cfg b) = ps + fs" "ps + fs \<le> 12" "length bl \<le> unat (nblocks tk)"
      using S F fps_fit_filter [of fs ks] by (auto simp: cfg_entrySize_def)
    have rm: "cb_keys bl + length cur \<le> unat tk" and ne: "cur \<noteq> []"
      using blocks_of_cur [of "query s" ps fs "nblocks tk" ks bl] S F by auto
    from buildBlock_ok [OF _ _ es(2) _ es(3,1) _ ne fit rm bb] S
    obtain cb where cb: "committed env (unat tk) (ps + fs) (unat (nblocks tk)) (maxMeta tk) (bl_iw b') (bl @ [cb])"
      "block_built (query s) ps fs cur cb" "holds tk s ps fs (bl_builder b') cur" "bl_frame b' = bl_frame b"
      by blast
    have "blocks_of (query s) ps fs (nblocks tk) ks (bl @ [cb])"
      using S F cb(2) by (simp add: blocks_of_snoc)
    then show ?thesis
      using F by (intro that [OF cb(1) _ _ _ cb(3,4)]) (auto simp: less_Suc_eq_le)
  qed
qed

text \<open>Once all blocks are committed, \<open>finalizeIndex\<close> leaves the image of the index.\<close>

lemma finalizeIndex_image:
  assumes com: "committed env (unat tk) (ps + fs) (unat (nblocks tk)) (maxMeta tk) (bl_iw b) bl"
    and lim: "unat tk < 2 ^ 40" "ps + fs \<le> 12" "unat (nblocks tk) < 2 ^ 31" and len: "length bl = unat (nblocks tk)" and keys: "cb_keys bl = unat tk"
    and holds: "holds tk s ps fs (bl_builder b) ks" and run: "finalizeIndex env par ops b = (None, b')"
  shows "(\<forall>(n, md, pl)\<in>set bl. 100 \<le> length md \<and> length md \<le> maxMeta tk \<and> length pl = n * (ps + fs)) \<and>
    iw_disk (bl_iw b') = Some (index_image ((iw_header (bl_iw b))\<lparr>TotalKeys := tk, NumBlocks := nblocks tk\<rparr>) (iw_userMetadata (bl_iw b))
      (map (ram_before bl) [0..<length bl + 1]) (cb_pays bl) (cb_metas bl) (finished_footer env bl))"
proof -
  have iv: "iw_inv env (bl_iw b) bl" and lay: "iw_layout (bl_iw b) (length bl) (cb_keys bl)"
    and ec: "cfg_entrySize (iw_cfg (bl_iw b)) = ps + fs" and mds: "\<forall>(n, md, pl)\<in>set bl. 100 \<le> length md \<and> length md \<le> maxMeta tk"
    using com unfolding committed_def len keys by blast+
  have sm: "unat (iw_metadataRegionOffset (bl_iw b)) + length (cb_metas bl) + 32 < 2 ^ 63"
    using committed_bounds(1) [OF com lim meta_small [OF lim(1)]] len by simp
  obtain iw' where fz: "finalize env ops (bl_builder b) (bl_iw b) = (None, iw')" and b': "bl_iw b' = iw'"
    using run by (auto simp: finalizeIndex_def orCleanup_None on_iw_None)
  have "final_header (bl_iw b) = (iw_header (bl_iw b))\<lparr>TotalKeys := tk, NumBlocks := nblocks tk\<rparr>"
  proof -
    have "iw_blockCount (bl_iw b) = of_nat (unat (nblocks tk))" "iw_keyCount (bl_iw b) = of_nat (unat tk)"
      using iv unfolding iw_inv_def len keys by blast+
    then show ?thesis
      by (simp add: final_header_def)
  qed
  moreover have "final_footer env (bl_iw b) = finished_footer env bl"
    using iv by (simp add: final_footer_def finished_footer_def iw_inv_def)
  moreover have "\<forall>(n, md, pl)\<in>set bl. 100 \<le> length md \<and> length md \<le> maxMeta tk \<and> length pl = n * (ps + fs)"
  proof -
    have "\<forall>(n, md, pl)\<in>set bl. length pl = n * cfg_entrySize (iw_cfg (bl_iw b))"
      using iv unfolding iw_inv_def by blast
    then show ?thesis
      using mds unfolding ec by (simp only: Ball_def case_prod_beta) blast
  qed
  ultimately show ?thesis
    using finalize_image [OF iv lay config_size [OF holds] sm fz] b' by simp
qed

lemma finishSorted_ok:
  assumes inv: "bl_inv env tk s ps fs b ks" and run: "finishSorted env par ops b = (None, b')"
  shows "\<exists>bl. length ks = unat tk \<and> length bl = unat (nblocks tk) \<and> blocks_of (query s) ps fs (nblocks tk) ks bl \<and> cb_keys bl = unat tk \<and>
    (\<forall>(n, md, pl)\<in>set bl. 100 \<le> length md \<and> length md \<le> maxMeta tk \<and> length pl = n * (ps + fs)) \<and>
    iw_disk (bl_iw b') = Some (index_image ((iw_header (bl_iw b))\<lparr>TotalKeys := tk, NumBlocks := nblocks tk\<rparr>) (iw_userMetadata (bl_iw b))
      (map (ram_before bl) [0..<length bl + 1]) (cb_pays bl) (cb_metas bl) (finished_footer env bl))"
proof -
  have S: "unat tk < 2 ^ 40" "ps \<le> 8" "fs \<le> 4" "unat (nblocks tk) < 2 ^ 31" "cfg_totalKeys (bl_cfg b) = tk" "bl_workers b \<le> 1"
    "bl_totalKeysAdded b = of_nat (length ks)" "length ks \<le> unat tk" "bl_numBlocks b = nblocks tk"
    using inv by (auto simp: bl_inv_def bl_state_def)
  let ?b = "b\<lparr>bl_closed := True\<rparr>"
  have inv': "bl_inv env tk s ps fs ?b ks"
    using inv by simp
  have g: "\<not> bl_closed b" "bl_totalKeysAdded b = tk" and fin: "finishSingleThreaded env par ops ?b = (None, b')"
    using run S(5,6) by (auto simp: finishSorted_def Let_def split: if_splits)
  have lk: "length ks = unat tk"
    using g(2) S(7,8) unat_lt2p [of tk] by (metis le_less_trans unat_of_nat_lt)
  obtain b1 where 1: "(if currentBlockKeysAdded ops ?b > 0 then orCleanup env par (buildBlock env ops) ?b else (None, ?b)) = (None, b1)"
    and 2: "commitTrailingEmptyBlocksAndFinalize env par ops b1 = (None, b')"
    using fin unfolding finishSingleThreaded_def andThen_None by blast
  obtain bl cur where c: "committed env (unat tk) (ps + fs) (unat (nblocks tk)) (maxMeta tk) (bl_iw b1) bl" "length bl \<le> unat (nblocks tk)"
    "blocks_of (query s) ps fs (nblocks tk) ks bl" "\<forall>k\<in>set ks. key_route (nblocks tk) k < length bl"
    "holds tk s ps fs (bl_builder b1) cur" "bl_frame b1 = bl_frame ?b"
    by (rule finish_current_ok [OF inv' 1])
  have fr: "bl_numBlocks b1 = nblocks tk" "iw_const (bl_iw b1) = iw_const (bl_iw b)"
    using c(6) S(9) by (simp_all add: bl_frame_def)
  have bc: "unat (iw_blockCount (bl_iw b1)) = length bl"
    using c(1,2) S(4) by (simp add: committed_def iw_inv_def)
  let ?n = "unat (nblocks tk) - length bl"
  obtain b2 where t: "trailing_blocks ?n env par ops b1 = (None, b2)" and f: "finalizeIndex env par ops b2 = (None, b')"
    using 2 unfolding commitTrailingEmptyBlocksAndFinalize_def fr bc andThen_None by blast
  have ck: "cb_keys bl \<le> unat tk"
    unfolding blocks_of_keys [OF c(3)] using lk by (simp flip: lk)
  have l: "ps + fs \<le> 12" "length bl + ?n \<le> unat (nblocks tk)"
    using S c(2) by simp_all
  obtain gs ks' where gs: "committed env (unat tk) (ps + fs) (unat (nblocks tk)) (maxMeta tk) (bl_iw b2) (bl @ gs)" "length gs = ?n"
    "\<forall>g\<in>set gs. \<exists>md. g = (0, md, [])" "holds tk s ps fs (bl_builder b2) ks'" "bl_frame b2 = bl_frame b1"
    using trailing_blocks_ok [OF c(1) S(1) l(1) S(4) l(2) ck c(5) t] by blast
  let ?bl = "bl @ gs"
  have len: "length ?bl = unat (nblocks tk)"
    using gs(2) c(2) by simp
  have bo: "blocks_of (query s) ps fs (nblocks tk) ks ?bl"
    using c(3,4) gs(3) by (intro blocks_of_gaps) auto
  have keys: "cb_keys ?bl = unat tk"
    unfolding blocks_of_keys [OF bo] len using key_route_less [OF S(1)] by (simp add: lk)
  have cst: "iw_const (bl_iw b2) = iw_const (bl_iw b)"
    using gs(5) fr(2) by (simp add: bl_frame_def)
  have "iw_header (bl_iw b2) = iw_header (bl_iw b)" "iw_userMetadata (bl_iw b2) = iw_userMetadata (bl_iw b)"
    using cst by (simp_all add: iw_const_def)
  then show ?thesis
    using finalizeIndex_image [OF gs(1) S(1) l(1) S(4) len keys gs(4) f] lk len bo keys by (intro exI [of _ ?bl]) simp
qed

end

end
