(* ===== verification/Build_Query.thy ===== *)
theory Build_Query
  imports Builder_Correct
begin

text \<open>
  From the committed blocks to the answers of the opened index: every key that was added gets its own
  rank, the ranks are exactly the numbers below the number of keys, and the payload comes back.
\<close>

section \<open>Ranks of the keys of all blocks\<close>

lemma cb_keys_take_mono: "i \<le> j \<Longrightarrow> cb_keys (take i bl) \<le> cb_keys (take j bl)"
  by (auto simp: cb_keys_def le_iff_add take_add)

lemma blocks_ranks:
  assumes bo: "blocks_of query ps fs nb ks bl" and route: "\<forall>k\<in>set ks. key_route nb k < length bl"
  obtains r where "distinct (map r ks)" "set (map r ks) = {0..<length ks}"
    "\<And>k. k \<in> set ks \<Longrightarrow> \<exists>n md pl s. bl ! key_route nb k = (n, md, pl) \<and> query (bk_k0 k) (bk_k1 k) md n = Inr s \<and> s < n \<and>
      take (fs + ps) (drop (s * (fs + ps)) pl) = entry_bytes fs ps (bk_fp k) (bk_payload k) \<and>
      r k = cb_keys (take (key_route nb k) bl) + s"
proof -
  let ?g = "\<lambda>i. filter (\<lambda>k. key_route nb k = i) ks"
  have "\<forall>i. \<exists>slot. i < length bl \<longrightarrow> block_slots query (?g i) (fst (snd (bl ! i))) slot \<and> block_entries fs ps (?g i) (snd (snd (bl ! i))) slot \<and>
      fst (bl ! i) = length (?g i)"
    using bo by (auto simp: blocks_of_def block_built_def case_prod_beta)
  then obtain S where S: "\<And>i. i < length bl \<Longrightarrow> block_slots query (?g i) (fst (snd (bl ! i))) (S i) \<and>
      block_entries fs ps (?g i) (snd (snd (bl ! i))) (S i) \<and> fst (bl ! i) = length (?g i)"
    by metis
  define r where "r k = cb_keys (take (key_route nb k) bl) + S (key_route nb k) k" for k
  have slot: "S (key_route nb k) k < fst (bl ! key_route nb k)" if "k \<in> set ks" for k
  proof -
    have "S (key_route nb k) ` set (?g (key_route nb k)) = {0..<length (?g (key_route nb k))}"
      using S [of "key_route nb k"] route that by (simp add: block_slots_def)
    moreover have "k \<in> set (?g (key_route nb k))"
      using that by simp
    ultimately have "S (key_route nb k) k < length (?g (key_route nb k))"
      by (metis atLeastLessThan_iff imageI)
    then show ?thesis
      using S [of "key_route nb k"] route that by simp
  qed
  have suc: "cb_keys (take i bl) + fst (bl ! i) = cb_keys (take (Suc i) bl)" if "i < length bl" for i
    using cb_take_Suc(1) [OF that, of "fst (bl ! i)" "fst (snd (bl ! i))" "snd (snd (bl ! i))"] by simp
  have hi: "r k < cb_keys (take (Suc (key_route nb k)) bl)" if "k \<in> set ks" for k
    using slot [OF that] suc [of "key_route nb k"] route that by (auto simp: r_def)
  have lo: "cb_keys (take (key_route nb k) bl) \<le> r k" for k
    by (simp add: r_def)
  have d: "distinct (map r ks)"
  proof (rule distinct_map_groups)
    fix i
    have eq: "map r (?g i) = map (\<lambda>x. cb_keys (take i bl) + x) (map (S i) (?g i))"
      by (simp add: r_def)
    show "distinct (map r (?g i))"
    proof (cases "?g i = []")
      case False
      then obtain k where "k \<in> set ks" "key_route nb k = i"
        by (auto simp: filter_empty_conv)
      then have "distinct (map (S i) (?g i))"
        using S [of i] route by (auto simp: block_slots_def)
      then show ?thesis
        unfolding eq by (subst distinct_map) (auto intro: inj_onI)
    qed simp
  next
    fix x y assume xy: "x \<in> set ks" "y \<in> set ks" "r x = r y"
    have "\<not> key_route nb x < key_route nb y" "\<not> key_route nb y < key_route nb x"
      using hi [OF xy(1)] lo [of y] hi [OF xy(2)] lo [of x] xy(3)
        cb_keys_take_mono [of "Suc (key_route nb x)" "key_route nb y" bl] cb_keys_take_mono [of "Suc (key_route nb y)" "key_route nb x" bl] by auto
    then show "key_route nb x = key_route nb y" by simp
  qed
  have "cb_keys bl = length ks"
    using blocks_of_keys [OF bo] route by simp
  then have "r k < length ks" if "k \<in> set ks" for k
    using hi [OF that] cb_keys_take_mono [of "Suc (key_route nb k)" "length bl" bl] route that by (simp add: Suc_leI)
  then have b: "\<forall>x\<in>set (map r ks). x < length (map r ks)"
    by simp
  have "set (map r ks) = {0..<length ks}"
    using distinct_bounded_surj [OF d b] by simp
  moreover have "\<exists>n md pl s. bl ! key_route nb k = (n, md, pl) \<and> query (bk_k0 k) (bk_k1 k) md n = Inr s \<and> s < n \<and>
      take (fs + ps) (drop (s * (fs + ps)) pl) = entry_bytes fs ps (bk_fp k) (bk_payload k) \<and>
      r k = cb_keys (take (key_route nb k) bl) + s" if k: "k \<in> set ks" for k
  proof -
    obtain n md pl where e: "bl ! key_route nb k = (n, md, pl)"
      by (cases "bl ! key_route nb k")
    have "query (bk_k0 k) (bk_k1 k) md n = Inr (S (key_route nb k) k)"
      "take (fs + ps) (drop (S (key_route nb k) k * (fs + ps)) pl) = entry_bytes fs ps (bk_fp k) (bk_payload k)"
      using S [of "key_route nb k"] route k e by (auto simp: block_slots_def block_entries_def)
    then show ?thesis
      using e slot [OF k] by (simp add: r_def)
  qed
  ultimately show ?thesis
    using that d by blast
qed

section \<open>The opened index answers\<close>

text \<open>What an index built from \<open>kvs\<close> promises: the rank function is one to one from the keys onto
  \<open>{0..<n}\<close>, and the payload of every key comes back.\<close>

definition answers :: "index \<Rightarrow> nat \<Rightarrow> (bytes \<times> u64) list \<Rightarrow> bool" where
  "answers idx ps kvs \<longleftrightarrow>
    (\<exists>rank. distinct (map (rank \<circ> fst) kvs) \<and> set (map (rank \<circ> fst) kvs) = {0..<length kvs} \<and>
      (\<forall>(key, payload)\<in>set kvs. QueryRank idx key = Inr (of_nat (rank key)) \<and>
        QueryPayload idx key = Inr (of_nat (rank key), take_bit (8 * ps) payload)))"

lemma reads_answers:
  assumes rd: "reads_blocks idx bl" and dec: "ix_decoder idx = query" and nb: "unat nb = length bl"
    and bo: "blocks_of query ps fs nb (map (\<lambda>(key, payload). key_of fs key payload) kvs) bl"
    and route: "\<And>k. key_route nb k < length bl"
    and md: "\<forall>(n, md, pl)\<in>set bl. md \<noteq> []"
    and fs: "fs = fingerprintSizeInt (ix_header idx)" and ps: "ps = payloadSizeInt (ix_header idx)" "ps \<le> 8" "fs \<le> 4"
    and keys: "\<forall>(key, payload)\<in>set kvs. 16 \<le> length key" and small: "length kvs < 2 ^ 40"
  shows "answers idx ps kvs"
proof -
  let ?ks = "map (\<lambda>(key, payload). key_of fs key payload) kvs"
  obtain r where d: "distinct (map r ?ks)" and set: "set (map r ?ks) = {0..<length ?ks}"
    and q: "\<And>k. k \<in> set ?ks \<Longrightarrow> \<exists>n md pl s. bl ! key_route nb k = (n, md, pl) \<and> query (bk_k0 k) (bk_k1 k) md n = Inr s \<and> s < n \<and>
      take (fs + ps) (drop (s * (fs + ps)) pl) = entry_bytes fs ps (bk_fp k) (bk_payload k) \<and>
      r k = cb_keys (take (key_route nb k) bl) + s"
    by (rule blocks_ranks [OF bo]) (use route in auto)
  have ans: "QueryRank idx key = Inr (of_nat (r (key_of fs key payload))) \<and>
      QueryPayload idx key = Inr (of_nat (r (key_of fs key payload)), take_bit (8 * ps) payload)"
    if kv: "(key, payload) \<in> set kvs" for key payload
  proof -
    let ?k = "key_of fs key payload"
    have "?k \<in> set ?ks"
      using kv by force
    from q [OF this] obtain n m pl s where e: "bl ! key_route nb ?k = (n, m, pl)" "query (key_k0 key) (key_k1 key) m n = Inr s" "s < n"
      "take (fs + ps) (drop (s * (fs + ps)) pl) = entry_bytes fs ps (extractFingerprint (key_k0 key) (key_k1 key) fs) payload"
      "r ?k = cb_keys (take (key_route nb ?k) bl) + s"
      by auto
    have i: "key_route nb ?k < length bl"
      by (rule route)
    then have m: "m \<noteq> []"
      using md e(1) nth_mem by fastforce
    have rt: "blockRoute (key_k0 key) (of_nat (length bl)) = of_nat (key_route nb ?k)"
      using nb by (simp add: key_route_def flip: nb)
    have es: "ix_entrySize idx = fs + ps"
      unfolding reads_blocksD(2) [OF rd] fs ps(1) by (simp add: header_entrySize_def fingerprintSizeInt_def payloadSizeInt_def)
    have k16: "16 \<le> length key"
      using keys kv by auto
    have dc: "ix_decoder idx (key_k0 key) (key_k1 key) m n = Inr s"
      using e(2) dec by simp
    note qf = query_found [OF rd k16 i e(1) rt m dc e(3) fs ps(1) e(4) [folded es]]
    show ?thesis
      using qf unfolding e(5) by blast
  qed
  define rank where "rank key = unat (projr (QueryRank idx key))" for key
  have rk: "rank key = r (key_of fs key payload)" if kv: "(key, payload) \<in> set kvs" for key payload
  proof -
    have "r (key_of fs key payload) \<in> set (map r ?ks)"
      using kv by force
    then have "r (key_of fs key payload) < 2 ^ 64"
      using set small by auto
    then show ?thesis
      using ans [OF kv] by (simp add: rank_def)
  qed
  have e: "map (rank \<circ> fst) kvs = map r ?ks"
    using rk by auto
  moreover have "\<forall>(key, payload)\<in>set kvs. QueryRank idx key = Inr (of_nat (rank key)) \<and>
        QueryPayload idx key = Inr (of_nat (rank key), take_bit (8 * ps) payload)"
    using ans rk by auto
  ultimately show ?thesis
    unfolding answers_def e using d set by (intro exI [of _ rank] conjI) (simp_all only: e length_map)
qed

section \<open>Build, then open\<close>

definition index_serves :: "(bytes \<Rightarrow> u64) \<Rightarrow> index \<Rightarrow> buildConfig \<Rightarrow> u32 \<Rightarrow> (bytes \<times> u64) list \<Rightarrow> bool" where
  "index_serves xxh idx cfg nb kvs \<longleftrightarrow> answers idx (nat (cfg_payloadSize cfg)) kvs \<and> NumKeys idx = cfg_totalKeys cfg \<and>
    Index_NumBlocks idx = nb \<and> Index_PayloadSize idx = nat (cfg_payloadSize cfg) \<and> UserMetadata idx = cfg_userMetadata cfg \<and>
    Verify xxh idx = Inr ()"

context block_algo
begin

lemma image_serves:
  assumes img: "data = index_image h um (map (ram_before bl) [0..<length bl + 1]) (cb_pays bl) (cb_metas bl) (finished_footer env bl)"
    and h: "h = \<lparr>Magic = magic, Version = version, TotalKeys = tk, NumBlocks = nblocks tk,
       PayloadSize = of_nat ps, FingerprintSize = of_nat fs, Seed = s, BlockAlgorithm = algo, Reserved = replicate 31 0\<rparr>"
    and lim: "unat tk < 2 ^ 40" "ps \<le> 8" "fs \<le> 4" "unat (nblocks tk) < 2 ^ 31" "unat (nblocks tk) * maxMeta tk < 2 ^ 40" "length um < 2 ^ 32"
    and bl: "length bl = unat (nblocks tk)" "cb_keys bl = unat tk"
      "\<forall>(n, md, pl)\<in>set bl. 100 \<le> length md \<and> length md \<le> maxMeta tk \<and> length pl = n * (ps + fs)"
      "blocks_of (query s) ps fs (nblocks tk) (map (\<lambda>(key, payload). key_of fs key payload) kvs) bl"
    and kvs: "\<forall>(key, payload)\<in>set kvs. 16 \<le> length key" "length kvs = unat tk"
    and nd: "nd algo [] s = Inr (query s)"
  shows "\<exists>idx. OpenBytes nd data = Inr idx \<and> answers idx ps kvs \<and> NumKeys idx = tk \<and> Index_NumBlocks idx = nblocks tk \<and>
    Index_PayloadSize idx = ps \<and> UserMetadata idx = um \<and> Verify (sys_xxh env) idx = Inr ()"
proof -
  let ?ram = "map (ram_before bl) [0..<length bl + 1]"
  let ?idx = "image_index False data h um ?ram (query s)"
  have sz: "unat (PayloadSize h) = ps" "unat (FingerprintSize h) = fs" "header_entrySize h = ps + fs"
    using lim h by (simp_all add: header_entrySize_def)
  have two: "2 \<le> length bl"
    using two_blocks [OF lim(1)] bl(1) by simp
  have mb: "\<forall>(n, md, pl)\<in>set bl. 100 \<le> length md \<and> length md \<le> maxMeta tk"
    using bl(3) by fastforce
  note ml = length_cb_metas_le [OF mb]
  have m40: "length (cb_metas bl) < 2 ^ 40"
    using ml lim(5) bl(1) by (simp add: mult.commute)
  have hv: "header_valid h"
  proof -
    have "nblocks tk \<noteq> 0" "nblocks tk \<noteq> NOT 0"
      using two bl(1) lim(4) by (auto simp: unsigned_minus_1_eq_mask mask_eq_exp_minus_1)
    then show ?thesis
      using h lim sz by (simp add: header_valid_def)
  qed
  have ft: "length (fReserved (finished_footer env bl)) = 16"
    by (simp add: finished_footer_def)
  have hn: "NumBlocks h = of_nat (length bl)" "TotalKeys h = of_nat (cb_keys bl)" "cb_keys bl < 2 ^ 40" "length bl + 1 < 2 ^ 32"
    using h bl(1,2) lim by simp_all
  have pl: "\<forall>(n, md, pl)\<in>set bl. length pl = n * header_entrySize h"
    using bl(3) sz(3) by fastforce
  have nd': "nd (BlockAlgorithm h) [] (Seed h) = Inr (query s)"
    using nd h by simp
  note im = image_reads_blocks [where nd = nd and mm = False, OF img hv hn(1,2,4,3) m40 lim(6) pl ft nd']
  have len: "304 \<le> length data"
  proof -
    have "length (Reserved h) = 31"
      using h by simp
    then have "length data = 64 + (4 + length um) + 4 + 10 * (length bl + 1) + length (cb_pays bl) + length (cb_metas bl) + 32"
      unfolding img index_image_def length_append length_ram_image by (simp add: footer_bytes_def ft)
    then show ?thesis
      using ml two by simp
  qed
  have op: "OpenBytes nd data = Inr ?idx"
    using im(1) len by (simp add: OpenBytes_def minFileSize_def)
  have ixh: "ix_header ?idx = h" "ix_decoder ?idx = query s" "ix_userMetadata ?idx = um" "ix_data ?idx = data"
    by (simp_all add: image_index_def Let_def)
  have ne: "\<forall>(n, md, pl)\<in>set bl. md \<noteq> []"
    using bl(3) by fastforce
  have fp: "fs = fingerprintSizeInt (ix_header ?idx)" "ps = payloadSizeInt (ix_header ?idx)"
    unfolding ixh fingerprintSizeInt_def payloadSizeInt_def sz by (rule refl)+
  have rt: "key_route (nblocks tk) k < length bl" for k
    unfolding bl(1) by (rule key_route_less [OF lim(1)])
  have "length kvs < 2 ^ 40"
    using kvs(2) lim(1) by simp
  note an = reads_answers [OF im(2) ixh(2) bl(1) [symmetric] bl(4) rt ne fp lim(2,3) kvs(1) this]
  have "Verify (sys_xxh env) ?idx = Inr ()"
  proof (rule Verify_ok [OF im(2) _ ft])
    show "PayloadRegionHash (finished_footer env bl) = sys_xxh env (concat (map (\<lambda>(n, md, pl). le_put 8 (sys_xxh env pl)) bl))"
      "MetadataRegionHash (finished_footer env bl) = sys_xxh env (cb_metas bl)"
      by (simp_all add: finished_footer_def)
    show "at_off (ix_data ?idx) (unat (ix_metadataRegionOffset ?idx) + length (cb_metas bl)) (footer_bytes (finished_footer env bl))"
    proof -
      obtain pre where pre: "data = pre @ footer_bytes (finished_footer env bl)"
        using img by (simp add: index_image_def)
      have "length (footer_bytes (finished_footer env bl)) = 32"
        using ft by (simp add: footer_bytes_def)
      then have "length data = length pre + 32"
        by (simp add: pre)
      then have "unat (ix_metadataRegionOffset ?idx) + length (cb_metas bl) = length pre"
        using reads_blocksD(7) [OF im(2)] unfolding ixh(4) by linarith
      then show ?thesis
        unfolding ixh(4) by (simp add: at_off_def pre)
    qed
  qed
  then show ?thesis
    using op an ixh sz h by (intro exI [of _ ?idx]) (simp add: NumKeys_def Index_NumBlocks_def Index_PayloadSize_def payloadSizeInt_def UserMetadata_def)
qed

lemma sorted_build_serves:
  assumes new: "NewSortedBuilder env par newBlockBuilder ops tk opts = Inr b0" and cfg: "cfg = sorted_config tk opts"
    and w: "cfg_workers cfg \<le> 1" and s: "s = cfg_globalSeed cfg"
    and nbb: "\<And>ps fs. newBlockBuilder (cfg_algorithm cfg) tk s ps fs = Inr (newB tk s ps fs)"
    and nd: "nd (cfg_algorithm cfg) [] s = Inr (query s)"
    and nb: "unat tk < 2 ^ 40 \<Longrightarrow> unat (nblocks tk) < 2 ^ 31" and mm: "unat (nblocks tk) * maxMeta tk < 2 ^ 40"
    and add: "add_keys env par ops kvs b0 = (None, b1)" and len: "length kvs \<le> unat tk" and fin: "Finish env par ops b1 = (None, b2)"
  shows "\<exists>file idx. iw_disk (bl_iw b2) = Some file \<and> OpenBytes nd file = Inr idx \<and>
    index_serves (sys_xxh env) idx cfg (nblocks tk) (map snd kvs)"
proof -
  define ps fs where "ps = nat (cfg_payloadSize cfg)" and "fs = nat (cfg_fingerprintSize cfg)"
  have "0 \<le> cfg_payloadSize cfg" "0 \<le> cfg_fingerprintSize cfg"
    using new unfolding NewSortedBuilder_def newBuilder_def Let_def sorted_config_def [symmetric] cfg [symmetric]
    by (auto simp: res_simps split: if_splits)
  then have p: "cfg_payloadSize cfg = int ps" "cfg_fingerprintSize cfg = int fs"
    by (simp_all add: ps_def fs_def)
  have N: "bl_inv env tk s ps fs b0 []" "iw_userMetadata (bl_iw b0) = cfg_userMetadata cfg"
    "iw_header (bl_iw b0) = \<lparr>Magic = magic, Version = version, TotalKeys = tk, NumBlocks = nblocks tk,
       PayloadSize = of_nat ps, FingerprintSize = of_nat fs, Seed = s, BlockAlgorithm = cfg_algorithm cfg, Reserved = replicate 31 0\<rparr>"
    using NewSortedBuilder_ok [OF new cfg w p s nbb nb] by blast+
  have A: "bl_inv env tk s ps fs b1 (map (\<lambda>(c, key, payload). key_of fs key payload) kvs)"
    "\<forall>(c, key, payload)\<in>set kvs. key_ok ps key payload" "iw_const (bl_iw b1) = iw_const (bl_iw b0)"
    using add_keys_ok [OF N(1) _ add] len by simp_all
  have eq: "map (\<lambda>(c, key, payload). key_of fs key payload) kvs = map (\<lambda>(key, payload). key_of fs key payload) (map snd kvs)"
    by auto
  obtain bl where B: "length kvs = unat tk" "length bl = unat (nblocks tk)"
    "blocks_of (query s) ps fs (nblocks tk) (map (\<lambda>(key, payload). key_of fs key payload) (map snd kvs)) bl" "cb_keys bl = unat tk"
    "\<forall>(n, md, pl)\<in>set bl. 100 \<le> length md \<and> length md \<le> maxMeta tk \<and> length pl = n * (ps + fs)"
    "iw_disk (bl_iw b2) = Some (index_image ((iw_header (bl_iw b1))\<lparr>TotalKeys := tk, NumBlocks := nblocks tk\<rparr>) (iw_userMetadata (bl_iw b1))
      (map (ram_before bl) [0..<length bl + 1]) (cb_pays bl) (cb_metas bl) (finished_footer env bl))"
    using finishSorted_ok [OF A(1) fin [unfolded Finish_def]] unfolding eq length_map by blast
  have I: "unat tk < 2 ^ 40" "ps \<le> 8" "fs \<le> 4" "length (iw_userMetadata (bl_iw b0)) < 2 ^ 32"
    using N(1) by (auto simp: bl_inv_def bl_state_def committed_def)
  have h: "(iw_header (bl_iw b1))\<lparr>TotalKeys := tk, NumBlocks := nblocks tk\<rparr> = \<lparr>Magic = magic, Version = version, TotalKeys = tk,
       NumBlocks = nblocks tk, PayloadSize = of_nat ps, FingerprintSize = of_nat fs, Seed = s, BlockAlgorithm = cfg_algorithm cfg, Reserved = replicate 31 0\<rparr>"
    and um: "iw_userMetadata (bl_iw b1) = cfg_userMetadata cfg"
    using A(3) N(2,3) by (simp_all add: iw_const_def)
  have k: "\<forall>(key, payload)\<in>set (map snd kvs). 16 \<le> length key" "length (map snd kvs) = unat tk"
    using A(2) B(1) by (auto simp: key_ok_def)
  have u: "length (cfg_userMetadata cfg) < 2 ^ 32"
    using I(4) N(2) by simp
  obtain idx where "OpenBytes nd (index_image ((iw_header (bl_iw b1))\<lparr>TotalKeys := tk, NumBlocks := nblocks tk\<rparr>) (cfg_userMetadata cfg)
      (map (ram_before bl) [0..<length bl + 1]) (cb_pays bl) (cb_metas bl) (finished_footer env bl)) = Inr idx"
    "answers idx ps (map snd kvs)" "NumKeys idx = tk" "Index_NumBlocks idx = nblocks tk" "Index_PayloadSize idx = ps"
    "UserMetadata idx = cfg_userMetadata cfg" "Verify (sys_xxh env) idx = Inr ()"
    using image_serves [where nd = nd and env = env, OF refl h I(1-3) nb [OF I(1)] mm u B(2,4,5,3) k nd] by blast
  moreover have "cfg_totalKeys cfg = tk"
    by (simp add: cfg sorted_config_def)
  ultimately show ?thesis
    using B(6) unfolding um index_serves_def ps_def [symmetric] by (intro exI conjI) simp_all
qed

end

end
