(* ===== verification/Build_Live.thy ===== *)
theory Build_Live
  imports Build_Query
begin

text \<open>
  When no system call fails, keys arrive in block order and the keys of every block can be built, the
  sorted builder succeeds: creating it, adding every key and finishing return no error.
\<close>

section \<open>The writer\<close>

definition io_ok :: "sysEnv \<Rightarrow> bool" where "io_ok env \<longleftrightarrow> sys_io env = (\<lambda>_. None)"

lemma WriteAt_live:
  assumes "io_ok env" and "iw_open iw" and "iw_disk iw = Some d" and "unat off < 2 ^ 63"
  shows "\<exists>iw'. WriteAt env src off iw = (None, iw')"
  using assms unfolding WriteAt_None io_ok_def by auto

lemma commitPayloads_live:
  assumes "io_ok env" and "iw_open iw" and "iw_disk iw = Some d"
    and "unat (iw_payloadRegionOffset iw + iw_keyCount iw * of_nat (cfg_entrySize (iw_cfg iw))) < 2 ^ 63"
  shows "\<exists>iw'. commitPayloads env pl n iw = (None, iw')"
proof -
  obtain iw' where "WriteAt env pl (iw_payloadRegionOffset iw + iw_keyCount iw * of_nat (cfg_entrySize (iw_cfg iw))) iw = (None, iw')"
    using WriteAt_live [OF assms] by blast
  then show ?thesis
    by (simp add: commitPayloads_def Let_def andThen_def upd_def)
qed

lemma commit_live:
  assumes io: "io_ok env" and com: "committed env tk es nb mm iw bl"
    and lim: "tk < 2 ^ 40" "es \<le> 12" "nb < 2 ^ 31" "mm \<le> 2 ^ 14" "length bl \<le> nb" and md: "md \<noteq> []" and room: "cb_keys bl \<le> tk"
  shows "\<exists>iw'. commitBlockWithData env md pl n iw = (None, iw')"
proof -
  note b = committed_bounds [OF com lim]
  obtain d where iw: "iw_open iw" "iw_disk iw = Some d" "unat (iw_metadataWriteOffset iw) = unat (iw_metadataRegionOffset iw) + length (cb_metas bl)"
    "iw_keyCount iw = of_nat (cb_keys bl)" "cfg_entrySize (iw_cfg iw) = es"
    using com by (auto simp: committed_def iw_inv_def)
  have "cb_keys bl * es \<le> 2 ^ 40 * 12"
    using room lim by (intro mult_le_mono) simp_all
  then have "unat (of_nat (cb_keys bl) * of_nat es :: u64) = cb_keys bl * es" "cb_keys bl * es \<le> 2 ^ 44"
    using room lim by (simp_all add: unat_mult_lt)
  then have po: "unat (iw_payloadRegionOffset iw + iw_keyCount iw * of_nat es) < 2 ^ 63"
    using b iw(4) by (subst unat_add_lt) simp_all
  let ?iw1 = "iw\<lparr>iw_ramIndex := iw_ramIndex iw @ [\<lparr>KeysBefore = iw_keyCount iw, MetadataOffset = iw_metadataWriteOffset iw - iw_metadataRegionOffset iw\<rparr>]\<rparr>"
  have o: "unat (iw_metadataWriteOffset ?iw1) < 2 ^ 63"
    using iw(3) b(1) by simp
  obtain iw2 where w: "WriteAt env md (iw_metadataWriteOffset ?iw1) ?iw1 = (None, iw2)"
    using WriteAt_live [OF io _ _ o, where d = d and src = md and iw = ?iw1] iw by auto
  let ?iw3 = "iw2\<lparr>iw_metadataHasher := iw_metadataHasher iw2 @ md, iw_metadataWriteOffset := iw_metadataWriteOffset iw2 + of_nat (length md)\<rparr>"
  have r: "recordAndWriteMetadata env md iw = (None, ?iw3)"
    using w md by (simp add: recordAndWriteMetadata_def Let_def andThen_def upd_def)
  have "iw_open iw2" "\<exists>d. iw_disk iw2 = Some d" "iw_payloadRegionOffset iw2 = iw_payloadRegionOffset iw" "iw_keyCount iw2 = iw_keyCount iw" "iw_cfg iw2 = iw_cfg iw"
    using w unfolding WriteAt_None by auto
  then obtain d2 where iw2: "iw_open ?iw3" "iw_disk ?iw3 = Some d2"
    "unat (iw_payloadRegionOffset ?iw3 + iw_keyCount ?iw3 * of_nat (cfg_entrySize (iw_cfg ?iw3))) < 2 ^ 63"
    using po iw(5) by auto
  obtain iw4 where "commitPayloads env pl n ?iw3 = (None, iw4)"
    using commitPayloads_live [OF io iw2] by blast
  then show ?thesis
    using r by (auto simp: commitBlockWithData_def andThen_def upd_def)
qed

lemma write_res_live:
  assumes "io_ok env" and "iw_open iw" and "iw_disk iw = Some d" and "unat off < 2 ^ 63" and "r = Inr bs"
  shows "write_res env r off iw = (None, iw\<lparr>iw_calls := Suc (iw_calls iw), iw_disk := Some (file_write d (unat off) bs)\<rparr>)"
  using assms by (simp add: write_res_None WriteAt_None io_ok_def)

lemma finalize_live:
  assumes io: "io_ok env" and inv: "iw_inv env iw bl" and lay: "iw_layout iw (length bl) (cb_keys bl)"
    and cfg: "op_GlobalConfigSize ops algo = 0"
    and small: "unat (iw_metadataRegionOffset iw) + length (cb_metas bl) + 32 < 2 ^ 63"
    and est: "unat (iw_metadataRegionOffset iw) + length (cb_metas bl) + 32 \<le> unat (iw_estimatedSize iw)"
  shows "\<exists>iw'. finalize env ops algo iw = (None, iw')"
proof -
  obtain d where iw: "iw_open iw" "iw_disk iw = Some d" "unat (iw_metadataWriteOffset iw) = unat (iw_metadataRegionOffset iw) + length (cb_metas bl)"
    using inv by (auto simp: iw_inv_def)
  define ram where "ram = iw_ramIndex iw @ [\<lparr>KeysBefore = iw_keyCount iw, MetadataOffset = iw_metadataWriteOffset iw - iw_metadataRegionOffset iw\<rparr>]"
  have res: "length (Reserved (iw_header iw)) = 31"
    and offs: "unat (iw_userMetadataOffset iw) < 2 ^ 63" "unat (iw_algoConfigOffset iw) < 2 ^ 63" "unat (iw_ramIndexOffset iw) < 2 ^ 63"
    "unat (iw_metadataWriteOffset iw) < 2 ^ 63"
    using lay small iw(3) by (auto simp: iw_layout_def Let_def)
  have act: "unat (iw_metadataWriteOffset iw + of_nat footerSize) = unat (iw_metadataRegionOffset iw) + length (cb_metas bl) + 32"
    using small by (subst unat_add_lt) (simp_all add: iw footerSize_def)
  have g: "\<not> iw_metadataWriteOffset iw + of_nat footerSize > iw_estimatedSize iw"
    unfolding word_less_nat_alt act using est by simp
  have h: "encodeHeaderTo ((iw_header iw)\<lparr>TotalKeys := iw_keyCount iw, NumBlocks := iw_blockCount iw\<rparr>) (replicate headerSize 0) = Inr (header_bytes (final_header iw))"
    using encodeHeaderTo_eq [of "final_header iw" "replicate 64 0"] res by (simp add: final_header_def headerSize_def copy_at_def)
  have f: "encodeFooterTo \<lparr>PayloadRegionHash = x, MetadataRegionHash = y, fReserved = replicate 16 0\<rparr> (replicate footerSize 0) =
      Inr (footer_bytes \<lparr>PayloadRegionHash = x, MetadataRegionHash = y, fReserved = replicate 16 0\<rparr>)" for x y
    using encodeFooterTo_eq [of "\<lparr>PayloadRegionHash = x, MetadataRegionHash = y, fReserved = replicate 16 0\<rparr>" "replicate 32 0"]
    by (simp add: footerSize_def copy_at_def footer_bytes_def)
  have a: "algoConfigBuf ops algo = Inr (le_put 4 (0 :: u32))"
    by (simp add: algoConfigBuf_def cfg)
  have r: "encode_ram_loop 0 ram (replicate (length ram * ramIndexEntrySize) 0) = Inr (concat (map ram_bytes ram))"
    using encode_ram_loop_ok [of "replicate (length ram * ramIndexEntrySize) 0" 0 ram] by (simp add: ramIndexEntrySize_def)
  show ?thesis
    unfolding finalize_def Let_def if_not_P [OF g]
    using io iw offs
    by (simp add: ram_def [symmetric] h f a r andThen_def write_res_live orClose_def syscall_def on_file_def iw_close_def io_ok_def)
qed

section \<open>The builder\<close>

context block_algo
begin

text \<open>Whenever the block builder holds these keys, building the block succeeds.\<close>

definition buildable :: "u64 \<Rightarrow> u64 \<Rightarrow> nat \<Rightarrow> nat \<Rightarrow> blockKey list \<Rightarrow> bool" where
  "buildable tk s ps fs ks \<longleftrightarrow> (\<forall>b mdst pdst. holds tk s ps fs b ks \<longrightarrow> length mdst = op_MaxMetadataSizeForCurrentBlock ops b \<longrightarrow>
     length pdst = length ks * (ps + fs) \<longrightarrow> (\<exists>r. op_BuildSeparatedInto ops b mdst pdst = Inr r))"

lemma commitEmptyBlock_live:
  assumes io: "io_ok env" and com: "committed env (unat tk) (ps + fs) (unat (nblocks tk)) (maxMeta tk) (bl_iw b) bl"
    and lim: "unat tk < 2 ^ 40" "ps + fs \<le> 12" "unat (nblocks tk) < 2 ^ 31" "length bl \<le> unat (nblocks tk)" "cb_keys bl \<le> unat tk"
    and holds: "holds tk s ps fs (bl_builder b) ks"
  shows "\<exists>b'. commitEmptyBlock env ops b = (None, b')"
proof -
  let ?b = "resetCurrentBuilder ops b"
  let ?n = "bl_estimateMetadataSize ops ?b"
  let ?buf = "take ?n (resize_buf (bl_metadataBuf ?b) ?n)"
  have h: "holds tk s ps fs (bl_builder ?b) []"
    using reset_holds [OF holds] by (simp add: resetCurrentBuilder_def)
  have len: "length ?buf = op_MaxMetadataSizeForCurrentBlock ops (bl_builder ?b)"
    unfolding bl_estimateMetadataSize_def by simp
  obtain ml mdst' pdst' bb where bld: "op_BuildSeparatedInto ops (bl_builder ?b) ?buf [] = Inr (ml, 0, 0, mdst', pdst', bb)"
    and ml: "100 \<le> ml" "ml \<le> length mdst'"
    using empty_builds [OF lim(1) h len, of "[]"] by blast
  have "take ml mdst' \<noteq> []"
    using ml by auto
  from commit_live [OF io com lim(1-3) meta_small [OF lim(1)] lim(4) this lim(5), of "[]" 0]
  obtain iw' where "commitBlockWithData env (take ml mdst') [] 0 (bl_iw b) = (None, iw')"
    by blast
  then show ?thesis
    unfolding commitEmptyBlock_def Let_def bld by (simp add: on_iw_def resetCurrentBuilder_def)
qed

lemma buildBlock_live:
  assumes io: "io_ok env" and com: "committed env (unat tk) (ps + fs) (unat (nblocks tk)) (maxMeta tk) (bl_iw b) bl"
    and lim: "unat tk < 2 ^ 40" "ps + fs \<le> 12" "unat (nblocks tk) < 2 ^ 31" "length bl \<le> unat (nblocks tk)"
    and cfg: "cfg_entrySize (bl_cfg b) = ps + fs"
    and holds: "holds tk s ps fs (bl_builder b) ks" "ks \<noteq> []" "fps_fit fs ks" and room: "cb_keys bl + length ks \<le> unat tk"
    and bld: "buildable tk s ps fs ks"
  shows "\<exists>b'. buildBlock env ops b = (None, b')"
proof -
  let ?n = "bl_estimateMetadataSize ops b" and ?p = "currentBlockKeysAdded ops b * cfg_entrySize (bl_cfg b)"
  let ?mb = "take ?n (resize_buf (bl_metadataBuf b) ?n)" and ?pb = "take ?p (resize_buf (bl_payloadsBuf b) ?p)"
  have k: "currentBlockKeysAdded ops b = length ks"
    using keys_added [OF holds(1)] by (simp add: currentBlockKeysAdded_def)
  have len: "length ?mb = op_MaxMetadataSizeForCurrentBlock ops (bl_builder b)" "length ?pb = length ks * (ps + fs)"
    by (simp add: bl_estimateMetadataSize_def) (simp add: k cfg)
  obtain ml pl nk mdst' pdst' bb where run: "op_BuildSeparatedInto ops (bl_builder b) ?mb ?pb = Inr (ml, pl, nk, mdst', pdst', bb)"
    using bld holds(1) len unfolding buildable_def by (metis prod_cases6)
  have ok: "100 \<le> ml" "ml \<le> length mdst'"
    using build_ok [OF lim(1) holds len run] by blast+
  then have ne: "take ml mdst' \<noteq> []"
    by auto
  have ck: "cb_keys bl \<le> unat tk"
    using room by simp
  obtain iw' where "commitBlockWithData env (take ml mdst') pdst' nk (bl_iw b) = (None, iw')"
    using commit_live [OF io com lim(1-3) meta_small [OF lim(1)] lim(4) ne ck, of pdst' nk] by blast
  then show ?thesis
    unfolding buildBlock_def Let_def run by (simp add: on_iw_def)
qed

lemma emit_gaps_live:
  assumes "io_ok env" and "committed env (unat tk) (ps + fs) (unat (nblocks tk)) (maxMeta tk) (bl_iw b) bl"
    and "unat tk < 2 ^ 40" "ps + fs \<le> 12" "unat (nblocks tk) < 2 ^ 31" "length bl + n \<le> unat (nblocks tk)" "cb_keys bl \<le> unat tk"
    and "holds tk s ps fs (bl_builder b) ks"
  shows "\<exists>b'. emit_gaps n env ops b = (None, b')" and "\<exists>b'. trailing_blocks n env par ops b = (None, b')"
proof -
  have "(\<exists>b'. emit_gaps n env ops b = (None, b')) \<and> (\<exists>b'. trailing_blocks n env par ops b = (None, b'))"
    using assms
  proof (induction n arbitrary: b bl ks)
    case (Suc n)
    have l: "length bl \<le> unat (nblocks tk)"
      using Suc.prems(6) by simp
    obtain b1 where 1: "commitEmptyBlock env ops b = (None, b1)"
      using commitEmptyBlock_live [OF Suc.prems(1-5) l Suc.prems(7,8)] by blast
    from commitEmptyBlock_ok [OF Suc.prems(2-5) l Suc.prems(7,8) 1]
    obtain md where md: "committed env (unat tk) (ps + fs) (unat (nblocks tk)) (maxMeta tk) (bl_iw b1) (bl @ [(0, md, [])])"
      "holds tk s ps fs (bl_builder b1) []" .
    have l1: "length (bl @ [(0, md, [])]) + n \<le> unat (nblocks tk)" "cb_keys (bl @ [(0, md, [])]) \<le> unat tk"
      using Suc.prems(6,7) by simp_all
    have "\<exists>b'. trailing_blocks n env par ops b1 = (None, b')"
      using Suc.IH [OF Suc.prems(1) md(1) Suc.prems(3-5) l1 md(2)] by blast
    moreover have "\<exists>b'. emit_gaps n env ops (b1\<lparr>bl_nextBlockToWrite := bl_nextBlockToWrite b1 + 1\<rparr>) = (None, b')"
      using Suc.IH [of "b1\<lparr>bl_nextBlockToWrite := bl_nextBlockToWrite b1 + 1\<rparr>", OF Suc.prems(1) _ Suc.prems(3-5) l1, of "[]"] md by simp
    ultimately show ?case
      using 1 by (auto simp: andThen_None orCleanup_None)
  qed simp
  then show "\<exists>b'. emit_gaps n env ops b = (None, b')" "\<exists>b'. trailing_blocks n env par ops b = (None, b')"
    by blast+
qed

lemma open_block_live:
  fixes k :: blockKey
  assumes io: "io_ok env" and st: "bl_state env tk s ps fs b ks bl cur" and c: "length bl \<le> c" "c < unat (nblocks tk)"
    and f: "\<And>b. bl_builder (f b) = bl_builder b"
  shows "\<exists>b'. andThen (emitEmptyBlocks env ops (of_nat c))
      (andThen (upd (\<lambda>b. f (resetCurrentBuilder ops b))) (addToBlock ops (bk_k0 k) (bk_k1 k) (bk_payload k) (bk_fp k))) b = (None, b')"
proof -
  note S = st [unfolded bl_state_def]
  have uc: "unat (of_nat c :: u32) = c" "unat (bl_nextBlockToWrite b) = length bl"
    using S c unat_lt2p [of "nblocks tk"] by simp_all
  have ck: "cb_keys bl \<le> unat tk"
    using blocks_of_keys [of "query s" ps fs "nblocks tk" ks bl] S length_filter_le le_trans by metis
  have l: "length bl + (c - length bl) \<le> unat (nblocks tk)" "ps + fs \<le> 12"
    using c S by simp_all
  have T: "committed env (unat tk) (ps + fs) (unat (nblocks tk)) (maxMeta tk) (bl_iw b) bl" "unat tk < 2 ^ 40" "unat (nblocks tk) < 2 ^ 31"
    "holds tk s ps fs (bl_builder b) cur"
    using S by blast+
  obtain b1 where g: "emit_gaps (c - length bl) env ops b = (None, b1)"
    using emit_gaps_live(1) [OF io T(1,2) l(2) T(3) l(1) ck T(4)] by blast
  obtain ks' where "holds tk s ps fs (bl_builder b1) ks'"
    using emit_gaps_ok [OF T(1,2) l(2) T(3) l(1) ck T(4) g] by blast
  then have "holds tk s ps fs (bl_builder (resetCurrentBuilder ops b1)) []"
    using reset_holds by (simp add: resetCurrentBuilder_def)
  from add_holds [OF this, of k] obtain bb where
    "op_AddKey ops (bl_builder (resetCurrentBuilder ops b1)) (bk_k0 k) (bk_k1 k) (bk_payload k) (bk_fp k) = Inr bb"
    by blast
  then show ?thesis
    using g by (auto simp: andThen_None emitEmptyBlocks_def uc addToBlock_None f)
qed

lemma addKeySingleThreaded_live:
  assumes io: "io_ok env" and inv: "bl_inv env tk s ps fs b0 ks" and b: "b = b0\<lparr>bl_lastBlockID := int c\<rparr>"
    and c: "c = key_route (nblocks tk) k" and last: "bl_lastBlockID b0 \<le> int c"
    and bld: "\<And>i. \<not> bl_firstKey b0 \<Longrightarrow> i = unat (bl_currentBlockIdx b0) \<Longrightarrow> i < c \<Longrightarrow> buildable tk s ps fs (filter (\<lambda>k. key_route (nblocks tk) k = i) ks)"
  shows "\<exists>b'. addKeySingleThreaded env ops (bk_k0 k) (bk_k1 k) (bk_payload k) (bk_fp k) (of_nat c) b = (None, b')"
proof -
  let ?nb = "nblocks tk" and ?add = "addToBlock ops (bk_k0 k) (bk_k1 k) (bk_payload k) (bk_fp k)"
  have eq: "bl_firstKey b0 = bl_firstKey b" "bl_currentBlockIdx b0 = bl_currentBlockIdx b"
    by (simp_all add: b)
  obtain bl cur where st0: "bl_state env tk s ps fs b0 ks bl cur" and fk0: "bl_at b0 (nblocks tk) ks bl cur"
    using inv unfolding bl_inv_def by blast
  note fk = fk0 [unfolded bl_at_def eq]
  have st: "bl_state env tk s ps fs b ks bl cur"
    using st0 by (simp add: bl_state_def b)
  note S = st [unfolded bl_state_def]
  have cn: "c < unat ?nb"
    using S key_route_less [of tk k] c by auto
  then have uc: "unat (of_nat c :: u32) = c"
    using unat_lt2p [of ?nb] by simp
  show ?thesis
  proof (cases "bl_firstKey b")
    case True
    then have "length bl \<le> c"
      using fk by simp
    from open_block_live [OF io st this cn, of "\<lambda>b. b\<lparr>bl_currentBlockIdx := of_nat c, bl_firstKey := False\<rparr>"]
    show ?thesis
      using True by (simp add: addKeySingleThreaded_def)
  next
    case False
    note F = fk [unfolded if_not_P [OF False]]
    show ?thesis
    proof (cases "of_nat c = bl_currentBlockIdx b")
      case True
      obtain bb where "op_AddKey ops (bl_builder b) (bk_k0 k) (bk_k1 k) (bk_payload k) (bk_fp k) = Inr bb"
        using add_holds [of tk s ps fs "bl_builder b" cur k] S by blast
      then show ?thesis
        using True False by (simp add: addKeySingleThreaded_def addToBlock_def)
    next
      case False': False
      have ne: "cur \<noteq> []" and ka: "currentBlockKeysAdded ops b > 0"
        using F keys_added [of tk s ps fs "bl_builder b" cur] S by (auto simp: currentBlockKeysAdded_def)
      have lt: "length bl < c"
        using last F False' uc by (metis nat_less_le of_nat_le_iff word_of_unat)
      have bl: "buildable tk s ps fs cur"
        using bld [of "length bl"] False lt F eq by simp
      have fit: "fps_fit fs cur" and es: "cfg_entrySize (bl_cfg b) = ps + fs" "ps + fs \<le> 12" "length bl \<le> unat ?nb"
        using S F fps_fit_filter [of fs ks] by (auto simp: cfg_entrySize_def)
      have rm: "cb_keys bl + length cur \<le> unat tk"
        using blocks_of_cur [of "query s" ps fs ?nb ks bl] S F by simp
      obtain b2 where bb: "buildBlock env ops b = (None, b2)"
        using buildBlock_live [OF io _ _ es(2) _ es(3,1) _ ne fit rm bl] S by blast
      from buildBlock_ok [OF _ _ es(2) _ es(3,1) _ ne fit rm bb] S
      obtain cb where cb: "committed env (unat tk) (ps + fs) (unat ?nb) (maxMeta tk) (bl_iw b2) (bl @ [cb])"
        "block_built (query s) ps fs cur cb" "holds tk s ps fs (bl_builder b2) cur" "bl_frame b2 = bl_frame b"
        "bl_nextBlockToWrite b2 = bl_nextBlockToWrite b"
        by blast
      let ?b2 = "b2\<lparr>bl_nextBlockToWrite := bl_nextBlockToWrite b2 + 1\<rparr>"
      have st2: "bl_state env tk s ps fs ?b2 ks (bl @ [cb]) cur"
        unfolding bl_state_def using S cb F by (simp add: bl_frame_def blocks_of_snoc)
      have "length (bl @ [cb]) \<le> c"
        using lt by simp
      from open_block_live [OF io st2 this cn, of "\<lambda>b. b\<lparr>bl_currentBlockIdx := of_nat c\<rparr>"]
      show ?thesis
        using False False' ka bb by (simp add: addKeySingleThreaded_def andThen_None)
    qed
  qed
qed

end

lemma payload_fits_conv:
  assumes "ps \<le> 8" and "ps = 0 \<or> take_bit (8 * ps) payload = payload"
  shows "\<not> (int ps > 0 \<and> int ps < 8 \<and> (payload :: u64) > push_bit (nat (int ps) * 8) 1 - 1)"
proof
  assume a: "int ps > 0 \<and> int ps < 8 \<and> payload > push_bit (nat (int ps) * 8) 1 - 1"
  then have p: "0 < ps" "ps < 8"
    by auto
  have "unat payload = unat (take_bit (8 * ps) payload)"
    using assms(2) p by simp
  also have "\<dots> < 2 ^ (8 * ps)"
    by (simp add: unsigned_take_bit_eq)
  finally have "unat payload \<le> 2 ^ (8 * ps) - 1"
    by simp
  then show False
    using a unat_payload_max [OF p] by (simp add: word_less_nat_alt)
qed

context block_algo
begin

lemma AddKey_live:
  assumes io: "io_ok env" and inv: "bl_inv env tk s ps fs b ks" and op: "\<not> bl_closed b" and ok: "key_ok ps key payload"
    and last: "bl_lastBlockID b \<le> int (key_route (nblocks tk) (key_of fs key payload))"
    and bld: "\<And>i. \<not> bl_firstKey b \<Longrightarrow> i = unat (bl_currentBlockIdx b) \<Longrightarrow> i < key_route (nblocks tk) (key_of fs key payload) \<Longrightarrow>
      buildable tk s ps fs (filter (\<lambda>k. key_route (nblocks tk) k = i) ks)"
  shows "\<exists>b'. AddKey env par ops None key payload b = (None, b')"
proof -
  let ?k = "key_of fs key payload" and ?r = "blockRoute (key_k0 key) (nblocks tk)"
  have S: "bl_workers b \<le> 1" "cfg_payloadSize (bl_cfg b) = int ps" "cfg_fingerprintSize (bl_cfg b) = int fs" "ps \<le> 8" "fs \<le> 4"
    "bl_numBlocks b = nblocks tk"
    using inv by (auto simp: bl_inv_def bl_state_def)
  have r: "unat ?r = key_route (nblocks tk) ?k"
    by (simp add: key_route_def)
  have g: "\<not> length key > maxKeyLength" "\<not> length key < MinKeySize"
    "\<not> (cfg_payloadSize (bl_cfg b) > 0 \<and> cfg_payloadSize (bl_cfg b) < 8 \<and> payload > push_bit (nat (cfg_payloadSize (bl_cfg b)) * 8) 1 - 1)"
    using ok payload_fits_conv [OF S(4), of payload] unfolding S(2) by (simp_all add: key_ok_def maxKeyLength_def MinKeySize_def)
  define n where "n = (if contextCheckInterval \<le> bl_keyCounter b + 1 then 0 else bl_keyCounter b + 1)"
  let ?b0 = "b\<lparr>bl_keyCounter := n\<rparr>"
  have ctx: "(if bl_keyCounter (b\<lparr>bl_keyCounter := bl_keyCounter b + 1\<rparr>) \<ge> contextCheckInterval
      then checkContextSlow par None (b\<lparr>bl_keyCounter := bl_keyCounter b + 1\<rparr>) else (None, b\<lparr>bl_keyCounter := bl_keyCounter b + 1\<rparr>)) = (None, ?b0)"
    using S(1) by (simp add: n_def checkContextSlow_def Let_def)
  have inv0: "bl_inv env tk s ps fs ?b0 ks"
    using inv by simp
  have "\<exists>b'. addKeySingleThreaded env ops (bk_k0 ?k) (bk_k1 ?k) (bk_payload ?k) (bk_fp ?k) (of_nat (unat ?r)) (?b0\<lparr>bl_lastBlockID := int (unat ?r)\<rparr>) = (None, b')"
    using last bld unfolding r by (intro addKeySingleThreaded_live [OF io inv0 refl refl]) simp_all
  then obtain b' where a: "addKeySingleThreaded env ops (key_k0 key) (key_k1 key) payload (extractFingerprint (key_k0 key) (key_k1 key) fs) ?r
      (?b0\<lparr>bl_lastBlockID := int (unat ?r)\<rparr>) = (None, b')"
    by auto
  have nl: "\<not> int (unat ?r) < bl_lastBlockID ?b0"
    using last r by simp
  have nb: "bl_numBlocks (b\<lparr>bl_keyCounter := bl_keyCounter b + 1\<rparr>) = nblocks tk"
    using S(6) by simp
  have w: "\<not> bl_workers (?b0\<lparr>bl_lastBlockID := int (unat ?r)\<rparr>) > 1" "nat (cfg_fingerprintSize (bl_cfg (?b0\<lparr>bl_lastBlockID := int (unat ?r)\<rparr>))) = fs"
    using S by simp_all
  have k1: "key_k0 (drop 8 key) = key_k1 key"
    by (simp add: key_k0_def key_k1_def)
  show ?thesis
    unfolding AddKey_def Let_def if_not_P [OF op] if_not_P [OF g(1)] if_not_P [OF g(2)] if_not_P [OF g(3)] nb
      key_k0_def [symmetric] k1 blockRoute_def [symmetric] andThen_None ctx
  proof (intro exI conjI)
    show "(None, ?b0) = (None, ?b0)" ..
    show "(if int (unat ?r) < bl_lastBlockID ?b0 then (Some ErrUnsortedInput, ?b0)
        else andThen (if 1 < bl_workers (?b0\<lparr>bl_lastBlockID := int (unat ?r)\<rparr>) then par_addKey par (key_k0 key) (key_k1 key) payload ?r
            else addKeySingleThreaded env ops (key_k0 key) (key_k1 key) payload
              (extractFingerprint (key_k0 key) (key_k1 key) (nat (cfg_fingerprintSize (bl_cfg (?b0\<lparr>bl_lastBlockID := int (unat ?r)\<rparr>))))) ?r)
          (upd (\<lambda>b. b\<lparr>bl_totalKeysAdded := bl_totalKeysAdded b + 1\<rparr>)) (?b0\<lparr>bl_lastBlockID := int (unat ?r)\<rparr>)) =
        (None, b'\<lparr>bl_totalKeysAdded := bl_totalKeysAdded b' + 1\<rparr>)"
      unfolding if_not_P [OF nl] if_not_P [OF w(1)] w(2) andThen_None using a by auto
  qed
qed

lemma bl_inv_last:
  assumes "bl_inv env tk s ps fs b ks" and "\<forall>k\<in>set ks. key_route (nblocks tk) k \<le> c"
  shows "bl_lastBlockID b \<le> int c"
proof -
  obtain bl cur where fk0: "bl_at b (nblocks tk) ks bl cur"
    using assms(1) unfolding bl_inv_def by blast
  note fk = fk0 [unfolded bl_at_def]
  show ?thesis
  proof (cases "bl_firstKey b")
    case False
    then have "bl_lastBlockID b = int (length bl)" "\<exists>k\<in>set ks. key_route (nblocks tk) k = length bl"
      using fk by (auto simp: filter_empty_conv)
    then show ?thesis
      using assms(2) by auto
  qed (use fk in simp)
qed

lemma add_keys_live:
  assumes "io_ok env" and "bl_inv env tk s ps fs b ks" and "\<not> bl_closed b" and "\<forall>(key, payload)\<in>set kvs. key_ok ps key payload"
    and "sorted (map (key_route (nblocks tk)) (ks @ map (\<lambda>(key, payload). key_of fs key payload) kvs))"
    and "length ks + length kvs \<le> unat tk"
    and "\<And>i. buildable tk s ps fs (filter (\<lambda>k. key_route (nblocks tk) k = i) (ks @ map (\<lambda>(key, payload). key_of fs key payload) kvs))"
  shows "\<exists>b'. add_keys env par ops (map (Pair None) kvs) b = (None, b')"
  using assms(2-)
proof (induction kvs arbitrary: b ks)
  case (Cons kv kvs)
  obtain key payload where kv: "kv = (key, payload)"
    by (cases kv)
  let ?k = "key_of fs key payload" and ?rest = "map (\<lambda>(key, payload). key_of fs key payload) kvs" and ?route = "key_route (nblocks tk)"
  have so: "\<forall>x\<in>set ks. ?route x \<le> ?route ?k" "\<forall>x\<in>set ?rest. ?route ?k \<le> ?route x"
    using Cons.prems(4) by (auto simp: kv sorted_append)
  have flt: "filter (\<lambda>x. ?route x = i) (ks @ map (\<lambda>(key, payload). key_of fs key payload) (kv # kvs)) = filter (\<lambda>x. ?route x = i) ks" if "i < ?route ?k" for i
    using so(2) that by (auto simp: kv filter_empty_conv)
  have ok: "key_ok ps key payload"
    using Cons.prems(3) by (simp add: kv)
  have bld: "buildable tk s ps fs (filter (\<lambda>x. ?route x = i) ks)" if "i < ?route ?k" for i
    using Cons.prems(6) [of i] unfolding flt [OF that] .
  obtain b1 where a: "AddKey env par ops None key payload b = (None, b1)"
    using AddKey_live [OF assms(1) Cons.prems(1,2) ok bl_inv_last [OF Cons.prems(1) so(1)] bld] by blast
  have lt: "length ks < unat tk"
    using Cons.prems(5) by simp
  have "bl_inv env tk s ps fs b1 (ks @ [?k])" "\<not> bl_closed b1"
    using AddKey_ok [OF Cons.prems(1) lt a] Cons.prems(2) by simp_all
  moreover have "\<forall>(key, payload)\<in>set kvs. key_ok ps key payload"
    using Cons.prems(3) by simp
  moreover have "(ks @ [?k]) @ ?rest = ks @ map (\<lambda>(key, payload). key_of fs key payload) (kv # kvs)"
    by (simp add: kv)
  ultimately have "\<exists>b'. add_keys env par ops (map (Pair None) kvs) b1 = (None, b')"
    using Cons.IH [of b1 "ks @ [?k]"] Cons.prems(4-6) by simp
  then show ?case
    using a by (simp add: kv andThen_None)
qed simp

lemma finish_current_live:
  assumes io: "io_ok env" and inv: "bl_inv env tk s ps fs b ks"
    and bld: "\<And>i. buildable tk s ps fs (filter (\<lambda>k. key_route (nblocks tk) k = i) ks)"
  shows "\<exists>b'. (if currentBlockKeysAdded ops b > 0 then orCleanup env par (buildBlock env ops) b else (None, b)) = (None, b')"
proof -
  obtain bl cur where st: "bl_state env tk s ps fs b ks bl cur" and fk0: "bl_at b (nblocks tk) ks bl cur"
    using inv unfolding bl_inv_def by blast
  note fk = fk0 [unfolded bl_at_def]
  note S = st [unfolded bl_state_def]
  have ka: "currentBlockKeysAdded ops b = length cur"
    using S keys_added by (auto simp: currentBlockKeysAdded_def)
  show ?thesis
  proof (cases "bl_firstKey b")
    case True
    then show ?thesis
      using fk ka by simp
  next
    case False
    note F = fk [unfolded if_not_P [OF False]]
    have fit: "fps_fit fs cur" and es: "cfg_entrySize (bl_cfg b) = ps + fs" "ps + fs \<le> 12" "length bl \<le> unat (nblocks tk)"
      using S F fps_fit_filter [of fs ks] by (auto simp: cfg_entrySize_def)
    have rm: "cb_keys bl + length cur \<le> unat tk" and ne: "cur \<noteq> []"
      using blocks_of_cur [of "query s" ps fs "nblocks tk" ks bl] S F by auto
    have "buildable tk s ps fs cur"
      using bld F by metis
    then obtain b' where "buildBlock env ops b = (None, b')"
      using buildBlock_live [OF io _ _ es(2) _ es(3,1) _ ne fit rm] S by blast
    then show ?thesis
      by (simp add: orCleanup_None)
  qed
qed

lemma Finish_live:
  assumes io: "io_ok env" and inv: "bl_inv env tk s ps fs b ks" and op: "\<not> bl_closed b" and len: "length ks = unat tk"
    and bld: "\<And>i. buildable tk s ps fs (filter (\<lambda>k. key_route (nblocks tk) k = i) ks)"
    and est: "72 + length (iw_userMetadata (bl_iw b)) + 10 * (unat (nblocks tk) + 1) + unat tk * (ps + fs) + unat (nblocks tk) * maxMeta tk + 32
      \<le> unat (iw_estimatedSize (bl_iw b))"
  shows "\<exists>b'. Finish env par ops b = (None, b')"
proof -
  have S: "unat tk < 2 ^ 40" "ps \<le> 8" "fs \<le> 4" "unat (nblocks tk) < 2 ^ 31" "cfg_totalKeys (bl_cfg b) = tk" "\<not> bl_workers b > 1"
    "bl_totalKeysAdded b = of_nat (length ks)" "length ks \<le> unat tk" "bl_numBlocks b = nblocks tk"
    using inv by (auto simp: bl_inv_def bl_state_def)
  let ?b = "b\<lparr>bl_closed := True\<rparr>"
  have inv': "bl_inv env tk s ps fs ?b ks"
    using inv by simp
  have tka: "bl_totalKeysAdded b = tk"
    using S(7) len by simp
  obtain b1 where 1: "(if currentBlockKeysAdded ops ?b > 0 then orCleanup env par (buildBlock env ops) ?b else (None, ?b)) = (None, b1)"
    using finish_current_live [OF io inv' bld] by blast
  obtain bl cur where c: "committed env (unat tk) (ps + fs) (unat (nblocks tk)) (maxMeta tk) (bl_iw b1) bl" "length bl \<le> unat (nblocks tk)"
    "blocks_of (query s) ps fs (nblocks tk) ks bl" "\<forall>k\<in>set ks. key_route (nblocks tk) k < length bl"
    "holds tk s ps fs (bl_builder b1) cur" "bl_frame b1 = bl_frame ?b"
    by (rule finish_current_ok [OF inv' 1])
  have fr: "bl_numBlocks b1 = nblocks tk" "iw_const (bl_iw b1) = iw_const (bl_iw b)"
    using c(6) S(9) by (simp_all add: bl_frame_def)
  have bc: "unat (iw_blockCount (bl_iw b1)) = length bl"
    using c(1,2) S(4) by (simp add: committed_def iw_inv_def)
  let ?n = "unat (nblocks tk) - length bl"
  have ck: "cb_keys bl \<le> unat tk"
    unfolding blocks_of_keys [OF c(3)] using len by (simp flip: len)
  have l: "ps + fs \<le> 12" "length bl + ?n \<le> unat (nblocks tk)"
    using S c(2) by simp_all
  obtain b2 where t: "trailing_blocks ?n env par ops b1 = (None, b2)"
    using emit_gaps_live(2) [OF io c(1) S(1) l(1) S(4) l(2) ck c(5)] by blast
  obtain gs ks' where gs: "committed env (unat tk) (ps + fs) (unat (nblocks tk)) (maxMeta tk) (bl_iw b2) (bl @ gs)" "length gs = ?n"
    "\<forall>g\<in>set gs. \<exists>md. g = (0, md, [])" "holds tk s ps fs (bl_builder b2) ks'" "bl_frame b2 = bl_frame b1"
    using trailing_blocks_ok [OF c(1) S(1) l(1) S(4) l(2) ck c(5) t] by blast
  let ?bl = "bl @ gs"
  have ln: "length ?bl = unat (nblocks tk)"
    using gs(2) c(2) by simp
  have bo: "blocks_of (query s) ps fs (nblocks tk) ks ?bl"
    using c(3,4) gs(3) by (intro blocks_of_gaps) auto
  have keys: "cb_keys ?bl = unat tk"
    unfolding blocks_of_keys [OF bo] ln using key_route_less [OF S(1)] by (simp add: len)
  have iv: "iw_inv env (bl_iw b2) ?bl" and lay: "iw_layout (bl_iw b2) (length ?bl) (cb_keys ?bl)"
    and ec: "cfg_entrySize (iw_cfg (bl_iw b2)) = ps + fs" and mds: "\<forall>(n, md, pl)\<in>set ?bl. 100 \<le> length md \<and> length md \<le> maxMeta tk"
    using gs(1) unfolding committed_def ln keys by blast+
  have sm: "unat (iw_metadataRegionOffset (bl_iw b2)) + length (cb_metas ?bl) + 32 < 2 ^ 63"
    using committed_bounds(1) [OF gs(1) S(1) l(1) S(4) meta_small [OF S(1)]] ln by simp
  have cst: "iw_estimatedSize (bl_iw b2) = iw_estimatedSize (bl_iw b)" "iw_userMetadata (bl_iw b2) = iw_userMetadata (bl_iw b)"
    using gs(5) fr(2) by (auto simp: bl_frame_def iw_const_def)
  have "unat (iw_metadataRegionOffset (bl_iw b2)) = 72 + length (iw_userMetadata (bl_iw b)) + 10 * (unat (nblocks tk) + 1) + unat tk * (ps + fs)"
    using lay unfolding iw_layout_def Let_def ln keys ec cst by simp
  moreover have "length (cb_metas ?bl) \<le> unat (nblocks tk) * maxMeta tk"
    using length_cb_metas_le [OF mds] ln by (simp add: mult.commute)
  ultimately have "unat (iw_metadataRegionOffset (bl_iw b2)) + length (cb_metas ?bl) + 32 \<le> unat (iw_estimatedSize (bl_iw b2))"
    unfolding cst using est by linarith
  from finalize_live [OF io iv lay config_size [OF gs(4)] sm this]
  obtain iw' where "finalize env ops (bl_builder b2) (bl_iw b2) = (None, iw')"
    by blast
  then have "\<exists>b'. finalizeIndex env par ops b2 = (None, b')"
    by (simp add: finalizeIndex_def orCleanup_None on_iw_def)
  then have "\<exists>b'. finishSingleThreaded env par ops ?b = (None, b')"
    unfolding finishSingleThreaded_def commitTrailingEmptyBlocksAndFinalize_def andThen_None using 1 t fr(1) bc by (metis (no_types))
  then show ?thesis
    unfolding Finish_def finishSorted_def Let_def using op tka S(5,6) by simp
qed

end

text \<open>The size estimate is exact arithmetic for every admissible configuration.\<close>

lemma estimate_unat:
  assumes lim: "unat (cfg_totalKeys cfg) < 2 ^ 40" "cfg_entrySize cfg \<le> 12" "unat nb < 2 ^ 31" "u < 2 ^ 32"
    and mm: "op_MaxIndexMetadataSize ops algo = mm" "mm \<le> 2 ^ 14"
  shows "unat (estimateFileSizeForAlgo cfg nb ops algo u 0) =
    104 + u + 10 * (unat nb + 1) + unat (cfg_totalKeys cfg) * cfg_entrySize cfg + unat nb * (mm + 16)"
proof -
  let ?tk = "cfg_totalKeys cfg" and ?es = "cfg_entrySize cfg"
  have v: "unat (of_nat (4 + u + 4 + 0) :: u64) = 8 + u"
    using lim(4) by (subst unat_of_nat_63) simp_all
  have "unat (nb + 1) = unat nb + 1"
    using lim(3) by (simp add: unat_word_ariths)
  then have nb1: "unat (ucast (nb + 1) :: u64) = unat nb + 1"
    using lim(3) by (simp add: unat_ucast_lt)
  have rs: "unat (ucast (nb + 1) * 10 :: u64) = 10 * (unat nb + 1)"
    using nb1 lim(3) by (subst unat_mult_lt) simp_all
  have "unat ?tk * ?es \<le> 2 ^ 40 * 12"
    using lim(1,2) by (intro mult_le_mono) simp_all
  then have te: "unat (?tk * of_nat ?es) = unat ?tk * ?es" "unat ?tk * ?es \<le> 2 ^ 44"
    using lim(2) by (simp_all add: unat_mult_lt)
  have mb: "unat nb * (mm + 16) \<le> 2 ^ 31 * 2 ^ 15"
    using lim(3) mm(2) by (intro mult_le_mono) simp_all
  have m16: "unat (of_nat mm + 16 :: u64) = mm + 16"
    using mm(2) by (subst unat_add_lt) simp_all
  have nbu: "unat (ucast nb :: u64) = unat nb"
    using lim(3) by (simp add: unat_ucast_lt)
  have md: "unat (ucast nb * (of_nat mm + 16) :: u64) = unat nb * (mm + 16)"
    using mb by (subst unat_mult_lt) (simp_all add: m16 nbu)
  define V R P M where "V = (of_nat (4 + u + 4 + 0) :: u64)" and "R = (ucast (nb + 1) * 10 :: u64)"
    and "P = ?tk * of_nat ?es" and "M = (ucast nb * (of_nat mm + 16) :: u64)"
  note D = V_def [symmetric] R_def [symmetric] P_def [symmetric] M_def [symmetric]
  have bounds: "unat V \<le> 2 ^ 33" "unat R \<le> 2 ^ 40" "unat P \<le> 2 ^ 44" "unat M \<le> 2 ^ 46"
    using v rs te mb md lim(3,4) unfolding D by simp_all
  have 1: "unat (64 + V) = 64 + unat V"
    using bounds by (subst unat_add_lt) simp_all
  have 2: "unat (64 + V + R) = 64 + unat V + unat R"
    using bounds 1 by (subst unat_add_lt) simp_all
  have 3: "unat (64 + V + R + P) = 64 + unat V + unat R + unat P"
    using bounds 2 by (subst unat_add_lt) simp_all
  have 4: "unat (64 + V + R + P + M) = 64 + unat V + unat R + unat P + unat M"
    using bounds 3 by (subst unat_add_lt) simp_all
  have "unat (64 + V + R + P + M + 32) = 64 + unat V + unat R + unat P + unat M + 32"
    using bounds 4 by (subst unat_add_lt) simp_all
  moreover have "estimateFileSizeForAlgo cfg nb ops algo u 0 = 64 + V + R + P + M + 32"
    unfolding estimateFileSizeForAlgo_def Let_def mm(1) ramIndexEntrySize_def headerSize_def footerSize_def of_nat_numeral D ..
  ultimately show ?thesis
    using v rs te(1) md unfolding D by simp
qed

context block_algo
begin

lemma NewSortedBuilder_live:
  assumes io: "io_ok env" and cfg: "cfg = sorted_config tk opts" and tk: "unat tk < 2 ^ 40"
    and p: "0 \<le> cfg_payloadSize cfg" "cfg_payloadSize cfg \<le> 8" "0 \<le> cfg_fingerprintSize cfg" "cfg_fingerprintSize cfg \<le> 4"
    and um: "length (cfg_userMetadata cfg) < 2 ^ 32" and w: "cfg_workers cfg \<le> 1"
    and nbb: "\<And>ps fs. newBlockBuilder (cfg_algorithm cfg) tk (cfg_globalSeed cfg) ps fs = Inr (newB tk (cfg_globalSeed cfg) ps fs)"
    and nb: "unat (nblocks tk) < 2 ^ 31"
  shows "\<exists>b. NewSortedBuilder env par newBlockBuilder ops tk opts = Inr b \<and>
    72 + length (cfg_userMetadata cfg) + 10 * (unat (nblocks tk) + 1) + unat tk * cfg_entrySize cfg + unat (nblocks tk) * maxMeta tk + 32
      \<le> unat (iw_estimatedSize (bl_iw b))"
proof -
  let ?ps = "nat (cfg_payloadSize cfg)" and ?fs = "nat (cfg_fingerprintSize cfg)" and ?s = "cfg_globalSeed cfg"
  let ?b = "newB tk ?s ?ps ?fs"
  have h: "holds tk ?s ?ps ?fs ?b []"
    by (rule new_holds [OF tk])
  have ct: "cfg_totalKeys cfg = tk"
    by (simp add: cfg sorted_config_def)
  have es: "cfg_entrySize cfg \<le> 12"
    using p by (simp add: cfg_entrySize_def)
  note est = estimate_unat [where cfg = cfg, unfolded ct, OF tk es nb um index_meta [OF h] meta_small [OF tk]]
  have g: "\<not> tk > maxKeys" "\<not> (cfg_payloadSize cfg < 0 \<or> cfg_payloadSize cfg > int maxPayloadSize)"
    "\<not> (cfg_fingerprintSize cfg < 0 \<or> cfg_fingerprintSize cfg > int maxFingerprintSize)"
    using tk p by (auto simp: maxKeys_def maxPayloadSize_def maxFingerprintSize_def word_less_nat_alt)
  obtain iw where iw: "newIndexWriter env cfg (nblocks tk) ops ?b = Inr iw"
    "iw_estimatedSize iw = estimateFileSizeForAlgo cfg (nblocks tk) ops ?b (length (cfg_userMetadata cfg)) 0"
    using io um by (auto simp: newIndexWriter_def Let_def io_ok_def config_size [OF h])
  have "\<exists>b. NewSortedBuilder env par newBlockBuilder ops tk opts = Inr b \<and> bl_iw b = iw"
    unfolding NewSortedBuilder_def newBuilder_def if_not_P [OF g(1)] Let_def sorted_config_def [symmetric] cfg [symmetric]
      if_not_P [OF g(2)] if_not_P [OF g(3)] nbb rbind_Inr num_blocks [OF h] iw(1)
    using w by simp
  then show ?thesis
    using est iw(2) by (auto simp: add_mult_distrib2)
qed

lemma sorted_build_live:
  assumes io: "io_ok env" and cfg: "cfg = sorted_config tk opts" and tk: "unat tk < 2 ^ 40"
    and p: "cfg_payloadSize cfg = int ps" "ps \<le> 8" "cfg_fingerprintSize cfg = int fs" "fs \<le> 4"
    and um: "length (cfg_userMetadata cfg) < 2 ^ 32" and w: "cfg_workers cfg \<le> 1"
    and nbb: "\<And>ps fs. newBlockBuilder (cfg_algorithm cfg) tk (cfg_globalSeed cfg) ps fs = Inr (newB tk (cfg_globalSeed cfg) ps fs)"
    and nb: "unat (nblocks tk) < 2 ^ 31"
    and kvs: "length kvs = unat tk" "\<forall>(key, payload)\<in>set kvs. key_ok ps key payload"
      "sorted (map (key_route (nblocks tk)) (map (\<lambda>(key, payload). key_of fs key payload) kvs))"
    and bld: "\<And>i. buildable tk (cfg_globalSeed cfg) ps fs (filter (\<lambda>k. key_route (nblocks tk) k = i) (map (\<lambda>(key, payload). key_of fs key payload) kvs))"
  shows "\<exists>b0 b1 b2. NewSortedBuilder env par newBlockBuilder ops tk opts = Inr b0 \<and>
    add_keys env par ops (map (Pair None) kvs) b0 = (None, b1) \<and> Finish env par ops b1 = (None, b2)"
proof -
  let ?s = "cfg_globalSeed cfg" and ?ks = "map (\<lambda>(key, payload). key_of fs key payload) kvs"
  have es: "cfg_entrySize cfg = ps + fs"
    by (simp add: cfg_entrySize_def p)
  obtain b0 where new: "NewSortedBuilder env par newBlockBuilder ops tk opts = Inr b0"
    and est: "72 + length (cfg_userMetadata cfg) + 10 * (unat (nblocks tk) + 1) + unat tk * (ps + fs) + unat (nblocks tk) * maxMeta tk + 32
      \<le> unat (iw_estimatedSize (bl_iw b0))"
    using NewSortedBuilder_live [where newBlockBuilder = newBlockBuilder and par = par, OF io cfg tk _ _ _ _ um w nbb nb] p unfolding es by auto
  have N: "bl_inv env tk ?s ps fs b0 []" "\<not> bl_closed b0" "iw_userMetadata (bl_iw b0) = cfg_userMetadata cfg"
    using NewSortedBuilder_ok [OF new cfg w p(1,3) refl nbb nb] by blast+
  obtain b1 where add: "add_keys env par ops (map (Pair None) kvs) b0 = (None, b1)"
    using add_keys_live [OF io N(1,2) kvs(2)] kvs(1,3) bld by auto
  have eq: "map (\<lambda>(c, key, payload). key_of fs key payload) (map (Pair None) kvs) = ?ks"
    by simp
  have A: "bl_inv env tk ?s ps fs b1 ?ks" "iw_const (bl_iw b1) = iw_const (bl_iw b0)" "\<not> bl_closed b1"
    using add_keys_ok [OF N(1) _ add] N(2) kvs(1) unfolding eq by simp_all
  have "iw_userMetadata (bl_iw b1) = cfg_userMetadata cfg" "iw_estimatedSize (bl_iw b1) = iw_estimatedSize (bl_iw b0)"
    using A(2) N(3) by (simp_all add: iw_const_def)
  then obtain b2 where "Finish env par ops b1 = (None, b2)"
    using Finish_live [OF io A(1,3) _ bld] kvs(1) est by auto
  then show ?thesis
    using new add by blast
qed

end

end
