(* ===== verification/Bij_Algo.thy ===== *)
theory Bij_Algo
  imports Algorithms Build_Live
begin

text \<open>
  The bijection algorithm, called through the algorithm table, keeps the contract \<open>block_algo\<close> that the
  sorted builder relies on.
\<close>

section \<open>The bijection builder keeps the block contract\<close>

definition bij_holds :: "u64 \<Rightarrow> u64 \<Rightarrow> nat \<Rightarrow> nat \<Rightarrow> algoBuilder \<Rightarrow> blockKey list \<Rightarrow> bool" where
  "bij_holds tk s ps fs b ks \<longleftrightarrow>
    (\<exists>bb. b = Inl bb \<and> bij_repr bb ks \<and> bij_cfg bb = bij_cfg (bij_NewBuilder tk s ps fs))"

definition bij_maxMeta :: "u64 \<Rightarrow> nat" where
  "bij_maxMeta tk = bij_estimateMetadataSize (bij_maxKeysPerBlock tk)"

lemma bij_cfg_fields:
  assumes "bij_cfg bb = bij_cfg (bij_NewBuilder tk s ps fs)"
  shows "bb_numBlocks bb = bij_numBlocks tk" "bb_globalSeed bb = s" "bb_payloadSize bb = ps"
    "bb_fingerprintSize bb = fs" "bb_maxKeysPerBlock bb = bij_maxKeysPerBlock tk"
  using assms by (simp_all add: bij_cfg_def bij_NewBuilder_def)

lemma bij_estimate_le: "bij_estimateMetadataSize n \<le> 8220" "157 \<le> bij_estimateMetadataSize n"
  "0 < n \<Longrightarrow> bij_estimateMetadataSize n = 8220"
  by (simp_all add: bij_estimateMetadataSize_def Let_def)

lemma bij_build_small:
  assumes "bij_repr bb ks" and "ks \<noteq> []" and "bij_BuildSeparatedInto bb mdst pdst = Inr r"
  shows "0 < bb_maxKeysPerBlock bb"
proof -
  have "0 < length ks" "\<not> bb_maxKeysPerBlock bb < length ks"
    using assms by (auto simp: bij_BuildSeparatedInto_def bij_repr_def split: if_splits)
  then show ?thesis by linarith
qed

interpretation bij_algo: block_algo algo_ops "\<lambda>tk s ps fs. Inl (bij_NewBuilder tk s ps fs)"
  "\<lambda>s. bij_QuerySlot \<lparr>bd_globalSeed = s\<rparr>" bij_holds bij_numBlocks bij_maxMeta
proof
  fix tk s :: u64 and ps fs :: nat and b :: "algoBuilder" and ks :: "blockKey list" and mdst pdst :: bytes
  let ?new = "bij_NewBuilder tk s ps fs"
  show "unat tk < 2 ^ 40 \<Longrightarrow> bij_holds tk s ps fs (Inl ?new :: algoBuilder) []"
    by (simp add: bij_holds_def bij_NewBuilder_repr)
  show "unat tk < 2 ^ 40 \<Longrightarrow> 2 \<le> unat (bij_numBlocks tk)"
    by (rule bij_numBlocks_cover)
  show "unat tk < 2 ^ 40 \<Longrightarrow> bij_maxMeta tk \<le> 2 ^ 14"
    using bij_estimate_le(1) [of "bij_maxKeysPerBlock tk"] by (simp add: bij_maxMeta_def)
  {
    assume h: "bij_holds tk s ps fs b ks"
    show "op_NumBlocks algo_ops b = bij_numBlocks tk"
      using h bij_cfg_fields by (auto simp: bij_holds_def algo_ops_def bij_NumBlocks_def)
    show "op_GlobalConfigSize algo_ops b = 0"
      using h by (auto simp: bij_holds_def algo_ops_def bij_GlobalConfigSize_def)
    show "op_KeysAdded algo_ops b = length ks"
      using h by (auto simp: bij_holds_def algo_ops_def bij_KeysAdded_def bij_repr_def)
    show "\<exists>b'. op_AddKey algo_ops b (bk_k0 k) (bk_k1 k) (bk_payload k) (bk_fp k) = Inr b' \<and>
        bij_holds tk s ps fs b' (ks @ [k])" for k
      using h bij_AddKey_repr [of _ ks k] by (fastforce simp: bij_holds_def algo_ops_def)
    show "bij_holds tk s ps fs (op_Reset algo_ops b) []"
      using h bij_Reset_repr by (auto simp: bij_holds_def algo_ops_def bij_repr_def)
    show "op_MaxIndexMetadataSize algo_ops b = bij_maxMeta tk"
      using h bij_cfg_fields by (auto simp: bij_holds_def algo_ops_def bij_MaxIndexMetadataSize_def bij_maxMeta_def)
  }
  {
    assume h: "bij_holds tk s ps fs b []" and len: "length mdst = op_MaxMetadataSizeForCurrentBlock algo_ops b"
    then obtain bb where bb: "b = Inl bb" "bij_repr bb []"
      by (auto simp: bij_holds_def)
    then obtain mdst' where "bij_BuildSeparatedInto bb mdst pdst = Inr (157, 0, 0, mdst', pdst, bb)" "length mdst' = length mdst"
      using bij_build_empty [OF bb(2), of mdst pdst] len by (auto simp: algo_ops_def)
    then show "\<exists>ml mdst' pdst' b'. op_BuildSeparatedInto algo_ops b mdst pdst = Inr (ml, 0, 0, mdst', pdst', b') \<and>
        bij_holds tk s ps fs b' [] \<and> 100 \<le> ml \<and> ml \<le> bij_maxMeta tk \<and> ml \<le> length mdst'"
      using h bb len bij_estimate_le(2) [of "bij_maxKeysPerBlock tk"] bij_estimate_le(2) [of 0]
      by (auto simp: algo_ops_def bij_maxMeta_def bij_MaxMetadataSizeForCurrentBlock_def bij_repr_def)
  }
  fix ml pl nk mdst' pdst' and b' :: "algoBuilder"
  assume tk: "unat tk < 2 ^ 40" and h: "bij_holds tk s ps fs b ks" and ne: "ks \<noteq> []" and fit: "fps_fit fs ks"
    and len: "length mdst = op_MaxMetadataSizeForCurrentBlock algo_ops b" "length pdst = length ks * (ps + fs)"
    and run: "op_BuildSeparatedInto algo_ops b mdst pdst = Inr (ml, pl, nk, mdst', pdst', b')"
  obtain bb where bb: "b = Inl bb" "bij_repr bb ks" "bij_cfg bb = bij_cfg ?new"
    using h by (auto simp: bij_holds_def)
  note cfg = bij_cfg_fields [OF bb(3)]
  obtain bb' where run': "bij_BuildSeparatedInto bb mdst pdst = Inr (ml, pl, nk, mdst', pdst', bb')" and b': "b' = Inl bb'"
    using run bb(1) by (auto simp: algo_ops_def res_simps)
  have mx: "bb_maxKeysPerBlock bb < 65536"
    using bij_maxKeysPerBlock_le(1) [OF tk] cfg by simp
  have fit': "fps_fit (bb_fingerprintSize bb) ks" and len': "length ks * bij_entrySize bb \<le> length pdst"
    using fit len cfg by (simp_all add: bij_entrySize_def)
  note ok = bij_build_ok [OF bb(2) mx ne fit' len' run']
  have "length mdst = 8220" "bij_maxMeta tk = 8220"
    using len(1) bb ne bij_estimate_le(3) bij_build_small [OF bb(2) ne run'] cfg(5)
    by (simp_all add: algo_ops_def bij_MaxMetadataSizeForCurrentBlock_def bij_repr_def bij_maxMeta_def)
  then show "(\<exists>slot. block_slots (bij_QuerySlot \<lparr>bd_globalSeed = s\<rparr>) ks (take ml mdst') slot \<and> block_entries fs ps ks pdst' slot) \<and>
      nk = length ks \<and> length pdst' = length pdst \<and> bij_holds tk s ps fs b' ks \<and>
      100 \<le> ml \<and> ml \<le> bij_maxMeta tk \<and> ml \<le> length mdst'"
    using ok cfg bb(3) b' by (auto simp: bij_holds_def bij_query_def)
qed

end
