(* ===== verification/Sorted_Props.thy ===== *)
theory Sorted_Props
  imports Bij_Algo
begin

text \<open>
  Properties of the whole sorted build with the library's own algorithms: from the first \<open>AddKey\<close> to
  the answers of the opened file, success when nothing stands in the way, and the error paths.
\<close>

section \<open>The bijection algorithm in the sorted builder\<close>

lemma bij_limits:
  assumes "unat tk < 2 ^ 40"
  shows "unat (bij_numBlocks tk) < 2 ^ 31"
    and "unat tk < 2 ^ 38 \<Longrightarrow> unat (bij_numBlocks tk) * bij_maxMeta tk < 2 ^ 40"
proof -
  have nb: "unat (bij_numBlocks tk) \<le> unat tk div 3072 + 2"
    by (rule bij_numBlocks_cover [OF assms])
  have "unat tk div 3072 < 357913942"
    using assms by (simp add: div_less_iff_less_mult)
  with nb have "unat (bij_numBlocks tk) < 357913944"
    by linarith
  also have "(357913944 :: nat) < 2 ^ 31"
    by simp
  finally show "unat (bij_numBlocks tk) < 2 ^ 31" .
  assume "unat tk < 2 ^ 38"
  then have "unat tk div 3072 < 89478486"
    by (simp add: div_less_iff_less_mult)
  with nb have "unat (bij_numBlocks tk) \<le> 89478487"
    by linarith
  moreover have "bij_maxMeta tk \<le> 8220"
    by (simp add: bij_maxMeta_def bij_estimate_le)
  ultimately have "unat (bij_numBlocks tk) * bij_maxMeta tk \<le> 89478487 * 8220"
    by (rule mult_le_mono)
  also have "(89478487 * 8220 :: nat) < 2 ^ 40"
    by simp
  finally show "unat (bij_numBlocks tk) * bij_maxMeta tk < 2 ^ 40" .
qed

lemma newBlock_bij:
  "newBlockBuilder AlgoBijection tk s ps fs = Inr (Inl (bij_NewBuilder tk s ps fs))"
  "newBlockDecoder AlgoBijection [] s = Inr (bij_QuerySlot \<lparr>bd_globalSeed = s\<rparr>)"
  by (simp_all add: newBlockBuilder_def newBlockDecoder_def bij_NewDecoder_def)

text \<open>One key per bucket and no more keys than the block limit: such a block always builds.\<close>

lemma bij_buildable:
  assumes "unat tk < 2 ^ 40" and "fps_fit fs ks" and "length ks \<le> bij_maxKeysPerBlock tk" and "distinct (map (key_bucket \<circ> bk_k0) ks)"
  shows "bij_algo.buildable tk s ps fs ks"
  unfolding bij_algo.buildable_def
proof (intro allI impI)
  fix b and mdst pdst :: bytes
  assume h: "bij_holds tk s ps fs b ks" and len: "length mdst = op_MaxMetadataSizeForCurrentBlock algo_ops b" "length pdst = length ks * (ps + fs)"
  obtain bb where bb: "b = Inl bb" "bij_repr bb ks" and cfg: "bij_cfg bb = bij_cfg (bij_NewBuilder tk s ps fs)"
    using h by (auto simp: bij_holds_def)
  note f = bij_cfg_fields [OF cfg]
  have "bb_maxKeysPerBlock bb < 65536" "length ks \<le> bb_maxKeysPerBlock bb" "fps_fit (bb_fingerprintSize bb) ks"
    "length ks * bij_entrySize bb \<le> length pdst" "bij_MaxMetadataSizeForCurrentBlock bb \<le> length mdst"
    using assms f len bij_maxKeysPerBlock_le(1) [OF assms(1)] by (simp_all add: bij_entrySize_def algo_ops_def bb(1))
  from bij_build_singletons [OF bb(2) this(1,2) assms(4) this(3-5)] show "\<exists>r. op_BuildSeparatedInto algo_ops b mdst pdst = Inr r"
    by (auto simp: algo_ops_def bb(1))
qed

section \<open>Round trip and liveness\<close>

text \<open>The keys of a client as the block builder sees them.\<close>

definition block_keys :: "nat \<Rightarrow> (bytes \<times> u64) list \<Rightarrow> blockKey list" where
  "block_keys fs kvs = map (\<lambda>(key, payload). key_of fs key payload) kvs"

definition one_per_bucket :: "u32 \<Rightarrow> blockKey list \<Rightarrow> bool" where
  "one_per_bucket nb ks \<longleftrightarrow> distinct (map (\<lambda>k. (key_route nb k, key_bucket (bk_k0 k))) ks)"

lemma one_per_bucket_group:
  "one_per_bucket nb ks \<Longrightarrow> distinct (map (key_bucket \<circ> bk_k0) (filter (\<lambda>k. key_route nb k = i) ks))"
  unfolding one_per_bucket_def by (induction ks) (auto simp: image_iff)

lemma fps_fit_keys: "fs \<le> 4 \<Longrightarrow> fps_fit fs (filter P (block_keys fs kvs))"
  using extractFingerprint_fits [of fs] by (auto simp: fps_fit_def block_keys_def)

lemma bij_sorted_live:
  assumes "io_ok env" and cfg: "cfg = sorted_config tk opts" and tk: "unat tk < 2 ^ 40"
    and p: "cfg_payloadSize cfg = int ps" "ps \<le> 8" "cfg_fingerprintSize cfg = int fs" "fs \<le> 4"
    and "length (cfg_userMetadata cfg) < 2 ^ 32" and "cfg_workers cfg \<le> 1" and algo: "cfg_algorithm cfg = AlgoBijection"
    and "length kvs = unat tk" and "\<forall>(key, payload)\<in>set kvs. key_ok ps key payload"
    and "sorted (map (key_route (bij_numBlocks tk)) (block_keys fs kvs))" and one: "one_per_bucket (bij_numBlocks tk) (block_keys fs kvs)"
    and few: "\<And>i. length (filter (\<lambda>k. key_route (bij_numBlocks tk) k = i) (block_keys fs kvs)) \<le> bij_maxKeysPerBlock tk"
  shows "\<exists>b0 b1 b2. NewSortedBuilder env par newBlockBuilder algo_ops tk opts = Inr b0 \<and>
    add_keys env par algo_ops (map (Pair None) kvs) b0 = (None, b1) \<and> Finish env par algo_ops b1 = (None, b2)"
proof (rule bij_algo.sorted_build_live [OF assms(1-9), where kvs = kvs])
  show "newBlockBuilder (cfg_algorithm cfg) tk (cfg_globalSeed cfg) ps' fs' = Inr (Inl (bij_NewBuilder tk (cfg_globalSeed cfg) ps' fs'))" for ps' fs'
    by (simp add: algo newBlock_bij)
  show "bij_algo.buildable tk (cfg_globalSeed cfg) ps fs
      (filter (\<lambda>k. key_route (bij_numBlocks tk) k = i) (map (\<lambda>(key, payload). key_of fs key payload) kvs))" for i
    using bij_buildable [OF tk fps_fit_keys [OF p(4)] few one_per_bucket_group [OF one]] by (simp add: block_keys_def)
qed (use assms bij_limits(1) [OF tk] in \<open>simp_all add: block_keys_def\<close>)

text \<open>A concrete build: two keys in different blocks, with payloads of 4 and fingerprints of 1 byte.\<close>

definition sample_env :: sysEnv where
  "sample_env = \<lparr>sys_io = (\<lambda>_. None), sys_xxh = (\<lambda>bs. of_nat (length bs)), sys_extends = True\<rparr>"

definition sample_par :: "'b parOps" where
  "sample_par = \<lparr>par_check = (\<lambda>b. (None, b)), par_addKey = (\<lambda>_ _ _ _ b. (None, b)), par_finish = (\<lambda>b. (None, b)),
     par_shutdown = (\<lambda>b. b), par_init = (\<lambda>b. b)\<rparr>"

definition sample_opts :: "buildOption list" where
  "sample_opts = [WithPayload 4, WithFingerprint 1]"

definition sample_kvs :: "(bytes \<times> u64) list" where
  "sample_kvs = [(replicate 16 0, 7), (replicate 16 255, 9)]"

lemma sample_numBlocks: "bij_numBlocks 2 = 2"
  by code_simp

lemma sample_config:
  "sorted_config 2 sample_opts = \<lparr>cfg_workers = 0, cfg_payloadSize = 4, cfg_fingerprintSize = 1, cfg_globalSeed = 0x1234567890abcdef,
     cfg_userMetadata = [], cfg_unsortedTempDir = '''', cfg_algorithm = 0, cfg_totalKeys = 2\<rparr>"
  by (simp add: sorted_config_def sample_opts_def defaultBuildConfig_def WithPayload_def WithFingerprint_def)

lemma sample_routes: "map (key_route 2) (block_keys 1 sample_kvs) = [0, 1]"
  by (simp add: sample_kvs_def block_keys_def key_route_def) code_simp


lemma sample_valid:
  "io_ok sample_env" "\<forall>(key, payload)\<in>set sample_kvs. key_ok 4 key payload"
  "sorted (map (key_route 2) (block_keys 1 sample_kvs))" "one_per_bucket 2 (block_keys 1 sample_kvs)"
  "length (filter (\<lambda>k. key_route 2 k = i) (block_keys 1 sample_kvs)) \<le> bij_maxKeysPerBlock 2"
proof -
  show "io_ok sample_env"
    by (simp add: io_ok_def sample_env_def)
  have r: "key_route 2 (key_of 1 (replicate 16 0) 7) = 0" "key_route 2 (key_of 1 (replicate 16 255) 9) = 1"
    using sample_routes by (simp_all add: sample_kvs_def block_keys_def)
  then show "one_per_bucket 2 (block_keys 1 sample_kvs)" "sorted (map (key_route 2) (block_keys 1 sample_kvs))"
    by (simp_all add: one_per_bucket_def sample_kvs_def block_keys_def)
  have "1 \<le> bij_maxKeysPerBlock 2"
    using bij_maxKeysPerBlock_le(2) [of 2] by (simp add: sample_numBlocks)
  then show "length (filter (\<lambda>k. key_route 2 k = i) (block_keys 1 sample_kvs)) \<le> bij_maxKeysPerBlock 2"
    using r by (simp add: sample_kvs_def block_keys_def)
  have "take_bit 32 (7 :: u64) = 7" "take_bit 32 (9 :: u64) = 9"
    by code_simp+
  then show "\<forall>(key, payload)\<in>set sample_kvs. key_ok 4 key payload"
    by (simp add: sample_kvs_def key_ok_def)
qed

lemma sample_live:
  "\<exists>b0 b1 b2. NewSortedBuilder sample_env sample_par newBlockBuilder algo_ops 2 sample_opts = Inr b0 \<and>
    add_keys sample_env sample_par algo_ops (map (Pair None) sample_kvs) b0 = (None, b1) \<and> Finish sample_env sample_par algo_ops b1 = (None, b2)"
  by (rule bij_sorted_live [where tk = 2 and opts = sample_opts and ps = 4 and fs = 1, OF _ refl, unfolded sample_config sample_numBlocks])
    (use sample_valid in \<open>simp_all add: AlgoBijection_def sample_kvs_def\<close>)

text \<open>C1: with the bijection algorithm, one worker and an announced count of fewer than \<open>2 ^ 38\<close> keys, keys
  added in sorted order and finished without an error give a file that opens, and in which the ranks of
  the keys are exactly 0 to n - 1, each key's payload comes back, the sizes and the user metadata are
  those of the build, and verification passes. The code admits up to \<open>2 ^ 40 - 1\<close> keys. The bound keeps
  the metadata region below \<open>2 ^ 40\<close> bytes even when every block needs the largest metadata the estimate
  allows (8220 bytes): RAM index entries store the offsets in 40 bits and the encoder does not check them.\<close>

theorem sorted_build_roundtrip:
  assumes "NewSortedBuilder env par newBlockBuilder algo_ops tk opts = Inr b0"
    and "cfg_workers (sorted_config tk opts) \<le> 1" and "cfg_algorithm (sorted_config tk opts) = AlgoBijection"
    and "unat tk < 2 ^ 38" and "length kvs \<le> unat tk"
    and "add_keys env par algo_ops kvs b0 = (None, b1)" and "Finish env par algo_ops b1 = (None, b2)"
  shows "\<exists>file idx. iw_disk (bl_iw b2) = Some file \<and> OpenBytes newBlockDecoder file = Inr idx \<and>
    index_serves (sys_xxh env) idx (sorted_config tk opts) (bij_numBlocks tk) (map snd kvs)"
proof -
  have tk: "unat tk < 2 ^ 40"
    using assms(4) by simp
  show ?thesis
    by (rule bij_algo.sorted_build_serves [OF assms(1) refl assms(2) refl _ _ bij_limits(1) bij_limits(2) [OF tk assms(4)] assms(6,5,7)])
      (simp_all add: assms(3) newBlock_bij)
qed

theorem sorted_build_roundtrip_witness:
  "\<exists>b0 b1 b2 file idx. NewSortedBuilder sample_env sample_par newBlockBuilder algo_ops 2 sample_opts = Inr b0 \<and>
    add_keys sample_env sample_par algo_ops (map (Pair None) sample_kvs) b0 = (None, b1) \<and> Finish sample_env sample_par algo_ops b1 = (None, b2) \<and>
    iw_disk (bl_iw b2) = Some file \<and> OpenBytes newBlockDecoder file = Inr idx \<and>
    index_serves (sys_xxh sample_env) idx (sorted_config 2 sample_opts) (bij_numBlocks 2) sample_kvs"
proof -
  obtain b0 b1 b2 where run: "NewSortedBuilder sample_env sample_par newBlockBuilder algo_ops 2 sample_opts = Inr b0"
    "add_keys sample_env sample_par algo_ops (map (Pair None) sample_kvs) b0 = (None, b1)" "Finish sample_env sample_par algo_ops b1 = (None, b2)"
    using sample_live by blast
  have "map snd (map (Pair None) sample_kvs) = sample_kvs"
    by (simp add: sample_kvs_def)
  then show ?thesis
    using sorted_build_roundtrip [OF run(1) _ _ _ _ run(2,3)] run by (simp add: sample_config AlgoBijection_def sample_kvs_def)
qed

text \<open>C2: with the bijection algorithm and one worker, the whole build succeeds when no system call fails,
  the options are in range, the keys are valid, arrive in block order and match the announced count, no
  two of them share a bucket of a block, and no block gets more keys than its limit \<open>bij_maxKeysPerBlock\<close>
  (a block over the limit is an \<open>ErrBlockOverflow\<close>).\<close>

theorem sorted_build_succeeds:
  assumes "io_ok env" and "unat tk < 2 ^ 40"
    and "cfg_payloadSize (sorted_config tk opts) = int ps" and "ps \<le> 8"
    and "cfg_fingerprintSize (sorted_config tk opts) = int fs" and "fs \<le> 4"
    and "length (cfg_userMetadata (sorted_config tk opts)) < 2 ^ 32" and "cfg_workers (sorted_config tk opts) \<le> 1"
    and "cfg_algorithm (sorted_config tk opts) = AlgoBijection"
    and "length kvs = unat tk" and "\<forall>(key, payload)\<in>set kvs. key_ok ps key payload"
    and "sorted (map (key_route (bij_numBlocks tk)) (block_keys fs kvs))" and "one_per_bucket (bij_numBlocks tk) (block_keys fs kvs)"
    and "\<And>i. length (filter (\<lambda>k. key_route (bij_numBlocks tk) k = i) (block_keys fs kvs)) \<le> bij_maxKeysPerBlock tk"
  shows "\<exists>b0 b1 b2. NewSortedBuilder env par newBlockBuilder algo_ops tk opts = Inr b0 \<and>
    add_keys env par algo_ops (map (Pair None) kvs) b0 = (None, b1) \<and> Finish env par algo_ops b1 = (None, b2)"
  using bij_sorted_live [OF assms(1) refl assms(2-14)] .

theorem sorted_build_succeeds_witness:
  "\<exists>b0 b1 b2. NewSortedBuilder sample_env sample_par newBlockBuilder algo_ops 2 sample_opts = Inr b0 \<and>
    add_keys sample_env sample_par algo_ops (map (Pair None) sample_kvs) b0 = (None, b1) \<and> Finish sample_env sample_par algo_ops b1 = (None, b2)"
  by (rule sorted_build_succeeds [where tk = 2 and opts = sample_opts and ps = 4 and fs = 1, unfolded sample_config sample_numBlocks])
    (use sample_valid in \<open>simp_all add: AlgoBijection_def sample_kvs_def\<close>)

section \<open>Error paths\<close>

text \<open>Actions that keep the closed flag and the worker count.\<close>

definition gate :: "'b builder \<Rightarrow> bool \<times> int" where
  "gate b = (bl_closed b, bl_workers b)"

definition keeps_gate :: "'b builder act \<Rightarrow> bool" where
  "keeps_gate a \<longleftrightarrow> (\<forall>b. snd (gate b) \<le> 1 \<longrightarrow> gate (snd (a b)) = gate b)"

lemma keeps_gateD: "keeps_gate a \<Longrightarrow> snd (gate b) \<le> 1 \<Longrightarrow> gate (snd (a b)) = gate b"
  by (simp add: keeps_gate_def)

lemma gate_on_iw [simp]: "gate (snd (on_iw a b)) = gate b"
  by (simp add: gate_def on_iw_def case_prod_beta)

lemma keeps_gate_on_iw: "keeps_gate (on_iw a)"
  by (simp add: keeps_gate_def)

lemma keeps_gate_andThen:
  assumes "keeps_gate a" and "keeps_gate c"
  shows "keeps_gate (andThen a c)"
  unfolding keeps_gate_def
proof (intro allI impI)
  fix b :: "'a builder" assume w: "snd (gate b) \<le> 1"
  obtain r b1 where ab: "a b = (r, b1)"
    by (cases "a b")
  have g: "gate b1 = gate b"
    using keeps_gateD [OF assms(1) w] by (simp add: ab)
  show "gate (snd (andThen a c b)) = gate b"
    using g keeps_gateD [OF assms(2), of b1] w by (cases r) (simp_all add: andThen_def ab)
qed

lemma keeps_gate_if: "keeps_gate a \<Longrightarrow> keeps_gate (\<lambda>b. if p b then a b else (None, b))"
  by (simp add: keeps_gate_def)

lemma gate_cleanup: "snd (gate b) \<le> 1 \<Longrightarrow> gate (snd (cleanup env par b)) = gate b"
proof -
  assume "snd (gate b) \<le> 1"
  then have "snd (cleanup env par b) = snd (on_iw (syscall env (\<lambda>iw. (None, iw\<lparr>iw_disk := None\<rparr>))) (snd (on_iw (iw_close env) b)))"
    by (simp add: cleanup_def Let_def gate_def case_prod_beta)
  then show ?thesis by simp
qed

lemma keeps_gate_orCleanup:
  assumes "keeps_gate a"
  shows "keeps_gate (orCleanup env par a)"
  unfolding keeps_gate_def
proof (intro allI impI)
  fix b :: "'a builder" assume w: "snd (gate b) \<le> 1"
  obtain r b1 where ab: "a b = (r, b1)"
    by (cases "a b")
  have "gate b1 = gate b"
    using keeps_gateD [OF assms w] by (simp add: ab)
  then show "gate (snd (orCleanup env par a b)) = gate b"
    using gate_cleanup [of b1] w by (cases r) (simp_all add: orCleanup_def ab)
qed

lemma gate_commit: "gate (snd (commitEmptyBlock env ops b)) = gate b"
  unfolding commitEmptyBlock_def Let_def
  by (simp split: sum.split prod.split) (simp add: gate_def resetCurrentBuilder_def)

lemma gate_build: "gate (snd (buildBlock env ops b)) = gate b"
  unfolding buildBlock_def Let_def
  by (simp split: sum.split prod.split) (simp add: gate_def)

lemma keeps_gate_trailing: "keeps_gate (trailing_blocks n env par ops)"
proof (induction n)
  case (Suc n)
  have "trailing_blocks (Suc n) env par ops = andThen (orCleanup env par (commitEmptyBlock env ops)) (trailing_blocks n env par ops)"
    by (rule ext) simp
  moreover have "keeps_gate (commitEmptyBlock env ops)"
    by (simp add: keeps_gate_def gate_commit)
  ultimately show ?case
    using Suc by (simp add: keeps_gate_andThen keeps_gate_orCleanup)
qed (simp add: keeps_gate_def)

lemma keeps_gate_finish: "keeps_gate (finishSingleThreaded env par ops)"
proof -
  have "keeps_gate (\<lambda>b. andThen (trailing_blocks (unat (bl_numBlocks b) - unat (iw_blockCount (bl_iw b))) env par ops) (finalizeIndex env par ops) b)"
    unfolding keeps_gate_def finalizeIndex_def
    using keeps_gate_andThen [OF keeps_gate_trailing keeps_gate_orCleanup [of "\<lambda>b. on_iw (finalize env ops (bl_builder b)) b" env par], of _ env par ops]
    by (auto simp: keeps_gate_def)
  moreover have "keeps_gate (buildBlock env ops)"
    by (simp add: keeps_gate_def gate_build)
  ultimately show ?thesis
    unfolding finishSingleThreaded_def commitTrailingEmptyBlocksAndFinalize_def [abs_def]
    by (intro keeps_gate_andThen keeps_gate_if keeps_gate_orCleanup)
qed

lemma Finish_closed: "bl_workers b \<le> 1 \<Longrightarrow> gate (snd (Finish env par ops b)) = (True, bl_workers b)"
proof -
  assume w: "bl_workers b \<le> 1"
  let ?b = "b\<lparr>bl_closed := True\<rparr>"
  have g: "gate ?b = (True, bl_workers b)"
    by (simp add: gate_def)
  show ?thesis
    using w g gate_cleanup [of ?b env par] keeps_gateD [OF keeps_gate_finish, of ?b env par ops]
    by (simp add: Finish_def finishSorted_def Let_def) (simp add: gate_def)
qed

text \<open>C5: a builder is closed once \<open>Finish\<close> has been called, whether it succeeded or not: adding a key and
  finishing again are refused with \<open>ErrBuilderClosed\<close>, \<open>Close\<close> does nothing, and the file is left as it is.\<close>

theorem finish_closes:
  assumes "bl_workers b \<le> 1" and "Finish env par ops b = (r, b')"
  shows "AddKey env par ops ctx key payload b' = (Some ErrBuilderClosed, b') \<and> Finish env par ops b' = (Some ErrBuilderClosed, b') \<and>
    Close env par b' = (None, b')"
proof -
  have "gate b' = (True, bl_workers b)"
    using Finish_closed [OF assms(1), of env par ops] assms(2) by simp
  then have "bl_closed b'" "\<not> bl_workers b' > 1"
    using assms(1) by (simp_all add: gate_def)
  then show ?thesis
    by (simp add: AddKey_def Finish_def finishSorted_def Close_def bl_close_def)
qed


lemma sample_new:
  assumes "NewSortedBuilder sample_env sample_par newBlockBuilder algo_ops 2 sample_opts = Inr b"
  shows "bl_workers b \<le> 1" "\<not> bl_closed b" "bl_totalKeysAdded b = 0" "cfg_totalKeys (bl_cfg b) = 2"
proof -
  let ?s = "0x1234567890abcdef :: u64"
  have nbb: "newBlockBuilder (cfg_algorithm (sorted_config 2 sample_opts)) 2 ?s 4 1 = Inr (Inl (bij_NewBuilder 2 ?s 4 1))"
    using newBlock_bij(1) by (simp add: sample_config AlgoBijection_def)
  have cfg: "cfg_workers (sorted_config 2 sample_opts) \<le> 1" "cfg_payloadSize (sorted_config 2 sample_opts) = int 4"
    "cfg_fingerprintSize (sorted_config 2 sample_opts) = int 1" "?s = cfg_globalSeed (sorted_config 2 sample_opts)"
    by (simp_all add: sample_config)
  have "bij_algo.bl_inv sample_env 2 ?s 4 1 b []" "\<not> bl_closed b"
    using bij_algo.NewSortedBuilder_ok [OF assms refl cfg nbb bij_limits(1)] by blast+
  then obtain bl cur where "bij_algo.bl_state sample_env 2 ?s 4 1 b [] bl cur" and c: "\<not> bl_closed b"
    unfolding bij_algo.bl_inv_def by blast
  then have "bl_workers b \<le> 1" "bl_totalKeysAdded b = of_nat (length ([] :: blockKey list))" "cfg_totalKeys (bl_cfg b) = 2"
    unfolding bij_algo.bl_state_def by blast+
  with c show "bl_workers b \<le> 1" "\<not> bl_closed b" "bl_totalKeysAdded b = 0" "cfg_totalKeys (bl_cfg b) = 2"
    by simp_all
qed

theorem finish_closes_witness:
  "\<exists>b r b'. NewSortedBuilder sample_env sample_par newBlockBuilder algo_ops 2 sample_opts = Inr b \<and>
    Finish sample_env sample_par algo_ops b = (r, b') \<and>
    AddKey sample_env sample_par algo_ops None (replicate 16 0) 7 b' = (Some ErrBuilderClosed, b') \<and>
    Finish sample_env sample_par algo_ops b' = (Some ErrBuilderClosed, b') \<and> Close sample_env sample_par b' = (None, b')"
proof -
  obtain b where b: "NewSortedBuilder sample_env sample_par newBlockBuilder algo_ops 2 sample_opts = Inr b"
    using sample_live by blast
  have "bl_workers b \<le> 1"
    by (rule sample_new [OF b])
  obtain r b' where f: "Finish sample_env sample_par algo_ops b = (r, b')"
    by (cases "Finish sample_env sample_par algo_ops b")
  show ?thesis
    using b f finish_closes [OF \<open>bl_workers b \<le> 1\<close> f] by blast
qed














lemma AddKey_unsorted:
  assumes op: "\<not> bl_closed b" and w: "bl_workers b \<le> 1" and ps: "cfg_payloadSize (bl_cfg b) = int ps" "ps \<le> 8" and ok: "key_ok ps key payload"
    and lt0: "int (unat (blockRoute (key_k0 key) (bl_numBlocks b))) < bl_lastBlockID b"
  shows "\<exists>n. AddKey env par ops None key payload b = (Some ErrUnsortedInput, b\<lparr>bl_keyCounter := n\<rparr>)"
proof -
  have g: "\<not> length key > maxKeyLength" "\<not> length key < MinKeySize"
    "\<not> (cfg_payloadSize (bl_cfg b) > 0 \<and> cfg_payloadSize (bl_cfg b) < 8 \<and> payload > push_bit (nat (cfg_payloadSize (bl_cfg b)) * 8) 1 - 1)"
    using ok payload_fits_conv [OF ps(2), of payload] unfolding ps(1) by (simp_all add: key_ok_def maxKeyLength_def MinKeySize_def)
  define n where "n = (if contextCheckInterval \<le> bl_keyCounter b + 1 then 0 else bl_keyCounter b + 1)"
  have ctx: "(if bl_keyCounter (b\<lparr>bl_keyCounter := bl_keyCounter b + 1\<rparr>) \<ge> contextCheckInterval
      then checkContextSlow par None (b\<lparr>bl_keyCounter := bl_keyCounter b + 1\<rparr>) else (None, b\<lparr>bl_keyCounter := bl_keyCounter b + 1\<rparr>)) =
      (None, b\<lparr>bl_keyCounter := n\<rparr>)"
    using w by (simp add: n_def checkContextSlow_def Let_def)
  have nb: "bl_numBlocks (b\<lparr>bl_keyCounter := bl_keyCounter b + 1\<rparr>) = bl_numBlocks b" and k1: "key_k0 (drop 8 key) = key_k1 key"
    and lt: "int (unat (blockRoute (key_k0 key) (bl_numBlocks b))) < bl_lastBlockID (b\<lparr>bl_keyCounter := n\<rparr>)"
    using lt0 by (simp_all add: key_k0_def key_k1_def)
  show ?thesis
    unfolding AddKey_def Let_def if_not_P [OF op] if_not_P [OF g(1)] if_not_P [OF g(2)] if_not_P [OF g(3)] nb
      key_k0_def [symmetric] k1 blockRoute_def [symmetric] andThen_def ctx prod.case option.case if_P [OF lt] by blast
qed

text \<open>C4: a valid key that belongs to an earlier block than a key already added is refused with
  \<open>ErrUnsortedInput\<close>, and nothing is written to the file.\<close>

theorem unsorted_key_rejected:
  assumes "NewSortedBuilder env par newBlockBuilder algo_ops tk opts = Inr b0"
    and "cfg_workers (sorted_config tk opts) \<le> 1" and "cfg_algorithm (sorted_config tk opts) = AlgoBijection"
    and "add_keys env par algo_ops kvs b0 = (None, b1)" and "length kvs \<le> unat tk"
    and "(ctx, key', payload') \<in> set kvs" and "key_ok (nat (cfg_payloadSize (sorted_config tk opts))) key payload"
    and "blockRoute (key_k0 key) (bij_numBlocks tk) < blockRoute (key_k0 key') (bij_numBlocks tk)"
  shows "\<exists>b'. AddKey env par algo_ops None key payload b1 = (Some ErrUnsortedInput, b') \<and> bl_iw b' = bl_iw b1"
proof -
  let ?cfg = "sorted_config tk opts"
  define ps fs where "ps = nat (cfg_payloadSize ?cfg)" and "fs = nat (cfg_fingerprintSize ?cfg)"
  have p: "cfg_payloadSize ?cfg = int ps" "cfg_fingerprintSize ?cfg = int fs"
    using assms(1) unfolding NewSortedBuilder_def newBuilder_def Let_def sorted_config_def [symmetric]
    by (auto simp: ps_def fs_def res_simps split: if_splits)
  have nbb: "newBlockBuilder (cfg_algorithm ?cfg) tk (cfg_globalSeed ?cfg) ps fs = Inr (Inl (bij_NewBuilder tk (cfg_globalSeed ?cfg) ps fs))"
    by (simp add: assms(3) newBlock_bij)
  have N: "bij_algo.bl_inv env tk (cfg_globalSeed ?cfg) ps fs b0 []" "\<not> bl_closed b0"
    using bij_algo.NewSortedBuilder_ok [OF assms(1) refl assms(2) p refl nbb bij_limits(1)] by blast+
  have A: "bij_algo.bl_inv env tk (cfg_globalSeed ?cfg) ps fs b1 (map (\<lambda>(c, key, payload). key_of fs key payload) kvs)" "\<not> bl_closed b1"
    using bij_algo.add_keys_ok [OF N(1) _ assms(4)] N(2) assms(5) by simp_all
  then obtain bl cur where S: "bij_algo.bl_state env tk (cfg_globalSeed ?cfg) ps fs b1 (map (\<lambda>(c, key, payload). key_of fs key payload) kvs) bl cur"
    and at: "bl_at b1 (bij_numBlocks tk) (map (\<lambda>(c, key, payload). key_of fs key payload) kvs) bl cur"
    unfolding bij_algo.bl_inv_def by blast
  have st: "bl_workers b1 \<le> 1" "cfg_payloadSize (bl_cfg b1) = int ps" "ps \<le> 8" "bl_numBlocks b1 = bij_numBlocks tk"
    using S unfolding bij_algo.bl_state_def by blast+
  have "key_of fs key' payload' \<in> set (map (\<lambda>(c, key, payload). key_of fs key payload) kvs)"
    using assms(6) by force
  then have "int (key_route (bij_numBlocks tk) (key_of fs key' payload')) \<le> bl_lastBlockID b1"
    using at by (auto simp: bl_at_def split: if_splits)
  then have "int (unat (blockRoute (key_k0 key) (bl_numBlocks b1))) < bl_lastBlockID b1"
    using assms(8) st(4) by (simp add: key_route_def word_less_def)
  then obtain n where "AddKey env par algo_ops None key payload b1 = (Some ErrUnsortedInput, b1\<lparr>bl_keyCounter := n\<rparr>)"
    using AddKey_unsorted [OF A(2) st(1,2,3) assms(7) [folded ps_def]] by blast
  then show ?thesis by simp
qed

theorem unsorted_key_rejected_witness:
  "\<exists>b0 b1 b'. NewSortedBuilder sample_env sample_par newBlockBuilder algo_ops 2 sample_opts = Inr b0 \<and>
    add_keys sample_env sample_par algo_ops (map (Pair None) sample_kvs) b0 = (None, b1) \<and>
    AddKey sample_env sample_par algo_ops None (replicate 16 0) 5 b1 = (Some ErrUnsortedInput, b') \<and> bl_iw b' = bl_iw b1"
proof -
  obtain b0 b1 where run: "NewSortedBuilder sample_env sample_par newBlockBuilder algo_ops 2 sample_opts = Inr b0"
    "add_keys sample_env sample_par algo_ops (map (Pair None) sample_kvs) b0 = (None, b1)"
    using sample_live by blast
  have "key_route 2 (key_of 1 (replicate 16 0) 7) = 0" "key_route 2 (key_of 1 (replicate 16 255) 9) = 1"
    using sample_routes by (simp_all add: sample_kvs_def block_keys_def)
  then have rt: "blockRoute (key_k0 (replicate 16 0)) (bij_numBlocks 2) < blockRoute (key_k0 (replicate 16 255)) (bij_numBlocks 2)"
    by (simp add: sample_numBlocks key_route_def word_less_nat_alt)
  have "take_bit 32 (5 :: u64) = 5"
    by code_simp
  then have ok: "key_ok (nat (cfg_payloadSize (sorted_config 2 sample_opts))) (replicate 16 0) 5"
    by (simp add: sample_config key_ok_def)
  have "(None, replicate 16 255, 9) \<in> set (map (Pair None) sample_kvs)" "length (map (Pair None) sample_kvs) \<le> unat (2 :: u64)"
    "cfg_workers (sorted_config 2 sample_opts) \<le> 1" "cfg_algorithm (sorted_config 2 sample_opts) = AlgoBijection"
    by (simp_all add: sample_kvs_def sample_config AlgoBijection_def)
  from unsorted_key_rejected [OF run(1) this(3,4) run(2) this(2,1) ok rt] run show ?thesis
    by blast
qed

end
