(* ===== verification/Ptr_Search_Correct.thy ===== *)
theory Ptr_Search_Correct
  imports Ptr_Solver
begin

text \<open>
  The pilot searches of the PTRHash solver agree with one reference: the least pilot whose slots are
  distinct and free. The searches may change scratch buffers and stale generation marks, never which
  slots are taken.
\<close>

section \<open>Reference\<close>

definition slot_of :: "solver \<Rightarrow> u8 \<Rightarrow> ptrEntry \<Rightarrow> nat" where
  "slot_of sv pilot e = unat (pilotSlotFolded (entry_fold e) (pilotHP sv pilot) (sv_numSlots sv))"

definition slots_at :: "solver \<Rightarrow> u8 \<Rightarrow> ptrEntry list \<Rightarrow> nat list" where
  "slots_at sv pilot bucket = map (slot_of sv pilot) bucket"

definition taken :: "solver \<Rightarrow> nat \<Rightarrow> bool" where
  "taken sv s \<longleftrightarrow> sv_slotGen sv ! s = sv_generation sv"

definition free_pilot :: "solver \<Rightarrow> ptrEntry list \<Rightarrow> u8 \<Rightarrow> bool" where
  "free_pilot sv bucket pilot \<longleftrightarrow> distinct (slots_at sv pilot bucket) \<and> (\<forall>s\<in>set (slots_at sv pilot bucket). \<not> taken sv s)"

definition least_free_pilot :: "solver \<Rightarrow> ptrEntry list \<Rightarrow> nat option" where
  "least_free_pilot sv bucket = first_upto (\<lambda>p. free_pilot sv bucket (of_nat p)) 0 numPilotValues"

text \<open>The part of the solver's state that the searches rely on.\<close>

definition search_wf :: "solver \<Rightarrow> bool" where
  "search_wf sv \<longleftrightarrow> 0 < unat (sv_numSlots sv) \<and> unat (sv_numSlots sv) \<le> 65535 \<and> unat (sv_numSlots sv) \<le> length (sv_slotGen sv) \<and>
    unat (sv_numSlots sv) \<le> length (sv_phase2SlotGen sv) \<and>
    1 \<le> sv_generation sv \<and> sv_generation sv < 254 \<and> (\<forall>g\<in>set (sv_slotGen sv). g \<le> sv_generation sv)"

text \<open>What a search keeps.\<close>

definition search_rel :: "solver \<Rightarrow> solver \<Rightarrow> bool" where
  "search_rel sv sv' \<longleftrightarrow> search_core sv' = search_core sv \<and> search_wf sv' \<and> (\<forall>s<unat (sv_numSlots sv). taken sv' s = taken sv s) \<and>
    length (sv_slotsBuffer sv') = length (sv_slotsBuffer sv) \<and> length (sv_foldedBuffer sv') = length (sv_foldedBuffer sv) \<and>
    length (sv_slotGen sv') = length (sv_slotGen sv) \<and> length (sv_phase2SlotGen sv') = length (sv_phase2SlotGen sv)"

lemma core_sel:
  shows "sv_numSlots (search_core sv) = sv_numSlots sv" "sv_generation (search_core sv) = sv_generation sv" "sv_pilotHPs (search_core sv) = sv_pilotHPs sv"
    "sv_buckets (search_core sv) = sv_buckets sv" "sv_numBuckets (search_core sv) = sv_numBuckets sv" "sv_numKeys (search_core sv) = sv_numKeys sv"
    "sv_pilots (search_core sv) = sv_pilots sv" "sv_slotOwner (search_core sv) = sv_slotOwner sv" "sv_processedGen (search_core sv) = sv_processedGen sv"
    "sv_pinned (search_core sv) = sv_pinned sv" "sv_pinnedBits (search_core sv) = sv_pinnedBits sv" "sv_pinnedIdx (search_core sv) = sv_pinnedIdx sv"
    "sv_evictions (search_core sv) = sv_evictions sv" "sv_pendingHeap (search_core sv) = sv_pendingHeap sv" "sv_bucketOrder (search_core sv) = sv_bucketOrder sv"
    "sv_globalSeed (search_core sv) = sv_globalSeed sv" "sv_bucketStarts (search_core sv) = sv_bucketStarts sv" "sv_sortCounts (search_core sv) = sv_sortCounts sv"
    "sv_sortPositions (search_core sv) = sv_sortPositions sv" "sv_maxNumBuckets (search_core sv) = sv_maxNumBuckets sv" "sv_maxNumSlots (search_core sv) = sv_maxNumSlots sv"
  by (simp_all add: search_core_def)

lemma core_fields:
  assumes "search_core sv' = search_core sv"
  shows "sv_numSlots sv' = sv_numSlots sv" "sv_generation sv' = sv_generation sv" "sv_pilotHPs sv' = sv_pilotHPs sv" "sv_buckets sv' = sv_buckets sv"
    "sv_numBuckets sv' = sv_numBuckets sv" "sv_numKeys sv' = sv_numKeys sv" "sv_pilots sv' = sv_pilots sv" "sv_slotOwner sv' = sv_slotOwner sv"
    "sv_processedGen sv' = sv_processedGen sv" "sv_pinned sv' = sv_pinned sv" "sv_pinnedBits sv' = sv_pinnedBits sv" "sv_pinnedIdx sv' = sv_pinnedIdx sv"
    "sv_evictions sv' = sv_evictions sv" "sv_pendingHeap sv' = sv_pendingHeap sv" "sv_bucketOrder sv' = sv_bucketOrder sv" "sv_globalSeed sv' = sv_globalSeed sv"
    "sv_bucketStarts sv' = sv_bucketStarts sv" "sv_sortCounts sv' = sv_sortCounts sv" "sv_sortPositions sv' = sv_sortPositions sv"
    "sv_maxNumBuckets sv' = sv_maxNumBuckets sv" "sv_maxNumSlots sv' = sv_maxNumSlots sv"
  by (metis core_sel assms)+

lemma core_slot_of:
  assumes "search_core sv' = search_core sv"
  shows "pilotHP sv' = pilotHP sv" "slot_of sv' = slot_of sv" "slots_at sv' = slots_at sv"
  using core_fields [OF assms] by (simp_all add: pilotHP_def slot_of_def slots_at_def fun_eq_iff)

lemma search_rel_refl: "search_wf sv \<Longrightarrow> search_rel sv sv"
  by (simp add: search_rel_def)

lemma search_rel_trans: "search_rel sv sv' \<Longrightarrow> search_rel sv' sv'' \<Longrightarrow> search_rel sv sv''"
  using core_fields(1) [of sv' sv] by (simp add: search_rel_def)

lemma slot_of_less: "search_wf sv \<Longrightarrow> slot_of sv p e < unat (sv_numSlots sv)"
  by (simp add: slot_of_def search_wf_def pilotSlotFolded_less)

lemma search_rel_free:
  assumes "search_wf sv" and "search_rel sv sv'"
  shows "free_pilot sv' bucket p = free_pilot sv bucket p"
proof -
  have "taken sv' s = taken sv s" if "s \<in> set (slots_at sv p bucket)" for s
    using assms(2) that slot_of_less [OF assms(1)] by (auto simp: search_rel_def slots_at_def)
  then show ?thesis
    using assms(2) core_slot_of(3) [of sv' sv] by (auto simp: free_pilot_def search_rel_def)
qed

lemma slotGenIsTaken_ok: "unat slot < length (sv_slotGen sv) \<Longrightarrow> slotGenIsTaken sv slot = Inr (taken sv (unat slot))"
  by (simp add: slotGenIsTaken_def taken_def)

section \<open>The searches for small buckets\<close>

lemma put_slots_ok:
  assumes "length slots \<le> length (sv_slotsBuffer sv)"
  shows "put_slots slots sv = Inr (sv\<lparr>sv_slotsBuffer := map ucast slots @ drop (length slots) (sv_slotsBuffer sv)\<rparr>)"
proof -
  have "rfold (\<lambda>(i, slot) buf. set_at buf i (ucast slot)) (List.enumerate (length pre) slots) (pre @ rest) =
      Inr (pre @ map ucast slots @ drop (length slots) rest)" if "length slots \<le> length rest" for pre rest :: "u16 list"
    using that
  proof (induction slots arbitrary: pre rest)
    case (Cons s slots)
    then obtain r rest' where rest: "rest = r # rest'"
      by (cases rest) auto
    have "rfold (\<lambda>(i, slot) buf. set_at buf i (ucast slot)) (List.enumerate (Suc (length pre)) slots) (pre @ ucast s # rest') =
        Inr (pre @ ucast s # map ucast slots @ drop (length slots) rest')"
      using Cons.IH [of rest' "pre @ [ucast s]"] Cons.prems rest by simp
    then show ?case
      by (simp add: rest)
  qed simp
  from this [of "sv_slotsBuffer sv" "[]"] assms show ?thesis
    by (simp add: put_slots_def)
qed

text \<open>What a search returns.\<close>

definition search_result :: "solver \<Rightarrow> ptrEntry list \<Rightarrow> (u8 \<times> bool \<times> solver) res \<Rightarrow> bool" where
  "search_result sv bucket r \<longleftrightarrow> (\<exists>sv'. search_rel sv sv' \<and>
    (case least_free_pilot sv bucket of
       None \<Rightarrow> r = Inr (0, False, sv')
     | Some p \<Rightarrow> r = Inr (of_nat p, True, sv') \<and>
         take (length bucket) (sv_slotsBuffer sv') = map of_nat (slots_at sv (of_nat p) bucket)))"

lemma ucast_of_nat_unat: "(ucast (x :: u32) :: u16) = of_nat (unat x)"
  by simp

lemma pilot_search_ok:
  assumes wf: "search_wf sv" and k: "length bucket = k" "k \<le> length (sv_slotsBuffer sv)"
    and test: "\<And>p. test sv (\<lambda>i. pilotSlotFolded (entry_fold (bucket ! i)) (pilotHP sv p) (sv_numSlots sv)) = Inr (free_pilot sv bucket p)"
  shows "search_result sv bucket (pilot_search k test bucket sv)"
proof -
  let ?slot = "\<lambda>p i. pilotSlotFolded (entry_fold (bucket ! i)) (pilotHP sv p) (sv_numSlots sv)"
  have g0: "get_at (sv_slotGen sv) 0 = Inr (sv_slotGen sv ! 0)"
    using wf by (intro get_at_ok) (auto simp: search_wf_def)
  have loop: "first_upto_res (\<lambda>p. test sv (?slot (of_nat p))) 0 numPilotValues = Inr (least_free_pilot sv bucket)"
    unfolding least_free_pilot_def by (rule first_upto_res_total) (simp add: test)
  have slots: "map ucast (map (?slot p) [0..<k]) = (map of_nat (slots_at sv p bucket) :: u16 list)" for p
    by (rule nth_equalityI) (simp_all add: k(1) slots_at_def slot_of_def)
  show ?thesis
  proof (cases "least_free_pilot sv bucket")
    case None
    then have "pilot_search k test bucket sv = Inr (0, False, sv)"
      unfolding pilot_search_def g0 rbind_Inr Let_def loop using k(1) by simp
    then show ?thesis
      using None search_rel_refl [OF wf] by (auto simp: search_result_def)
  next
    case (Some p)
    let ?sv = "sv\<lparr>sv_slotsBuffer := map ucast (map (?slot (of_nat p)) [0..<k]) @ drop k (sv_slotsBuffer sv)\<rparr>"
    have "pilot_search k test bucket sv = Inr (of_nat p, True, ?sv)"
      unfolding pilot_search_def g0 rbind_Inr Let_def loop using k Some put_slots_ok [of "map (?slot (of_nat p)) [0..<k]" sv] by simp
    moreover have "search_rel sv ?sv"
      using wf k(2) by (simp add: search_rel_def search_wf_def taken_def)
    moreover have "take (length bucket) (sv_slotsBuffer ?sv) = map of_nat (slots_at sv (of_nat p) bucket)"
      unfolding slots [symmetric] using k(1) by simp
    ultimately show ?thesis
      using Some by (auto simp: search_result_def)
  qed
qed


lemma free_pilot_words:
  assumes "length bucket = k"
  shows "free_pilot sv bucket p \<longleftrightarrow>
    distinct (map (\<lambda>i. pilotSlotFolded (entry_fold (bucket ! i)) (pilotHP sv p) (sv_numSlots sv)) [0..<k]) \<and>
    (\<forall>i\<in>set [0..<k]. \<not> taken sv (unat (pilotSlotFolded (entry_fold (bucket ! i)) (pilotHP sv p) (sv_numSlots sv))))"
proof -
  let ?S = "\<lambda>i. pilotSlotFolded (entry_fold (bucket ! i)) (pilotHP sv p) (sv_numSlots sv)"
  have "slots_at sv p bucket = map (\<lambda>i. unat (?S i)) [0..<k]"
    using assms by (intro nth_equalityI) (simp_all add: slots_at_def slot_of_def)
  moreover have "distinct (map (\<lambda>i. unat (?S i)) [0..<k]) = distinct (map ?S [0..<k])"
    by (simp add: distinct_map inj_on_def word_unat_eq_iff)
  ultimately show ?thesis
    by (simp add: free_pilot_def)
qed

lemma taken_all_ok:
  "(\<And>x. x \<in> set xs \<Longrightarrow> unat x < length (sv_slotGen sv)) \<Longrightarrow> taken_all sv xs = Inr (map (\<lambda>x. taken sv (unat x)) xs)"
  by (induction xs) (simp_all add: slotGenIsTaken_ok)

lemma slot_in_range: "search_wf sv \<Longrightarrow> unat (pilotSlotFolded h hp (sv_numSlots sv)) < length (sv_slotGen sv)"
  using pilotSlotFolded_less [of "sv_numSlots sv" h hp] by (auto simp: search_wf_def)

lemmas small_search = slotGenIsTaken_ok [OF slot_in_range] taken_all_ok ror_def

lemma upt_small:
  "[0..<1] = [0::nat]" "[0..<2] = [0::nat, 1]" "[0..<3] = [0::nat, 1, 2]" "[0..<4] = [0::nat, 1, 2, 3]" "[0..<5] = [0::nat, 1, 2, 3, 4]"
  "[0..<6] = [0::nat, 1, 2, 3, 4, 5]" "[0..<7] = [0::nat, 1, 2, 3, 4, 5, 6]" "[0..<8] = [0::nat, 1, 2, 3, 4, 5, 6, 7]"
  by code_simp+

lemma findFreePilot1_ok:
  "search_wf sv \<Longrightarrow> length bucket = 1 \<Longrightarrow> 1 \<le> length (sv_slotsBuffer sv) \<Longrightarrow> search_result sv bucket (findFreePilot1 bucket sv)"
  unfolding findFreePilot1_def by (rule pilot_search_ok) (auto simp: small_search free_pilot_words)

lemma findFreePilot2_ok:
  "search_wf sv \<Longrightarrow> length bucket = 2 \<Longrightarrow> 2 \<le> length (sv_slotsBuffer sv) \<Longrightarrow> search_result sv bucket (findFreePilot2 bucket sv)"
  unfolding findFreePilot2_def by (rule pilot_search_ok) (simp_all add: small_search free_pilot_words upt_small del: One_nat_def)

lemma findFreePilot3_ok:
  "search_wf sv \<Longrightarrow> length bucket = 3 \<Longrightarrow> 3 \<le> length (sv_slotsBuffer sv) \<Longrightarrow> search_result sv bucket (findFreePilot3 bucket sv)"
  unfolding findFreePilot3_def by (rule pilot_search_ok) (auto simp: small_search free_pilot_words upt_small)

lemma findFreePilot4_ok:
  "search_wf sv \<Longrightarrow> length bucket = 4 \<Longrightarrow> 4 \<le> length (sv_slotsBuffer sv) \<Longrightarrow> search_result sv bucket (findFreePilot4 bucket sv)"
  unfolding findFreePilot4_def by (rule pilot_search_ok) (auto simp: small_search free_pilot_words upt_small)

lemma findFreePilot5_ok:
  "search_wf sv \<Longrightarrow> length bucket = 5 \<Longrightarrow> 5 \<le> length (sv_slotsBuffer sv) \<Longrightarrow> search_result sv bucket (findFreePilot5 bucket sv)"
  unfolding findFreePilot5_def by (rule pilot_search_ok) (simp_all add: small_search free_pilot_words upt_small Let_def)


lemma findFreePilot6_ok:
  "search_wf sv \<Longrightarrow> length bucket = 6 \<Longrightarrow> 6 \<le> length (sv_slotsBuffer sv) \<Longrightarrow> search_result sv bucket (findFreePilot6 bucket sv)"
  unfolding findFreePilot6_def by (rule pilot_search_ok) (simp_all add: small_search free_pilot_words upt_small Let_def)

lemma findFreePilot7_ok:
  "search_wf sv \<Longrightarrow> length bucket = 7 \<Longrightarrow> 7 \<le> length (sv_slotsBuffer sv) \<Longrightarrow> search_result sv bucket (findFreePilot7 bucket sv)"
  unfolding findFreePilot7_def by (rule pilot_search_ok) (simp_all add: small_search free_pilot_words upt_small Let_def)

lemma findFreePilot8_ok:
  "search_wf sv \<Longrightarrow> length bucket = 8 \<Longrightarrow> 8 \<le> length (sv_slotsBuffer sv) \<Longrightarrow> search_result sv bucket (findFreePilot8 bucket sv)"
  unfolding findFreePilot8_def by (rule pilot_search_ok) (simp_all add: small_search free_pilot_words upt_small Let_def)

section \<open>The search for larger buckets\<close>

lemma put_slot_ok:
  assumes "i < length (sv_foldedBuffer sv)" and "i < length (sv_slotsBuffer sv)"
  shows "put_slot pilot i sv = Inr (ucast (pilotSlotFolded (sv_foldedBuffer sv ! i) (pilotHP sv pilot) (sv_numSlots sv)),
    sv\<lparr>sv_slotsBuffer := (sv_slotsBuffer sv)[i := ucast (pilotSlotFolded (sv_foldedBuffer sv ! i) (pilotHP sv pilot) (sv_numSlots sv))]\<rparr>)"
  using assms by (simp add: put_slot_def Let_def)

text \<open>The slots of the first \<open>n\<close> folded values, and states that differ in the slot buffer only.\<close>

definition fslot :: "solver \<Rightarrow> u8 \<Rightarrow> nat \<Rightarrow> nat" where
  "fslot sv pilot i = unat (pilotSlotFolded (sv_foldedBuffer sv ! i) (pilotHP sv pilot) (sv_numSlots sv))"

lemma fslot_upd [simp]: "fslot (sv\<lparr>sv_slotsBuffer := buf\<rparr>) = fslot sv"
  by (simp add: fslot_def pilotHP_def fun_eq_iff)

lemma fslot_less: "search_wf sv \<Longrightarrow> fslot sv p i < unat (sv_numSlots sv)"
  by (simp add: fslot_def search_wf_def pilotSlotFolded_less)

lemma taken_upd [simp]: "taken (sv\<lparr>sv_slotsBuffer := buf\<rparr>) = taken sv"
  by (simp add: taken_def fun_eq_iff)

lemma search_wf_upd [simp]: "search_wf (sv\<lparr>sv_slotsBuffer := buf\<rparr>) = search_wf sv"
  by (simp add: search_wf_def)

lemma put_slot_eq:
  assumes "i < length (sv_foldedBuffer sv)" and "i < length (sv_slotsBuffer sv)"
  shows "put_slot pilot i sv = Inr (of_nat (fslot sv pilot i), sv\<lparr>sv_slotsBuffer := (sv_slotsBuffer sv)[i := of_nat (fslot sv pilot i)]\<rparr>)"
  using put_slot_ok [OF assms] by (simp add: fslot_def)

lemma taken_word:
  assumes "search_wf sv" and "s < unat (sv_numSlots sv)"
  shows "slotGenIsTaken sv (ucast (of_nat s :: u16)) = Inr (taken sv s)" and "unat (ucast (of_nat s :: u16) :: u32) = s"
proof -
  have s: "s < 65536"
    using assms by (auto simp: search_wf_def)
  then show u: "unat (ucast (of_nat s :: u16) :: u32) = s"
    by (simp add: unat_ucast_lt)
  have "unat (ucast (of_nat s :: u16) :: u32) < length (sv_slotGen sv)"
    unfolding u using assms by (auto simp: search_wf_def)
  from slotGenIsTaken_ok [OF this] show "slotGenIsTaken sv (ucast (of_nat s :: u16)) = Inr (taken sv s)"
    by (simp only: u)
qed

text \<open>A run over the positions \<open>i..<j\<close> writes their slots unless it meets a taken one.\<close>

definition scanned :: "solver \<Rightarrow> u8 \<Rightarrow> nat \<Rightarrow> nat \<Rightarrow> (bool \<times> solver) res \<Rightarrow> bool" where
  "scanned sv pilot i j r \<longleftrightarrow> (\<exists>buf. r = Inr (\<exists>l\<in>{i..<j}. taken sv (fslot sv pilot l), sv\<lparr>sv_slotsBuffer := buf\<rparr>) \<and>
    length buf = length (sv_slotsBuffer sv) \<and> (\<forall>l<i. buf ! l = sv_slotsBuffer sv ! l) \<and>
    ((\<forall>l\<in>{i..<j}. \<not> taken sv (fslot sv pilot l)) \<longrightarrow> (\<forall>l\<in>{i..<j}. buf ! l = of_nat (fslot sv pilot l))))"

lemma scanned_empty: "scanned sv pilot i i (Inr (False, sv))"
  by (auto simp: scanned_def intro!: exI [of _ "sv_slotsBuffer sv"])

lemma scanned_step:
  assumes rest: "scanned (sv\<lparr>sv_slotsBuffer := buf\<rparr>) pilot i' j r" and i': "i \<le> i'" "i' \<le> j"
    and buf: "length buf = length (sv_slotsBuffer sv)" "\<And>l. l < i \<Longrightarrow> buf ! l = sv_slotsBuffer sv ! l"
      "\<And>l. l \<in> {i..<i'} \<Longrightarrow> buf ! l = of_nat (fslot sv pilot l) \<and> \<not> taken sv (fslot sv pilot l)"
  shows "scanned sv pilot i j r"
proof -
  have split: "{i..<j} = {i..<i'} \<union> {i'..<j}"
    using i' by auto
  have eq: "(\<exists>l\<in>{i..<j}. taken sv (fslot sv pilot l)) = (\<exists>l\<in>{i'..<j}. taken sv (fslot sv pilot l))"
    unfolding split using buf(3) by blast
  obtain buf' where r: "r = Inr (\<exists>l\<in>{i'..<j}. taken sv (fslot sv pilot l), sv\<lparr>sv_slotsBuffer := buf'\<rparr>)"
    "length buf' = length buf" "\<forall>l<i'. buf' ! l = buf ! l"
    "(\<forall>l\<in>{i'..<j}. \<not> taken sv (fslot sv pilot l)) \<longrightarrow> (\<forall>l\<in>{i'..<j}. buf' ! l = of_nat (fslot sv pilot l))"
    using rest by (auto simp: scanned_def)
  have "\<forall>l<i. buf' ! l = sv_slotsBuffer sv ! l"
    using r(3) buf(2) i'(1) by simp
  moreover have "(\<forall>l\<in>{i..<j}. \<not> taken sv (fslot sv pilot l)) \<longrightarrow> (\<forall>l\<in>{i..<j}. buf' ! l = of_nat (fslot sv pilot l))"
    unfolding split using r(3,4) buf(3) by auto
  ultimately show ?thesis
    unfolding scanned_def eq using r(1,2) buf(1) by auto
qed

lemma single_loop_ok:
  assumes "search_wf sv" and "i + k \<le> length (sv_foldedBuffer sv)" and "i + k \<le> length (sv_slotsBuffer sv)"
  shows "scanned sv pilot i (i + k) (single_loop pilot i k sv)"
  using assms
proof (induction k arbitrary: i sv)
  case (Suc k)
  let ?buf = "(sv_slotsBuffer sv)[i := of_nat (fslot sv pilot i)]"
  have t: "slotGenIsTaken (sv\<lparr>sv_slotsBuffer := ?buf\<rparr>) (ucast (of_nat (fslot sv pilot i) :: u16)) = Inr (taken sv (fslot sv pilot i))"
    using taken_word(1) [of "sv\<lparr>sv_slotsBuffer := ?buf\<rparr>"] Suc.prems(1) fslot_less by simp
  have run: "single_loop pilot i (Suc k) sv =
      (if taken sv (fslot sv pilot i) then Inr (True, sv\<lparr>sv_slotsBuffer := ?buf\<rparr>) else single_loop pilot (i + 1) k (sv\<lparr>sv_slotsBuffer := ?buf\<rparr>))"
    using Suc.prems put_slot_eq [of i sv pilot] t by simp
  show ?case
  proof (cases "taken sv (fslot sv pilot i)")
    case True
    then have "(\<exists>l\<in>{i..<i + Suc k}. taken sv (fslot sv pilot l)) = True"
      by force
    then show ?thesis
      unfolding run scanned_def using True by auto
  next
    case False
    have "scanned (sv\<lparr>sv_slotsBuffer := ?buf\<rparr>) pilot (i + 1) (i + 1 + k) (single_loop pilot (i + 1) k (sv\<lparr>sv_slotsBuffer := ?buf\<rparr>))"
      using Suc.prems by (intro Suc.IH) simp_all
    then have "scanned sv pilot i (i + 1 + k) (single_loop pilot (i + 1) k (sv\<lparr>sv_slotsBuffer := ?buf\<rparr>))"
      by (rule scanned_step) (use False Suc.prems(3) in \<open>auto simp: nth_list_update\<close>)
    then show ?thesis
      unfolding run using False by simp
  qed
qed (simp add: scanned_empty)


lemma chunk_loop_ok:
  assumes "search_wf sv" and "i + 4 * k \<le> length (sv_foldedBuffer sv)" and "i + 4 * k \<le> length (sv_slotsBuffer sv)"
  shows "scanned sv pilot i (i + 4 * k) (chunk_loop pilot i k sv)"
  using assms
proof (induction k arbitrary: i sv)
  case (Suc k)
  let ?f = "\<lambda>l. of_nat (fslot sv pilot l) :: u16"
  let ?buf = "(sv_slotsBuffer sv)[i := ?f i, i + 1 := ?f (i + 1), i + 2 := ?f (i + 2), i + 3 := ?f (i + 3)]"
  let ?sv = "sv\<lparr>sv_slotsBuffer := ?buf\<rparr>" and ?t = "\<lambda>l. taken sv (fslot sv pilot l)"
  have b: "i < length (sv_slotsBuffer sv)" "i + 1 < length (sv_slotsBuffer sv)" "i + 2 < length (sv_slotsBuffer sv)" "i + 3 < length (sv_slotsBuffer sv)"
    "i < length (sv_foldedBuffer sv)" "i + 1 < length (sv_foldedBuffer sv)" "i + 2 < length (sv_foldedBuffer sv)" "i + 3 < length (sv_foldedBuffer sv)"
    using Suc.prems by simp_all
  have u: "slotGenIsTaken ?sv (ucast (?f l)) = Inr (?t l)" for l
    using taken_word(1) [of ?sv "fslot sv pilot l"] Suc.prems(1) fslot_less [of sv pilot l] by simp
  have run: "chunk_loop pilot i (Suc k) sv = (if ?t i \<or> ?t (i + 1) \<or> ?t (i + 2) \<or> ?t (i + 3) then Inr (True, ?sv) else chunk_loop pilot (i + 4) k ?sv)"
    using b u by (simp add: put_slot_eq del: One_nat_def add_2_eq_Suc')
  have four: "l \<in> {i..<i + 4} \<longleftrightarrow> l = i \<or> l = i + 1 \<or> l = i + 2 \<or> l = i + 3" for l
    by auto
  show ?case
  proof (cases "?t i \<or> ?t (i + 1) \<or> ?t (i + 2) \<or> ?t (i + 3)")
    case True
    then have "\<exists>l\<in>{i..<i + 4}. ?t l"
      using four by blast
    then have "\<exists>l\<in>{i..<i + 4 * Suc k}. ?t l"
      by force
    then show ?thesis
      unfolding run if_P [OF True] scanned_def by (intro exI [of _ ?buf]) auto
  next
    case False
    have "scanned ?sv pilot (i + 4) (i + 4 + 4 * k) (chunk_loop pilot (i + 4) k ?sv)"
      using Suc.prems by (intro Suc.IH) simp_all
    then have "scanned sv pilot i (i + 4 + 4 * k) (chunk_loop pilot (i + 4) k ?sv)"
    proof (rule scanned_step)
      fix l assume "l \<in> {i..<i + 4}"
      then show "?buf ! l = ?f l \<and> \<not> ?t l"
        using False b unfolding four by (auto simp: nth_list_update)
    qed auto
    then show ?thesis
      unfolding run if_not_P [OF False] by (simp add: algebra_simps)
  qed
qed (simp add: scanned_empty)

lemma slots_scan_ok:
  assumes wf: "search_wf sv" and n: "n \<le> length (sv_foldedBuffer sv)" "n \<le> length (sv_slotsBuffer sv)"
  shows "scanned sv pilot 0 n (rbind (chunk_loop pilot 0 (n div 4) sv) (\<lambda>(anyTaken, sv).
    if \<not> anyTaken then single_loop pilot ((n div 4) * 4) (n - (n div 4) * 4) sv else Inr (anyTaken, sv)))" (is "scanned _ _ _ _ ?r")
proof -
  let ?m = "n div 4 * 4"
  have m: "?m \<le> n"
    by (rule div_times_less_eq_dividend)
  have "scanned sv pilot 0 (0 + 4 * (n div 4)) (chunk_loop pilot 0 (n div 4) sv)"
    using n m by (intro chunk_loop_ok [OF wf]) simp_all
  then obtain buf where c: "chunk_loop pilot 0 (n div 4) sv = Inr (\<exists>l\<in>{0..<?m}. taken sv (fslot sv pilot l), sv\<lparr>sv_slotsBuffer := buf\<rparr>)"
    "length buf = length (sv_slotsBuffer sv)"
    "(\<forall>l\<in>{0..<?m}. \<not> taken sv (fslot sv pilot l)) \<longrightarrow> (\<forall>l\<in>{0..<?m}. buf ! l = of_nat (fslot sv pilot l))"
    by (auto simp: scanned_def mult.commute)
  show ?thesis
  proof (cases "\<exists>l\<in>{0..<?m}. taken sv (fslot sv pilot l)")
    case True
    then have "\<exists>l\<in>{0..<n}. taken sv (fslot sv pilot l)"
      using m by force
    then show ?thesis
      unfolding c(1) using True c(2) by (auto simp: scanned_def)
  next
    case False
    have "scanned (sv\<lparr>sv_slotsBuffer := buf\<rparr>) pilot ?m (?m + (n - ?m)) (single_loop pilot ?m (n - ?m) (sv\<lparr>sv_slotsBuffer := buf\<rparr>))"
      using wf n m c(2) by (intro single_loop_ok) simp_all
    then have "scanned sv pilot 0 (?m + (n - ?m)) (single_loop pilot ?m (n - ?m) (sv\<lparr>sv_slotsBuffer := buf\<rparr>))"
      by (rule scanned_step) (use False c(2,3) in auto)
    then show ?thesis
      unfolding c(1) using False m by simp
  qed
qed


text \<open>Marks of a set of slots.\<close>

lemma clear_slots_ok:
  assumes "\<forall>s\<in>set slots. unat s < length g"
  shows "\<exists>g'. clear_slots slots g = Inr g' \<and> length g' = length g \<and>
    (\<forall>j<length g. g' ! j = (if j \<in> unat ` set slots then 0 else g ! j))"
  using assms unfolding clear_slots_def
proof (induction slots arbitrary: g)
  case (Cons s slots)
  then obtain g' where "rfold (\<lambda>slot g. set_at g (unat slot) 0) slots (g[unat s := 0]) = Inr g'" "length g' = length g"
    "\<forall>j<length g. g' ! j = (if j \<in> unat ` set slots then 0 else g[unat s := 0] ! j)"
    using Cons.IH [of "g[unat s := 0]"] by auto
  then show ?case
    using Cons.prems by (auto simp: nth_list_update)
qed simp

lemma dup_loop_ok:
  fixes g g0 :: "u8 list"
  assumes "\<forall>s\<in>set (seen @ rest). unat s < length g0" and "length g = length g0" and "distinct seen"
    and "\<forall>j<length g0. g ! j = (if j \<in> unat ` set seen then lg else g0 ! j)" and "\<forall>v\<in>set g0. v \<noteq> lg"
  shows "\<exists>g'. dup_loop lg seen rest g = Inr (distinct (seen @ rest), g') \<and> length g' = length g0 \<and>
    (\<forall>j<length g0. g' ! j = g0 ! j \<or> g' ! j = 0 \<and> j \<in> unat ` set (seen @ rest))"
  using assms
proof (induction rest arbitrary: seen g)
  case Nil
  then obtain g' where "clear_slots seen g = Inr g'" "length g' = length g" "\<forall>j<length g. g' ! j = (if j \<in> unat ` set seen then 0 else g ! j)"
    using clear_slots_ok [of seen g] by auto
  then show ?case
    using Nil by auto
next
  case (Cons s rest)
  have s: "unat s < length g" and seen: "\<forall>s\<in>set seen. unat s < length g"
    using Cons.prems(1,2) by simp_all
  have hit: "g ! unat s = lg \<longleftrightarrow> s \<in> set seen"
    using Cons.prems(2,4,5) s nth_mem [of "unat s" g0] by (auto simp: image_iff simp flip: word_unat_eq_iff)
  show ?case
  proof (cases "s \<in> set seen")
    case True
    obtain g' where "clear_slots seen g = Inr g'" "length g' = length g" "\<forall>j<length g. g' ! j = (if j \<in> unat ` set seen then 0 else g ! j)"
      using clear_slots_ok [OF seen] by blast
    then show ?thesis
      using True hit s Cons.prems(2,4) by auto
  next
    case False
    have "\<forall>j<length g0. g[unat s := lg] ! j = (if j \<in> unat ` set (seen @ [s]) then lg else g0 ! j)"
      using Cons.prems(2,4) s by (auto simp: nth_list_update)
    then obtain g' where "dup_loop lg (seen @ [s]) rest (g[unat s := lg]) = Inr (distinct ((seen @ [s]) @ rest), g')" "length g' = length g0"
      "\<forall>j<length g0. g' ! j = g0 ! j \<or> g' ! j = 0 \<and> j \<in> unat ` set ((seen @ [s]) @ rest)"
      using Cons.IH [of "seen @ [s]" "g[unat s := lg]"] Cons.prems(1,2,3,5) False by auto
    then show ?thesis
      using False hit s by simp
  qed
qed

lemma hasNoDuplicateSlots_ok:
  assumes wf: "search_wf sv" and s: "\<forall>s\<in>set slots. unat s < unat (sv_numSlots sv) \<and> \<not> taken sv (unat s)"
  shows "\<exists>sv'. hasNoDuplicateSlots slots sv = Inr (distinct slots, sv') \<and> search_rel sv sv' \<and>
    sv_slotsBuffer sv' = sv_slotsBuffer sv \<and> sv_foldedBuffer sv' = sv_foldedBuffer sv"
proof -
  let ?lg = "sv_generation sv + 1"
  have gen: "1 \<le> sv_generation sv" "sv_generation sv < 254" "\<forall>g\<in>set (sv_slotGen sv). g \<le> sv_generation sv"
    and len: "unat (sv_numSlots sv) \<le> length (sv_slotGen sv)"
    using wf by (auto simp: search_wf_def)
  have "unat ?lg = unat (sv_generation sv) + 1"
    using gen(2) by (simp add: unat_word_ariths word_less_nat_alt)
  then have "\<forall>v\<in>set (sv_slotGen sv). v \<noteq> ?lg"
    using gen(3) by (auto simp: word_le_nat_alt)
  moreover have "\<forall>s\<in>set ([] @ slots). unat s < length (sv_slotGen sv)"
    using s len by auto
  ultimately obtain g' where g': "dup_loop ?lg [] slots (sv_slotGen sv) = Inr (distinct slots, g')" "length g' = length (sv_slotGen sv)"
    "\<forall>j<length (sv_slotGen sv). g' ! j = sv_slotGen sv ! j \<or> g' ! j = 0 \<and> j \<in> unat ` set slots"
    using dup_loop_ok [of "[]" slots "sv_slotGen sv" "sv_slotGen sv" ?lg] by auto
  let ?sv = "sv\<lparr>sv_slotGen := g'\<rparr>"
  have nz: "sv_generation sv \<noteq> 0"
    using gen(1) by auto
  have t: "taken ?sv j = taken sv j" if "j < unat (sv_numSlots sv)" for j
  proof -
    have "g' ! j = sv_slotGen sv ! j \<or> g' ! j = 0 \<and> j \<in> unat ` set slots"
      using g'(3) that len by simp
    then show ?thesis
      using nz s by (auto simp: taken_def)
  qed
  have "v \<le> sv_generation sv" if "v \<in> set g'" for v
  proof -
    obtain j where "j < length (sv_slotGen sv)" "v = g' ! j"
      using \<open>v \<in> set g'\<close> g'(2) by (auto simp: in_set_conv_nth)
    then have "v = sv_slotGen sv ! j \<or> v = 0" "sv_slotGen sv ! j \<in> set (sv_slotGen sv)"
      using g'(3) by auto
    then show ?thesis
      using gen(3) by auto
  qed
  then have "search_wf ?sv"
    using wf g'(2) by (simp add: search_wf_def)
  with t g'(2) have "search_rel sv ?sv"
    by (simp add: search_rel_def)
  then show ?thesis
    using g'(1) by (auto simp: hasNoDuplicateSlots_def Let_def)
qed


text \<open>The folded values of the bucket, and one attempt of the search.\<close>

lemma put_folded_ok:
  assumes "length bucket \<le> length (sv_foldedBuffer sv)"
  shows "put_folded bucket sv = Inr (sv\<lparr>sv_foldedBuffer := map entry_fold bucket @ drop (length bucket) (sv_foldedBuffer sv)\<rparr>)"
proof -
  have "rfold (\<lambda>(i, e) buf. set_at buf i (entry_fold e)) (List.enumerate (length pre) es) (pre @ rest) =
      Inr (pre @ map entry_fold es @ drop (length es) rest)" if "length es \<le> length rest" for pre rest es
    using that
  proof (induction es arbitrary: pre rest)
    case (Cons e es)
    then obtain r rest' where rest: "rest = r # rest'"
      by (cases rest) auto
    have "rfold (\<lambda>(i, e) buf. set_at buf i (entry_fold e)) (List.enumerate (Suc (length pre)) es) (pre @ entry_fold e # rest') =
        Inr (pre @ entry_fold e # map entry_fold es @ drop (length es) rest')"
      using Cons.IH [of rest' "pre @ [entry_fold e]"] Cons.prems rest by simp
    then show ?case
      by (simp add: rest)
  qed simp
  from this [of bucket "sv_foldedBuffer sv" "[]"] assms show ?thesis
    by (simp add: put_folded_def)
qed

definition folded_for :: "solver \<Rightarrow> ptrEntry list \<Rightarrow> bool" where
  "folded_for sv bucket \<longleftrightarrow> length bucket \<le> length (sv_foldedBuffer sv) \<and> length bucket \<le> length (sv_slotsBuffer sv) \<and>
    (\<forall>i<length bucket. sv_foldedBuffer sv ! i = entry_fold (bucket ! i))"

lemma fslot_folded: "folded_for sv bucket \<Longrightarrow> i < length bucket \<Longrightarrow> fslot sv p i = slots_at sv p bucket ! i"
  by (simp add: folded_for_def fslot_def slots_at_def slot_of_def)

lemma slice_try_ok:
  assumes wf: "search_wf sv" and f: "folded_for sv bucket"
  shows "\<exists>sv'. slice_try (length bucket) p sv = Inr (free_pilot sv bucket p, sv') \<and> search_rel sv sv' \<and> folded_for sv' bucket \<and>
    (free_pilot sv bucket p \<longrightarrow> take (length bucket) (sv_slotsBuffer sv') = map of_nat (slots_at sv p bucket))"
proof -
  let ?n = "length bucket" and ?S = "slots_at sv p bucket"
  have n: "?n \<le> length (sv_foldedBuffer sv)" "?n \<le> length (sv_slotsBuffer sv)"
    using f by (simp_all add: folded_for_def)
  have ex: "(\<exists>l\<in>{0..<?n}. taken sv (fslot sv p l)) \<longleftrightarrow> (\<exists>s\<in>set ?S. taken sv s)"
  proof -
    have "set ?S = fslot sv p ` {0..<?n}"
      using fslot_folded [OF f] by (force simp: set_conv_nth slots_at_def)
    then show ?thesis by simp
  qed
  obtain buf where scan: "rbind (chunk_loop p 0 (?n div 4) sv) (\<lambda>(anyTaken, sv).
      if \<not> anyTaken then single_loop p ((?n div 4) * 4) (?n - (?n div 4) * 4) sv else Inr (anyTaken, sv)) =
      Inr (\<exists>s\<in>set ?S. taken sv s, sv\<lparr>sv_slotsBuffer := buf\<rparr>)"
    and buf: "length buf = length (sv_slotsBuffer sv)" "(\<forall>s\<in>set ?S. \<not> taken sv s) \<Longrightarrow> \<forall>l<?n. buf ! l = of_nat (fslot sv p l)"
    using slots_scan_ok [OF wf n, of p] ex unfolding scanned_def by auto
  let ?sv = "sv\<lparr>sv_slotsBuffer := buf\<rparr>"
  have rel: "search_rel sv ?sv" and f': "folded_for ?sv bucket"
    using wf buf(1) f by (simp_all add: search_rel_def folded_for_def)
  have split: "slice_try ?n p sv = rbind (rbind (chunk_loop p 0 (?n div 4) sv) (\<lambda>(anyTaken, sv).
      if \<not> anyTaken then single_loop p ((?n div 4) * 4) (?n - (?n div 4) * 4) sv else Inr (anyTaken, sv)))
      (\<lambda>(anyTaken, sv). if anyTaken then Inr (False, sv) else hasNoDuplicateSlots (take ?n (sv_slotsBuffer sv)) sv)"
    unfolding slice_try_def by (simp add: rbind_def split: sum.splits prod.splits)
  show ?thesis
  proof (cases "\<exists>s\<in>set ?S. taken sv s")
    case True
    then show ?thesis
      unfolding split scan rbind_Inr using rel f' by (auto simp: free_pilot_def)
  next
    case False
    have "take ?n buf = map of_nat ?S"
      using buf n(2) False fslot_folded [OF f] by (intro nth_equalityI) (auto simp: slots_at_def)
    have "s < unat (sv_numSlots sv)" "unat (sv_numSlots sv) \<le> 65535" if "s \<in> set ?S" for s
      using that slot_of_less [OF wf] wf by (auto simp: slots_at_def search_wf_def)
    then have small: "s < 65536" "s < unat (sv_numSlots sv)" if "s \<in> set ?S" for s
      using that by fastforce+
    have "\<forall>s\<in>set (map of_nat ?S :: u16 list). unat s < unat (sv_numSlots ?sv) \<and> \<not> taken ?sv (unat s)"
      using small False by auto
    then obtain sv' where d: "hasNoDuplicateSlots (map of_nat ?S) ?sv = Inr (distinct (map of_nat ?S :: u16 list), sv')" "search_rel ?sv sv'"
      "sv_slotsBuffer sv' = buf" "sv_foldedBuffer sv' = sv_foldedBuffer sv"
      using hasNoDuplicateSlots_ok [of ?sv] wf by fastforce
    have "inj_on (of_nat :: nat \<Rightarrow> u16) (set ?S)"
      by (rule inj_on_inverseI [where g = unat]) (use small in simp)
    then have "distinct (map of_nat ?S :: u16 list) = distinct ?S"
      by (simp add: distinct_map)
    then have "distinct (map of_nat ?S :: u16 list) = free_pilot sv bucket p"
      using False by (auto simp: free_pilot_def)
    moreover have "folded_for sv' bucket"
      using f d(3,4) buf(1) by (simp add: folded_for_def)
    ultimately show ?thesis
      unfolding split scan rbind_Inr using d(1,2,3) search_rel_trans [OF rel d(2)] False \<open>take ?n buf = map of_nat ?S\<close> by auto
  qed
qed

lemma search_rel_wf: "search_rel sv sv' \<Longrightarrow> search_wf sv'"
  by (simp add: search_rel_def)

lemma slice_pilots_ok:
  assumes "search_wf sv" and "folded_for sv bucket"
  shows "\<exists>sv'. search_rel sv sv' \<and> (case first_upto (\<lambda>p. free_pilot sv bucket (of_nat p)) i m of
       None \<Rightarrow> slice_pilots (length bucket) [i..<m] sv = Inr (0, False, sv')
     | Some p \<Rightarrow> slice_pilots (length bucket) [i..<m] sv = Inr (of_nat p, True, sv') \<and>
         take (length bucket) (sv_slotsBuffer sv') = map of_nat (slots_at sv (of_nat p) bucket))"
  using assms
proof (induction "m - i" arbitrary: i sv)
  case 0
  then show ?case
    using search_rel_refl by (auto simp: first_upto.simps)
next
  case (Suc d)
  then have im: "i < m" and up: "[i..<m] = i # [Suc i..<m]"
    by (simp_all add: upt_conv_Cons)
  obtain sv1 where t: "slice_try (length bucket) (of_nat i) sv = Inr (free_pilot sv bucket (of_nat i), sv1)" "search_rel sv sv1" "folded_for sv1 bucket"
    "free_pilot sv bucket (of_nat i) \<longrightarrow> take (length bucket) (sv_slotsBuffer sv1) = map of_nat (slots_at sv (of_nat i) bucket)"
    using slice_try_ok [OF Suc.prems] by blast
  show ?case
  proof (cases "free_pilot sv bucket (of_nat i)")
    case True
    then show ?thesis
      using t im up by (intro exI [of _ sv1]) simp
  next
    case False
    have eq: "free_pilot sv1 bucket = free_pilot sv bucket" "slots_at sv1 = slots_at sv"
      using search_rel_free [OF Suc.prems(1) t(2)] core_slot_of(3) [of sv1 sv] t(2) by (auto simp: search_rel_def fun_eq_iff)
    have "d = m - Suc i"
      using Suc.hyps(2) by simp
    from Suc.hyps(1) [OF this search_rel_wf [OF t(2)] t(3)] obtain sv' where "search_rel sv1 sv'"
      and r: "case first_upto (\<lambda>p. free_pilot sv bucket (of_nat p)) (Suc i) m of
         None \<Rightarrow> slice_pilots (length bucket) [Suc i..<m] sv1 = Inr (0, False, sv')
       | Some p \<Rightarrow> slice_pilots (length bucket) [Suc i..<m] sv1 = Inr (of_nat p, True, sv') \<and>
           take (length bucket) (sv_slotsBuffer sv') = map of_nat (slots_at sv (of_nat p) bucket)"
      unfolding eq by blast
    have "first_upto (\<lambda>p. free_pilot sv bucket (of_nat p)) i m = first_upto (\<lambda>p. free_pilot sv bucket (of_nat p)) (Suc i) m"
      using im False by (simp add: first_upto.simps [of _ i])
    moreover have "slice_pilots (length bucket) [i..<m] sv = slice_pilots (length bucket) [Suc i..<m] sv1"
      using up t(1) False by simp
    ultimately show ?thesis
      using r search_rel_trans [OF t(2) \<open>search_rel sv1 sv'\<close>] by (intro exI [of _ sv']) (simp split: option.splits)
  qed
qed


lemma findFreePilotSlice_ok:
  assumes wf: "search_wf sv" and n: "length bucket \<le> length (sv_slotsBuffer sv)" "length bucket \<le> length (sv_foldedBuffer sv)"
  shows "search_result sv bucket (findFreePilotSlice bucket sv)"
proof -
  let ?sv = "sv\<lparr>sv_foldedBuffer := map entry_fold bucket @ drop (length bucket) (sv_foldedBuffer sv)\<rparr>"
  have g0: "get_at (sv_slotGen sv) 0 = Inr (sv_slotGen sv ! 0)"
    using wf by (intro get_at_ok) (auto simp: search_wf_def)
  have rel: "search_rel sv ?sv"
    using wf n by (simp add: search_rel_def search_wf_def taken_def)
  have "folded_for ?sv bucket"
    using n by (simp add: folded_for_def nth_append)
  note sp = slice_pilots_ok [OF search_rel_wf [OF rel] this, of 0 numPilotValues]
  have eq: "free_pilot ?sv bucket = free_pilot sv bucket" "slots_at ?sv = slots_at sv"
    using search_rel_free [OF wf rel] core_slot_of(3) [of ?sv sv] by (auto simp: fun_eq_iff)
  obtain sv' where "search_rel ?sv sv'" and r: "case least_free_pilot sv bucket of
       None \<Rightarrow> slice_pilots (length bucket) [0..<numPilotValues] ?sv = Inr (0, False, sv')
     | Some p \<Rightarrow> slice_pilots (length bucket) [0..<numPilotValues] ?sv = Inr (of_nat p, True, sv') \<and>
         take (length bucket) (sv_slotsBuffer sv') = map of_nat (slots_at sv (of_nat p) bucket)"
    using sp unfolding eq least_free_pilot_def by blast
  moreover have "findFreePilotSlice bucket sv = slice_pilots (length bucket) [0..<numPilotValues] ?sv"
    using n put_folded_ok [OF n(2)] by (simp add: findFreePilotSlice_def g0 Let_def)
  ultimately show ?thesis
    unfolding search_result_def using search_rel_trans [OF rel] by (intro exI [of _ sv']) (simp split: option.splits)
qed

text \<open>Every search returns the least free pilot, if there is one, with the slots of that pilot.\<close>

theorem findFreePilot_ok:
  assumes "search_wf sv" and "length bucket \<le> length (sv_slotsBuffer sv)" and "length bucket \<le> length (sv_foldedBuffer sv)"
  shows "search_result sv bucket (findFreePilot bucket (length bucket) sv)"
proof -
  consider "length bucket = 1" | "length bucket = 2" | "length bucket = 3" | "length bucket = 4" | "length bucket = 5"
    | "length bucket = 6" | "length bucket = 7" | "length bucket = 8" | "length bucket \<notin> {1, 2, 3, 4, 5, 6, 7, 8}"
    by auto
  then show ?thesis
    using assms findFreePilot1_ok [OF assms(1)] findFreePilot2_ok [OF assms(1)] findFreePilot3_ok [OF assms(1)] findFreePilot4_ok [OF assms(1)]
      findFreePilot5_ok [OF assms(1)] findFreePilot6_ok [OF assms(1)] findFreePilot7_ok [OF assms(1)] findFreePilot8_ok [OF assms(1)]
      findFreePilotSlice_ok [OF assms]
    by cases (simp_all add: findFreePilot_def)
qed

end
