(* ===== verification/Ptr_Solve_Correct.thy ===== *)
theory Ptr_Solve_Correct
  imports Ptr_Search_Correct
begin

text \<open>
  The invariant of the PTRHash solver: every bucket that is marked processed owns exactly the slots its
  pilot gives, and every taken slot belongs to a processed bucket. Placing, evicting and processing a
  bucket keep it, no access is out of range, and the heap keeps track of the evicted buckets.
\<close>

section \<open>Geometry\<close>

definition geometry :: "solver \<Rightarrow> bool" where
  "geometry sv \<longleftrightarrow> sv_numBuckets sv = length (sv_buckets sv) \<and> sv_numBuckets sv \<le> 32767 \<and>
    unat (sv_numSlots sv) \<le> length (sv_slotOwner sv) \<and> sv_numBuckets sv \<le> length (sv_processedGen sv) \<and>
    length (sv_pilots sv) = sv_numBuckets sv \<and> sv_numBuckets sv \<le> 64 * length (sv_pinnedBits sv) \<and>
    length (sv_pinned sv) = 16 \<and> sv_pinnedIdx sv < 16 \<and>
    (\<forall>p\<in>set (sv_pinned sv). p = - 1 \<or> unat p < sv_numBuckets sv) \<and> (\<forall>g\<in>set (sv_processedGen sv). g \<le> sv_generation sv) \<and>
    (\<forall>b\<in>set (sv_buckets sv). length b \<le> length (sv_slotsBuffer sv) \<and> length b \<le> length (sv_foldedBuffer sv) \<and> length b < 65536)"

definition bucket_slots :: "solver \<Rightarrow> nat \<Rightarrow> nat list" where
  "bucket_slots sv i = slots_at sv (sv_pilots sv ! i) (sv_buckets sv ! i)"

definition processed :: "solver \<Rightarrow> nat \<Rightarrow> bool" where
  "processed sv i \<longleftrightarrow> sv_processedGen sv ! i = sv_generation sv"

definition owner :: "solver \<Rightarrow> nat \<Rightarrow> nat" where
  "owner sv s = unat (sv_slotOwner sv ! s)"

definition placed :: "solver \<Rightarrow> bool" where
  "placed sv \<longleftrightarrow>
    (\<forall>i < sv_numBuckets sv. processed sv i \<longrightarrow> distinct (bucket_slots sv i) \<and> (\<forall>s\<in>set (bucket_slots sv i). taken sv s \<and> owner sv s = i)) \<and>
    (\<forall>s<unat (sv_numSlots sv). taken sv s \<longrightarrow> owner sv s < sv_numBuckets sv \<and> processed sv (owner sv s) \<and> s \<in> set (bucket_slots sv (owner sv s)))"

definition heap_of_buckets :: "solver \<Rightarrow> bool" where
  "heap_of_buckets sv \<longleftrightarrow> heap_ok (sv_pendingHeap sv) \<and> (\<forall>(i, z)\<in>#heap_contents (sv_pendingHeap sv). i < sv_numBuckets sv)"

definition solving :: "solver \<Rightarrow> bool" where
  "solving sv \<longleftrightarrow> search_wf sv \<and> geometry sv \<and> placed sv \<and> heap_of_buckets sv"

text \<open>The buckets waiting in the heap, and the part of the state that solving never changes.\<close>

definition waiting :: "solver \<Rightarrow> nat set" where
  "waiting sv = fst ` set_mset (heap_contents (sv_pendingHeap sv))"

definition problem_of :: "solver \<Rightarrow> (nat \<times> u32 \<times> nat \<times> u64 \<times> u64 list \<times> ptrEntry list list \<times> u16 list \<times> u8) \<times> nat \<times> u32 \<times> nat list" where
  "problem_of sv = ((sv_numBuckets sv, sv_numSlots sv, sv_numKeys sv, sv_globalSeed sv, sv_pilotHPs sv, sv_buckets sv, sv_bucketOrder sv, sv_generation sv),
    sv_maxNumBuckets sv, sv_maxNumSlots sv,
    [length (sv_slotOwner sv), length (sv_slotGen sv), length (sv_processedGen sv), length (sv_pilots sv), length (sv_pinnedBits sv), length (sv_pinned sv),
     length (sv_slotsBuffer sv), length (sv_foldedBuffer sv), length (sv_phase2SlotGen sv), length (sv_bucketStarts sv), length (sv_sortCounts sv), length (sv_sortPositions sv)])"

lemma problem_slots: "problem_of sv' = problem_of sv \<Longrightarrow> slot_of sv' = slot_of sv \<and> slots_at sv' = slots_at sv"
  by (simp add: problem_of_def slot_of_def slots_at_def pilotHP_def fun_eq_iff)

lemma solving_bucket_less: "search_wf sv \<Longrightarrow> s \<in> set (slots_at sv p b) \<Longrightarrow> s < unat (sv_numSlots sv)"
  using slot_of_less by (auto simp: slots_at_def)

lemma search_rel_solving:
  assumes "solving sv" and "search_rel sv sv'"
  shows "solving sv'" "problem_of sv' = problem_of sv" "processed sv' = processed sv" "waiting sv' = waiting sv" "sv_evictions sv' = sv_evictions sv"
proof -
  note c = core_fields [of sv' sv]
  have core: "search_core sv' = search_core sv" and t: "\<And>s. s < unat (sv_numSlots sv) \<Longrightarrow> taken sv' s = taken sv s"
    and len: "length (sv_slotsBuffer sv') = length (sv_slotsBuffer sv)" "length (sv_foldedBuffer sv') = length (sv_foldedBuffer sv)"
      "length (sv_slotGen sv') = length (sv_slotGen sv)" "length (sv_phase2SlotGen sv') = length (sv_phase2SlotGen sv)" and wf': "search_wf sv'"
    using assms(2) by (auto simp: search_rel_def)
  note c = core_fields [OF core]
  show pr: "processed sv' = processed sv" and "waiting sv' = waiting sv" "sv_evictions sv' = sv_evictions sv" "problem_of sv' = problem_of sv"
    by (simp_all add: c len processed_def fun_eq_iff waiting_def problem_of_def)
  have bs: "bucket_slots sv' = bucket_slots sv" "owner sv' = owner sv"
    using core_slot_of(3) [OF core] by (simp_all add: bucket_slots_def owner_def fun_eq_iff c)
  have wf: "search_wf sv"
    using assms(1) by (simp add: solving_def)
  have "s < unat (sv_numSlots sv)" if "s \<in> set (bucket_slots sv i)" for s i
    using solving_bucket_less [OF wf] that by (simp add: bucket_slots_def)
  then have "placed sv'"
    using assms(1) t unfolding solving_def placed_def pr bs c by simp
  moreover have "geometry sv'" "heap_of_buckets sv'"
    using assms(1) unfolding solving_def geometry_def heap_of_buckets_def c len by blast+
  ultimately show "solving sv'"
    using wf' by (simp add: solving_def)
qed

section \<open>Placing a bucket\<close>

lemma mark_loop_ok:
  fixes own :: "u16 list" and g :: "u8 list"
  assumes "\<forall>s\<in>set slots. unat s < length own \<and> unat s < length g"
  shows "\<exists>own' g'. rfold (\<lambda>slot (own, g). rbind (set_at own (unat slot) v) (\<lambda>own. rbind (set_at g (unat slot) w) (\<lambda>g. Inr (own, g)))) slots (own, g) = Inr (own', g') \<and>
    length own' = length own \<and> length g' = length g \<and> (\<forall>j<length own. own' ! j = (if j \<in> unat ` set slots then v else own ! j)) \<and>
    (\<forall>j<length g. g' ! j = (if j \<in> unat ` set slots then w else g ! j))"
  using assms
proof (induction slots arbitrary: own g)
  case (Cons s slots)
  let ?own = "own[unat s := v]" and ?g = "g[unat s := w]"
  obtain own' g' where "rfold (\<lambda>slot (own, g). rbind (set_at own (unat slot) v) (\<lambda>own. rbind (set_at g (unat slot) w) (\<lambda>g. Inr (own, g)))) slots (?own, ?g) = Inr (own', g')"
    "length own' = length own" "length g' = length g" "\<forall>j<length own. own' ! j = (if j \<in> unat ` set slots then v else ?own ! j)"
    "\<forall>j<length g. g' ! j = (if j \<in> unat ` set slots then w else ?g ! j)"
    using Cons.IH [of ?own ?g] Cons.prems by auto
  then show ?case
    using Cons.prems by (auto simp: nth_list_update)
qed simp


lemma placed_after_place:
  assumes pl: "placed sv" and wf: "search_wf sv" and i: "i < sv_numBuckets sv" "\<not> processed sv i" "length (sv_pilots sv) = sv_numBuckets sv"
    and S: "S = slots_at sv p (sv_buckets sv ! i)" "distinct S" "\<forall>s\<in>set S. \<not> taken sv s"
    and P: "problem_of sv' = problem_of sv" "sv_pilots sv' = (sv_pilots sv)[i := p]"
    and own: "\<And>s. s < unat (sv_numSlots sv) \<Longrightarrow> owner sv' s = (if s \<in> set S then i else owner sv s)"
    and tk: "\<And>s. s < unat (sv_numSlots sv) \<Longrightarrow> taken sv' s \<longleftrightarrow> s \<in> set S \<or> taken sv s"
    and pr: "\<And>j. j < sv_numBuckets sv \<Longrightarrow> processed sv' j \<longleftrightarrow> j = i \<or> processed sv j"
  shows "placed sv'"
proof -
  have eq: "sv_numBuckets sv' = sv_numBuckets sv" "sv_numSlots sv' = sv_numSlots sv" "sv_buckets sv' = sv_buckets sv"
    using P(1) by (simp_all add: problem_of_def)
  have bs: "bucket_slots sv' j = (if j = i then S else bucket_slots sv j)" for j
    using problem_slots [OF P(1)] i P(2) S(1) by (simp add: bucket_slots_def eq nth_list_update)
  have lt: "s < unat (sv_numSlots sv)" if "s \<in> set S \<or> s \<in> set (bucket_slots sv j)" for s j
    using that solving_bucket_less [OF wf] S(1) by (auto simp: bucket_slots_def)
  have A: "distinct (bucket_slots sv' j) \<and> (\<forall>s\<in>set (bucket_slots sv' j). taken sv' s \<and> owner sv' s = j)"
    if j: "j < sv_numBuckets sv" "processed sv' j" for j
  proof (cases "j = i")
    case True
    then show ?thesis
      using S(2) own tk lt bs by simp
  next
    case False
    then have "distinct (bucket_slots sv j)" "\<forall>s\<in>set (bucket_slots sv j). taken sv s \<and> owner sv s = j"
      using pl j pr [OF j(1)] by (auto simp: placed_def)
    moreover have "s \<notin> set S" if "s \<in> set (bucket_slots sv j)" for s
      using S(3) calculation(2) that by blast
    ultimately show ?thesis
      using False own tk lt by (simp add: bs)
  qed
  have B: "owner sv' s < sv_numBuckets sv \<and> processed sv' (owner sv' s) \<and> s \<in> set (bucket_slots sv' (owner sv' s))"
    if s: "s < unat (sv_numSlots sv)" "taken sv' s" for s
  proof (cases "s \<in> set S")
    case True
    then show ?thesis
      using own [OF s(1)] i(1) pr bs by simp
  next
    case False
    then have "owner sv s < sv_numBuckets sv" "processed sv (owner sv s)" "s \<in> set (bucket_slots sv (owner sv s))"
      using pl s tk [OF s(1)] by (auto simp: placed_def)
    moreover have "owner sv s \<noteq> i"
      using calculation(2) i(2) by auto
    ultimately show ?thesis
      using own [OF s(1)] False pr bs by simp
  qed
  show ?thesis
    unfolding placed_def eq using A B by blast
qed

lemma placed_after_evict:
  assumes pl: "placed sv" and wf: "search_wf sv"
    and P: "problem_of sv' = problem_of sv" "sv_pilots sv' = sv_pilots sv" "sv_slotOwner sv' = sv_slotOwner sv"
    and tk: "\<And>s. s < unat (sv_numSlots sv) \<Longrightarrow> taken sv' s \<longleftrightarrow> taken sv s \<and> owner sv s \<noteq> i"
    and pr: "\<And>j. j < sv_numBuckets sv \<Longrightarrow> processed sv' j \<longleftrightarrow> processed sv j \<and> j \<noteq> i"
  shows "placed sv'"
proof -
  have eq: "sv_numBuckets sv' = sv_numBuckets sv" "sv_numSlots sv' = sv_numSlots sv" "sv_buckets sv' = sv_buckets sv"
    using P(1) by (simp_all add: problem_of_def)
  have bs: "bucket_slots sv' = bucket_slots sv" "owner sv' = owner sv"
    using problem_slots [OF P(1)] P(2,3) by (simp_all add: bucket_slots_def owner_def eq fun_eq_iff)
  have lt: "s < unat (sv_numSlots sv)" if "s \<in> set (bucket_slots sv j)" for s j
    using that solving_bucket_less [OF wf] by (auto simp: bucket_slots_def)
  have A: "distinct (bucket_slots sv j) \<and> (\<forall>s\<in>set (bucket_slots sv j). taken sv' s \<and> owner sv s = j)"
    if "j < sv_numBuckets sv" "processed sv' j" for j
    using pl that pr [OF that(1)] lt tk by (simp add: placed_def)
  have B: "owner sv s < sv_numBuckets sv \<and> processed sv' (owner sv s) \<and> s \<in> set (bucket_slots sv (owner sv s))"
    if "s < unat (sv_numSlots sv)" "taken sv' s" for s
    using pl that tk [OF that(1)] pr by (simp add: placed_def)
  show ?thesis
    unfolding placed_def eq bs using A B by blast
qed

text \<open>The fields of the state that the geometry looks at.\<close>

lemma geometry_cong:
  assumes "geometry sv" and "problem_of sv' = problem_of sv" and "sv_pinnedIdx sv' < 16"
    and "\<forall>p\<in>set (sv_pinned sv'). p = - 1 \<or> unat p < sv_numBuckets sv" and "\<forall>g\<in>set (sv_processedGen sv'). g \<le> sv_generation sv"
  shows "geometry sv'"
proof -
  have eq: "sv_numBuckets sv' = sv_numBuckets sv" "sv_numSlots sv' = sv_numSlots sv" "sv_buckets sv' = sv_buckets sv" "sv_generation sv' = sv_generation sv"
    "length (sv_slotOwner sv') = length (sv_slotOwner sv)" "length (sv_processedGen sv') = length (sv_processedGen sv)"
    "length (sv_pilots sv') = length (sv_pilots sv)" "length (sv_pinnedBits sv') = length (sv_pinnedBits sv)" "length (sv_pinned sv') = length (sv_pinned sv)"
    "length (sv_slotsBuffer sv') = length (sv_slotsBuffer sv)" "length (sv_foldedBuffer sv') = length (sv_foldedBuffer sv)"
    using assms(2) by (simp_all add: problem_of_def)
  show ?thesis
    using assms(1,3-) unfolding geometry_def eq by blast
qed

lemma search_wf_cong:
  assumes "search_wf sv" and "problem_of sv' = problem_of sv" and "\<forall>g\<in>set (sv_slotGen sv'). g \<le> sv_generation sv"
  shows "search_wf sv'"
proof -
  have eq: "sv_numSlots sv' = sv_numSlots sv" "sv_generation sv' = sv_generation sv" "length (sv_slotGen sv') = length (sv_slotGen sv)"
    "length (sv_phase2SlotGen sv') = length (sv_phase2SlotGen sv)"
    using assms(2) by (simp_all add: problem_of_def)
  show ?thesis
    using assms(1,3) unfolding search_wf_def eq by blast
qed

lemma list_marks:
  assumes "length (g' :: 'a list) = length g" and "\<forall>j<length g. g' ! j = g ! j \<or> g' ! j = v"
  shows "set g' \<subseteq> insert v (set g)"
  using assms by (force simp: in_set_conv_nth subset_iff)


lemma setProcessed_ok: "i < length (sv_processedGen sv) \<Longrightarrow> setProcessed i sv = Inr (sv\<lparr>sv_processedGen := (sv_processedGen sv)[i := sv_generation sv]\<rparr>)"
  by (simp add: setProcessed_def)

text \<open>The state after placing a bucket: pilots, owners and marks.\<close>

lemma placeBucket_ok:
  assumes sol: "solving sv" and i: "i < sv_numBuckets sv"
  shows "\<exists>own g. placeBucket i p (map of_nat (slots_at sv p (sv_buckets sv ! i))) sv =
      Inr (sv\<lparr>sv_pilots := (sv_pilots sv)[i := p], sv_slotOwner := own, sv_slotGen := g\<rparr>) \<and>
    length own = length (sv_slotOwner sv) \<and> length g = length (sv_slotGen sv) \<and>
    (\<forall>s<unat (sv_numSlots sv). own ! s = (if s \<in> set (slots_at sv p (sv_buckets sv ! i)) then of_nat i else sv_slotOwner sv ! s)) \<and>
    (\<forall>s<unat (sv_numSlots sv). g ! s = (if s \<in> set (slots_at sv p (sv_buckets sv ! i)) then sv_generation sv else sv_slotGen sv ! s)) \<and>
    set g \<subseteq> insert (sv_generation sv) (set (sv_slotGen sv))"
proof -
  let ?S = "slots_at sv p (sv_buckets sv ! i)" and ?W = "map of_nat (slots_at sv p (sv_buckets sv ! i)) :: u16 list"
  have wf: "search_wf sv" and geo: "geometry sv"
    using sol by (auto simp: solving_def)
  have ns: "unat (sv_numSlots sv) \<le> 65535" "unat (sv_numSlots sv) \<le> length (sv_slotGen sv)" "unat (sv_numSlots sv) \<le> length (sv_slotOwner sv)"
    using wf geo by (simp_all add: search_wf_def geometry_def)
  have lt: "s < unat (sv_numSlots sv)" if "s \<in> set ?S" for s
    using solving_bucket_less [OF wf that] .
  have img: "unat ` set ?W = set ?S"
  proof -
    have "unat (of_nat s :: u16) = s" if "s \<in> set ?S" for s
      using lt [OF that] ns(1) by simp
    then show ?thesis
      by (simp add: image_image)
  qed
  have "\<forall>s\<in>set ?W. unat s < length (sv_slotOwner sv) \<and> unat s < length (sv_slotGen sv)"
  proof
    fix s assume "s \<in> set ?W"
    then have "unat s \<in> set ?S"
      using img by blast
    then show "unat s < length (sv_slotOwner sv) \<and> unat s < length (sv_slotGen sv)"
      using lt ns by fastforce
  qed
  from mark_loop_ok [OF this, of "of_nat i" "sv_generation sv"] obtain own g where
    run: "rfold (\<lambda>slot (own, g). rbind (set_at own (unat slot) (of_nat i)) (\<lambda>own. rbind (set_at g (unat slot) (sv_generation sv)) (\<lambda>g. Inr (own, g)))) ?W (sv_slotOwner sv, sv_slotGen sv) = Inr (own, g)"
    and len: "length own = length (sv_slotOwner sv)" "length g = length (sv_slotGen sv)"
    and own: "\<forall>j<length (sv_slotOwner sv). own ! j = (if j \<in> set ?S then of_nat i else sv_slotOwner sv ! j)"
    and g: "\<forall>j<length (sv_slotGen sv). g ! j = (if j \<in> set ?S then sv_generation sv else sv_slotGen sv ! j)"
    unfolding img by blast
  have "set g \<subseteq> insert (sv_generation sv) (set (sv_slotGen sv))"
    using g by (intro list_marks [OF len(2)]) auto
  moreover have "i < length (sv_pilots sv)"
    using geo i by (simp add: geometry_def)
  ultimately show ?thesis
    using run len own g ns unfolding placeBucket_def by (intro exI [of _ own] exI [of _ g]) simp
qed

text \<open>Placing a free bucket and marking it processed.\<close>

definition same_work :: "solver \<Rightarrow> solver \<Rightarrow> bool" where
  "same_work sv sv' \<longleftrightarrow> problem_of sv' = problem_of sv \<and> sv_pendingHeap sv' = sv_pendingHeap sv \<and> sv_evictions sv' = sv_evictions sv"

lemma solving_place:
  assumes sol: "solving sv" and i: "i < sv_numBuckets sv" "\<not> processed sv i"
    and free: "free_pilot sv (sv_buckets sv ! i) p"
    and own: "length own = length (sv_slotOwner sv)"
      "\<forall>s<unat (sv_numSlots sv). own ! s = (if s \<in> set (slots_at sv p (sv_buckets sv ! i)) then of_nat i else sv_slotOwner sv ! s)"
    and g: "length g = length (sv_slotGen sv)" "set g \<subseteq> insert (sv_generation sv) (set (sv_slotGen sv))"
      "\<forall>s<unat (sv_numSlots sv). g ! s = (if s \<in> set (slots_at sv p (sv_buckets sv ! i)) then sv_generation sv else sv_slotGen sv ! s)"
    and pins: "length pinned = 16" "\<forall>q\<in>set pinned. q = - 1 \<or> unat q < sv_numBuckets sv" "length bits = length (sv_pinnedBits sv)" "idx < 16"
    and sv': "sv' = sv\<lparr>sv_pilots := (sv_pilots sv)[i := p], sv_slotOwner := own, sv_slotGen := g, sv_pinned := pinned, sv_pinnedBits := bits,
      sv_pinnedIdx := idx, sv_processedGen := (sv_processedGen sv)[i := sv_generation sv]\<rparr>"
  shows "solving sv' \<and> same_work sv sv' \<and> (\<forall>j < sv_numBuckets sv. processed sv' j \<longleftrightarrow> j = i \<or> processed sv j)"
proof -
  have wf: "search_wf sv" and geo: "geometry sv" and pl: "placed sv" and hp: "heap_of_buckets sv"
    using sol by (auto simp: solving_def)
  have nb: "length (sv_pilots sv) = sv_numBuckets sv" "sv_numBuckets sv \<le> length (sv_processedGen sv)" "sv_numBuckets sv \<le> 32767" "length (sv_pinned sv) = 16"
    using geo by (simp_all add: geometry_def)
  have P: "problem_of sv' = problem_of sv" "sv_pilots sv' = (sv_pilots sv)[i := p]"
    using own(1) g(1) pins nb(4) by (simp_all add: sv' problem_of_def)
  have pr: "processed sv' j \<longleftrightarrow> j = i \<or> processed sv j" if "j < sv_numBuckets sv" for j
    using that nb(2) i(1) by (cases "j = i") (simp_all add: processed_def sv')
  have "placed sv'"
  proof (rule placed_after_place [OF pl wf i nb(1) refl _ _ P _ _ pr])
    show "distinct (slots_at sv p (sv_buckets sv ! i))" "\<forall>s\<in>set (slots_at sv p (sv_buckets sv ! i)). \<not> taken sv s"
      using free by (simp_all add: free_pilot_def)
    show "owner sv' s = (if s \<in> set (slots_at sv p (sv_buckets sv ! i)) then i else owner sv s)" if "s < unat (sv_numSlots sv)" for s
      using own(2) that i(1) nb(3) by (simp add: owner_def sv')
    show "taken sv' s \<longleftrightarrow> s \<in> set (slots_at sv p (sv_buckets sv ! i)) \<or> taken sv s" if "s < unat (sv_numSlots sv)" for s
      using g(3) that by (simp add: taken_def sv')
  qed
  moreover have "geometry sv'"
  proof (rule geometry_cong [OF geo P(1)])
    show "\<forall>g\<in>set (sv_processedGen sv'). g \<le> sv_generation sv"
      using geo set_update_subset_insert [of "sv_processedGen sv" i "sv_generation sv"] by (auto simp: sv' geometry_def)
  qed (use pins in \<open>simp_all add: sv'\<close>)
  moreover have "search_wf sv'"
    by (rule search_wf_cong [OF wf P(1)]) (use g(2) wf in \<open>auto simp: sv' search_wf_def\<close>)
  moreover have "heap_of_buckets sv'"
    using hp by (simp add: heap_of_buckets_def sv')
  ultimately show ?thesis
    using P(1) pr by (simp add: solving_def same_work_def sv')
qed


text \<open>Pinning never leaves its arrays.\<close>

lemma sint_index:
  assumes "(w :: u16) = - 1 \<or> unat w < n" and "n \<le> 32767" and "0 \<le> sint w"
  shows "nat (sint w) < n"
proof -
  have "sint (- 1 :: u16) = - 1"
    by simp
  then have u: "unat w < n"
    using assms(1,3) by auto
  have i: "uint w = int (unat w)"
    by simp
  have "(2 :: int) ^ 15 = 32768"
    by simp
  then have "- (2 ^ 15) \<le> int (unat w)" "int (unat w) < 2 ^ 15"
    using u assms(2) by linarith+
  then have "signed_take_bit 15 (uint w) = uint w"
    unfolding i by (rule signed_take_bit_int_eq_self)
  then have "sint w = int (unat w)"
    unfolding sint_uint by (simp only: i) simp
  then show ?thesis
    using u by (simp only: nat_int)
qed

lemma pin_bits:
  fixes bits :: "u64 list"
  assumes "0 \<le> sint w \<Longrightarrow> nat (sint (w :: u16)) div 64 < length bits"
  shows "\<exists>bits'. (if sint w \<ge> 0 then let ob = nat (sint w) in
      rbind (get_at bits (ob div bitsPerWord)) (\<lambda>w. set_at bits (ob div bitsPerWord) (w AND NOT (push_bit (ob mod bitsPerWord) 1)))
     else Inr bits) = Inr bits' \<and> length bits' = length bits"
  using assms by (cases "sint w \<ge> 0") (simp_all add: bitsPerWord_def Let_def)

lemma pin_ok:
  assumes geo: "geometry sv" and i: "i < sv_numBuckets sv"
  shows "\<exists>pinned bits. pin i sv = Inr (sv\<lparr>sv_pinned := pinned, sv_pinnedBits := bits, sv_pinnedIdx := (sv_pinnedIdx sv + 1) mod 16\<rparr>) \<and>
    length pinned = 16 \<and> length bits = length (sv_pinnedBits sv) \<and> (\<forall>q\<in>set pinned. q = - 1 \<or> unat q < sv_numBuckets sv)"
proof -
  let ?old = "sv_pinned sv ! sv_pinnedIdx sv" and ?pinned = "(sv_pinned sv)[sv_pinnedIdx sv := of_nat i]"
  have g: "length (sv_pinned sv) = 16" "sv_pinnedIdx sv < 16" "\<forall>q\<in>set (sv_pinned sv). q = - 1 \<or> unat q < sv_numBuckets sv"
    "sv_numBuckets sv \<le> 32767" "sv_numBuckets sv \<le> 64 * length (sv_pinnedBits sv)"
    using geo unfolding geometry_def by blast+
  have w: "j div 64 < length (sv_pinnedBits sv)" if "j < sv_numBuckets sv" for j
    using less_le_trans [OF that g(5)] by (simp add: div_less_iff_less_mult mult.commute)
  have "?old \<in> set (sv_pinned sv)"
    using g(1,2) by simp
  then have "nat (sint ?old) div 64 < length (sv_pinnedBits sv)" if "0 \<le> sint ?old"
    using w sint_index [OF _ g(4) that] g(3) by blast
  from pin_bits [OF this] obtain bits where b: "(if sint ?old \<ge> 0 then let ob = nat (sint ?old) in
      rbind (get_at (sv_pinnedBits sv) (ob div bitsPerWord)) (\<lambda>w. set_at (sv_pinnedBits sv) (ob div bitsPerWord) (w AND NOT (push_bit (ob mod bitsPerWord) 1)))
     else Inr (sv_pinnedBits sv)) = Inr bits" and len: "length bits = length (sv_pinnedBits sv)"
    by blast
  have e: "get_at (sv_pinned sv) (sv_pinnedIdx sv) = Inr ?old" "set_at (sv_pinned sv) (sv_pinnedIdx sv) (of_nat i) = Inr ?pinned"
    using g(1,2) by simp_all
  have wi: "i div bitsPerWord < length bits"
    using w [OF i] len by (simp add: bitsPerWord_def)
  define bits' where "bits' = bits[i div bitsPerWord := bits ! (i div bitsPerWord) OR push_bit (i mod bitsPerWord) 1]"
  have "pin i sv = Inr (sv\<lparr>sv_pinned := ?pinned, sv_pinnedBits := bits',
      sv_pinnedIdx := (sv_pinnedIdx sv + 1) mod 16\<rparr>)"
    unfolding pin_def e rbind_Inr b bits'_def by (simp only: get_at_ok [OF wi] set_at_ok [OF wi] rbind_Inr pinnedSize_def)
  moreover have "\<forall>q\<in>set ?pinned. q = - 1 \<or> unat q < sv_numBuckets sv"
  proof
    fix q assume "q \<in> set ?pinned"
    then have "q = of_nat i \<or> q \<in> set (sv_pinned sv)"
      using set_update_subset_insert by fastforce
    then show "q = - 1 \<or> unat q < sv_numBuckets sv"
    proof
      assume "q = of_nat i"
      then show ?thesis
        using g(4) i by simp
    qed (use g(3) in blast)
  qed
  ultimately show ?thesis
    using g(1) len by (intro exI [of _ ?pinned] exI [of _ bits']) (simp add: bits'_def)
qed

section \<open>Evicting a bucket\<close>

lemma evict_loop_ok:
  fixes g :: "u8 list" and own :: "u16 list"
  assumes "\<forall>e\<in>set bucket. slot e < length g \<and> slot e < length own" and "0 \<noteq> gen"
  shows "\<exists>g'. rfold (\<lambda>e g. let s = slot e in rbind (get_at g s) (\<lambda>v.
        if v = gen then rbind (get_at own s) (\<lambda>ow. if ow = oi then set_at g s 0 else Inr g) else Inr g)) bucket g = Inr g' \<and>
    length g' = length g \<and> (\<forall>j<length g. g' ! j = (if j \<in> slot ` set bucket \<and> g ! j = gen \<and> own ! j = oi then 0 else g ! j))"
  using assms
proof (induction bucket arbitrary: g)
  case (Cons e bucket)
  let ?s = "slot e"
  define g1 where "g1 = (if g ! ?s = gen \<and> own ! ?s = oi then g[?s := 0] else g)"
  have l1: "length g1 = length g"
    by (simp add: g1_def)
  obtain g' where r: "rfold (\<lambda>e g. let s = slot e in rbind (get_at g s) (\<lambda>v.
        if v = gen then rbind (get_at own s) (\<lambda>ow. if ow = oi then set_at g s 0 else Inr g) else Inr g)) bucket g1 = Inr g'"
    "length g' = length g1" "\<forall>j<length g1. g' ! j = (if j \<in> slot ` set bucket \<and> g1 ! j = gen \<and> own ! j = oi then 0 else g1 ! j)"
    using Cons.IH [of g1] Cons.prems l1 by auto
  have step: "(let s = slot e in rbind (get_at g s) (\<lambda>v.
        if v = gen then rbind (get_at own s) (\<lambda>ow. if ow = oi then set_at g s 0 else Inr g) else Inr g)) = Inr g1"
    using Cons.prems(1) by (cases "g ! ?s = gen") (simp_all add: g1_def Let_def)
  have "g' ! j = (if j \<in> slot ` set (e # bucket) \<and> g ! j = gen \<and> own ! j = oi then 0 else g ! j)" if "j < length g" for j
    using r(3) that Cons.prems l1 by (cases "j = ?s") (auto simp: g1_def)
  then show ?case
    unfolding rfold.simps step rbind_Inr using r(1,2) l1 by auto
qed simp

lemma evictBucket_ok:
  assumes sol: "solving sv" and i: "i < sv_numBuckets sv" "processed sv i"
  shows "\<exists>g. evictBucket i sv = Inr (sv\<lparr>sv_slotGen := g\<rparr>) \<and> length g = length (sv_slotGen sv) \<and> set g \<subseteq> insert 0 (set (sv_slotGen sv)) \<and>
    (\<forall>s<unat (sv_numSlots sv). g ! s = sv_generation sv \<longleftrightarrow> taken sv s \<and> owner sv s \<noteq> i)"
proof -
  have wf: "search_wf sv" and geo: "geometry sv" and pl: "placed sv"
    using sol by (auto simp: solving_def)
  have ns: "unat (sv_numSlots sv) \<le> length (sv_slotGen sv)" "unat (sv_numSlots sv) \<le> length (sv_slotOwner sv)" "0 \<noteq> sv_generation sv"
    and nb: "i < length (sv_pilots sv)" "i < length (sv_buckets sv)" "i < 65536"
    using wf geo i by (auto simp: search_wf_def geometry_def)
  let ?b = "sv_buckets sv ! i" and ?slot = "\<lambda>e. unat (pilotSlotFolded (entry_fold e) (pilotHP sv (sv_pilots sv ! i)) (sv_numSlots sv))"
  have sl: "?slot = slot_of sv (sv_pilots sv ! i)"
    by (simp add: slot_of_def fun_eq_iff)
  have "\<forall>e\<in>set ?b. ?slot e < length (sv_slotGen sv) \<and> ?slot e < length (sv_slotOwner sv)"
    using slot_of_less [OF wf, unfolded slot_of_def] ns less_le_trans by blast
  from evict_loop_ok [where slot = ?slot and oi = "of_nat i", OF this ns(3)] obtain g where
    r: "rfold (\<lambda>e g. let s = ?slot e in rbind (get_at g s) (\<lambda>v. if v = sv_generation sv
        then rbind (get_at (sv_slotOwner sv) s) (\<lambda>ow. if ow = of_nat i then set_at g s 0 else Inr g) else Inr g)) ?b (sv_slotGen sv) = Inr g"
    and len: "length g = length (sv_slotGen sv)"
    and g: "\<forall>j<length (sv_slotGen sv). g ! j = (if j \<in> ?slot ` set ?b \<and> sv_slotGen sv ! j = sv_generation sv \<and> sv_slotOwner sv ! j = of_nat i then 0 else sv_slotGen sv ! j)"
    by blast
  have "g ! s = sv_generation sv \<longleftrightarrow> taken sv s \<and> owner sv s \<noteq> i" if s: "s < unat (sv_numSlots sv)" for s
  proof -
    have img: "?slot ` set ?b = set (bucket_slots sv i)"
      unfolding bucket_slots_def slots_at_def by (simp flip: slot_of_def)
    have ow: "sv_slotOwner sv ! s = of_nat i \<longleftrightarrow> owner sv s = i"
      using nb(3) by (auto simp: owner_def)
    have "s \<in> set (bucket_slots sv i)" if "taken sv s" "owner sv s = i"
      using pl s that by (auto simp: placed_def)
    then show ?thesis
      using g [unfolded img] s ns ow by (auto simp: taken_def)
  qed
  moreover have "set g \<subseteq> insert 0 (set (sv_slotGen sv))"
    using g by (intro list_marks [OF len]) auto
  moreover have "evictBucket i sv = Inr (sv\<lparr>sv_slotGen := g\<rparr>)"
    unfolding evictBucket_def Let_def using nb r [unfolded Let_def] by simp
  ultimately show ?thesis
    using len by blast
qed

end
