(* ===== verification/Ptr_Process_Correct.thy ===== *)
theory Ptr_Process_Correct
  imports Ptr_Solve_Correct
begin

text \<open>
  Processing a bucket of the PTRHash solver keeps the invariant \<open>solving\<close>: a bucket that fits is placed,
  otherwise the owners of the slots of the best pilot are evicted, put on the heap, and the bucket is
  placed and pinned. The loops around it keep every visited bucket processed or waiting.
\<close>

section \<open>Evicting owners\<close>

definition evicted :: "solver \<Rightarrow> nat set \<Rightarrow> solver \<Rightarrow> bool" where
  "evicted sv A sv' \<longleftrightarrow> solving sv' \<and> problem_of sv' = problem_of sv \<and> sv_slotOwner sv' = sv_slotOwner sv \<and> sv_bestSlots sv' = sv_bestSlots sv \<and>
    (\<forall>s<unat (sv_numSlots sv). taken sv' s \<longleftrightarrow> taken sv s \<and> owner sv s \<notin> A) \<and>
    (\<forall>j < sv_numBuckets sv. processed sv' j \<longleftrightarrow> processed sv j \<and> j \<notin> A) \<and> waiting sv' = A \<union> waiting sv"

lemma evict_owner_ok:
  assumes sol: "solving sv" and i: "unat ow < sv_numBuckets sv" "processed sv (unat ow)"
  shows "\<exists>sv'. evict_owner ow sv = Inr sv' \<and> evicted sv {unat ow} sv'"
proof -
  let ?i = "unat ow"
  have wf: "search_wf sv" and geo: "geometry sv" and pl: "placed sv" and hp: "heap_of_buckets sv"
    using sol by (auto simp: solving_def)
  obtain g where e: "evictBucket ?i sv = Inr (sv\<lparr>sv_slotGen := g\<rparr>)" and g: "length g = length (sv_slotGen sv)" "set g \<subseteq> insert 0 (set (sv_slotGen sv))"
    "\<forall>s<unat (sv_numSlots sv). g ! s = sv_generation sv \<longleftrightarrow> taken sv s \<and> owner sv s \<noteq> ?i"
    using evictBucket_ok [OF sol i] by blast
  have nb: "sv_numBuckets sv \<le> length (sv_processedGen sv)" "?i < length (sv_buckets sv)"
    using geo i(1) unfolding geometry_def by simp_all
  have "sv_buckets sv ! ?i \<in> set (sv_buckets sv)"
    using nb(2) by simp
  then have bl: "length (sv_buckets sv ! ?i) < 65536"
    using geo unfolding geometry_def by blast
  obtain h where h: "heap_push ?i (length (sv_buckets sv ! ?i)) (sv_pendingHeap sv) = Inr h" "heap_ok h"
    "heap_contents h = add_mset (?i, length (sv_buckets sv ! ?i)) (heap_contents (sv_pendingHeap sv))"
    using heap_push_ok [of "sv_pendingHeap sv" ?i "length (sv_buckets sv ! ?i)"] hp bl unat_lt2p [of ow] by (auto simp: heap_of_buckets_def)
  define sv' where "sv' = sv\<lparr>sv_slotGen := g, sv_processedGen := (sv_processedGen sv)[?i := 0], sv_pendingHeap := h, sv_evictions := sv_evictions sv + 1\<rparr>"
  have run: "evict_owner ow sv = Inr sv'"
    unfolding evict_owner_def Let_def e using nb i(1) h(1) by (simp add: clearProcessed_def bucketSize_def sv'_def)
  have nz: "sv_generation sv \<noteq> 0"
    using wf by (auto simp: search_wf_def)
  have P: "problem_of sv' = problem_of sv" "sv_pilots sv' = sv_pilots sv" "sv_slotOwner sv' = sv_slotOwner sv"
    using g(1) by (simp_all add: sv'_def problem_of_def)
  have tk: "taken sv' s \<longleftrightarrow> taken sv s \<and> owner sv s \<noteq> ?i" if "s < unat (sv_numSlots sv)" for s
    using g(3) that by (simp add: taken_def sv'_def)
  have pr: "processed sv' j \<longleftrightarrow> processed sv j \<and> j \<noteq> ?i" if "j < sv_numBuckets sv" for j
    using that nb(1) nz by (cases "j = ?i") (auto simp: processed_def sv'_def)
  have "placed sv'"
    by (rule placed_after_evict [OF pl wf P tk pr])
  moreover have "search_wf sv'"
    by (rule search_wf_cong [OF wf P(1)]) (use g(2) wf in \<open>auto simp: sv'_def search_wf_def\<close>)
  moreover have "geometry sv'"
  proof (rule geometry_cong [OF geo P(1)])
    show "sv_pinnedIdx sv' < 16" "\<forall>p\<in>set (sv_pinned sv'). p = - 1 \<or> unat p < sv_numBuckets sv"
      using geo unfolding geometry_def sv'_def by auto
    show "\<forall>g\<in>set (sv_processedGen sv'). g \<le> sv_generation sv"
      using geo set_update_subset_insert [of "sv_processedGen sv" ?i 0] by (auto simp: sv'_def geometry_def)
  qed
  moreover have "heap_of_buckets sv'"
    using hp h i(1) by (auto simp: heap_of_buckets_def sv'_def)
  moreover have "waiting sv' = insert ?i (waiting sv)"
    by (simp add: waiting_def sv'_def h(3))
  ultimately show ?thesis
    using run P tk pr by (intro exI [of _ sv']) (auto simp: evicted_def solving_def sv'_def)
qed

lemma evict_owners_ok:
  assumes "solving sv" and "distinct ows" and "\<forall>ow\<in>set ows. unat ow < sv_numBuckets sv \<and> processed sv (unat ow)"
  shows "\<exists>sv'. rfold evict_owner ows sv = Inr sv' \<and> evicted sv (unat ` set ows) sv'"
  using assms
proof (induction ows arbitrary: sv)
  case Nil
  then show ?case by (simp add: evicted_def)
next
  case (Cons ow ows)
  obtain sv1 where r1: "evict_owner ow sv = Inr sv1" and e1: "evicted sv {unat ow} sv1"
    using evict_owner_ok [of sv ow] Cons.prems by auto
  have p1: "sv_numBuckets sv1 = sv_numBuckets sv" "sv_numSlots sv1 = sv_numSlots sv" "owner sv1 = owner sv"
    using e1 by (simp_all add: evicted_def problem_of_def owner_def fun_eq_iff)
  have "unat w \<noteq> unat ow" if "w \<in> set ows" for w
    using Cons.prems(2) that by (auto simp flip: word_unat_eq_iff)
  then have "\<forall>w\<in>set ows. unat w < sv_numBuckets sv1 \<and> processed sv1 (unat w)"
    using Cons.prems(3) e1 p1 by (auto simp: evicted_def)
  then obtain sv' where "rfold evict_owner ows sv1 = Inr sv'" "evicted sv1 (unat ` set ows) sv'"
    using Cons.IH [of sv1] Cons.prems(2) e1 by (auto simp: evicted_def)
  then show ?case
    using r1 e1 p1 by (intro exI [of _ sv']) (auto simp: evicted_def)
qed

section \<open>The owners of a list of slots\<close>

lemma getOwner_ok:
  assumes "solving sv" and "s < unat (sv_numSlots sv)"
  shows "getOwner sv s = Inr (if taken sv s then Some (owner sv s) else None)"
  using assms by (auto simp: getOwner_def solving_def search_wf_def geometry_def taken_def owner_def)

lemma solving_owner:
  assumes "solving sv" and "s < unat (sv_numSlots sv)" and "taken sv s"
  shows "owner sv s < sv_numBuckets sv" "processed sv (owner sv s)"
  using assms by (auto simp: solving_def placed_def)

lemma score_loop_ok:
  assumes sol: "solving sv" and "\<forall>s\<in>set slots. unat s < unat (sv_numSlots sv)"
  shows "\<exists>r. score_loop sv best slots score = Inr r"
  using assms(2)
proof (induction slots arbitrary: score)
  case (Cons s slots)
  have IH: "\<exists>r. score_loop sv best slots sc = Inr r" for sc
    using Cons by simp
  have ow: "getOwner sv (unat s) = Inr (if taken sv (unat s) then Some (owner sv (unat s)) else None)"
    using getOwner_ok [OF sol] Cons.prems by simp
  show ?case
  proof (cases "taken sv (unat s)")
    case True
    then have lt: "owner sv (unat s) < sv_numBuckets sv"
      using solving_owner [OF sol] Cons.prems by simp
    have geo: "sv_numBuckets sv = length (sv_buckets sv)" "sv_numBuckets sv \<le> 64 * length (sv_pinnedBits sv)"
      using sol unfolding solving_def geometry_def by blast+
    have "owner sv (unat s) div bitsPerWord < length (sv_pinnedBits sv)"
      using less_le_trans [OF lt geo(2)] by (simp add: bitsPerWord_def div_less_iff_less_mult mult.commute)
    moreover have "owner sv (unat s) < length (sv_buckets sv)"
      using lt geo(1) by simp
    ultimately show ?thesis
      using ow True IH by (simp add: isPinned_def bucketSize_def Let_def)
  qed (use ow IH in simp)
qed simp

lemma owners_loop_ok:
  assumes sol: "solving sv" and "\<forall>s\<in>set slots. unat s < unat (sv_numSlots sv)" and "distinct acc" and i: "\<not> processed sv i"
  shows "\<exists>acc'. owners_loop sv i slots acc = Inr acc' \<and> distinct acc' \<and>
    unat ` set acc' = unat ` set acc \<union> {owner sv (unat s) |s. s \<in> set slots \<and> taken sv (unat s)}"
  using assms(2,3)
proof (induction slots arbitrary: acc)
  case (Cons s slots)
  have ow: "getOwner sv (unat s) = Inr (if taken sv (unat s) then Some (owner sv (unat s)) else None)"
    using getOwner_ok [OF sol] Cons.prems by simp
  show ?case
  proof (cases "taken sv (unat s)")
    case True
    let ?o = "owner sv (unat s)"
    have lt: "?o < sv_numBuckets sv" "?o \<noteq> i"
      using solving_owner [OF sol] True Cons.prems i by auto
    have u: "unat (of_nat ?o :: u16) = ?o"
      by (simp add: owner_def)
    have split: "{owner sv (unat x) |x. x \<in> set (s # slots) \<and> taken sv (unat x)} = insert ?o {owner sv (unat x) |x. x \<in> set slots \<and> taken sv (unat x)}"
      using True by auto
    show ?thesis
    proof (cases "(of_nat ?o :: u16) \<in> set acc")
      case True
      then have "?o \<in> unat ` set acc"
        using u by (metis imageI)
      moreover obtain acc' where "owners_loop sv i slots acc = Inr acc'" "distinct acc'"
        "unat ` set acc' = unat ` set acc \<union> {owner sv (unat s) |s. s \<in> set slots \<and> taken sv (unat s)}"
        using Cons.IH [of acc] Cons.prems by auto
      ultimately show ?thesis
        unfolding split using ow \<open>taken sv (unat s)\<close> True by (intro exI [of _ acc']) auto
    next
      case False
      then obtain acc' where "owners_loop sv i slots (acc @ [of_nat ?o]) = Inr acc'" "distinct acc'"
        "unat ` set acc' = unat ` set (acc @ [of_nat ?o]) \<union> {owner sv (unat s) |s. s \<in> set slots \<and> taken sv (unat s)}"
        using Cons.IH [of "acc @ [of_nat ?o]"] Cons.prems by auto
      then show ?thesis
        unfolding split using ow \<open>taken sv (unat s)\<close> False lt u by (intro exI [of _ acc']) auto
    qed
  next
    case False
    obtain acc' where "owners_loop sv i slots acc = Inr acc'" "distinct acc'"
      "unat ` set acc' = unat ` set acc \<union> {owner sv (unat s) |s. s \<in> set slots \<and> taken sv (unat s)}"
      using Cons.IH [of acc] Cons.prems by auto
    then show ?thesis
      using ow False by (intro exI [of _ acc']) auto
  qed
qed simp

section \<open>The second phase\<close>

lemma fill_slots_ok:
  assumes "folded_for sv bucket"
  shows "\<exists>buf. fill_slots p (length bucket) sv = Inr (sv\<lparr>sv_slotsBuffer := buf\<rparr>) \<and> length buf = length (sv_slotsBuffer sv) \<and>
    take (length bucket) buf = map of_nat (slots_at sv p bucket)"
proof -
  have "\<exists>buf. rfold (\<lambda>i sv. rbind (put_slot p i sv) (\<lambda>(_, sv). Inr sv)) [0..<k] sv = Inr (sv\<lparr>sv_slotsBuffer := buf\<rparr>) \<and>
      length buf = length (sv_slotsBuffer sv) \<and> take k buf = map of_nat (take k (slots_at sv p bucket))" if "k \<le> length bucket" for k
    using that
  proof (induction k)
    case 0
    show ?case by (intro exI [of _ "sv_slotsBuffer sv"]) simp
  next
    case (Suc k)
    then obtain buf where r: "rfold (\<lambda>i sv. rbind (put_slot p i sv) (\<lambda>(_, sv). Inr sv)) [0..<k] sv = Inr (sv\<lparr>sv_slotsBuffer := buf\<rparr>)"
      and b: "length buf = length (sv_slotsBuffer sv)" "take k buf = map of_nat (take k (slots_at sv p bucket))"
      by auto
    let ?sv = "sv\<lparr>sv_slotsBuffer := buf\<rparr>"
    have k: "k < length (sv_foldedBuffer ?sv)" "k < length (sv_slotsBuffer ?sv)" "k < length bucket"
      using assms Suc.prems b(1) by (auto simp: folded_for_def)
    have "folded_for ?sv bucket"
      using assms b(1) by (simp add: folded_for_def)
    then have f: "fslot ?sv p k = slots_at sv p bucket ! k"
      using fslot_folded [of ?sv bucket k p] k(3) by (simp add: slots_at_def slot_of_def pilotHP_def)
    have "take (Suc k) (buf[k := of_nat (slots_at sv p bucket ! k)]) = map of_nat (take (Suc k) (slots_at sv p bucket))"
      using b k by (simp add: take_Suc_conv_app_nth slots_at_def)
    then show ?case
      unfolding upt_Suc_append [OF le0] rfold_append r rbind_Inr using put_slot_eq [OF k(1,2), of p] f b(1)
      by (intro exI [of _ "buf[k := of_nat (slots_at sv p bucket ! k)]"]) simp
  qed
  from this [of "length bucket"] show ?thesis
    by (simp add: fill_slots_def slots_at_def)
qed

lemma phase2_dup_loop_ok:
  assumes "\<forall>s\<in>set slots. unat s < length g"
  shows "\<exists>r g'. phase2_dup_loop lg slots g = Inr (r, g') \<and> length g' = length g \<and> (r \<longrightarrow> distinct slots \<and> (\<forall>s\<in>set slots. g ! unat s \<noteq> lg))"
  using assms
proof (induction slots arbitrary: g)
  case (Cons s slots)
  show ?case
  proof (cases "g ! unat s = lg")
    case False
    let ?g = "g[unat s := lg]"
    obtain r g' where r: "phase2_dup_loop lg slots ?g = Inr (r, g')" "length g' = length ?g" "r \<longrightarrow> distinct slots \<and> (\<forall>s\<in>set slots. ?g ! unat s \<noteq> lg)"
      using Cons.IH [of ?g] Cons.prems by auto
    have "s \<notin> set slots \<and> (\<forall>s\<in>set slots. g ! unat s \<noteq> lg)" if "r"
    proof -
      have "?g ! unat t \<noteq> lg" if "t \<in> set slots" for t
        using r(3) \<open>r\<close> that by blast
      then show ?thesis
        using Cons.prems by (metis list.set_intros(1) nth_list_update_eq nth_list_update_neq)
    qed
    then show ?thesis
      using r False Cons.prems by auto
  qed (use Cons.prems in auto)
qed (auto intro: exI [of _ True])

lemma hasNoDuplicateSlotsPhase2_ok:
  assumes wf: "search_wf sv" and s: "\<forall>s\<in>set slots. unat s < unat (sv_numSlots sv)"
  shows "\<exists>r sv'. hasNoDuplicateSlotsPhase2 slots sv = Inr (r, sv') \<and> (r \<longrightarrow> distinct slots) \<and> search_rel sv sv' \<and>
    sv_slotsBuffer sv' = sv_slotsBuffer sv \<and> sv_foldedBuffer sv' = sv_foldedBuffer sv \<and> sv_bestSlots sv' = sv_bestSlots sv"
proof -
  define gen where "gen = (if sv_phase2Gen sv + 1 = 0 then 1 else sv_phase2Gen sv + 1)"
  define g0 where "g0 = (if sv_phase2Gen sv + 1 = 0 then map (\<lambda>_. 0) (sv_phase2SlotGen sv) else sv_phase2SlotGen sv)"
  have len: "length g0 = length (sv_phase2SlotGen sv)"
    by (simp add: g0_def)
  have "\<forall>s\<in>set slots. unat s < length g0"
    using wf s len by (force simp: search_wf_def)
  from phase2_dup_loop_ok [OF this, of gen] obtain r g' where
    r: "phase2_dup_loop gen slots g0 = Inr (r, g')" "length g' = length g0" "r \<longrightarrow> distinct slots"
    by blast
  let ?sv = "sv\<lparr>sv_phase2Gen := gen, sv_phase2SlotGen := g'\<rparr>"
  have "hasNoDuplicateSlotsPhase2 slots sv = Inr (r, ?sv)"
    using r(1) by (cases "sv_phase2Gen sv + 1 = 0") (simp_all add: hasNoDuplicateSlotsPhase2_def gen_def g0_def)
  moreover have "search_rel sv ?sv"
    using wf r(2) len by (simp add: search_rel_def search_wf_def taken_def)
  ultimately show ?thesis
    using r(3) by (intro exI [of _ r] exI [of _ ?sv]) simp
qed

text \<open>What the second phase has found so far.\<close>

definition best_of :: "solver \<Rightarrow> ptrEntry list \<Rightarrow> u8 \<Rightarrow> solver \<Rightarrow> bool" where
  "best_of sv0 bucket bp sv \<longleftrightarrow> search_rel sv0 sv \<and> folded_for sv bucket \<and>
    (sv_bestSlots sv = [] \<or> sv_bestSlots sv = map of_nat (slots_at sv0 bp bucket) \<and> distinct (slots_at sv0 bp bucket))"

lemma of_nat_slots:
  assumes wf: "search_wf sv"
  shows "\<forall>s\<in>set (map of_nat (slots_at sv p b) :: u16 list). unat s < unat (sv_numSlots sv)"
    and "unat ` set (map of_nat (slots_at sv p b) :: u16 list) = set (slots_at sv p b)"
    and "distinct (map of_nat (slots_at sv p b) :: u16 list) \<longleftrightarrow> distinct (slots_at sv p b)"
proof -
  have lt: "s < unat (sv_numSlots sv)" "unat (sv_numSlots sv) \<le> 65535" if "s \<in> set (slots_at sv p b)" for s
    using solving_bucket_less [OF wf that] wf by (simp_all add: search_wf_def)
  have u: "unat (of_nat s :: u16) = s" if "s \<in> set (slots_at sv p b)" for s
    using lt [OF that] by simp
  show "\<forall>s\<in>set (map of_nat (slots_at sv p b) :: u16 list). unat s < unat (sv_numSlots sv)"
    using lt u by simp
  show "unat ` set (map of_nat (slots_at sv p b) :: u16 list) = set (slots_at sv p b)"
    using u by (simp add: image_image)
  have "inj_on (of_nat :: nat \<Rightarrow> u16) (set (slots_at sv p b))"
    using u by (metis inj_onI)
  then show "distinct (map of_nat (slots_at sv p b) :: u16 list) \<longleftrightarrow> distinct (slots_at sv p b)"
    by (simp add: distinct_map)
qed

lemma phase2_loop_ok:
  assumes sol: "solving sv0" and b: "best_of sv0 bucket bp sv"
  shows "\<exists>bp' sv'. phase2_loop p0 (length bucket) ds bp bs sv = Inr (bp', sv') \<and> best_of sv0 bucket bp' sv'"
  using b
proof (induction ds arbitrary: bp bs sv)
  case (Cons d ds)
  let ?n = "length bucket" and ?p = "of_nat ((unat p0 + d) mod numPilotValues) :: u8"
  have rel: "search_rel sv0 sv" and f: "folded_for sv bucket"
    using Cons.prems by (simp_all add: best_of_def)
  have core: "search_core sv = search_core sv0"
    using rel by (simp only: search_rel_def)
  note sl = core_slot_of(3) [OF core]
  obtain buf where fill: "fill_slots ?p ?n sv = Inr (sv\<lparr>sv_slotsBuffer := buf\<rparr>)" and buf: "length buf = length (sv_slotsBuffer sv)"
    "take ?n buf = map of_nat (slots_at sv0 ?p bucket)"
    using fill_slots_ok [OF f, of ?p] sl by auto
  let ?sv = "sv\<lparr>sv_slotsBuffer := buf\<rparr>" and ?S = "map of_nat (slots_at sv0 ?p bucket) :: u16 list"
  have b1: "best_of sv0 bucket bp ?sv"
    using Cons.prems buf(1) by (simp add: best_of_def search_rel_def search_wf_def taken_def folded_for_def)
  have rel1: "search_rel sv0 ?sv"
    using b1 by (simp only: best_of_def)
  note sol1 = search_rel_solving(1) [OF sol rel1] and wf1 = search_rel_wf [OF rel1]
  have "sv_numSlots ?sv = sv_numSlots sv0"
    using core_fields(1) [OF core] by simp
  then have lt: "\<forall>s\<in>set ?S. unat s < unat (sv_numSlots ?sv)"
    using of_nat_slots(1) [of sv0 ?p bucket] sol by (simp add: solving_def)
  obtain r where sc: "score_loop ?sv bs ?S 0 = Inr r"
    using score_loop_ok [OF sol1 lt] by blast
  obtain nd sv2 where d2: "hasNoDuplicateSlotsPhase2 ?S ?sv = Inr (nd, sv2)" "nd \<longrightarrow> distinct ?S" "search_rel ?sv sv2"
    "sv_slotsBuffer sv2 = buf" "sv_foldedBuffer sv2 = sv_foldedBuffer sv" "sv_bestSlots sv2 = sv_bestSlots sv"
    using hasNoDuplicateSlotsPhase2_ok [OF wf1 lt] by auto
  have b2: "best_of sv0 bucket bp sv2"
    using b1 d2(4-6) search_rel_trans [OF rel1 d2(3)] by (simp add: best_of_def folded_for_def)
  have b3: "best_of sv0 bucket ?p (sv2\<lparr>sv_bestSlots := ?S\<rparr>)" if "nd"
  proof -
    have "distinct (slots_at sv0 ?p bucket)"
      using d2(2) that of_nat_slots(3) [of sv0 ?p bucket] sol by (simp add: solving_def)
    then show ?thesis
      using b2 by (simp add: best_of_def search_rel_def search_wf_def taken_def folded_for_def)
  qed
  have run: "phase2_loop p0 ?n (d # ds) bp bs sv = (case r of None \<Rightarrow> phase2_loop p0 ?n ds bp bs ?sv
    | Some score \<Rightarrow> if \<not> nd then phase2_loop p0 ?n ds bp bs sv2
        else if score < bs then if score \<le> ?n * ?n then Inr (?p, sv2\<lparr>sv_bestSlots := ?S\<rparr>) else phase2_loop p0 ?n ds ?p score (sv2\<lparr>sv_bestSlots := ?S\<rparr>)
        else phase2_loop p0 ?n ds bp bs sv2)"
    unfolding phase2_loop.simps Let_def fill rbind_Inr by (simp add: buf(2) sc d2(1) split: option.split)
  show ?case
  proof (cases r)
    case None
    then show ?thesis
      unfolding run using Cons.IH [OF b1] by simp
  next
    case (Some score)
    consider "\<not> nd \<or> \<not> score < bs" | "nd" "score < bs" "score \<le> ?n * ?n" | "nd" "score < bs" "\<not> score \<le> ?n * ?n"
      by blast
    then show ?thesis
    proof cases
      case 1
      then show ?thesis
        unfolding run using Some Cons.IH [OF b2] by auto
    next
      case 2
      then show ?thesis
        unfolding run using Some b3 by simp
    next
      case 3
      then show ?thesis
        unfolding run using Some Cons.IH [OF b3] by simp
    qed
  qed
qed auto

section \<open>Processing one bucket\<close>

definition advanced :: "solver \<Rightarrow> nat \<Rightarrow> solver \<Rightarrow> bool" where
  "advanced sv i sv' \<longleftrightarrow> solving sv' \<and> problem_of sv' = problem_of sv \<and> processed sv' i \<and> waiting sv \<subseteq> waiting sv' \<and>
    (\<forall>j < sv_numBuckets sv. processed sv j \<longrightarrow> processed sv' j \<or> j \<in> waiting sv')"

lemma place_free_ok:
  assumes sol: "solving sv" and i: "i < sv_numBuckets sv" "\<not> processed sv i" and free: "free_pilot sv (sv_buckets sv ! i) p"
  shows "\<exists>sv'. rbind (placeBucket i p (map of_nat (slots_at sv p (sv_buckets sv ! i))) sv) (setProcessed i) = Inr sv' \<and> advanced sv i sv'"
proof -
  obtain own g where r: "placeBucket i p (map of_nat (slots_at sv p (sv_buckets sv ! i))) sv = Inr (sv\<lparr>sv_pilots := (sv_pilots sv)[i := p], sv_slotOwner := own, sv_slotGen := g\<rparr>)"
    and own: "length own = length (sv_slotOwner sv)"
      "\<forall>s<unat (sv_numSlots sv). own ! s = (if s \<in> set (slots_at sv p (sv_buckets sv ! i)) then of_nat i else sv_slotOwner sv ! s)"
    and g: "length g = length (sv_slotGen sv)" "set g \<subseteq> insert (sv_generation sv) (set (sv_slotGen sv))"
      "\<forall>s<unat (sv_numSlots sv). g ! s = (if s \<in> set (slots_at sv p (sv_buckets sv ! i)) then sv_generation sv else sv_slotGen sv ! s)"
    using placeBucket_ok [OF sol i(1), of p] by blast
  have geo: "length (sv_pinned sv) = 16" "\<forall>q\<in>set (sv_pinned sv). q = - 1 \<or> unat q < sv_numBuckets sv" "sv_pinnedIdx sv < 16"
    "sv_numBuckets sv \<le> length (sv_processedGen sv)"
    using sol unfolding solving_def geometry_def by blast+
  note pl = solving_place [OF sol i free own g geo(1,2) refl geo(3) refl]
  then show ?thesis
    using r geo(4) i(1) by (auto simp: setProcessed_ok advanced_def same_work_def waiting_def)
qed

lemma place_pinned_ok:
  assumes sol: "solving sv" and i: "i < sv_numBuckets sv" "\<not> processed sv i" and free: "free_pilot sv (sv_buckets sv ! i) p"
  shows "\<exists>sv'. rbind (placeBucket i p (map of_nat (slots_at sv p (sv_buckets sv ! i))) sv) (\<lambda>sv. rbind (pin i sv) (setProcessed i)) = Inr sv' \<and> advanced sv i sv'"
proof -
  obtain own g where r: "placeBucket i p (map of_nat (slots_at sv p (sv_buckets sv ! i))) sv = Inr (sv\<lparr>sv_pilots := (sv_pilots sv)[i := p], sv_slotOwner := own, sv_slotGen := g\<rparr>)"
    and own: "length own = length (sv_slotOwner sv)"
      "\<forall>s<unat (sv_numSlots sv). own ! s = (if s \<in> set (slots_at sv p (sv_buckets sv ! i)) then of_nat i else sv_slotOwner sv ! s)"
    and g: "length g = length (sv_slotGen sv)" "set g \<subseteq> insert (sv_generation sv) (set (sv_slotGen sv))"
      "\<forall>s<unat (sv_numSlots sv). g ! s = (if s \<in> set (slots_at sv p (sv_buckets sv ! i)) then sv_generation sv else sv_slotGen sv ! s)"
    using placeBucket_ok [OF sol i(1), of p] by blast
  let ?sv = "sv\<lparr>sv_pilots := (sv_pilots sv)[i := p], sv_slotOwner := own, sv_slotGen := g\<rparr>"
  have geo: "geometry sv" "sv_pinnedIdx sv < 16" "sv_numBuckets sv \<le> length (sv_processedGen sv)"
    using sol unfolding solving_def geometry_def by blast+
  have "geometry ?sv"
    using geo(1) own(1) by (intro geometry_cong [OF geo(1)]) (auto simp: problem_of_def g(1) geometry_def)
  from pin_ok [OF this, of i] i(1) obtain pinned bits where pin: "pin i ?sv = Inr (?sv\<lparr>sv_pinned := pinned, sv_pinnedBits := bits, sv_pinnedIdx := (sv_pinnedIdx sv + 1) mod 16\<rparr>)"
    and pins: "length pinned = 16" "length bits = length (sv_pinnedBits sv)" "\<forall>q\<in>set pinned. q = - 1 \<or> unat q < sv_numBuckets sv"
    by auto
  have idx: "(sv_pinnedIdx sv + 1) mod 16 < 16"
    by simp
  note pl = solving_place [OF sol i free own g pins(1,3,2) idx refl]
  then show ?thesis
    using r pin geo(3) i(1) by (auto simp: setProcessed_ok advanced_def same_work_def waiting_def)
qed

lemma solving_evictedOwners:
  shows "solving (sv\<lparr>sv_evictedOwners := os\<rparr>) = solving sv" "evicted (sv\<lparr>sv_evictedOwners := os\<rparr>) A sv' = evicted sv A sv'"
proof -
  let ?sv = "sv\<lparr>sv_evictedOwners := os\<rparr>"
  have "problem_of ?sv = problem_of sv"
    by (simp add: problem_of_def)
  then have "slots_at ?sv = slots_at sv"
    using problem_slots by blast
  then have "placed ?sv = placed sv"
    by (simp add: placed_def processed_def taken_def owner_def bucket_slots_def)
  moreover have "search_wf ?sv = search_wf sv" "geometry ?sv = geometry sv" "heap_of_buckets ?sv = heap_of_buckets sv"
    by (simp_all add: search_wf_def geometry_def heap_of_buckets_def)
  ultimately show "solving ?sv = solving sv"
    by (simp add: solving_def)
  show "evicted ?sv A sv' = evicted sv A sv'"
    by (simp add: evicted_def problem_of_def taken_def owner_def processed_def waiting_def)
qed

lemma evict_and_place_ok:
  assumes sol: "solving sv" and i: "i < sv_numBuckets sv" "\<not> processed sv i"
    and best: "sv_bestSlots sv = map of_nat (slots_at sv p (sv_buckets sv ! i))" "distinct (slots_at sv p (sv_buckets sv ! i))"
  shows "\<exists>sv'. rbind (owners_loop sv i (sv_bestSlots sv) []) (\<lambda>owners.
      rbind (rfold evict_owner owners (sv\<lparr>sv_evictedOwners := owners\<rparr>)) (\<lambda>sv.
      rbind (placeBucket i p (sv_bestSlots sv) sv) (\<lambda>sv. rbind (pin i sv) (setProcessed i)))) = Inr sv' \<and> advanced sv i sv'"
proof -
  let ?S = "slots_at sv p (sv_buckets sv ! i)"
  have wf: "search_wf sv"
    using sol by (simp add: solving_def)
  note S = of_nat_slots [OF wf, of p "sv_buckets sv ! i"]
  obtain owners where ows: "owners_loop sv i (sv_bestSlots sv) [] = Inr owners" "distinct owners"
    "unat ` set owners = {owner sv (unat s) |s. s \<in> set (sv_bestSlots sv) \<and> taken sv (unat s)}"
    using owners_loop_ok [OF sol _ distinct.simps(1) [THEN iffD2, OF TrueI] i(2), of "sv_bestSlots sv"] S(1) best(1) by auto
  have oin: "owner sv s \<in> unat ` set owners" if "s \<in> set ?S" "taken sv s" for s
  proof -
    have "s \<in> unat ` set (sv_bestSlots sv)"
      unfolding best(1) S(2) by (rule that(1))
    then obtain w where "w \<in> set (sv_bestSlots sv)" "unat w = s"
      by blast
    then show ?thesis
      using ows(3) that(2) by auto
  qed
  have "\<forall>ow\<in>set owners. unat ow < sv_numBuckets sv \<and> processed sv (unat ow)"
  proof
    fix ow assume "ow \<in> set owners"
    then obtain s where s: "unat ow = owner sv (unat s)" "s \<in> set (sv_bestSlots sv)" "taken sv (unat s)"
      using ows(3) by blast
    have "unat s < unat (sv_numSlots sv)"
      using S(1) s(2) unfolding best(1) by blast
    then show "unat ow < sv_numBuckets sv \<and> processed sv (unat ow)"
      using solving_owner [OF sol _ s(3)] s(1) by simp
  qed
  then obtain sv1 where e: "rfold evict_owner owners (sv\<lparr>sv_evictedOwners := owners\<rparr>) = Inr sv1" "evicted sv (unat ` set owners) sv1"
    using evict_owners_ok [of "sv\<lparr>sv_evictedOwners := owners\<rparr>" owners] sol ows(2) by (auto simp: solving_evictedOwners processed_def)
  have P: "problem_of sv1 = problem_of sv" and sol1: "solving sv1" and bs: "sv_bestSlots sv1 = sv_bestSlots sv"
    using e(2) by (simp_all add: evicted_def)
  have eq: "sv_numBuckets sv1 = sv_numBuckets sv" "sv_buckets sv1 = sv_buckets sv" "slots_at sv1 = slots_at sv"
    using P problem_slots [OF P] by (simp_all add: problem_of_def)
  have pr1: "\<not> processed sv1 i"
    using e(2) i by (simp add: evicted_def)
  have "\<not> taken sv1 s" if "s \<in> set ?S" for s
    using e(2) oin [OF that] solving_bucket_less [OF wf that] by (auto simp: evicted_def)
  then have "free_pilot sv1 (sv_buckets sv1 ! i) p"
    using best(2) by (simp add: free_pilot_def eq)
  from place_pinned_ok [OF sol1 _ pr1 this] i(1) obtain sv' where
    p: "rbind (placeBucket i p (sv_bestSlots sv1) sv1) (\<lambda>sv. rbind (pin i sv) (setProcessed i)) = Inr sv'" and a: "advanced sv1 i sv'"
    unfolding eq bs best(1) by blast
  have "processed sv' j \<or> j \<in> waiting sv'" if "j < sv_numBuckets sv" "processed sv j" for j
  proof (cases "j \<in> unat ` set owners")
    case True
    then have "j \<in> waiting sv1"
      using e(2) by (simp add: evicted_def)
    then show ?thesis
      using a by (auto simp: advanced_def)
  next
    case False
    then have "processed sv1 j"
      using e(2) that by (simp add: evicted_def)
    then show ?thesis
      using a that(1) by (simp add: advanced_def eq)
  qed
  moreover have "waiting sv \<subseteq> waiting sv1"
    using e(2) by (simp add: evicted_def)
  ultimately have "advanced sv i sv'"
    using a P by (auto simp: advanced_def)
  then show ?thesis
    using ows(1) e(1) p by (intro exI [of _ sv']) simp
qed

definition solve_error :: "solver \<Rightarrow> sherr \<Rightarrow> bool" where
  "solve_error sv e \<longleftrightarrow> (\<exists>b\<in>set (sv_buckets sv). e = (if hasDuplicateSlotInput b then ErrDuplicateKey else ErrIndistinguishableHashes))"

lemma advanced_rel:
  assumes "solving sv" and "search_rel sv sv1" and "advanced sv1 i sv'"
  shows "advanced sv i sv'"
  using assms(3) search_rel_solving [OF assms(1,2)] by (simp add: advanced_def problem_of_def)

lemma process_ok:
  assumes sol: "solving sv" and i: "i < sv_numBuckets sv" "\<not> processed sv i"
  shows "(\<exists>rng' sv'. processBucketWithHeap i rng sv = Inr (rng', sv') \<and> advanced sv i sv') \<or>
    (\<exists>e. processBucketWithHeap i rng sv = Inl e \<and> solve_error sv e)"
proof -
  let ?b = "sv_buckets sv ! i" and ?n = "length (sv_buckets sv ! i)"
  have wf: "search_wf sv" and geo: "geometry sv"
    using sol by (simp_all add: solving_def)
  have ib: "i < length (sv_buckets sv)"
    using geo i(1) by (simp add: geometry_def)
  then have len: "?n \<le> length (sv_slotsBuffer sv)" "?n \<le> length (sv_foldedBuffer sv)"
    using geo by (simp_all add: geometry_def)
  obtain sv1 where rel: "search_rel sv sv1" and res: "case least_free_pilot sv ?b of
       None \<Rightarrow> findFreePilot ?b ?n sv = Inr (0, False, sv1)
     | Some p \<Rightarrow> findFreePilot ?b ?n sv = Inr (of_nat p, True, sv1) \<and>
         take ?n (sv_slotsBuffer sv1) = map of_nat (slots_at sv (of_nat p) ?b)"
    using findFreePilot_ok [OF wf len] unfolding search_result_def by blast
  have core: "search_core sv1 = search_core sv"
    using rel by (simp only: search_rel_def)
  note c = core_fields [OF core] and sl = core_slot_of(3) [OF core]
  note sol1 = search_rel_solving(1) [OF sol rel] and wf1 = search_rel_wf [OF rel]
  have i1: "i < sv_numBuckets sv1" "\<not> processed sv1 i"
    using i search_rel_solving(3) [OF sol rel] by (simp_all add: c)
  show ?thesis
  proof (cases "least_free_pilot sv ?b")
    case (Some p)
    then have "free_pilot sv ?b (of_nat p)"
      using first_upto_Some unfolding least_free_pilot_def by blast
    then have "free_pilot sv1 (sv_buckets sv1 ! i) (of_nat p)"
      using search_rel_free [OF wf rel] by (simp add: c)
    from place_free_ok [OF sol1 i1 this] obtain sv' where
      "rbind (placeBucket i (of_nat p) (map of_nat (slots_at sv (of_nat p) ?b)) sv1) (setProcessed i) = Inr sv'" "advanced sv1 i sv'"
      unfolding sl c by blast
    moreover have "findFreePilot ?b ?n sv = Inr (of_nat p, True, sv1)" "take ?n (sv_slotsBuffer sv1) = map of_nat (slots_at sv (of_nat p) ?b)"
      using res Some by simp_all
    ultimately have "processBucketWithHeap i rng sv = Inr (rng, sv') \<and> advanced sv i sv'"
      using ib advanced_rel [OF sol rel] by (auto simp: processBucketWithHeap_def rbind_eq_Inr)
    then show ?thesis by blast
  next
    case None
    obtain p0 rng' where rng: "rng_IntN numPilotValues rng = (p0, rng')"
      by (cases "rng_IntN numPilotValues rng")
    let ?sv2 = "sv1\<lparr>sv_bestSlots := []\<rparr>"
    define sv3 where "sv3 = ?sv2\<lparr>sv_foldedBuffer := map entry_fold ?b @ drop ?n (sv_foldedBuffer sv1)\<rparr>"
    have len1: "?n \<le> length (sv_slotsBuffer sv1)" "?n \<le> length (sv_foldedBuffer sv1)"
      using len rel by (simp_all add: search_rel_def)
    have f: "put_folded ?b ?sv2 = Inr sv3"
      using put_folded_ok [of ?b ?sv2] len1(2) by (simp add: sv3_def)
    have "best_of sv1 ?b 0 sv3"
      using wf1 len1 by (simp add: best_of_def sv3_def search_rel_def search_wf_def taken_def folded_for_def nth_append)
    from phase2_loop_ok [OF sol1 this] obtain bp sv4 where p2: "phase2_loop (of_nat p0) ?n [0..<numPilotValues] 0 maxInt sv3 = Inr (bp, sv4)"
      and b4: "best_of sv1 ?b bp sv4"
      by blast
    have rel4: "search_rel sv1 sv4"
      using b4 by (simp only: best_of_def)
    have run: "processBucketWithHeap i rng sv = (if sv_bestSlots sv4 = [] then if hasDuplicateSlotInput ?b then Inl ErrDuplicateKey else Inl ErrIndistinguishableHashes
      else rbind (rbind (owners_loop sv4 i (sv_bestSlots sv4) []) (\<lambda>owners.
        rbind (rfold evict_owner owners (sv4\<lparr>sv_evictedOwners := owners\<rparr>)) (\<lambda>sv.
        rbind (placeBucket i bp (sv_bestSlots sv) sv) (\<lambda>sv. rbind (pin i sv) (setProcessed i))))) (\<lambda>sv. Inr (rng', sv)))"
      using ib None res len1 f p2 rng by (simp add: processBucketWithHeap_def rbind_def split: sum.split)
    show ?thesis
    proof (cases "sv_bestSlots sv4 = []")
      case True
      then show ?thesis
        using run ib nth_mem by (auto simp: solve_error_def)
    next
      case False
      have core4: "search_core sv4 = search_core sv1"
        using rel4 by (simp only: search_rel_def)
      note c4 = core_fields [OF core4] and sl4 = core_slot_of(3) [OF core4]
      have "sv_bestSlots sv4 = map of_nat (slots_at sv4 bp (sv_buckets sv4 ! i))" "distinct (slots_at sv4 bp (sv_buckets sv4 ! i))"
        using b4 False by (simp_all add: best_of_def sl4 c4 c)
      moreover have "i < sv_numBuckets sv4" "\<not> processed sv4 i"
        using i1 search_rel_solving(3) [OF sol1 rel4] by (simp_all add: c4)
      ultimately obtain sv' where "rbind (owners_loop sv4 i (sv_bestSlots sv4) []) (\<lambda>owners.
        rbind (rfold evict_owner owners (sv4\<lparr>sv_evictedOwners := owners\<rparr>)) (\<lambda>sv.
        rbind (placeBucket i bp (sv_bestSlots sv) sv) (\<lambda>sv. rbind (pin i sv) (setProcessed i)))) = Inr sv'" "advanced sv4 i sv'"
        using evict_and_place_ok [OF search_rel_solving(1) [OF sol1 rel4]] by blast
      then have "processBucketWithHeap i rng sv = Inr (rng', sv') \<and> advanced sv i sv'"
        using run False advanced_rel [OF sol rel] advanced_rel [OF sol1 rel4] by simp
      then show ?thesis by blast
    qed
  qed
qed

end
