(* ===== verification/Ptr_Loop_Correct.thy ===== *)
theory Ptr_Loop_Correct
  imports Ptr_Process_Correct
begin

text \<open>
  The main loop of the PTRHash solver: it ends, never leaves its arrays, and unless the eviction limit
  is hit or a bucket has no pilot, every bucket of the order is placed when it returns.
\<close>

section \<open>Emptying the heap\<close>

definition covers :: "solver \<Rightarrow> nat set \<Rightarrow> bool" where
  "covers sv V \<longleftrightarrow> (\<forall>i\<in>V. i < sv_numBuckets sv \<and> (processed sv i \<or> i \<in> waiting sv))"

lemma size_heap_contents: "heap_ok h \<Longrightarrow> size (heap_contents h) = heap_len h"
  by (simp add: heap_ok_def heap_wf_def heap_contents_def heap_items_def heap_len_def)

lemma solving_heap:
  assumes "solving sv" and "heap_ok h" and "\<forall>(i, z)\<in>#heap_contents h. i < sv_numBuckets sv"
  shows "solving (sv\<lparr>sv_pendingHeap := h\<rparr>)"
proof -
  let ?sv = "sv\<lparr>sv_pendingHeap := h\<rparr>"
  have "problem_of ?sv = problem_of sv"
    by (simp add: problem_of_def)
  then have "slots_at ?sv = slots_at sv"
    using problem_slots by blast
  then have "placed ?sv = placed sv"
    by (simp add: placed_def processed_def taken_def owner_def bucket_slots_def)
  moreover have "search_wf ?sv = search_wf sv" "geometry ?sv = geometry sv"
    by (simp_all add: search_wf_def geometry_def)
  ultimately show ?thesis
    using assms by (simp add: solving_def heap_of_buckets_def)
qed

lemma pop_ok:
  assumes sol: "solving sv" and ne: "heap_len (sv_pendingHeap sv) \<noteq> 0"
  shows "\<exists>i z h. heap_pop (sv_pendingHeap sv) = Inr ((i, z), h) \<and> solving (sv\<lparr>sv_pendingHeap := h\<rparr>) \<and> i < sv_numBuckets sv \<and>
    waiting sv = insert i (waiting (sv\<lparr>sv_pendingHeap := h\<rparr>))"
proof -
  have hp: "heap_ok (sv_pendingHeap sv)" "\<forall>(i, z)\<in>#heap_contents (sv_pendingHeap sv). i < sv_numBuckets sv"
    using sol by (auto simp: solving_def heap_of_buckets_def)
  have "heap_contents (sv_pendingHeap sv) \<noteq> {#}"
    using size_heap_contents [OF hp(1)] ne by auto
  then obtain p h where r: "heap_pop (sv_pendingHeap sv) = Inr (p, h)" "heap_ok h" "heap_contents (sv_pendingHeap sv) = add_mset p (heap_contents h)"
    using heap_pop_ok [OF hp(1)] by blast
  have "\<forall>(i, z)\<in>#heap_contents h. i < sv_numBuckets sv" "fst p < sv_numBuckets sv"
    using hp(2) r(3) by (auto simp: case_prod_beta)
  then show ?thesis
    using r solving_heap [OF sol r(2)] by (intro exI [of _ "fst p"] exI [of _ "snd p"] exI [of _ h]) (simp add: waiting_def)
qed

definition drained :: "nat \<Rightarrow> solver \<Rightarrow> nat set \<Rightarrow> bool \<Rightarrow> solver \<Rightarrow> bool" where
  "drained m sv V hit sv' \<longleftrightarrow> solving sv' \<and> problem_of sv' = problem_of sv \<and> covers sv' V \<and> (if hit then m < sv_evictions sv' else waiting sv' = {})"

lemma covers_advanced:
  assumes "covers sv V" and "advanced sv i sv'"
  shows "covers sv' V" and "i < sv_numBuckets sv \<Longrightarrow> covers sv' (insert i V)"
  using assms by (auto simp: covers_def advanced_def problem_of_def)

lemma drain_heap_ok:
  assumes "solving sv" and "covers sv V"
  shows "(\<exists>hit rng' sv'. drain_heap m rng sv = Inr (hit, rng', sv') \<and> drained m sv V hit sv') \<or> (\<exists>e. drain_heap m rng sv = Inl e \<and> solve_error sv e)"
  using assms
proof (induction m rng sv rule: drain_heap.induct)
  case (1 m rng sv)
  show ?case
  proof (cases "heap_len (sv_pendingHeap sv) = 0")
    case True
    then have "waiting sv = {}"
      using size_heap_contents [of "sv_pendingHeap sv"] "1.prems"(1) by (auto simp: solving_def heap_of_buckets_def waiting_def)
    then show ?thesis
      using True "1.prems" by (auto simp: drain_heap.simps [of m rng sv] drained_def)
  next
    case False
    then obtain i z h where pop: "heap_pop (sv_pendingHeap sv) = Inr ((i, z), h)" and sol: "solving (sv\<lparr>sv_pendingHeap := h\<rparr>)"
      and i: "i < sv_numBuckets sv" and w: "waiting sv = insert i (waiting (sv\<lparr>sv_pendingHeap := h\<rparr>))"
      using pop_ok [OF "1.prems"(1)] by blast
    let ?sv = "sv\<lparr>sv_pendingHeap := h\<rparr>"
    have eq: "problem_of ?sv = problem_of sv" "processed ?sv = processed sv" "solve_error ?sv = solve_error sv"
      by (simp_all add: problem_of_def processed_def fun_eq_iff solve_error_def)
    have isp: "isProcessed ?sv i = Inr (processed sv i)"
      using "1.prems"(1) i by (simp add: isProcessed_def processed_def solving_def geometry_def)
    have run: "drain_heap m rng sv = (if processed sv i then drain_heap m rng ?sv else rbind (processBucketWithHeap i rng ?sv) (\<lambda>(rng, sv).
         if sv_evictions sv > m then Inr (True, rng, sv) else drain_heap m rng sv))"
      using False by (simp add: drain_heap.simps [of m rng sv] pop isp)
    show ?thesis
    proof (cases "processed sv i")
      case True
      then have "covers ?sv V"
        using "1.prems"(2) w by (auto simp: covers_def eq)
      then show ?thesis
        using "1.IH"(1) [OF False pop _ _ isp] True sol run eq by (simp add: drained_def)
    next
      case np: False
      consider rng' sv' where "processBucketWithHeap i rng ?sv = Inr (rng', sv')" "advanced ?sv i sv'"
        | e where "processBucketWithHeap i rng ?sv = Inl e" "solve_error ?sv e"
        using process_ok [OF sol, of i rng] i np eq(2) by auto
      then show ?thesis
      proof cases
        case (1 rng' sv')
        have a: "solving sv'" "problem_of sv' = problem_of sv" "processed sv' i" "waiting ?sv \<subseteq> waiting sv'"
          "\<forall>j < sv_numBuckets sv. processed sv j \<longrightarrow> processed sv' j \<or> j \<in> waiting sv'"
          using 1(2) eq by (simp_all add: advanced_def)
        then have nb: "sv_numBuckets sv' = sv_numBuckets sv" "sv_buckets sv' = sv_buckets sv"
          by (simp_all add: problem_of_def)
        have c: "covers sv' V"
          using \<open>covers sv V\<close> w a(3-5) by (auto simp: covers_def nb)
        show ?thesis
        proof (cases "sv_evictions sv' > m")
          case True
          then show ?thesis
            using run np 1(1) a c by (auto simp: drained_def)
        next
          case False
          then have "drain_heap m rng sv = drain_heap m rng' sv'"
            using run np 1(1) by simp
          moreover have "(\<exists>hit rng'' sv''. drain_heap m rng' sv' = Inr (hit, rng'', sv'') \<and> drained m sv' V hit sv'') \<or> (\<exists>e. drain_heap m rng' sv' = Inl e \<and> solve_error sv' e)"
            using "1.IH"(2) [OF \<open>heap_len (sv_pendingHeap sv) \<noteq> 0\<close> pop _ _ isp np] 1(1) False a(1) c by simp
          ultimately show ?thesis
            using a(2) nb(2) by (simp add: drained_def solve_error_def)
        qed
      qed (use run np eq in simp)
    qed
  qed
qed

section \<open>The order of the buckets\<close>

lemma solving_empty:
  assumes sol: "solving sv" and i: "i < sv_numBuckets sv" "sv_buckets sv ! i = []"
    and sv': "sv' = sv\<lparr>sv_pilots := (sv_pilots sv)[i := 0], sv_processedGen := (sv_processedGen sv)[i := sv_generation sv]\<rparr>"
  shows "solving sv' \<and> problem_of sv' = problem_of sv \<and> waiting sv' = waiting sv \<and> (\<forall>j < sv_numBuckets sv. processed sv' j \<longleftrightarrow> j = i \<or> processed sv j)"
proof -
  have geo: "geometry sv" and pl: "placed sv"
    using sol by (simp_all add: solving_def)
  have P: "problem_of sv' = problem_of sv"
    by (simp add: sv' problem_of_def)
  have eq: "sv_numBuckets sv' = sv_numBuckets sv" "sv_numSlots sv' = sv_numSlots sv" "taken sv' = taken sv" "owner sv' = owner sv"
    by (simp_all add: sv' taken_def owner_def fun_eq_iff)
  have nb: "sv_numBuckets sv \<le> length (sv_processedGen sv)" "length (sv_pilots sv) = sv_numBuckets sv"
    using geo unfolding geometry_def by blast+
  have bs: "bucket_slots sv' j = bucket_slots sv j" if "j < sv_numBuckets sv" for j
    using problem_slots [OF P] i nb(2) by (cases "j = i") (simp_all add: bucket_slots_def sv' slots_at_def)
  have e: "bucket_slots sv i = []"
    using i(2) by (simp add: bucket_slots_def slots_at_def)
  have pr: "processed sv' j \<longleftrightarrow> j = i \<or> processed sv j" if "j < sv_numBuckets sv" for j
    using that nb(1) by (cases "j = i") (simp_all add: processed_def sv')
  have "placed sv'"
    using pl unfolding placed_def eq using bs e pr by fastforce
  moreover have "geometry sv'"
    using geo set_update_subset_insert [of "sv_processedGen sv" i "sv_generation sv"]
    by (intro geometry_cong [OF geo P]) (auto simp: sv' geometry_def)
  moreover have "search_wf sv'" "heap_of_buckets sv'" "waiting sv' = waiting sv"
    using sol by (simp_all add: solving_def search_wf_def heap_of_buckets_def waiting_def sv')
  ultimately show ?thesis
    using P pr by (simp add: solving_def)
qed

lemma solve_bucket_step_ok:
  assumes sol: "solving sv" and w: "waiting sv = {}" and c: "covers sv V" and i: "i < sv_numBuckets sv"
  shows "(\<exists>hit rng' sv'. solve_bucket_step m i rng sv = Inr (hit, rng', sv') \<and> solving sv' \<and> problem_of sv' = problem_of sv \<and>
      (\<not> hit \<longrightarrow> waiting sv' = {} \<and> covers sv' (insert i V))) \<or> (\<exists>e. solve_bucket_step m i rng sv = Inl e \<and> solve_error sv e)"
proof -
  have geo: "sv_numBuckets sv = length (sv_buckets sv)" "sv_numBuckets sv \<le> length (sv_processedGen sv)" "length (sv_pilots sv) = sv_numBuckets sv"
    using sol unfolding solving_def geometry_def by blast+
  have bs: "bucketSize sv i = Inr (length (sv_buckets sv ! i))" and isp: "isProcessed sv i = Inr (processed sv i)"
    using geo i by (simp_all add: bucketSize_def isProcessed_def processed_def)
  show ?thesis
  proof (cases "sv_buckets sv ! i = []")
    case True
    let ?sv = "sv\<lparr>sv_pilots := (sv_pilots sv)[i := 0], sv_processedGen := (sv_processedGen sv)[i := sv_generation sv]\<rparr>"
    note e = solving_empty [OF sol i True refl]
    have "solve_bucket_step m i rng sv = Inr (False, rng, ?sv)"
      using geo i True bs by (simp add: solve_bucket_step_def setProcessed_def)
    moreover have "covers ?sv (insert i V)"
      using c w i e by (auto simp: covers_def)
    ultimately show ?thesis
      using e w by blast
  next
    case ne: False
    show ?thesis
    proof (cases "processed sv i")
      case True
      then have "solve_bucket_step m i rng sv = Inr (False, rng, sv)"
        using ne bs isp by (simp add: solve_bucket_step_def)
      then show ?thesis
        using sol w c i True by (auto simp: covers_def)
    next
      case False
      have run: "solve_bucket_step m i rng sv = rbind (processBucketWithHeap i rng sv) (\<lambda>(rng, sv). rbind (drain_heap m rng sv) (\<lambda>(_, rng, sv). Inr (sv_evictions sv > m, rng, sv)))"
        using False ne bs isp by (simp add: solve_bucket_step_def)
      consider rng1 sv1 where "processBucketWithHeap i rng sv = Inr (rng1, sv1)" "advanced sv i sv1" | e where "processBucketWithHeap i rng sv = Inl e" "solve_error sv e"
        using process_ok [OF sol i False, of rng] by blast
      then show ?thesis
      proof cases
        case 1
        have a: "solving sv1" "problem_of sv1 = problem_of sv" "solve_error sv1 = solve_error sv"
          using 1(2) by (simp_all add: advanced_def problem_of_def solve_error_def fun_eq_iff)
        consider hit rng' sv' where "drain_heap m rng1 sv1 = Inr (hit, rng', sv')" "drained m sv1 (insert i V) hit sv'" | e where "drain_heap m rng1 sv1 = Inl e" "solve_error sv1 e"
          using drain_heap_ok [OF a(1) covers_advanced(2) [OF c 1(2) i]] by blast
        then show ?thesis
        proof cases
          case (1 hit rng' sv')
          then show ?thesis
            unfolding run using \<open>processBucketWithHeap i rng sv = Inr (rng1, sv1)\<close> a by (auto simp: drained_def split: if_splits)
        qed (use run \<open>processBucketWithHeap i rng sv = Inr (rng1, sv1)\<close> a in simp)
      qed (use run in simp)
    qed
  qed
qed

lemma ptr_solve_loop_ok:
  assumes "solving sv" and "waiting sv = {}" and "covers sv V" and "\<forall>b\<in>set bs. unat b < sv_numBuckets sv"
  shows "(\<exists>hit sv'. ptr_solve_loop m bs rng sv = Inr (hit, sv') \<and> solving sv' \<and> problem_of sv' = problem_of sv \<and>
      (\<not> hit \<longrightarrow> (\<forall>i\<in>V \<union> unat ` set bs. processed sv' i))) \<or> (\<exists>e. ptr_solve_loop m bs rng sv = Inl e \<and> solve_error sv e)"
  using assms
proof (induction bs arbitrary: V rng sv)
  case Nil
  then show ?case by (auto simp: covers_def)
next
  case (Cons b bs)
  consider hit rng' sv1 where "solve_bucket_step m (unat b) rng sv = Inr (hit, rng', sv1)" "solving sv1" "problem_of sv1 = problem_of sv"
      "\<not> hit \<longrightarrow> waiting sv1 = {} \<and> covers sv1 (insert (unat b) V)"
    | e where "solve_bucket_step m (unat b) rng sv = Inl e" "solve_error sv e"
    using solve_bucket_step_ok [OF Cons.prems(1-3), of "unat b" m rng] Cons.prems(4) by auto
  then show ?case
  proof cases
    case (1 hit rng' sv1)
    have eq: "sv_numBuckets sv1 = sv_numBuckets sv" "solve_error sv1 = solve_error sv"
      using 1(3) by (simp_all add: problem_of_def solve_error_def fun_eq_iff)
    show ?thesis
    proof (cases hit)
      case False
      then show ?thesis
        using Cons.IH [of sv1 "insert (unat b) V" rng'] 1 Cons.prems(4) eq by auto
    qed (use 1 in auto)
  qed simp
qed

end
