(* ===== verification/Ptr_Remap_Correct.thy ===== *)
theory Ptr_Remap_Correct
  imports Ptr_Loop_Correct
begin

text \<open>
  The remap table sends the taken slots behind the keys to the free slots among the first \<open>numKeys\<close>,
  one to one, so that the final slots of a block are the numbers below \<open>numKeys\<close>.
\<close>

definition holes_from :: "solver \<Rightarrow> nat \<Rightarrow> nat \<Rightarrow> nat set" where
  "holes_from sv c n = {h. c \<le> h \<and> h < n \<and> \<not> taken sv h}"

definition taken_from :: "solver \<Rightarrow> nat \<Rightarrow> nat \<Rightarrow> nat set" where
  "taken_from sv c n = {s. c \<le> s \<and> s < n \<and> taken sv s}"

lemma finite_from [simp]: "finite (holes_from sv c n)" "finite (taken_from sv c n)"
  by (simp_all add: holes_from_def taken_from_def)

lemma next_hole_ok:
  assumes "n \<le> length (sv_slotGen sv)" and "holes_from sv c n \<noteq> {}"
  shows "\<exists>h. next_hole n sv c = Inr h \<and> h \<in> holes_from sv c n \<and> holes_from sv c n = insert h (holes_from sv (Suc h) n)"
  using assms
proof (induction n sv c rule: next_hole.induct)
  case (1 n sv c)
  obtain h0 where h0: "c \<le> h0" "h0 < n" "\<not> taken sv h0"
    using "1.prems"(2) by (auto simp: holes_from_def)
  have g: "get_at (sv_slotGen sv) c = Inr (sv_slotGen sv ! c)"
    using h0 "1.prems"(1) by simp
  show ?case
  proof (cases "taken sv c")
    case True
    then have c: "c < h0" "holes_from sv c n = holes_from sv (c + 1) n"
      using h0 by (auto simp: holes_from_def Suc_le_eq le_less)
    have eq: "sv_slotGen sv ! c = sv_generation sv" "\<not> n \<le> c + 1"
      using True c(1) h0 by (simp_all add: taken_def)
    have "next_hole n sv c = next_hole n sv (c + 1)"
      using g eq by (simp add: next_hole.simps [of n sv c])
    then show ?thesis
      using "1.IH" [OF g eq] "1.prems" c(2) by simp
  next
    case False
    then have "next_hole n sv c = Inr c"
      using g by (simp add: next_hole.simps [of n sv c] taken_def)
    moreover have "holes_from sv c n = insert c (holes_from sv (Suc c) n)" "c \<in> holes_from sv c n"
      using False h0 by (auto simp: holes_from_def Suc_le_eq le_less)
    ultimately show ?thesis by simp
  qed
qed

text \<open>The table built so far: the taken slots seen have distinct holes below the cursor.\<close>

definition remapped :: "solver \<Rightarrow> nat \<Rightarrow> nat \<Rightarrow> nat \<Rightarrow> u16 list \<Rightarrow> bool" where
  "remapped sv nk s c remap \<longleftrightarrow> (\<forall>t\<in>taken_from sv nk s. unat (remap ! (t - nk)) < c \<and> unat (remap ! (t - nk)) \<in> holes_from sv 0 nk) \<and>
    inj_on (\<lambda>t. unat (remap ! (t - nk))) (taken_from sv nk s)"

lemma taken_from_Suc: "nk \<le> s \<Longrightarrow> taken_from sv nk (Suc s) = (if taken sv s then insert s (taken_from sv nk s) else taken_from sv nk s)"
  by (auto simp: taken_from_def less_Suc_eq)

lemma taken_from_Cons: "s < n \<Longrightarrow> taken_from sv s n = (if taken sv s then insert s (taken_from sv (Suc s) n) else taken_from sv (Suc s) n)"
  by (auto simp: taken_from_def Suc_le_eq le_less)

lemma remap_step_ok:
  assumes wf: "search_wf sv" and s: "nk \<le> s" "s < unat (sv_numSlots sv)" and len: "length remap = unat (sv_numSlots sv) - nk"
    and r: "remapped sv nk s c remap" and card: "card (holes_from sv c nk) = card (taken_from sv s (unat (sv_numSlots sv)))"
  shows "\<exists>c' remap'. remap_step nk sv s (c, remap) = Inr (c', remap') \<and> length remap' = length remap \<and> remapped sv nk (Suc s) c' remap' \<and>
    card (holes_from sv c' nk) = card (taken_from sv (Suc s) (unat (sv_numSlots sv)))"
proof -
  let ?ns = "unat (sv_numSlots sv)"
  have l: "?ns \<le> length (sv_slotGen sv)" "?ns \<le> 65535"
    using wf by (simp_all add: search_wf_def)
  have g: "get_at (sv_slotGen sv) s = Inr (sv_slotGen sv ! s)"
    using s l by simp
  show ?thesis
  proof (cases "taken sv s")
    case False
    then show ?thesis
      using g r card taken_from_Suc [OF s(1), of sv] taken_from_Cons [OF s(2), of sv]
      by (simp add: remap_step_def taken_def [symmetric] remapped_def)
  next
    case True
    have t: "taken_from sv s ?ns = insert s (taken_from sv (Suc s) ?ns)" "s \<notin> taken_from sv (Suc s) ?ns"
      using True s by (simp add: taken_from_Cons, simp add: taken_from_def)
    then have cd: "card (holes_from sv c nk) = Suc (card (taken_from sv (Suc s) ?ns))"
      using card by simp
    then have ne: "holes_from sv c nk \<noteq> {}"
      by auto
    have nkl: "nk \<le> length (sv_slotGen sv)"
      using s l by simp
    obtain h where h: "next_hole nk sv c = Inr h" "h \<in> holes_from sv c nk" "holes_from sv c nk = insert h (holes_from sv (Suc h) nk)"
      using next_hole_ok [OF nkl ne] by blast
    have hh: "c \<le> h" "h < nk" "\<not> taken sv h" "h \<notin> holes_from sv (Suc h) nk"
      using h(2) by (auto simp: holes_from_def)
    have u: "unat (of_nat h :: u16) = h"
      using hh(2) s l by simp
    let ?remap = "remap[s - nk := of_nat h]"
    have run: "remap_step nk sv s (c, remap) = Inr (Suc h, ?remap)"
      using g True h(1) s len by (simp add: remap_step_def taken_def [symmetric])
    have old: "?remap ! (t - nk) = remap ! (t - nk)" if "t \<in> taken_from sv nk s" for t
      using that by (auto simp: taken_from_def intro!: nth_list_update_neq)
    have new: "?remap ! (s - nk) = of_nat h"
      using s len by simp
    have tf: "taken_from sv nk (Suc s) = insert s (taken_from sv nk s)"
      using True s by (simp add: taken_from_Suc)
    have lt: "unat (remap ! (t - nk)) < c \<and> unat (remap ! (t - nk)) \<in> holes_from sv 0 nk" if "t \<in> taken_from sv nk s" for t
      using r that by (simp add: remapped_def)
    have "unat (?remap ! (t - nk)) < Suc h \<and> unat (?remap ! (t - nk)) \<in> holes_from sv 0 nk" if "t \<in> taken_from sv nk (Suc s)" for t
      using that lt [of t] hh u new old [of t] unfolding tf by (auto simp: holes_from_def)
    moreover have "inj_on (\<lambda>t. unat (?remap ! (t - nk))) (taken_from sv nk (Suc s))"
    proof -
      have "inj_on (\<lambda>t. unat (?remap ! (t - nk))) (taken_from sv nk s)"
        using r old by (simp add: remapped_def inj_on_def)
      moreover have "unat (?remap ! (s - nk)) \<noteq> unat (?remap ! (t - nk))" if "t \<in> taken_from sv nk s" for t
        using lt [OF that] old [OF that] hh(1) u new by simp
      ultimately show ?thesis
        unfolding tf by (auto simp: image_iff)
    qed
    ultimately have "remapped sv nk (Suc s) (Suc h) ?remap"
      by (simp add: remapped_def)
    moreover have "card (holes_from sv (Suc h) nk) = card (taken_from sv (Suc s) ?ns)"
      using cd h(3) hh(4) by simp
    ultimately show ?thesis
      using run by (intro exI [of _ "Suc h"] exI [of _ ?remap]) simp
  qed
qed

lemma remap_loop_ok:
  assumes wf: "search_wf sv" and "nk \<le> s" "s \<le> unat (sv_numSlots sv)" and "length remap = unat (sv_numSlots sv) - nk"
    and "remapped sv nk s c remap" and "card (holes_from sv c nk) = card (taken_from sv s (unat (sv_numSlots sv)))"
  shows "\<exists>c' remap'. rfold (remap_step nk sv) [s..<unat (sv_numSlots sv)] (c, remap) = Inr (c', remap') \<and> length remap' = length remap \<and>
    remapped sv nk (unat (sv_numSlots sv)) c' remap'"
  using assms(2-)
proof (induction "unat (sv_numSlots sv) - s" arbitrary: s c remap)
  case 0
  then show ?case by simp
next
  case (Suc d)
  let ?ns = "unat (sv_numSlots sv)"
  have lt: "s < ?ns"
    using Suc.hyps(2) by simp
  obtain c1 remap1 where r1: "remap_step nk sv s (c, remap) = Inr (c1, remap1)" "length remap1 = length remap" "remapped sv nk (Suc s) c1 remap1"
    "card (holes_from sv c1 nk) = card (taken_from sv (Suc s) ?ns)"
    using remap_step_ok [OF wf Suc.prems(1) lt Suc.prems(3,4,5)] by blast
  have "d = ?ns - Suc s" "nk \<le> Suc s" "Suc s \<le> ?ns" "length remap1 = ?ns - nk"
    using Suc.hyps(2) Suc.prems r1(2) lt by simp_all
  from Suc.hyps(1) [OF this r1(3,4)] show ?case
    using r1(1,2) lt by (simp add: upt_conv_Cons)
qed

text \<open>The final slot of a slot.\<close>

definition final_slot :: "nat \<Rightarrow> u16 list \<Rightarrow> nat \<Rightarrow> nat" where
  "final_slot nk remap s = (if s < nk then s else unat (remap ! (s - nk)))"

lemma buildRemap_ok:
  assumes wf: "search_wf sv" and nk: "sv_numKeys sv \<le> unat (sv_numSlots sv)" and card: "card (taken_from sv 0 (unat (sv_numSlots sv))) = sv_numKeys sv"
  shows "\<exists>remap. buildRemap sv = Inr (remap, sv\<lparr>sv_remapBuffer := remap\<rparr>) \<and> length remap = unat (sv_numSlots sv) - sv_numKeys sv \<and>
    (\<forall>s\<in>taken_from sv 0 (unat (sv_numSlots sv)). final_slot (sv_numKeys sv) remap s < sv_numKeys sv) \<and>
    inj_on (final_slot (sv_numKeys sv) remap) (taken_from sv 0 (unat (sv_numSlots sv)))"
proof -
  let ?nk = "sv_numKeys sv" and ?ns = "unat (sv_numSlots sv)"
  have small: "unat (of_nat ?nk :: u32) = ?nk"
    using nk wf by (simp add: search_wf_def)
  have size: "unat (sv_numSlots sv - of_nat ?nk) = ?ns - ?nk"
    using nk small by (simp add: unat_sub word_le_nat_alt)
  have split: "taken_from sv 0 ?ns = taken_from sv 0 ?nk \<union> taken_from sv ?nk ?ns" "taken_from sv 0 ?nk \<inter> taken_from sv ?nk ?ns = {}"
    using nk by (auto simp: taken_from_def)
  have "{0..<?nk} = holes_from sv 0 ?nk \<union> taken_from sv 0 ?nk" "holes_from sv 0 ?nk \<inter> taken_from sv 0 ?nk = {}"
    by (auto simp: holes_from_def taken_from_def)
  then have "?nk = card (holes_from sv 0 ?nk) + card (taken_from sv 0 ?nk)"
    by (metis card_Un_disjoint card_atLeastLessThan diff_zero finite_from)
  moreover have "?nk = card (taken_from sv 0 ?nk) + card (taken_from sv ?nk ?ns)"
    using card split by (simp add: card_Un_disjoint)
  ultimately have cd: "card (holes_from sv 0 ?nk) = card (taken_from sv ?nk ?ns)"
    by linarith
  have r0: "remapped sv ?nk ?nk 0 (replicate (?ns - ?nk) 0)"
    by (auto simp: remapped_def taken_from_def inj_on_def)
  obtain c remap where run: "rfold (remap_step ?nk sv) [?nk..<?ns] (0, replicate (?ns - ?nk) 0) = Inr (c, remap)" "length remap = ?ns - ?nk"
    and rm: "remapped sv ?nk ?ns c remap"
    using remap_loop_ok [OF wf order_refl nk _ r0 cd] by auto
  have over: "final_slot ?nk remap s \<in> holes_from sv 0 ?nk" if "s \<in> taken_from sv ?nk ?ns" for s
    using rm that by (auto simp: remapped_def final_slot_def taken_from_def)
  have own: "final_slot ?nk remap s = s" if "s \<in> taken_from sv 0 ?nk" for s
    using that by (simp add: final_slot_def taken_from_def)
  have "\<forall>s\<in>taken_from sv 0 ?ns. final_slot ?nk remap s < ?nk"
    unfolding split(1) using over own by (auto simp: holes_from_def taken_from_def)
  moreover have "inj_on (final_slot ?nk remap) (taken_from sv 0 ?ns)"
    unfolding split(1)
  proof (subst inj_on_Un, intro conjI)
    show "inj_on (final_slot ?nk remap) (taken_from sv 0 ?nk)"
      using own by (simp add: inj_on_def)
    have "inj_on (\<lambda>t. unat (remap ! (t - ?nk))) (taken_from sv ?nk ?ns)"
      using rm by (simp add: remapped_def)
    then show "inj_on (final_slot ?nk remap) (taken_from sv ?nk ?ns)"
      by (simp add: inj_on_def final_slot_def taken_from_def)
    show "final_slot ?nk remap ` (taken_from sv 0 ?nk - taken_from sv ?nk ?ns) \<inter> final_slot ?nk remap ` (taken_from sv ?nk ?ns - taken_from sv 0 ?nk) = {}"
      using over own by (fastforce simp: holes_from_def taken_from_def)
  qed
  ultimately show ?thesis
    using run by (intro exI [of _ remap]) (simp add: buildRemap_def Let_def size)
qed

end
