(* ===== verification/Ptr_Reset_Correct.thy ===== *)
theory Ptr_Reset_Correct
  imports Ptr_Remap_Correct
begin

text \<open>
  A solver is reused from block to block. \<open>solver_ok\<close> is what holds between blocks; \<^verbatim>\<open>reset\<close> takes such a
  solver to a state in which no slot is taken and no bucket processed, whatever the last block left in
  its arrays, because the generation moves past every mark.
\<close>

definition solver_ok :: "solver \<Rightarrow> bool" where
  "solver_ok sv \<longleftrightarrow> 1 \<le> sv_generation sv \<and> sv_generation sv < 254 \<and> (\<forall>g\<in>set (sv_slotGen sv). g \<le> sv_generation sv) \<and>
    (\<forall>g\<in>set (sv_processedGen sv). g \<le> sv_generation sv) \<and> sv_maxNumBuckets sv = ptr_bucketsPerBlock \<and>
    length (sv_bucketStarts sv) = Suc ptr_bucketsPerBlock \<and> length (sv_bucketOrder sv) = ptr_bucketsPerBlock \<and>
    length (sv_processedGen sv) = ptr_bucketsPerBlock \<and> length (sv_pinnedBits sv) = pinned_words ptr_bucketsPerBlock \<and> length (sv_pinned sv) = 16 \<and>
    unat (sv_maxNumSlots sv) \<le> length (sv_slotOwner sv) \<and> unat (sv_maxNumSlots sv) \<le> length (sv_slotGen sv) \<and>
    length (sv_foldedBuffer sv) = length (sv_slotsBuffer sv) \<and> length (sv_sortPositions sv) = length (sv_sortCounts sv)"

lemma pinned_words_buckets: "pinned_words ptr_bucketsPerBlock = 157"
  by (simp add: pinned_words_def ptr_bucketsPerBlock_def bitsPerWord_def)

lemma newSolver_ok: "solver_ok (newSolver ptr_bucketsPerBlock n)"
  by (simp add: solver_ok_def newSolver_def Let_def pinnedSize_def)

lemma solver_ok_solved:
  assumes ok: "solver_ok sv" and sol: "solving sv'" and P: "problem_of sv' = problem_of sv"
  shows "solver_ok sv'"
proof -
  have eq: "sv_generation sv' = sv_generation sv" "sv_maxNumBuckets sv' = sv_maxNumBuckets sv" "sv_maxNumSlots sv' = sv_maxNumSlots sv"
    "sv_bucketOrder sv' = sv_bucketOrder sv"
    and len: "length (sv_bucketStarts sv') = length (sv_bucketStarts sv)"
    "length (sv_processedGen sv') = length (sv_processedGen sv)" "length (sv_pinnedBits sv') = length (sv_pinnedBits sv)" "length (sv_pinned sv') = length (sv_pinned sv)"
    "length (sv_slotOwner sv') = length (sv_slotOwner sv)" "length (sv_slotGen sv') = length (sv_slotGen sv)"
    "length (sv_slotsBuffer sv') = length (sv_slotsBuffer sv)" "length (sv_foldedBuffer sv') = length (sv_foldedBuffer sv)"
    "length (sv_sortCounts sv') = length (sv_sortCounts sv)" "length (sv_sortPositions sv') = length (sv_sortPositions sv)"
    using P by (simp_all add: problem_of_def)
  have "\<forall>g\<in>set (sv_slotGen sv'). g \<le> sv_generation sv'" "\<forall>g\<in>set (sv_processedGen sv'). g \<le> sv_generation sv'"
    using sol unfolding solving_def search_wf_def geometry_def by blast+
  then show ?thesis
    using ok unfolding solver_ok_def eq len by blast
qed

section \<open>The cumulative counts\<close>

abbreviation keys_before :: "ptrEntry list list \<Rightarrow> nat \<Rightarrow> nat" where
  "keys_before buckets i \<equiv> sum_list (map length (take i buckets))"

lemma starts_loop_gen:
  assumes "k + length bs \<le> length starts"
  shows "\<exists>starts' mx'. rfold (\<lambda>(i, bucket) (starts, totalKeys, maxBucketSize).
      rbind (set_at starts i (of_nat totalKeys)) (\<lambda>starts.
        Inr (starts, totalKeys + length bucket, max maxBucketSize (length bucket)))) (List.enumerate k bs) (starts, tot, mx) =
      Inr (starts' :: u16 list, tot + sum_list (map length bs), mx') \<and> length starts' = length starts \<and> mx \<le> mx' \<and> (\<forall>b\<in>set bs. length b \<le> mx') \<and>
    (\<forall>i<length bs. starts' ! (k + i) = of_nat (tot + keys_before bs i)) \<and> (\<forall>i<k. starts' ! i = starts ! i) \<and> (mx' = mx \<or> (\<exists>b\<in>set bs. mx' = length b))"
  using assms
proof (induction bs arbitrary: k starts tot mx)
  case (Cons b bs)
  let ?s = "starts[k := of_nat tot]"
  obtain starts' mx' where r: "rfold (\<lambda>(i, bucket) (starts, totalKeys, maxBucketSize).
      rbind (set_at starts i (of_nat totalKeys)) (\<lambda>starts.
        Inr (starts, totalKeys + length bucket, max maxBucketSize (length bucket)))) (List.enumerate (Suc k) bs) (?s, tot + length b, max mx (length b)) =
      Inr (starts' :: u16 list, (tot + length b) + sum_list (map length bs), mx')"
    and len: "length starts' = length ?s" and m: "max mx (length b) \<le> mx'" "\<forall>b\<in>set bs. length b \<le> mx'" "mx' = max mx (length b) \<or> (\<exists>b\<in>set bs. mx' = length b)"
    and s: "\<forall>i<length bs. starts' ! (Suc k + i) = of_nat ((tot + length b) + keys_before bs i)" "\<forall>i<Suc k. starts' ! i = ?s ! i"
    using Cons.IH [of "Suc k" ?s "tot + length b" "max mx (length b)"] Cons.prems by auto
  have k: "k < length starts"
    using Cons.prems by simp
  have "starts' ! (k + i) = of_nat (tot + keys_before (b # bs) i)" if "i < length (b # bs)" for i
  proof (cases i)
    case 0
    then show ?thesis
      using s(2) k by simp
  next
    case (Suc j)
    then show ?thesis
      using s(1) that by (simp add: add.assoc)
  qed
  moreover have "\<forall>i<k. starts' ! i = starts ! i"
    using s(2) by simp
  moreover have "mx' = mx \<or> (\<exists>b'\<in>set (b # bs). mx' = length b')"
    using m(3) by (auto simp: max_def split: if_splits)
  ultimately show ?case
    using r len m(1,2) k by (intro exI [of _ starts'] exI [of _ mx']) (simp add: add.assoc)
qed simp

lemma starts_loop_ok:
  assumes len: "length starts = Suc (length bs)" and tot: "sum_list (map length bs) < 65536"
  shows "\<exists>starts' mx. rbind (starts_loop bs starts) (\<lambda>(starts, totalKeys, maxBucketSize).
      rbind (set_at starts (length bs) (of_nat totalKeys)) (\<lambda>starts. Inr (starts, maxBucketSize))) = Inr (starts', mx) \<and>
    length starts' = length starts \<and> (\<forall>b\<in>set bs. length b \<le> mx) \<and> mx < 65536 \<and> (\<forall>i<length bs. unat (starts' ! Suc i - starts' ! i) = length (bs ! i))"
proof -
  let ?t = "sum_list (map length bs)"
  obtain starts' mx where r: "starts_loop bs starts = Inr (starts', ?t, mx)"
    and s: "length starts' = length starts" "\<forall>b\<in>set bs. length b \<le> mx" "\<forall>i<length bs. starts' ! i = of_nat (keys_before bs i)" "mx = 0 \<or> (\<exists>b\<in>set bs. mx = length b)"
    using starts_loop_gen [of 0 bs starts 0 0] len unfolding starts_loop_def by auto
  let ?s = "starts'[length bs := of_nat ?t]"
  have at: "?s ! i = of_nat (keys_before bs i)" if "i \<le> length bs" for i
    using that s(1,3) len by (cases "i = length bs") simp_all
  have part: "keys_before bs i + sum_list (map length (drop i bs)) = ?t" for i
    by (metis append_take_drop_id map_append sum_list_append)
  have diff: "unat (?s ! Suc i - ?s ! i) = length (bs ! i)" if "i < length bs" for i
  proof -
    have e: "keys_before bs (Suc i) = keys_before bs i + length (bs ! i)"
      using that by (simp add: take_Suc_conv_app_nth)
    have "length (bs ! i) < 65536"
      using part [of "Suc i"] e tot by linarith
    then show ?thesis
      using at [of i] at [of "Suc i"] that e by simp
  qed
  have "mx < 65536"
  proof -
    have "length b \<le> ?t" if "b \<in> set bs" for b
      using that by (simp add: member_le_sum_list)
    then show ?thesis
      using s(4) tot by fastforce
  qed
  then show ?thesis
    using r s len diff by (intro exI [of _ ?s] exI [of _ mx]) simp
qed

section \<open>The generation\<close>

lemma next_generation_ok:
  assumes gen: "1 \<le> sv_generation sv" "sv_generation sv < 254" and marks: "\<forall>g\<in>set (sv_slotGen sv). g \<le> sv_generation sv" "\<forall>g\<in>set (sv_processedGen sv). g \<le> sv_generation sv"
    and n: "length (sv_processedGen sv) = n"
  shows "\<exists>g sg pg. next_generation n sv = Inr (sv\<lparr>sv_generation := g, sv_slotGen := sg, sv_processedGen := pg\<rparr>) \<and> 1 \<le> g \<and> g < 254 \<and>
    length sg = length (sv_slotGen sv) \<and> length pg = n \<and> (\<forall>x\<in>set sg. x < g) \<and> (\<forall>x\<in>set pg. x < g)"
proof -
  have u: "unat (sv_generation sv + 1) = unat (sv_generation sv) + 1"
    using gen(2) by (simp add: unat_word_ariths word_less_nat_alt)
  then have lt: "sv_generation sv < sv_generation sv + 1" "1 \<le> sv_generation sv + 1"
    by (simp_all add: word_less_nat_alt word_le_nat_alt)
  show ?thesis
  proof (cases "sv_generation sv + 1 \<ge> 254")
    case True
    then have "next_generation n sv = Inr (sv\<lparr>sv_generation := 1, sv_slotGen := map (\<lambda>_. 0) (sv_slotGen sv), sv_processedGen := replicate n 0\<rparr>)"
      using n by (simp add: next_generation_def)
    then show ?thesis
      by (intro exI [of _ 1] exI [of _ "map (\<lambda>_. 0) (sv_slotGen sv)"] exI [of _ "replicate n 0"]) auto
  next
    case False
    then have "next_generation n sv = Inr (sv\<lparr>sv_generation := sv_generation sv + 1, sv_slotGen := sv_slotGen sv, sv_processedGen := sv_processedGen sv\<rparr>)"
      by (simp add: next_generation_def Let_def)
    moreover have "\<forall>x\<in>set (sv_slotGen sv). x < sv_generation sv + 1" "\<forall>x\<in>set (sv_processedGen sv). x < sv_generation sv + 1"
      using marks lt(1) le_less_trans by blast+
    ultimately show ?thesis
      using False lt(2) n by (intro exI [of _ "sv_generation sv + 1"] exI [of _ "sv_slotGen sv"] exI [of _ "sv_processedGen sv"]) (simp add: not_le)
  qed
qed

section \<open>Growing the arrays\<close>

lemma grow_slots_ok:
  assumes "unat (sv_maxNumSlots sv) \<le> length (sv_slotOwner sv)" "unat (sv_maxNumSlots sv) \<le> length (sv_slotGen sv)"
  shows "\<exists>m own sg. grow_slots ns sv = sv\<lparr>sv_maxNumSlots := m, sv_slotOwner := own, sv_slotGen := sg\<rparr> \<and> unat m \<le> length own \<and> unat m \<le> length sg \<and>
    unat ns \<le> length own \<and> unat ns \<le> length sg \<and> set sg \<subseteq> insert 0 (set (sv_slotGen sv))"
proof (cases "ns > sv_maxNumSlots sv")
  case True
  then show ?thesis
    by (intro exI [of _ ns] exI [of _ "replicate (unat ns) 0"]) (auto simp: grow_slots_def)
next
  case False
  then have "unat ns \<le> unat (sv_maxNumSlots sv)"
    by (simp add: word_less_nat_alt)
  then show ?thesis
    using False assms by (intro exI [of _ "sv_maxNumSlots sv"] exI [of _ "sv_slotOwner sv"] exI [of _ "sv_slotGen sv"]) (auto simp: grow_slots_def)
qed

lemma grow_buffers_ok:
  assumes "length (sv_foldedBuffer sv) = length (sv_slotsBuffer sv)" and "length (sv_sortPositions sv) = length (sv_sortCounts sv)"
  shows "\<exists>sb fb pg sc sp. grow_buffers mx ns sv = sv\<lparr>sv_slotsBuffer := sb, sv_foldedBuffer := fb, sv_phase2SlotGen := pg, sv_sortCounts := sc, sv_sortPositions := sp\<rparr> \<and>
    mx \<le> length sb \<and> length fb = length sb \<and> unat ns \<le> length pg \<and> mx < length sc \<and> length sp = length sc"
proof -
  define sb where "sb = (if mx > length (sv_slotsBuffer sv) then replicate mx 0 else sv_slotsBuffer sv)"
  define fb where "fb = (if mx > length (sv_slotsBuffer sv) then replicate mx 0 else sv_foldedBuffer sv)"
  define pg where "pg = (if unat ns > length (sv_phase2SlotGen sv) then replicate (unat ns) 0 else sv_phase2SlotGen sv)"
  define sc where "sc = (if mx + 1 > length (sv_sortCounts sv) then replicate (mx + 1) 0 else sv_sortCounts sv)"
  define sp where "sp = (if mx + 1 > length (sv_sortCounts sv) then replicate (mx + 1) 0 else sv_sortPositions sv)"
  have "grow_buffers mx ns sv = sv\<lparr>sv_slotsBuffer := sb, sv_foldedBuffer := fb, sv_phase2SlotGen := pg, sv_sortCounts := sc, sv_sortPositions := sp\<rparr>"
    by (simp add: grow_buffers_def sb_def fb_def pg_def sc_def sp_def)
  moreover have "mx \<le> length sb \<and> length fb = length sb \<and> unat ns \<le> length pg \<and> mx < length sc \<and> length sp = length sc"
    using assms by (simp add: sb_def fb_def pg_def sc_def sp_def)
  ultimately show ?thesis by blast
qed

section \<open>Reset\<close>

definition fresh_for :: "ptrEntry list list \<Rightarrow> nat \<Rightarrow> u64 \<Rightarrow> solver \<Rightarrow> bool" where
  "fresh_for buckets nk seed sv \<longleftrightarrow> solver_ok sv \<and> search_wf sv \<and> geometry sv \<and> sv_buckets sv = buckets \<and> sv_numKeys sv = nk \<and>
    sv_numSlots sv = computeNumSlots nk \<and> sv_pilotHPs sv = initPilotHPs seed \<and> sv_globalSeed sv = seed \<and>
    sv_evictions sv = 0 \<and> (\<forall>i < sv_numBuckets sv. \<not> processed sv i) \<and> (\<forall>s < unat (sv_numSlots sv). \<not> taken sv s) \<and>
    length (sv_bucketOrder sv) = sv_numBuckets sv \<and> unat ` set (sv_bucketOrder sv) = {0..<sv_numBuckets sv}"

lemma solver_reset_ok:
  assumes ok: "solver_ok sv" and b: "length buckets = ptr_bucketsPerBlock" "sum_list (map length buckets) < 65536"
    and ns: "0 < unat (computeNumSlots nk)" "unat (computeNumSlots nk) \<le> 65535" and dst: "ptr_bucketsPerBlock \<le> length dst"
  shows "\<exists>sv'. solver_reset buckets nk seed (Some dst) sv = Inr sv' \<and> fresh_for buckets nk seed sv'"
proof -
  let ?N = "ptr_bucketsPerBlock" and ?ns = "computeNumSlots nk"
  have N: "?N = 10000" "pinned_words ?N = 157"
    using pinned_words_buckets by (simp_all add: ptr_bucketsPerBlock_def)
  note so = ok [unfolded solver_ok_def]
  define sv0 where "sv0 = sv\<lparr>sv_globalSeed := seed, sv_numBuckets := ?N, sv_numSlots := ?ns, sv_numKeys := nk,
                sv_evictions := 0, sv_pinnedIdx := 0, sv_pilotHPs := initPilotHPs seed, sv_buckets := buckets\<rparr>"
  obtain m own sg where gs: "grow_slots ?ns sv0 = sv0\<lparr>sv_maxNumSlots := m, sv_slotOwner := own, sv_slotGen := sg\<rparr>"
    and s1: "unat m \<le> length own" "unat m \<le> length sg" "unat ?ns \<le> length own" "unat ?ns \<le> length sg" "set sg \<subseteq> insert 0 (set (sv_slotGen sv))"
    using grow_slots_ok [of sv0 ?ns] so by (auto simp: sv0_def)
  define sv2 where "sv2 = sv0\<lparr>sv_maxNumSlots := m, sv_slotOwner := own, sv_slotGen := sg, sv_pilots := take ?N dst\<rparr>"
  have pre: "rbind (set_pilots ?N (Some dst) (grow_buckets ?N False (grow_slots ?ns sv0))) f = f sv2" for f :: "solver \<Rightarrow> solver res"
    unfolding gs using so dst by (simp add: grow_buckets_def set_pilots_def sv2_def sv0_def)
  obtain starts mx where st: "rbind (starts_loop buckets (sv_bucketStarts sv)) (\<lambda>(starts, totalKeys, maxBucketSize).
      rbind (set_at starts ?N (of_nat totalKeys)) (\<lambda>starts. Inr (starts, maxBucketSize))) = Inr (starts, mx)"
    and s2: "length starts = Suc ?N" "\<forall>b\<in>set buckets. length b \<le> mx" "mx < 65536" "\<And>i. i < ?N \<Longrightarrow> unat (starts ! Suc i - starts ! i) = length (buckets ! i)"
    using starts_loop_ok [of "sv_bucketStarts sv" buckets] so b by auto
  obtain sb fb pg sc sp where gb: "grow_buffers mx ?ns (sv2\<lparr>sv_bucketStarts := starts\<rparr>) =
      sv2\<lparr>sv_bucketStarts := starts, sv_slotsBuffer := sb, sv_foldedBuffer := fb, sv_phase2SlotGen := pg, sv_sortCounts := sc, sv_sortPositions := sp\<rparr>"
    and s3: "mx \<le> length sb" "length fb = length sb" "unat ?ns \<le> length pg" "mx < length sc" "length sp = length sc"
    using grow_buffers_ok [of "sv2\<lparr>sv_bucketStarts := starts\<rparr>" mx ?ns] so by (auto simp: sv2_def sv0_def)
  have fit: "length (buckets ! i) < length sc \<and> length (buckets ! i) < length sp" if "i < ?N" for i
    using s2(2) s3(4,5) that b(1) by (metis le_less_trans nth_mem)
  define order where "order = (map of_nat (sort_key (\<lambda>i. - int (length (buckets ! i))) [0..<?N]) :: u16 list)"
  obtain c p where cs: "countingSortBucketsInto starts (sv_bucketOrder sv) sc sp = Inr (order, c, p)" "length c = length sc" "length p = length sp"
    using countingSort_ok [OF s2(1,4) _ fit, of "sv_bucketOrder sv"] so by (auto simp: order_def)
  have lo: "length order = ?N"
    by (simp add: order_def)
  define sv3 where "sv3 = sv2\<lparr>sv_bucketStarts := starts, sv_slotsBuffer := sb, sv_foldedBuffer := fb, sv_phase2SlotGen := pg, sv_bucketOrder := order, sv_sortCounts := c, sv_sortPositions := p\<rparr>"
  have marks: "\<forall>g\<in>set (sv_slotGen sv3). g \<le> sv_generation sv3" "\<forall>g\<in>set (sv_processedGen sv3). g \<le> sv_generation sv3" "length (sv_processedGen sv3) = ?N"
      "1 \<le> sv_generation sv3" "sv_generation sv3 < 254"
    using so s1(5) by (auto simp: sv3_def sv2_def sv0_def)
  obtain g sg' pg' where ng: "next_generation ?N sv3 = Inr (sv3\<lparr>sv_generation := g, sv_slotGen := sg', sv_processedGen := pg'\<rparr>)"
    and s4: "1 \<le> g" "g < 254" "length sg' = length sg" "length pg' = ?N" "\<forall>x\<in>set sg'. x < g" "\<forall>x\<in>set pg'. x < g"
    using next_generation_ok [OF marks(4,5,1,2,3)] by (auto simp: sv3_def sv2_def)
  define sv4 where "sv4 = sv3\<lparr>sv_generation := g, sv_slotGen := sg', sv_processedGen := pg', sv_pinned := map (\<lambda>_. - 1) (sv_pinned sv), sv_pinnedBits := replicate 157 0\<rparr>"
  have cp: "clear_pins ?N (sv3\<lparr>sv_generation := g, sv_slotGen := sg', sv_processedGen := pg'\<rparr>) = Inr sv4"
    using so N by (simp add: clear_pins_def sv4_def sv3_def sv2_def sv0_def)
  obtain starts0 tot where st0: "starts_loop buckets (sv_bucketStarts sv2) = Inr (starts0, tot, mx)" "set_at starts0 ?N (of_nat tot) = Inr starts"
    using st by (auto simp: sv2_def sv0_def rbind_pair_Inr rbind_eq_Inr)
  have tk: "take (?N + 1) starts = starts" "take ?N (sv_bucketOrder sv) = sv_bucketOrder sv" "drop ?N (sv_bucketOrder sv) = []"
    using s2(1) so by simp_all
  have nd: "(Some dst = None) = False"
    by simp
  have run: "solver_reset buckets nk seed (Some dst) sv = Inr sv4"
    unfolding solver_reset_def Let_def b(1) nd sv0_def [symmetric] pre st0 rbind_Inr prod.case gb
    using s2(1) so tk cs(1) ng cp by (simp add: sv2_def sv0_def sv3_def)
  have f: "sv_buckets sv4 = buckets" "sv_numKeys sv4 = nk" "sv_numSlots sv4 = ?ns" "sv_pilotHPs sv4 = initPilotHPs seed" "sv_globalSeed sv4 = seed"
      "sv_numBuckets sv4 = ?N" "sv_generation sv4 = g" "sv_slotGen sv4 = sg'" "sv_processedGen sv4 = pg'" "sv_bucketOrder sv4 = order" "sv_slotOwner sv4 = own"
      "sv_pinned sv4 = map (\<lambda>_. - 1) (sv_pinned sv)" "sv_pinnedBits sv4 = replicate 157 0" "sv_slotsBuffer sv4 = sb" "sv_foldedBuffer sv4 = fb"
      "sv_phase2SlotGen sv4 = pg" "sv_sortCounts sv4 = c" "sv_sortPositions sv4 = p" "sv_bucketStarts sv4 = starts" "sv_maxNumSlots sv4 = m"
      "sv_maxNumBuckets sv4 = sv_maxNumBuckets sv" "sv_pilots sv4 = take ?N dst" "sv_pinnedIdx sv4 = 0" "sv_evictions sv4 = 0"
    by (simp_all add: sv4_def sv3_def sv2_def sv0_def)
  have le: "\<forall>x\<in>set sg'. x \<le> g" "\<forall>x\<in>set pg'. x \<le> g"
    using s4 by auto
  have "solver_ok sv4"
    unfolding solver_ok_def f using so s1 s2(1) s3 s4 cs(2,3) le N lo by simp
  moreover have "search_wf sv4"
    unfolding search_wf_def f using ns s1 s3 s4 le by simp
  moreover have "geometry sv4"
    unfolding geometry_def f using so b(1) N dst s1 s2(2,3) s3 s4(4) le by fastforce
  moreover have "\<not> processed sv4 i" if "i < ?N" for i
    using s4(4,6) that nth_mem [of i pg'] by (fastforce simp: processed_def f)
  moreover have "\<not> taken sv4 i" if "i < unat ?ns" for i
    using s4(3,5) s1(4) that nth_mem [of i sg'] by (fastforce simp: taken_def f)
  moreover have "unat ` set order = {0..<?N}"
  proof -
    have "unat (of_nat i :: u16) = i" if "i < ?N" for i
      using that N by simp
    then show ?thesis
      by (simp add: order_def image_image)
  qed
  ultimately have "fresh_for buckets nk seed sv4"
    by (simp add: fresh_for_def f lo)
  with run show ?thesis by blast
qed

section \<open>Solving a block\<close>

lemma all_placed:
  assumes sol: "solving sv" and all: "\<forall>i < sv_numBuckets sv. processed sv i"
  shows "distinct (concat (map (bucket_slots sv) [0..<sv_numBuckets sv]))"
    and "set (concat (map (bucket_slots sv) [0..<sv_numBuckets sv])) = taken_from sv 0 (unat (sv_numSlots sv))"
proof -
  have pl: "placed sv" and wf: "search_wf sv"
    using sol by (simp_all add: solving_def)
  have b: "distinct (bucket_slots sv i)" "\<forall>s\<in>set (bucket_slots sv i). taken sv s \<and> owner sv s = i" if "i < sv_numBuckets sv" for i
    using pl all that by (auto simp: placed_def)
  have "distinct (concat (map (bucket_slots sv) [0..<n]))" if "n \<le> sv_numBuckets sv" for n
    using that
  proof (induction n)
    case (Suc n)
    have "s \<notin> set (bucket_slots sv n)" if "s \<in> set (bucket_slots sv i)" "i < n" for s i
      using b(2) [of i] b(2) [of n] Suc.prems that by auto
    then have "set (concat (map (bucket_slots sv) [0..<n])) \<inter> set (bucket_slots sv n) = {}"
      by auto
    then show ?case
      using Suc b(1) by simp
  qed simp
  then show "distinct (concat (map (bucket_slots sv) [0..<sv_numBuckets sv]))"
    by blast
  have "s < unat (sv_numSlots sv)" if "s \<in> set (bucket_slots sv i)" for s i
    using that solving_bucket_less [OF wf] by (simp add: bucket_slots_def)
  moreover have "\<exists>i < sv_numBuckets sv. s \<in> set (bucket_slots sv i)" if "s < unat (sv_numSlots sv)" "taken sv s" for s
    using pl that by (auto simp: placed_def)
  ultimately show "set (concat (map (bucket_slots sv) [0..<sv_numBuckets sv])) = taken_from sv 0 (unat (sv_numSlots sv))"
    using b(2) by (auto simp: taken_from_def Bex_def)
qed

text \<open>The slots that the pilots and the remap table of a solved block give, bucket by bucket.\<close>

definition entry_slot :: "u64 \<Rightarrow> nat \<Rightarrow> bytes \<Rightarrow> u16 list \<Rightarrow> nat \<Rightarrow> ptrEntry \<Rightarrow> nat" where
  "entry_slot seed nk pilots remap i e =
    final_slot nk remap (unat (pilotSlotFolded (entry_fold e) (pilotHash (pilots ! i) seed) (computeNumSlots nk)))"

definition block_solved :: "ptrEntry list list \<Rightarrow> u64 \<Rightarrow> bytes \<Rightarrow> u16 list \<Rightarrow> bool" where
  "block_solved buckets seed pilots remap \<longleftrightarrow> (let nk = sum_list (map length buckets);
      slots = concat (map (\<lambda>i. map (entry_slot seed nk pilots remap i) (buckets ! i)) [0..<length buckets])
    in length pilots = length buckets \<and> length remap = unat (computeNumSlots nk) - nk \<and> distinct slots \<and> (\<forall>s\<in>set slots. s < nk))"

lemma pilotHP_init: "sv_pilotHPs sv = initPilotHPs seed \<Longrightarrow> pilotHP sv p = pilotHash p seed"
  using unat_lt2p [of p] by (simp add: pilotHP_def initPilotHPs_def numPilotValues_def)

lemma block_solved_ok:
  assumes sol: "solving sv" and all: "\<forall>i < sv_numBuckets sv. processed sv i"
    and nk: "sv_numKeys sv = sum_list (map length (sv_buckets sv))" "sv_numSlots sv = computeNumSlots (sv_numKeys sv)" "sv_numKeys sv < 65536"
    and hp: "sv_pilotHPs sv = initPilotHPs seed"
  shows "\<exists>remap. buildRemap sv = Inr (remap, sv\<lparr>sv_remapBuffer := remap\<rparr>) \<and> block_solved (sv_buckets sv) seed (sv_pilots sv) remap"
proof -
  let ?nk = "sv_numKeys sv" and ?N = "sv_numBuckets sv" and ?ns = "unat (sv_numSlots sv)"
  let ?S = "concat (map (bucket_slots sv) [0..<?N])"
  have geo: "?N = length (sv_buckets sv)" "length (sv_pilots sv) = ?N" and wf: "search_wf sv"
    using sol unfolding solving_def geometry_def by blast+
  note S = all_placed [OF sol all]
  have "length ?S = sum_list (map (\<lambda>i. length (sv_buckets sv ! i)) [0..<?N])"
    by (simp add: length_concat comp_def bucket_slots_def slots_at_def)
  also have "\<dots> = ?nk"
    unfolding nk(1) geo(1) by (metis (no_types, lifting) list.map_comp map_nth comp_apply map_cong)
  finally have "card (taken_from sv 0 ?ns) = ?nk"
    using distinct_card [OF S(1)] S(2) by simp
  moreover have "?nk \<le> ?ns"
    using computeNumSlots_ge [of ?nk] nk(2,3) by simp
  ultimately obtain remap where r: "buildRemap sv = Inr (remap, sv\<lparr>sv_remapBuffer := remap\<rparr>)" "length remap = ?ns - ?nk"
    "\<forall>s\<in>taken_from sv 0 ?ns. final_slot ?nk remap s < ?nk" "inj_on (final_slot ?nk remap) (taken_from sv 0 ?ns)"
    using buildRemap_ok [OF wf] by blast
  have bsl: "bucket_slots sv i = map (\<lambda>e. unat (pilotSlotFolded (entry_fold e) (pilotHash (sv_pilots sv ! i) seed) (computeNumSlots ?nk))) (sv_buckets sv ! i)" for i
    using nk(2) by (simp add: bucket_slots_def slots_at_def slot_of_def pilotHP_init [OF hp])
  have eq: "concat (map (\<lambda>i. map (entry_slot seed ?nk (sv_pilots sv) remap i) (sv_buckets sv ! i)) [0..<length (sv_buckets sv)]) = map (final_slot ?nk remap) ?S"
    unfolding map_concat geo(1) by (simp add: comp_def bsl entry_slot_def [abs_def])
  have "distinct (map (final_slot ?nk remap) ?S)" "\<forall>s\<in>set (map (final_slot ?nk remap) ?S). s < ?nk"
    using S r(3,4) by (simp_all add: distinct_map)
  then have "block_solved (sv_buckets sv) seed (sv_pilots sv) remap"
    unfolding block_solved_def Let_def nk(1) [symmetric] eq using r(2) nk(2) geo by simp
  with r(1) show ?thesis
    by blast
qed

text \<open>The state in which the main loop starts, and its random numbers.\<close>

definition solve_init :: "solver \<Rightarrow> solver" where
  "solve_init sv = sv\<lparr>sv_pendingHeap := heap_clear (sv_pendingHeap sv), sv_bestSlots := [], sv_evictedOwners := []\<rparr>"

definition solve_rng :: "nat \<Rightarrow> solver \<Rightarrow> pcg" where
  "solve_rng a sv = (let seedBase = splitMix64 (sv_globalSeed sv XOR ((of_nat a + 1) * 0x9E3779B97F4A7C15)) in (seedBase, splitMix64 seedBase))"

abbreviation solve_main :: "nat \<Rightarrow> solver \<Rightarrow> (bool \<times> solver) res" where
  "solve_main a sv \<equiv> ptr_solve_loop (maxEvictionMultiplier * unat (sv_numSlots sv)) (sv_bucketOrder sv) (solve_rng a sv) (solve_init sv)"

lemma solve_start:
  assumes fr: "fresh_for buckets nk seed sv" and nk: "0 < nk"
  shows "solving (solve_init sv)" "waiting (solve_init sv) = {}" "problem_of (solve_init sv) = problem_of sv"
    "\<forall>b\<in>set (sv_bucketOrder sv). unat b < sv_numBuckets (solve_init sv)" "work_of (solve_init sv) = (0, 0)"
    "solver_solve a sv = rbind (solve_main a sv) (\<lambda>(evictionLimitHit, sv).
        if evictionLimitHit then Inr (None, sv) else rbind (buildRemap sv) (\<lambda>(remap, sv). Inr (Some remap, sv)))"
proof -
  note f = fr [unfolded fresh_for_def]
  have wf: "search_wf sv" and geo: "geometry sv"
    using f by blast+
  show P1: "problem_of (solve_init sv) = problem_of sv"
    by (simp add: solve_init_def problem_of_def)
  have "placed (solve_init sv)"
    using f by (simp add: placed_def processed_def taken_def solve_init_def)
  moreover have "search_wf (solve_init sv)"
    by (rule search_wf_cong [OF wf P1]) (use wf in \<open>simp add: solve_init_def search_wf_def\<close>)
  moreover have "geometry (solve_init sv)"
    by (rule geometry_cong [OF geo P1]) (use geo in \<open>auto simp: solve_init_def geometry_def\<close>)
  moreover have "heap_of_buckets (solve_init sv)" and "waiting (solve_init sv) = {}" and w: "work_of (solve_init sv) = (0, 0)"
    using heap_clear_ok [of "sv_pendingHeap sv"] size_heap_contents [of "heap_clear (sv_pendingHeap sv)"] f
    by (simp_all add: solve_init_def heap_of_buckets_def waiting_def work_of_def)
  ultimately show "solving (solve_init sv)" "waiting (solve_init sv) = {}" "work_of (solve_init sv) = (0, 0)"
    by (simp_all add: solving_def)
  have "unat ` set (sv_bucketOrder sv) = {0..<sv_numBuckets sv}"
    using f by blast
  then show "\<forall>b\<in>set (sv_bucketOrder sv). unat b < sv_numBuckets (solve_init sv)"
    by (auto simp: solve_init_def)
  have "unat (sv_numSlots sv) \<le> 65535"
    using wf by (simp add: search_wf_def)
  then show "solver_solve a sv = rbind (solve_main a sv) (\<lambda>(evictionLimitHit, sv).
        if evictionLimitHit then Inr (None, sv) else rbind (buildRemap sv) (\<lambda>(remap, sv). Inr (Some remap, sv)))"
    using nk f by (simp add: solver_solve_def Let_def solve_init_def solve_rng_def)
qed

lemma solve_loop_outcome:
  assumes fr: "fresh_for buckets nk seed sv" and nk: "0 < nk"
  shows "(\<exists>hit sv2. solve_main a sv = Inr (hit, sv2) \<and> solving sv2 \<and> problem_of sv2 = problem_of sv \<and> (\<not> hit \<longrightarrow> (\<forall>i < sv_numBuckets sv. processed sv2 i))) \<or>
    (\<exists>e. solve_main a sv = Inl e \<and> solve_error sv e)"
proof -
  note st = solve_start [OF fr nk]
  have c: "covers (solve_init sv) {}"
    by (simp add: covers_def)
  have ord: "unat ` set (sv_bucketOrder sv) = {0..<sv_numBuckets sv}" and se: "solve_error (solve_init sv) = solve_error sv"
    using fr by (simp_all add: fresh_for_def solve_error_def solve_init_def fun_eq_iff)
  show ?thesis
    using ptr_solve_loop_ok [OF st(1,2) c st(4), of "maxEvictionMultiplier * unat (sv_numSlots sv)" "solve_rng a sv", unfolded Un_empty_left ord se st(3)]
    by (simp add: Ball_def)
qed

lemma solve_finish:
  assumes fr: "fresh_for buckets nk seed sv" and nk: "nk = sum_list (map length buckets)" "0 < nk" "nk < 65536" and loop: "solve_main a sv = Inr (False, sv2)"
  shows "\<exists>remap. buildRemap sv2 = Inr (remap, sv2\<lparr>sv_remapBuffer := remap\<rparr>) \<and> block_solved buckets seed (sv_pilots sv2) remap"
proof -
  have s: "solving sv2" "problem_of sv2 = problem_of sv" "\<forall>i < sv_numBuckets sv. processed sv2 i"
    using solve_loop_outcome [OF fr nk(2), of a] loop by auto
  then have "sv_numBuckets sv2 = sv_numBuckets sv" "sv_numKeys sv2 = nk" "sv_numSlots sv2 = computeNumSlots nk" "sv_buckets sv2 = buckets" "sv_pilotHPs sv2 = initPilotHPs seed"
    using fr by (simp_all add: problem_of_def fresh_for_def)
  then show ?thesis
    using block_solved_ok [OF s(1), of seed] s(3) nk by simp
qed

lemma solver_solve_ok:
  assumes fr: "fresh_for buckets nk seed sv" and nk: "nk = sum_list (map length buckets)" "0 < nk" "nk < 65536"
  shows "(\<exists>remap sv'. solver_solve a sv = Inr (Some remap, sv') \<and> solver_ok sv' \<and> sv_numSlots sv' = computeNumSlots nk \<and> block_solved buckets seed (sv_pilots sv') remap) \<or>
    (\<exists>sv'. solver_solve a sv = Inr (None, sv') \<and> solver_ok sv' \<and> length (sv_pilots sv') = length buckets) \<or>
    (\<exists>e. solver_solve a sv = Inl e \<and> solve_error sv e)"
proof -
  note f = fr [unfolded fresh_for_def] and run = solve_start(6) [OF fr nk(2), of a]
  consider sv2 where "solve_main a sv = Inr (True, sv2)" "solving sv2" "problem_of sv2 = problem_of sv"
    | sv2 where "solve_main a sv = Inr (False, sv2)" "solving sv2" "problem_of sv2 = problem_of sv"
    | e where "solve_main a sv = Inl e" "solve_error sv e"
    using solve_loop_outcome [OF fr nk(2), of a] by (metis (full_types))
  then show ?thesis
  proof cases
    case (1 sv2)
    have "length (sv_pilots sv2) = length buckets"
      using 1(2,3) f by (simp add: solving_def geometry_def problem_of_def)
    then show ?thesis
      using 1(1) run solver_ok_solved [OF _ 1(2,3)] f by simp
  next
    case (2 sv2)
    obtain remap where r: "buildRemap sv2 = Inr (remap, sv2\<lparr>sv_remapBuffer := remap\<rparr>)" "block_solved buckets seed (sv_pilots sv2) remap"
      using solve_finish [OF fr nk 2(1)] by blast
    have "solver_ok sv2"
      using solver_ok_solved [OF _ 2(2,3)] f by simp
    then have "solver_ok (sv2\<lparr>sv_remapBuffer := remap\<rparr>)"
      by (simp add: solver_ok_def)
    moreover have "sv_numSlots sv2 = computeNumSlots nk"
      using 2(3) f by (simp add: problem_of_def)
    ultimately show ?thesis
      using 2(1) r run by simp
  next
    case (3 e)
    then show ?thesis
      using run by simp
  qed
qed

end
