(* ===== verification/Ptr_Limits.thy ===== *)
theory Ptr_Limits
  imports Ptr_Builder
begin

text \<open>
  Sizing of the PTRHash algorithm: the number of blocks, the keys-per-block limit and the metadata
  estimates, all computed in floating point by the code.
\<close>

lemma ptr_ceil_bounds:
  assumes "n < 2 ^ 40"
  shows "100 * n \<le> 317 * (f64_ceil (f64_div (f64_of_nat n) ptr_lambda) + 1)" and "f64_ceil (f64_div (f64_of_nat n) ptr_lambda) \<le> n div 3 + 1"
proof -
  define y where "y = of_nat n / ptr_lambda"
  define x where "x = f64_div (f64_of_nat n) ptr_lambda"
  have n40: "(of_nat n :: rat) < 2 ^ 40"
    using assms by (metis of_nat_less_iff of_nat_numeral of_nat_power)
  have y: "0 \<le> y" "y < 2 ^ 53"
    using n40 by (simp_all add: y_def ptr_lambda_value)
  have x: "x = f64_round y"
    using f64_of_nat_exact [of n] assms by (simp add: x_def f64_div_def y_def)
  have "(of_nat n :: rat) \<le> of_nat (3 * (n div 3 + 1))"
    by (simp only: of_nat_le_iff) arith
  then have "y \<le> of_int (int (n div 3 + 1))"
    by (simp add: y_def ptr_lambda_value)
  then have "x \<le> of_int (int (n div 3 + 1))"
    unfolding x by (rule f64_round_bounds(1) [OF y])
  then have hi: "\<lceil>x\<rceil> \<le> int (n div 3 + 1)"
    by (simp only: ceiling_le_iff)
  have "of_int \<lfloor>y\<rfloor> \<le> x"
    unfolding x by (rule f64_round_bounds(2) [OF y]) simp
  then have fl: "\<lfloor>y\<rfloor> \<le> \<lceil>x\<rceil>"
    by linarith
  have "0 \<le> \<lceil>x\<rceil>"
    using fl y(1) by (meson order_trans zero_le_floor)
  then have c: "int (f64_ceil x) = \<lceil>x\<rceil>"
    by (simp add: f64_ceil_def)
  have "y \<le> of_int (int (f64_ceil x)) + 1"
    using fl unfolding c by linarith
  then have "of_nat n \<le> ptr_lambda * (of_nat (f64_ceil x) + 1)"
    by (simp add: y_def ptr_lambda_value)
  then have "of_nat (100 * n) \<le> (of_nat (317 * (f64_ceil x + 1)) :: rat)"
    by (simp add: ptr_lambda_value algebra_simps)
  then show "100 * n \<le> 317 * (f64_ceil x + 1)"
    by (simp only: of_nat_le_iff)
  show "f64_ceil x \<le> n div 3 + 1"
    using hi c by linarith
qed

lemma cover_arith:
  fixes n t b :: nat
  assumes "100 * n \<le> 317 * (t + 1)" and "t \<le> 10000 * b" and "2 \<le> b"
  shows "n \<le> 31702 * b"
proof -
  have "317 * (t + 1) \<le> 317 * (10000 * b + 1)"
    using assms(2) by simp
  also have "\<dots> \<le> 100 * (31702 * b)"
    using assms(3) by simp
  finally have "100 * n \<le> 100 * (31702 * b)"
    using assms(1) by (rule order_trans [rotated])
  then show ?thesis by simp
qed

lemma ptr_numBlocks_cover:
  assumes "unat totalKeys < 2 ^ 40"
  shows "2 \<le> unat (ptr_numBlocks totalKeys)" and "unat totalKeys \<le> 31702 * unat (ptr_numBlocks totalKeys)"
    and "unat (ptr_numBlocks totalKeys) \<le> unat totalKeys div 30000 + 2"
proof -
  define c where "c = f64_ceil (f64_div (f64_of_nat (unat totalKeys)) ptr_lambda)"
  define tb where "tb = (if c = 0 then 1 else c)"
  define q where "q = (tb + 9999) div 10000"
  note cb = ptr_ceil_bounds [OF assms, folded c_def]
  have tb: "100 * unat totalKeys \<le> 317 * (tb + 1)" "tb \<le> unat totalKeys div 3 + 1" "tb \<le> 2 ^ 40"
    using cb assms by (auto simp: tb_def)
  have q1: "tb \<le> 10000 * q"
    unfolding q_def by arith
  have "q \<le> (2 ^ 40 + 9999) div 10000"
    unfolding q_def using tb(3) by (intro div_le_mono) simp
  then have q2: "q < 2 ^ 32"
    by simp
  have w: "(if (of_nat c :: u64) = 0 then 1 else of_nat c) = (of_nat tb :: u64)"
  proof -
    have "c < 2 ^ 64"
      using cb(2) assms by simp
    then have "unat (of_nat c :: u64) = c"
      by (simp add: unat_of_nat take_bit_nat_eq_self)
    then have "(of_nat c :: u64) = 0 \<longleftrightarrow> c = 0"
      by (cases "c = 0") auto
    then show ?thesis
      by (simp add: tb_def)
  qed
  have "unat ((of_nat tb + of_nat ptr_bucketsPerBlock - 1 :: u64) div of_nat ptr_bucketsPerBlock) = q"
  proof -
    have e: "(of_nat tb + of_nat ptr_bucketsPerBlock - 1 :: u64) = of_nat (tb + 9999)"
      by (simp add: ptr_bucketsPerBlock_def)
    have "tb + 9999 < 2 ^ LENGTH(64)"
      using tb(3) by simp
    then have "unat (of_nat (tb + 9999) :: u64) = tb + 9999"
      by (simp only: unat_of_nat mod_less)
    then show ?thesis
      unfolding e by (simp only: unat_div) (simp add: ptr_bucketsPerBlock_def q_def)
  qed
  then have "unat (ucast ((of_nat tb + of_nat ptr_bucketsPerBlock - 1 :: u64) div of_nat ptr_bucketsPerBlock) :: u32) = q"
    using q2 by (simp add: unsigned_ucast_eq take_bit_nat_eq_self)
  then have nb: "unat (ptr_numBlocks totalKeys) = max q 2"
    unfolding ptr_numBlocks_def Let_def c_def [symmetric] w unat_max by simp
  then have "q \<le> unat (ptr_numBlocks totalKeys)" "2 \<le> unat (ptr_numBlocks totalKeys)" "unat (ptr_numBlocks totalKeys) \<le> q + 1 \<or> unat (ptr_numBlocks totalKeys) = 2"
    by auto
  moreover have "q \<le> (unat totalKeys div 3 + 1 + 9999) div 10000"
    unfolding q_def using tb(2) by (intro div_le_mono) simp
  then have "q \<le> unat totalKeys div 30000 + 1"
    by (simp add: div_mult2_eq [symmetric])
  ultimately show two: "2 \<le> unat (ptr_numBlocks totalKeys)" and "unat (ptr_numBlocks totalKeys) \<le> unat totalKeys div 30000 + 2"
    by linarith+
  have "tb \<le> 10000 * unat (ptr_numBlocks totalKeys)"
    using q1 nb by simp
  from cover_arith [OF tb(1) this two] show "unat totalKeys \<le> 31702 * unat (ptr_numBlocks totalKeys)" .
qed

lemma ptr_maxKeysPerBlock_le:
  assumes "unat totalKeys < 2 ^ 40"
  shows "ptr_maxKeysPerBlock totalKeys \<le> 32955"
    and "unat totalKeys div unat (ptr_numBlocks totalKeys) \<le> ptr_maxKeysPerBlock totalKeys"
proof -
  note nb = ptr_numBlocks_cover [OF assms]
  have "unat totalKeys < 2 ^ 53" "unat (ptr_numBlocks totalKeys) < 2 ^ 53" "0 < unat (ptr_numBlocks totalKeys)"
    using assms nb unat_lt2p [of "ptr_numBlocks totalKeys"] by simp_all
  with nb(2) show "ptr_maxKeysPerBlock totalKeys \<le> 32955"
    "unat totalKeys div unat (ptr_numBlocks totalKeys) \<le> ptr_maxKeysPerBlock totalKeys"
    using f64_overflow_limit [of "unat totalKeys" "unat (ptr_numBlocks totalKeys)" 31702 179]
    by (simp_all add: ptr_maxKeysPerBlock_def Let_def blockOverflowSigmas_def)
qed

lemma ptr_block_slots:
  assumes "n \<le> 32955"
  shows "n \<le> unat (computeNumSlots n)" "unat (computeNumSlots n) \<le> n + 337" "unat (computeNumSlots n) \<le> 65535"
proof -
  have "n div 98 \<le> 336"
    using assms by (simp add: div_le_mono [of n 32955 98, simplified])
  then show "n \<le> unat (computeNumSlots n)" "unat (computeNumSlots n) \<le> n + 337" "unat (computeNumSlots n) \<le> 65535"
    using computeNumSlots_bounds [of n] assms by simp_all
qed

lemma ptr_maxMeta_bounds: "10870 \<le> ptr_MaxIndexMetadataSize b" "ptr_MaxIndexMetadataSize b \<le> 10872"
proof -
  let ?x = "37920 * (5822835881852763 / 576460752303423488) :: rat"
  have k: "f64_of_nat solverMaxKeys = 37920"
    by (simp add: f64_of_nat_exact solverMaxKeys_def)
  have r: "f64_round (1 / 99) = 5822835881852763 / 576460752303423488"
    by code_simp
  have "of_int 383 \<le> f64_round ?x" "f64_round ?x \<le> of_int 384"
    by (intro f64_round_bounds; simp)+
  then have "383 \<le> \<lceil>f64_round ?x\<rceil>" "\<lceil>f64_round ?x\<rceil> \<le> 384"
    by linarith+
  then have "383 \<le> f64_ceil (f64_mul (f64_of_nat solverMaxKeys) (f64_round (1 / 99)))" "f64_ceil (f64_mul (f64_of_nat solverMaxKeys) (f64_round (1 / 99))) \<le> 384"
    unfolding k r f64_mul_def f64_ceil_def by linarith+
  then show "10870 \<le> ptr_MaxIndexMetadataSize b" "ptr_MaxIndexMetadataSize b \<le> 10872"
    by (simp_all add: ptr_MaxIndexMetadataSize_def Let_def ptr_bucketsPerBlock_def remapTableHeaderSize_def remapTableEntrySize_def metadataEstimateMargin_def)
qed

end
