(* ===== verification/Ptr_Block.thy ===== *)
theory Ptr_Block
  imports Ptr_Reset_Correct Ptr_Limits Block_Algo
begin

text \<open>
  The PTRHash block builder as an implementation of the block contract: what it holds, that solving
  never panics, and that the built block answers queries from its metadata and holds the entries.
\<close>

section \<open>What the builder holds\<close>

definition ptr_entry :: "blockKey \<Rightarrow> ptrEntry" where
  "ptr_entry k = \<lparr>pe_suffix = bk_k1 k, pe_k0 = bk_k0 k, pe_payload = bk_payload k, pe_fingerprint = bk_fp k\<rparr>"

definition ptr_bucket :: "blockKey \<Rightarrow> nat" where
  "ptr_bucket k = unat (cubicEpsBucket (bk_k1 k) (of_nat ptr_bucketsPerBlock))"

definition ptr_group :: "blockKey list \<Rightarrow> nat \<Rightarrow> blockKey list" where
  "ptr_group ks i = filter (\<lambda>k. ptr_bucket k = i) ks"

definition ptr_repr :: "ptrBuilder \<Rightarrow> blockKey list \<Rightarrow> bool" where
  "ptr_repr b ks \<longleftrightarrow> pb_buckets b = map (\<lambda>i. map ptr_entry (ptr_group ks i)) [0..<ptr_bucketsPerBlock] \<and>
    pb_keysInBlock b = length ks \<and> solver_ok (pb_solver b)"

definition ptr_cfg :: "ptrBuilder \<Rightarrow> u32 \<times> u64 \<times> nat \<times> nat \<times> nat" where
  "ptr_cfg b = (pb_numBlocks b, pb_globalSeed b, pb_payloadSize b, pb_fingerprintSize b, pb_maxKeysPerBlock b)"

lemma ptr_bucket_lt: "ptr_bucket k < ptr_bucketsPerBlock"
  by (simp add: ptr_bucket_def ptr_bucket_less)

lemma ptr_NewBuilder_repr: "ptr_repr (ptr_NewBuilder tk s ps fs) []"
  by (simp add: ptr_repr_def ptr_NewBuilder_def ptr_group_def newSolver_ok map_replicate_const)

lemma ptr_AddKey_repr:
  assumes "ptr_repr b ks"
  shows "\<exists>b'. ptr_AddKey b (bk_k0 k) (bk_k1 k) (bk_payload k) (bk_fp k) = Inr b' \<and> ptr_repr b' (ks @ [k]) \<and> ptr_cfg b' = ptr_cfg b"
proof -
  let ?i = "ptr_bucket k" and ?N = "ptr_bucketsPerBlock"
  have b: "pb_buckets b = map (\<lambda>i. map ptr_entry (ptr_group ks i)) [0..<?N]" "?i < ?N"
    using assms ptr_bucket_lt by (simp_all add: ptr_repr_def)
  let ?bs = "(pb_buckets b)[?i := pb_buckets b ! ?i @ [ptr_entry k]]"
  have "?bs = map (\<lambda>i. map ptr_entry (ptr_group (ks @ [k]) i)) [0..<?N]"
    using b by (intro nth_equalityI) (auto simp: nth_list_update ptr_group_def)
  moreover have "ptr_AddKey b (bk_k0 k) (bk_k1 k) (bk_payload k) (bk_fp k) = Inr (b\<lparr>pb_buckets := ?bs, pb_keysInBlock := pb_keysInBlock b + 1\<rparr>)"
    using b by (simp add: ptr_AddKey_def Let_def ptr_bucket_def [symmetric] ptr_entry_def [symmetric])
  ultimately show ?thesis
    using assms by (simp add: ptr_repr_def ptr_cfg_def)
qed

lemma ptr_Reset_repr: "ptr_repr b ks \<Longrightarrow> ptr_repr (ptr_Reset b) [] \<and> ptr_cfg (ptr_Reset b) = ptr_cfg b"
  by (simp add: ptr_repr_def ptr_Reset_def ptr_cfg_def ptr_group_def comp_def)

lemma ptr_groups_sum: "sum_list (map length (map (\<lambda>i. map ptr_entry (ptr_group ks i)) [0..<ptr_bucketsPerBlock])) = length ks"
proof -
  have "size (mset (concat (map (\<lambda>i. filter (\<lambda>k. ptr_bucket k = i) ks) [0..<ptr_bucketsPerBlock]))) = size (mset ks)"
    using mset_groups_all [of ks ptr_bucket ptr_bucketsPerBlock] ptr_bucket_lt by simp
  then show ?thesis
    by (simp add: length_concat comp_def ptr_group_def)
qed

section \<open>Solving\<close>

definition solve_errors :: "sherr set" where
  "solve_errors = {ErrDuplicateKey, ErrIndistinguishableHashes, ErrOther ''ptrhash solver: eviction limit exceeded''}"

definition solved_builder :: "ptrBuilder \<Rightarrow> bytes \<Rightarrow> bytes \<Rightarrow> ptrBuilder \<Rightarrow> bool" where
  "solved_builder b mdst mdst' b' \<longleftrightarrow> (\<exists>sv pilots remap. b' = b\<lparr>pb_solver := sv, pb_pilots := pilots, pb_remap := remap,
      pb_numSlots := unat (computeNumSlots (pb_keysInBlock b))\<rparr> \<and> solver_ok sv \<and> block_solved (pb_buckets b) (pb_globalSeed b) pilots remap \<and>
    length mdst' = length mdst \<and> take (length pilots) mdst' = pilots)"

lemma take_copy_at_0: "length src \<le> length dst \<Longrightarrow> take (length src) (copy_at dst 0 src) = src"
  by (simp add: copy_at_def)

lemma solve_attempts_ok:
  assumes "length (pb_buckets b) = ptr_bucketsPerBlock" and "pb_keysInBlock b = sum_list (map length (pb_buckets b))"
    and "0 < pb_keysInBlock b" and "pb_keysInBlock b \<le> 32955" and "ptr_bucketsPerBlock \<le> length mdst" and "solver_ok (pb_solver b)"
  shows "(\<exists>mdst' b'. solve_attempts as mdst b = Inr (mdst', b') \<and> solved_builder b mdst mdst' b') \<or> (\<exists>e\<in>solve_errors. solve_attempts as mdst b = Inl e)"
  using assms
proof (induction "as" arbitrary: mdst b)
  case Nil
  then show ?case by (simp add: solve_errors_def)
next
  case (Cons a "as")
  let ?nk = "pb_keysInBlock b" and ?bs = "pb_buckets b"
  note ns = ptr_block_slots [OF Cons.prems(4)]
  have lt: "sum_list (map length ?bs) < 65536" "0 < unat (computeNumSlots ?nk)"
    using Cons.prems ns(1) by linarith+
  obtain sv where r: "solver_reset ?bs ?nk (pb_globalSeed b) (Some mdst) (pb_solver b) = Inr sv" and fr: "fresh_for ?bs ?nk (pb_globalSeed b) sv"
    using solver_reset_ok [OF Cons.prems(6,1) lt ns(3) Cons.prems(5)] by blast
  have nk: "?nk < 65536"
    using Cons.prems(4) by simp
  consider remap sv' where "solver_solve a sv = Inr (Some remap, sv')" "solver_ok sv'" "sv_numSlots sv' = computeNumSlots ?nk" "block_solved ?bs (pb_globalSeed b) (sv_pilots sv') remap"
    | sv' where "solver_solve a sv = Inr (None, sv')" "solver_ok sv'" "length (sv_pilots sv') = length ?bs"
    | e where "solver_solve a sv = Inl e" "solve_error sv e"
    using solver_solve_ok [OF fr Cons.prems(2,3) nk, of a] by blast
  then show ?case
  proof cases
    case (1 remap sv')
    have "length (sv_pilots sv') \<le> length mdst"
      using 1(4) Cons.prems(1,5) by (simp add: block_solved_def Let_def)
    then have "solved_builder b mdst (copy_at mdst 0 (sv_pilots sv'))
        (b\<lparr>pb_solver := sv', pb_pilots := sv_pilots sv', pb_remap := remap, pb_numSlots := unat (computeNumSlots ?nk)\<rparr>)"
      unfolding solved_builder_def using 1 take_copy_at_0 by (intro exI [of _ sv'] exI [of _ "sv_pilots sv'"] exI [of _ remap]) simp
    then show ?thesis
      using r 1(1,3) by simp
  next
    case (2 sv')
    let ?b = "b\<lparr>pb_solver := sv', pb_pilots := [], pb_remap := []\<rparr>" and ?m = "copy_at mdst 0 (sv_pilots sv')"
    have "solve_attempts (a # as) mdst b = solve_attempts as ?m ?b"
      using r 2(1) by simp
    moreover have "(\<exists>mdst' b'. solve_attempts as ?m ?b = Inr (mdst', b') \<and> solved_builder ?b ?m mdst' b') \<or> (\<exists>e\<in>solve_errors. solve_attempts as ?m ?b = Inl e)"
      using Cons.IH [of ?b ?m] Cons.prems 2(2) by simp
    moreover have "solved_builder ?b ?m mdst' b' \<Longrightarrow> solved_builder b mdst mdst' b'" for mdst' b'
      by (simp add: solved_builder_def)
    ultimately show ?thesis by auto
  next
    case (3 e)
    then show ?thesis
      using r by (auto simp: solve_error_def solve_errors_def)
  qed
qed

section \<open>Metadata\<close>

definition remap_bytes :: "u16 list \<Rightarrow> bytes" where
  "remap_bytes remap = le_put 2 (of_nat (length remap) :: u16) @ concat (map (le_put 2) remap)"

lemma length_concat_le_put [simp]: "length (concat (map (le_put 2) (vs :: u16 list))) = 2 * length vs"
  by (induction vs) simp_all

lemma put_remap_ok:
  "2 + 2 * (i + length vs) \<le> length dst \<Longrightarrow> put_remap i vs dst = Inr (copy_at dst (2 + 2 * i) (concat (map (le_put 2) vs)))"
proof (induction vs arbitrary: i dst)
  case (Cons v vs)
  have "put_remap (Suc i) vs (copy_at dst (2 + 2 * i) (le_put 2 v)) = Inr (copy_at (copy_at dst (2 + 2 * i) (le_put 2 v)) (2 + 2 * Suc i) (concat (map (le_put 2) vs)))"
    using Cons.prems by (intro Cons.IH) simp
  moreover have "copy_at (copy_at dst (2 + 2 * i) (le_put 2 v)) (2 + 2 * Suc i) (concat (map (le_put 2) vs)) = copy_at dst (2 + 2 * i) (concat (map (le_put 2) (v # vs)))"
    using copy_at_append [of "2 + 2 * i" "le_put 2 v" "concat (map (le_put 2) vs)" dst] Cons.prems by simp
  ultimately show ?case
    using Cons.prems by (simp add: put_bytes_def remapTableHeaderSize_def remapTableEntrySize_def mult.commute)
qed simp

lemma encodeRemapTableInto_ok:
  assumes "2 + 2 * length remap \<le> length dst"
  shows "encodeRemapTableInto remap dst = Inr (2 + 2 * length remap, copy_at dst 0 (remap_bytes remap))"
proof -
  let ?h = "le_put 2 (of_nat (length remap) :: u16)"
  have "put_remap 0 remap (copy_at dst 0 ?h) = Inr (copy_at (copy_at dst 0 ?h) 2 (concat (map (le_put 2) remap)))"
    using put_remap_ok [of 0 remap "copy_at dst 0 ?h"] assms by simp
  moreover have "copy_at (copy_at dst 0 ?h) 2 (concat (map (le_put 2) remap)) = copy_at dst 0 (remap_bytes remap)"
    using copy_at_append [of 0 ?h "concat (map (le_put 2) remap)" dst] assms
    by (simp add: remap_bytes_def del: One_nat_def numeral_2_eq_2 add_2_eq_Suc add_2_eq_Suc')
  ultimately show ?thesis
    using assms by (simp add: encodeRemapTableInto_def put_bytes_def remapTableHeaderSize_def remapTableEntrySize_def)
qed

lemma length_remap_bytes [simp]: "length (remap_bytes remap) = 2 + 2 * length remap"
  by (simp add: remap_bytes_def)

lemma ptr_encodeMetadataInto_ok:
  assumes "take (length (pb_pilots b)) dst = pb_pilots b" and "length (pb_pilots b) + 2 + 2 * length (pb_remap b) \<le> length dst"
  shows "\<exists>dst'. ptr_encodeMetadataInto b dst = Inr (length (pb_pilots b) + 2 + 2 * length (pb_remap b), dst') \<and> length dst' = length dst \<and>
    take (length (pb_pilots b) + 2 + 2 * length (pb_remap b)) dst' = pb_pilots b @ remap_bytes (pb_remap b)"
proof -
  let ?n = "length (pb_pilots b)" and ?r = "pb_remap b"
  have "encodeRemapTableInto ?r (drop ?n dst) = Inr (2 + 2 * length ?r, copy_at (drop ?n dst) 0 (remap_bytes ?r))"
    using assms(2) by (intro encodeRemapTableInto_ok) simp
  moreover have "take (2 + 2 * length ?r) (copy_at (drop ?n dst) 0 (remap_bytes ?r)) = remap_bytes ?r"
    using take_copy_at_0 [of "remap_bytes ?r" "drop ?n dst"] assms(2) by simp
  ultimately show ?thesis
    using assms by (intro exI [of _ "pb_pilots b @ copy_at (drop ?n dst) 0 (remap_bytes ?r)"]) (simp add: ptr_encodeMetadataInto_def slice_from_def Let_def)
qed

section \<open>Queries\<close>

lemma le_put_slice:
  assumes "i < length (vs :: u16 list)"
  shows "take 2 (drop (2 * i) (concat (map (le_put 2) vs) @ rest)) = le_put 2 (vs ! i)"
  using assms
proof (induction vs arbitrary: i)
  case (Cons v vs)
  show ?case
  proof (cases i)
    case (Suc j)
    then show ?thesis
      using Cons by simp
  qed simp
qed simp

lemma lookupRemap_ok:
  assumes "unat (of_nat nk :: u32) = nk" and "nk \<le> unat slot" and "unat slot - nk < length remap"
  shows "lookupRemap (remap_bytes remap) slot (of_nat nk) = Inr (ucast (remap ! (unat slot - nk)))"
proof -
  define i where "i = unat slot - nk"
  have le: "\<not> slot < of_nat nk" and idx: "unat (slot - of_nat nk) = i" "i < length remap"
    using assms by (simp_all add: word_le_nat_alt word_less_nat_alt unat_sub i_def)
  have "take 2 (drop (2 + i * 2) (remap_bytes remap)) = le_put 2 (remap ! i)"
    using le_put_slice [OF idx(2), of "[]"] by (simp add: remap_bytes_def mult.commute)
  moreover have "2 + i * 2 + 2 \<le> length (remap_bytes remap)"
    using idx(2) by simp
  ultimately have "get_le 2 (drop (2 + i * 2) (remap_bytes remap)) = Inr (remap ! i)"
    by (simp add: get_le_def)
  then show ?thesis
    using le idx by (simp add: lookupRemap_def Let_def remapTableHeaderSize_def remapTableEntrySize_def slice_from_def i_def [symmetric])
qed

lemma ptr_QuerySlot_ok:
  assumes md: "md = pilots @ remap_bytes remap" and len: "length pilots = ptr_bucketsPerBlock" "length remap = unat (computeNumSlots nk) - nk"
    and nk: "0 < nk" "nk \<le> 32955"
  shows "ptr_QuerySlot \<lparr>pd_pilotHPs = initPilotHPs s\<rparr> k0 k1 md nk =
    Inr (final_slot nk remap (unat (pilotSlotFolded (foldSlotInput k0 k1) (pilotHash (pilots ! unat (cubicEpsBucket k1 (of_nat ptr_bucketsPerBlock))) s) (computeNumSlots nk))))"
proof -
  let ?N = "ptr_bucketsPerBlock" and ?ns = "computeNumSlots nk" and ?i = "unat (cubicEpsBucket k1 (of_nat ptr_bucketsPerBlock))"
  let ?s = "pilotSlotFolded (foldSlotInput k0 k1) (pilotHash (pilots ! ?i) s) ?ns"
  note ns = ptr_block_slots [OF nk(2)]
  have i: "get_at md ?i = Inr (pilots ! ?i)"
    using ptr_bucket_less [of k1] len(1) by (simp add: md nth_append)
  have sl: "unat ?s < unat ?ns"
    using ns(1) nk(1) by (intro pilotSlotFolded_less) linarith
  have w: "(of_int (int (unat ?ns)) :: u32) = ?ns"
    by simp
  have u: "unat (of_nat nk :: u32) = nk"
    using nk(2) by simp
  have rd: "slice_from ?N md = Inr (remap_bytes remap)"
    using len(1) by (simp add: md slice_from_def)
  have req: "int remapTableHeaderSize + (int (unat ?ns) - int nk) * int remapTableEntrySize = int (length (remap_bytes remap))"
    using len(2) ns(1) by (simp add: remapTableHeaderSize_def remapTableEntrySize_def)
  have look: "lookupRemap (remap_bytes remap) ?s (of_nat nk) = Inr (ucast (remap ! (unat ?s - nk)))" if "nk \<le> unat ?s"
    using that sl len(2) by (intro lookupRemap_ok [OF u]) simp_all
  have ml: "\<not> length md < ?N"
    using len(1) by (simp add: md)
  have hp: "get_at (pd_pilotHPs \<lparr>pd_pilotHPs = initPilotHPs s\<rparr>) (unat (pilots ! ?i)) = Inr (pilotHash (pilots ! ?i) s)"
    by (simp add: initPilotHPs_nth)
  have run: "ptr_QuerySlot \<lparr>pd_pilotHPs = initPilotHPs s\<rparr> k0 k1 md nk = (if int nk \<le> int (unat ?s)
      then rbind (lookupRemap (remap_bytes remap) ?s (of_nat nk)) (\<lambda>slot. Inr (unat slot)) else Inr (unat ?s))"
    unfolding ptr_QuerySlot_def Let_def w if_not_P [OF ml] i hp rbind_Inr rd req using nk(1) by simp
  have "unat (ucast (r :: u16) :: u32) = unat r" for r
    using unat_lt2p [of r] by (simp add: unsigned_ucast_eq take_bit_nat_eq_self)
  then show ?thesis
    unfolding run of_nat_le_iff using look by (simp add: final_slot_def)
qed

section \<open>Entries\<close>

lemma ptr_entry_slot_ok:
  assumes nk: "0 < pb_keysInBlock b" "pb_keysInBlock b \<le> 32955" and ns: "pb_numSlots b = unat (computeNumSlots (pb_keysInBlock b))"
    and len: "length (pb_remap b) = unat (computeNumSlots (pb_keysInBlock b)) - pb_keysInBlock b"
  shows "ptr_entry_slot b hp e = Inr (final_slot (pb_keysInBlock b) (pb_remap b) (unat (pilotSlotFolded (entry_fold e) hp (computeNumSlots (pb_keysInBlock b)))))"
proof -
  let ?nk = "pb_keysInBlock b" and ?ns = "computeNumSlots (pb_keysInBlock b)"
  let ?s = "pilotSlotFolded (entry_fold e) hp ?ns"
  note sb = ptr_block_slots [OF nk(2)]
  have w: "(of_nat (pb_numSlots b) :: u32) = ?ns"
    by (simp add: ns)
  have u: "unat (of_nat ?nk :: u32) = ?nk"
    using nk(2) by simp
  have sl: "unat ?s < unat ?ns"
    using sb(1) nk(1) by (intro pilotSlotFolded_less) linarith
  have ge: "(of_nat ?nk :: u32) \<le> ?s \<longleftrightarrow> ?nk \<le> unat ?s"
    using u by (simp add: word_le_nat_alt)
  show ?thesis
  proof (cases "?nk \<le> unat ?s")
    case True
    then have "unat (?s - of_nat ?nk) = unat ?s - ?nk" "unat ?s - ?nk < length (pb_remap b)"
      using ge u sl len by (simp_all add: unat_sub word_le_nat_alt)
    then show ?thesis
      using True ge by (simp add: ptr_entry_slot_def Let_def w final_slot_def)
  next
    case False
    then show ?thesis
      using ge by (simp add: ptr_entry_slot_def Let_def w final_slot_def)
  qed
qed

abbreviation ptr_pairs :: "nat \<Rightarrow> nat \<Rightarrow> (ptrEntry \<Rightarrow> nat) \<Rightarrow> ptrEntry list \<Rightarrow> (nat \<times> bytes) list" where
  "ptr_pairs fs ps slot bucket \<equiv> map (\<lambda>e. (slot e, entry_bytes fs ps (pe_fingerprint e) (pe_payload e))) bucket"

lemma ptr_write_entries_ok:
  assumes es: "entrySize = pb_fingerprintSize b + ps" and slot: "\<And>e. ptr_entry_slot b hp e = Inr (slot e)"
    and "\<not> generic \<Longrightarrow> entrySize \<in> {1, 4, 5, 8} \<and> (\<forall>e\<in>set bucket. take_bit (pb_fingerprintSize b * 8) (pe_fingerprint e) = pe_fingerprint e)"
    and "\<forall>e\<in>set bucket. slot e < m" and "m * entrySize \<le> length dst"
  shows "ptr_write_entries b generic entrySize hp bucket dst = Inr (write_all entrySize (ptr_pairs (pb_fingerprintSize b) ps slot bucket) dst)"
  using assms(3-)
proof (induction bucket arbitrary: dst)
  case (Cons e bucket)
  let ?fs = "pb_fingerprintSize b" and ?d = "copy_at dst (slot e * entrySize) (entry_bytes (pb_fingerprintSize b) ps (pe_fingerprint e) (pe_payload e))"
  have fit: "slot e * entrySize + entrySize \<le> length dst"
    using Cons.prems(2,3) slot_fits [of "slot e" m entrySize] by auto
  have "(if generic then WriteEntryGeneric dst (slot e) entrySize (pe_fingerprint e) (pe_payload e) (?fs * 8)
      else WriteEntry dst (slot e) entrySize (pe_fingerprint e) (pe_payload e) (?fs * 8)) = Inr ?d"
    using WriteEntryGeneric_eq [OF es fit] WriteEntry_eq [OF es fit] Cons.prems(1) by auto
  moreover have "ptr_write_entries b generic entrySize hp bucket ?d = Inr (write_all entrySize (ptr_pairs ?fs ps slot bucket) ?d)"
    using Cons.prems fit by (intro Cons.IH) auto
  ultimately show ?case
    by (simp add: slot Let_def)
qed simp

lemma ptr_write_buckets_ok:
  assumes es: "entrySize = pb_fingerprintSize b + ps" and slot: "\<And>i e. ptr_entry_slot b (pilotHash (pb_pilots b ! i) (pb_globalSeed b)) e = Inr (slot i e)"
    and "\<not> generic \<Longrightarrow> entrySize \<in> {1, 4, 5, 8} \<and> (\<forall>bucket\<in>set bs. \<forall>e\<in>set bucket. take_bit (pb_fingerprintSize b * 8) (pe_fingerprint e) = pe_fingerprint e)"
    and "\<forall>i<length bs. \<forall>e\<in>set (bs ! i). slot (j + i) e < m" and "m * entrySize \<le> length dst" and "j + length bs \<le> length (pb_pilots b)"
  shows "rfold (\<lambda>(bucketIdx, bucket) dst.
            rbind (get_at (pb_pilots b) bucketIdx) (\<lambda>pilot.
              ptr_write_entries b generic entrySize (pilotHash pilot (pb_globalSeed b)) bucket dst)) (List.enumerate j bs) dst =
    Inr (write_all entrySize (concat (map (\<lambda>i. ptr_pairs (pb_fingerprintSize b) ps (slot (j + i)) (bs ! i)) [0..<length bs])) dst)"
  using assms(3-)
proof (induction bs arbitrary: j dst)
  case (Cons bucket bs)
  let ?fs = "pb_fingerprintSize b"
  let ?d = "write_all entrySize (ptr_pairs ?fs ps (slot j) bucket) dst"
  have in0: "\<forall>e\<in>set bucket. slot j e < m"
    using Cons.prems(2) by fastforce
  have w: "ptr_write_entries b generic entrySize (pilotHash (pb_pilots b ! j) (pb_globalSeed b)) bucket dst = Inr ?d"
    using Cons.prems in0 by (intro ptr_write_entries_ok [OF es slot]) auto
  have bounds: "\<forall>(s, by)\<in>set (ptr_pairs ?fs ps (slot j) bucket). s < m \<and> length by = entrySize"
    using in0 es by auto
  have "\<forall>i<length bs. \<forall>e\<in>set (bs ! i). slot (Suc j + i) e < m"
    using Cons.prems(2) by (metis Suc_less_eq add_Suc_shift length_Cons nth_Cons_Suc)
  then have "rfold (\<lambda>(bucketIdx, bucket) dst.
            rbind (get_at (pb_pilots b) bucketIdx) (\<lambda>pilot.
              ptr_write_entries b generic entrySize (pilotHash pilot (pb_globalSeed b)) bucket dst)) (List.enumerate (Suc j) bs) ?d =
    Inr (write_all entrySize (concat (map (\<lambda>i. ptr_pairs ?fs ps (slot (Suc j + i)) (bs ! i)) [0..<length bs])) ?d)"
    using Cons.prems length_write_all [OF bounds Cons.prems(3)] by (intro Cons.IH) auto
  then show ?case
    using Cons.prems(4) w by (simp add: write_all_append upt_conv_Cons map_Suc_upt [symmetric] comp_def del: upt_Suc)
qed simp

section \<open>The built block\<close>

definition key_final :: "u64 \<Rightarrow> nat \<Rightarrow> bytes \<Rightarrow> u16 list \<Rightarrow> blockKey \<Rightarrow> nat" where
  "key_final seed nk pilots remap k = entry_slot seed nk pilots remap (ptr_bucket k) (ptr_entry k)"

lemma groups_map:
  "concat (map (\<lambda>i. map (f i) (map ptr_entry (ptr_group ks i))) [0..<n]) = concat (map (\<lambda>i. map (\<lambda>k. f (ptr_bucket k) (ptr_entry k)) (ptr_group ks i)) [0..<n])"
proof -
  have "map (f i) (map ptr_entry (ptr_group ks i)) = map (\<lambda>k. f (ptr_bucket k) (ptr_entry k)) (ptr_group ks i)" for i
    by (simp add: ptr_group_def)
  then show ?thesis by (simp only:)
qed

lemma mset_ptr_groups: "mset (concat (map (\<lambda>i. map f (ptr_group ks i)) [0..<ptr_bucketsPerBlock])) = mset (map f ks)"
proof -
  have "concat (map (\<lambda>i. map f (ptr_group ks i)) [0..<ptr_bucketsPerBlock]) = map f (concat (map (\<lambda>i. filter (\<lambda>k. ptr_bucket k = i) ks) [0..<ptr_bucketsPerBlock]))"
    by (simp add: map_concat comp_def ptr_group_def)
  then show ?thesis
    using mset_groups_all [of ks ptr_bucket ptr_bucketsPerBlock] ptr_bucket_lt by simp
qed

lemma solved_slots:
  assumes rep: "ptr_repr b ks" and sol: "block_solved (pb_buckets b) seed pilots remap"
  shows "length pilots = ptr_bucketsPerBlock" "length remap = unat (computeNumSlots (length ks)) - length ks"
    "distinct (map (key_final seed (length ks) pilots remap) ks)" "\<forall>k\<in>set ks. key_final seed (length ks) pilots remap k < length ks"
proof -
  have b: "pb_buckets b = map (\<lambda>i. map ptr_entry (ptr_group ks i)) [0..<ptr_bucketsPerBlock]"
    using rep by (simp add: ptr_repr_def)
  have nk: "sum_list (map length (pb_buckets b)) = length ks"
    unfolding b by (rule ptr_groups_sum)
  let ?slots = "concat (map (\<lambda>i. map (entry_slot seed (length ks) pilots remap i) (pb_buckets b ! i)) [0..<length (pb_buckets b)])"
  have "?slots = concat (map (\<lambda>i. map (entry_slot seed (length ks) pilots remap i) (map ptr_entry (ptr_group ks i))) [0..<ptr_bucketsPerBlock])"
    by (intro arg_cong [where f = concat] map_cong) (simp_all add: b)
  also have "\<dots> = concat (map (\<lambda>i. map (key_final seed (length ks) pilots remap) (ptr_group ks i)) [0..<ptr_bucketsPerBlock])"
    unfolding groups_map key_final_def [abs_def] ..
  finally have m: "mset ?slots = mset (map (key_final seed (length ks) pilots remap) ks)"
    by (simp only: mset_ptr_groups)
  have s: "length pilots = length (pb_buckets b)" "length remap = unat (computeNumSlots (length ks)) - length ks" "distinct ?slots" "\<forall>s\<in>set ?slots. s < length ks"
    using sol unfolding block_solved_def Let_def nk by blast+
  show "length pilots = ptr_bucketsPerBlock" "length remap = unat (computeNumSlots (length ks)) - length ks"
    using s(1,2) b by simp_all
  show "distinct (map (key_final seed (length ks) pilots remap) ks)"
    using s(3) mset_eq_imp_distinct_iff [OF m] by simp
  show "\<forall>k\<in>set ks. key_final seed (length ks) pilots remap k < length ks"
    using s(4) unfolding mset_eq_setD [OF m] by simp
qed

lemma ptr_block_slots_ok:
  assumes rep: "ptr_repr b ks" and sol: "block_solved (pb_buckets b) seed pilots remap" and nk: "ks \<noteq> []" "length ks \<le> 32955"
  shows "block_slots (ptr_QuerySlot \<lparr>pd_pilotHPs = initPilotHPs seed\<rparr>) ks (pilots @ remap_bytes remap) (key_final seed (length ks) pilots remap)"
proof -
  note s = solved_slots [OF rep sol]
  have "ptr_QuerySlot \<lparr>pd_pilotHPs = initPilotHPs seed\<rparr> (bk_k0 k) (bk_k1 k) (pilots @ remap_bytes remap) (length ks) = Inr (key_final seed (length ks) pilots remap k)" for k
    using ptr_QuerySlot_ok [OF refl s(1,2) _ nk(2), of seed "bk_k0 k" "bk_k1 k"] nk(1)
    by (simp add: key_final_def entry_slot_def ptr_bucket_def ptr_entry_def entry_fold_def)
  moreover have "key_final seed (length ks) pilots remap ` set ks = {0..<length ks}"
    using distinct_bounded_surj [OF s(3)] s(4) by simp
  ultimately show ?thesis
    using s(3) by (simp add: block_slots_def)
qed

lemma ptr_block_entries_ok:
  assumes rep: "ptr_repr b0 ks" and sol: "block_solved (pb_buckets b0) (pb_globalSeed b0) pilots remap"
    and b: "b = b0\<lparr>pb_solver := sv, pb_pilots := pilots, pb_remap := remap, pb_numSlots := unat (computeNumSlots (length ks))\<rparr>"
    and nk: "ks \<noteq> []" "length ks \<le> 32955" and fp: "fps_fit (pb_fingerprintSize b0) ks" and len: "length dst = length ks * (pb_payloadSize b0 + pb_fingerprintSize b0)"
  shows "\<exists>pl dst'. ptr_encodePayloadsInto b dst = Inr (pl, dst') \<and> length dst' = length dst \<and>
    block_entries (pb_fingerprintSize b0) (pb_payloadSize b0) ks dst' (key_final (pb_globalSeed b0) (length ks) pilots remap)"
proof -
  let ?fs = "pb_fingerprintSize b0" and ?ps = "pb_payloadSize b0" and ?seed = "pb_globalSeed b0" and ?n = "length ks"
  let ?es = "?fs + ?ps" and ?kf = "key_final (pb_globalSeed b0) (length ks) pilots remap" and ?N = "ptr_bucketsPerBlock"
  note s = solved_slots [OF rep sol]
  have bk: "pb_buckets b0 = map (\<lambda>i. map ptr_entry (ptr_group ks i)) [0..<?N]" and kb: "pb_keysInBlock b0 = ?n"
    using rep by (simp_all add: ptr_repr_def)
  have f: "pb_buckets b = pb_buckets b0" "pb_keysInBlock b = ?n" "pb_fingerprintSize b = ?fs" "pb_payloadSize b = ?ps" "pb_globalSeed b = ?seed"
    "pb_pilots b = pilots" "pb_remap b = remap" "ptr_entrySize b = ?es"
    using kb by (simp_all add: b ptr_entrySize_def)
  show ?thesis
  proof (cases "?es = 0")
    case True
    then show ?thesis
      by (auto simp: ptr_encodePayloadsInto_def f block_entries_def entry_bytes_def)
  next
    case False
    define generic where "generic = (?es \<notin> {1, 4, 5, 8})"
    define prs where "prs = concat (map (\<lambda>i. map (\<lambda>k. (?kf k, entry_bytes ?fs ?ps (bk_fp k) (bk_payload k))) (ptr_group ks i)) [0..<?N])"
    have slot: "ptr_entry_slot b (pilotHash (pb_pilots b ! i) (pb_globalSeed b)) e = Inr (entry_slot ?seed ?n pilots remap i e)" for i e
      using ptr_entry_slot_ok [of b] nk s(2) f by (simp add: entry_slot_def b)
    have fits: "\<forall>bucket\<in>set (pb_buckets b0). \<forall>e\<in>set bucket. take_bit (pb_fingerprintSize b * 8) (pe_fingerprint e) = pe_fingerprint e"
      using fp by (auto simp: bk fps_fit_def f ptr_group_def ptr_entry_def)
    have bound: "\<forall>i<length (pb_buckets b0). \<forall>e\<in>set (pb_buckets b0 ! i). entry_slot ?seed ?n pilots remap (0 + i) e < ?n"
      using s(4) by (auto simp: bk ptr_group_def key_final_def)
    have w: "rfold (\<lambda>(bucketIdx, bucket) dst.
            rbind (get_at (pb_pilots b) bucketIdx) (\<lambda>pilot.
              ptr_write_entries b generic ?es (pilotHash pilot (pb_globalSeed b)) bucket dst)) (List.enumerate 0 (pb_buckets b0)) dst =
        Inr (write_all ?es (concat (map (\<lambda>i. ptr_pairs ?fs ?ps (entry_slot ?seed ?n pilots remap (0 + i)) (pb_buckets b0 ! i)) [0..<length (pb_buckets b0)])) dst)"
      using ptr_write_buckets_ok [of ?es b ?ps "entry_slot ?seed ?n pilots remap" generic "pb_buckets b0" 0 ?n dst] slot fits bound len s(1)
      by (simp add: f generic_def bk add.commute)
    have "concat (map (\<lambda>i. ptr_pairs ?fs ?ps (entry_slot ?seed ?n pilots remap (0 + i)) (pb_buckets b0 ! i)) [0..<length (pb_buckets b0)]) =
        concat (map (\<lambda>i. ptr_pairs ?fs ?ps (entry_slot ?seed ?n pilots remap i) (map ptr_entry (ptr_group ks i))) [0..<?N])"
      by (intro arg_cong [where f = concat] map_cong) (simp_all add: bk)
    also have "\<dots> = prs"
      unfolding prs_def groups_map by (simp add: key_final_def ptr_entry_def)
    finally have run: "ptr_encodePayloadsInto b dst = Inr (?n * ?es, write_all ?es prs dst)"
      using w False nk(1) len unfolding ptr_encodePayloadsInto_def ptr_encodePayloadsWithWriter_def Let_def f generic_def by auto
    have m: "mset prs = mset (map (\<lambda>k. (?kf k, entry_bytes ?fs ?ps (bk_fp k) (bk_payload k))) ks)"
      unfolding prs_def by (rule mset_ptr_groups)
    have d: "distinct (map fst prs)"
    proof -
      have "mset (map fst prs) = mset (map ?kf ks)"
        unfolding mset_map m by (simp add: multiset.map_comp comp_def)
      then show ?thesis
        using mset_eq_imp_distinct_iff s(3) by blast
    qed
    have set: "set prs = (\<lambda>k. (?kf k, entry_bytes ?fs ?ps (bk_fp k) (bk_payload k))) ` set ks"
      using mset_eq_setD [OF m] by simp
    have bd: "\<forall>(s, by)\<in>set prs. s < ?n \<and> length by = ?es" and ln: "?n * ?es \<le> length dst"
      using s(4) set len by (auto simp: add.commute)
    have "take ?es (drop (?kf k * ?es) (write_all ?es prs dst)) = entry_bytes ?fs ?ps (bk_fp k) (bk_payload k)" if "k \<in> set ks" for k
      using write_all_at [OF d bd ln] that set by blast
    then show ?thesis
      using run length_write_all [OF bd ln] by (auto simp: block_entries_def)
  qed
qed

lemma ptr_build_total:
  assumes rep: "ptr_repr b ks" and nk: "ks \<noteq> []" and mk: "pb_maxKeysPerBlock b \<le> 32955" and fp: "fps_fit (pb_fingerprintSize b) ks"
    and mdst: "length mdst = ptr_MaxMetadataSizeForCurrentBlock b" and pdst: "length pdst = length ks * (pb_payloadSize b + pb_fingerprintSize b)"
  shows "(pb_maxKeysPerBlock b < length ks \<and> ptr_BuildSeparatedInto b mdst pdst = Inl ErrBlockOverflow) \<or>
    (\<exists>e\<in>solve_errors. ptr_BuildSeparatedInto b mdst pdst = Inl e \<and> ptr_solve mdst b = Inl e) \<or>
    (\<exists>ml pl mdst' pdst' b' slot. ptr_BuildSeparatedInto b mdst pdst = Inr (ml, pl, length ks, mdst', pdst', b') \<and>
      block_slots (ptr_QuerySlot \<lparr>pd_pilotHPs = initPilotHPs (pb_globalSeed b)\<rparr>) ks (take ml mdst') slot \<and>
      block_entries (pb_fingerprintSize b) (pb_payloadSize b) ks pdst' slot \<and> length pdst' = length pdst \<and>
      ptr_repr b' ks \<and> ptr_cfg b' = ptr_cfg b \<and> 100 \<le> ml \<and> ml \<le> 10870 \<and> ml \<le> length mdst')"
proof (cases "pb_maxKeysPerBlock b < length ks")
  case True
  then show ?thesis
    using rep nk by (auto simp: ptr_BuildSeparatedInto_def ptr_repr_def)
next
  case False
  let ?n = "length ks" and ?N = "ptr_bucketsPerBlock"
  have n: "pb_keysInBlock b = ?n" "?n \<le> 32955" "0 < ?n" and bk: "pb_buckets b = map (\<lambda>i. map ptr_entry (ptr_group ks i)) [0..<?N]" and so: "solver_ok (pb_solver b)"
    using rep nk False mk by (simp_all add: ptr_repr_def)
  have total: "pb_keysInBlock b = sum_list (map length (pb_buckets b))" and lb: "length (pb_buckets b) = ?N"
    unfolding n(1) bk by (simp_all only: ptr_groups_sum) simp
  note ns = ptr_block_slots [OF n(2)]
  have lm: "length mdst = ?N + 2 + 2 * (unat (computeNumSlots ?n) - ?n + 1)"
    using n mdst by (simp add: ptr_MaxMetadataSizeForCurrentBlock_def ptr_estimateMetadataSize_def remapTableHeaderSize_def remapTableEntrySize_def Let_def)
  have run0: "ptr_BuildSeparatedInto b mdst pdst = rbind (solve_attempts [0..<maxGlobalRetries] mdst b) (\<lambda>(metadataDst, b).
       rbind (ptr_encodeMetadataInto b metadataDst) (\<lambda>(metadataLen, metadataDst).
       rbind (ptr_encodePayloadsInto b pdst) (\<lambda>(payloadsLen, payloadsDst).
         Inr (metadataLen, payloadsLen, pb_keysInBlock b, metadataDst, payloadsDst, b))))"
    using n False by (simp add: ptr_BuildSeparatedInto_def ptr_solve_def)
  consider mdst1 b1 where "solve_attempts [0..<maxGlobalRetries] mdst b = Inr (mdst1, b1)" "solved_builder b mdst mdst1 b1"
    | e where "e \<in> solve_errors" "solve_attempts [0..<maxGlobalRetries] mdst b = Inl e"
    using solve_attempts_ok [OF lb total _ _ _ so, of mdst "[0..<maxGlobalRetries]"] n lm by auto
  then show ?thesis
  proof cases
    case 1
    obtain sv pilots remap where b1: "b1 = b\<lparr>pb_solver := sv, pb_pilots := pilots, pb_remap := remap, pb_numSlots := unat (computeNumSlots ?n)\<rparr>"
      and sv: "solver_ok sv" and sol: "block_solved (pb_buckets b) (pb_globalSeed b) pilots remap" and l1: "length mdst1 = length mdst" "take (length pilots) mdst1 = pilots"
      using 1(2) n(1) unfolding solved_builder_def by auto
    note s = solved_slots [OF rep sol]
    define ml where "ml = ?N + 2 + 2 * length remap"
    have "take (length (pb_pilots b1)) mdst1 = pb_pilots b1" "length (pb_pilots b1) + 2 + 2 * length (pb_remap b1) \<le> length mdst1"
      using l1 s(1,2) lm by (simp_all add: b1)
    from ptr_encodeMetadataInto_ok [OF this] obtain mdst' where em: "ptr_encodeMetadataInto b1 mdst1 = Inr (ml, mdst')" "length mdst' = length mdst"
      "take ml mdst' = pilots @ remap_bytes remap"
      using l1 s(1) by (auto simp: b1 ml_def)
    obtain pl pdst' where ep: "ptr_encodePayloadsInto b1 pdst = Inr (pl, pdst')" "length pdst' = length pdst"
      "block_entries (pb_fingerprintSize b) (pb_payloadSize b) ks pdst' (key_final (pb_globalSeed b) ?n pilots remap)"
      using ptr_block_entries_ok [OF rep sol b1 nk n(2) fp pdst] by blast
    have "ptr_BuildSeparatedInto b mdst pdst = Inr (ml, pl, ?n, mdst', pdst', b1)"
      using run0 1(1) em(1) ep(1) n(1) by (simp add: b1)
    moreover have "ptr_repr b1 ks" "ptr_cfg b1 = ptr_cfg b"
      using rep sv by (simp_all add: b1 ptr_repr_def ptr_cfg_def)
    moreover have "length remap \<le> 337"
      using s(2) ns(2) by linarith
    then have "100 \<le> ml" "ml \<le> 10870" "ml \<le> length mdst'"
      using em(2) lm s(2) by (simp_all add: ml_def ptr_bucketsPerBlock_def)
    moreover have "block_slots (ptr_QuerySlot \<lparr>pd_pilotHPs = initPilotHPs (pb_globalSeed b)\<rparr>) ks (take ml mdst') (key_final (pb_globalSeed b) ?n pilots remap)"
      unfolding em(3) by (rule ptr_block_slots_ok [OF rep sol nk n(2)])
    ultimately show ?thesis
      using ep(2,3) by blast
  next
    case (2 e)
    then show ?thesis
      using run0 by (auto simp: ptr_solve_def)
  qed
qed

end
