(* ===== verification/Ptr_Live.thy ===== *)
theory Ptr_Live
  imports Ptr_Block
begin

text \<open>
  A block whose buckets always find a free pilot is solved without an eviction. A block of a single key
  is such a block, so it always builds.
\<close>

section \<open>Buckets that fit\<close>

lemma process_fits:
  assumes sol: "solving sv" and i: "i < sv_numBuckets sv" "\<not> processed sv i" and free: "free_pilot sv (sv_buckets sv ! i) 0"
  shows "\<exists>sv'. processBucketWithHeap i rng sv = Inr (rng, sv') \<and> advanced sv i sv' \<and> work_of sv' = work_of sv"
proof -
  let ?b = "sv_buckets sv ! i" and ?n = "length (sv_buckets sv ! i)"
  have wf: "search_wf sv" and geo: "geometry sv"
    using sol by (simp_all add: solving_def)
  have ib: "i < length (sv_buckets sv)"
    using geo i(1) by (simp add: geometry_def)
  then have len: "?n \<le> length (sv_slotsBuffer sv)" "?n \<le> length (sv_foldedBuffer sv)"
    using geo by (simp_all add: geometry_def)
  have least: "least_free_pilot sv ?b = Some 0"
    using free by (simp add: least_free_pilot_def numPilotValues_def)
  obtain sv1 where rel: "search_rel sv sv1" and f: "findFreePilot ?b ?n sv = Inr (0, True, sv1)" "take ?n (sv_slotsBuffer sv1) = map of_nat (slots_at sv 0 ?b)"
    using findFreePilot_ok [OF wf len] unfolding search_result_def least by auto
  have core: "search_core sv1 = search_core sv"
    using rel by (simp only: search_rel_def)
  note c = core_fields [OF core] and sl = core_slot_of(3) [OF core]
  have i1: "i < sv_numBuckets sv1" "\<not> processed sv1 i"
    using i search_rel_solving(3) [OF sol rel] by (simp_all add: c)
  have "free_pilot sv1 (sv_buckets sv1 ! i) 0"
    using search_rel_free [OF wf rel] free by (simp add: c)
  from place_free_ok [OF search_rel_solving(1) [OF sol rel] i1 this] obtain sv' where
    r: "rbind (placeBucket i 0 (map of_nat (slots_at sv 0 ?b)) sv1) (setProcessed i) = Inr sv'" and a: "advanced sv1 i sv'"
    unfolding sl c by blast
  have "processBucketWithHeap i rng sv = Inr (rng, sv')"
    using ib f r by (auto simp: processBucketWithHeap_def rbind_eq_Inr)
  moreover have "work_of sv' = work_of sv"
    using r work_of_core [OF core] by (auto simp: rbind_eq_Inr dest!: placeBucket_work setProcessed_work)
  ultimately show ?thesis
    using advanced_rel [OF sol rel a] by blast
qed

section \<open>A single key\<close>

definition single_key :: "ptrEntry list list \<Rightarrow> bool" where
  "single_key buckets \<longleftrightarrow> (\<exists>j < length buckets. length (buckets ! j) = 1 \<and> (\<forall>i < length buckets. i \<noteq> j \<longrightarrow> buckets ! i = []))"

lemma single_free:
  assumes sol: "solving sv" and one: "single_key (sv_buckets sv)" and i: "i < sv_numBuckets sv" "\<not> processed sv i" "sv_buckets sv ! i \<noteq> []"
  shows "free_pilot sv (sv_buckets sv ! i) 0"
proof -
  obtain j where j: "j < length (sv_buckets sv)" "length (sv_buckets sv ! j) = 1" "\<forall>i < length (sv_buckets sv). i \<noteq> j \<longrightarrow> sv_buckets sv ! i = []"
    using one by (auto simp: single_key_def)
  have nb: "sv_numBuckets sv = length (sv_buckets sv)"
    using sol by (simp add: solving_def geometry_def)
  then have ij: "i = j"
    using i j(3) by auto
  have "\<not> taken sv s" if "s < unat (sv_numSlots sv)" for s
  proof
    assume t: "taken sv s"
    let ?o = "owner sv s"
    have "?o < sv_numBuckets sv" "processed sv ?o" "s \<in> set (bucket_slots sv ?o)"
      using sol that t by (auto simp: solving_def placed_def)
    moreover from this have "sv_buckets sv ! ?o \<noteq> []"
      by (auto simp: bucket_slots_def slots_at_def)
    ultimately show False
      using j(3) nb ij i(2) by auto
  qed
  moreover have "distinct (slots_at sv 0 (sv_buckets sv ! i))"
  proof -
    obtain x where "sv_buckets sv ! i = [x]"
      using j(2) ij by (auto simp: length_Suc_conv)
    then show ?thesis
      by (simp add: slots_at_def)
  qed
  ultimately show ?thesis
    using solving_bucket_less [of sv] sol by (auto simp: free_pilot_def solving_def)
qed

lemma single_step:
  assumes sol: "solving sv" and w: "work_of sv = (0, 0)" and one: "single_key (sv_buckets sv)" and i: "i < sv_numBuckets sv"
  shows "\<exists>rng' sv'. solve_bucket_step m i rng sv = Inr (False, rng', sv') \<and> solving sv' \<and> problem_of sv' = problem_of sv \<and> work_of sv' = (0, 0)"
proof -
  have geo: "sv_numBuckets sv = length (sv_buckets sv)" "sv_numBuckets sv \<le> length (sv_processedGen sv)" "length (sv_pilots sv) = sv_numBuckets sv"
    using sol unfolding solving_def geometry_def by blast+
  have bs: "bucketSize sv i = Inr (length (sv_buckets sv ! i))" and isp: "isProcessed sv i = Inr (processed sv i)"
    using geo i by (simp_all add: bucketSize_def isProcessed_def processed_def)
  consider "sv_buckets sv ! i = []" | "sv_buckets sv ! i \<noteq> []" "processed sv i" | "sv_buckets sv ! i \<noteq> []" "\<not> processed sv i"
    by blast
  then show ?thesis
  proof cases
    case 1
    let ?sv = "sv\<lparr>sv_pilots := (sv_pilots sv)[i := 0], sv_processedGen := (sv_processedGen sv)[i := sv_generation sv]\<rparr>"
    have "solve_bucket_step m i rng sv = Inr (False, rng, ?sv)"
      using geo i 1 bs by (simp add: solve_bucket_step_def setProcessed_def)
    moreover have "work_of ?sv = (0, 0)"
      using w by (simp add: work_of_def)
    ultimately show ?thesis
      using solving_empty [OF sol i 1 refl] by blast
  next
    case 2
    then have "solve_bucket_step m i rng sv = Inr (False, rng, sv)"
      using bs isp by (simp add: solve_bucket_step_def)
    then show ?thesis
      using sol w by blast
  next
    case 3
    obtain sv' where p: "processBucketWithHeap i rng sv = Inr (rng, sv')" "advanced sv i sv'" "work_of sv' = (0, 0)"
      using process_fits [OF sol i 3(2) single_free [OF sol one i 3(2,1)], of rng] w by auto
    then have "solve_bucket_step m i rng sv = Inr (False, rng, sv')"
      using 3 bs isp by (simp add: solve_bucket_step_def drain_heap.simps [of m rng sv'] work_of_def)
    then show ?thesis
      using p by (auto simp: advanced_def)
  qed
qed

lemma single_loop_live:
  assumes "solving sv" and "work_of sv = (0, 0)" and "single_key (sv_buckets sv)" and "\<forall>b\<in>set bs. unat b < sv_numBuckets sv"
  shows "\<exists>sv'. ptr_solve_loop m bs rng sv = Inr (False, sv')"
  using assms
proof (induction bs arbitrary: rng sv)
  case (Cons b bs)
  obtain rng' sv1 where s: "solve_bucket_step m (unat b) rng sv = Inr (False, rng', sv1)" "solving sv1" "problem_of sv1 = problem_of sv" "work_of sv1 = (0, 0)"
    using single_step [OF Cons.prems(1-3), of "unat b" m rng] Cons.prems(4) by auto
  have "sv_buckets sv1 = sv_buckets sv" "sv_numBuckets sv1 = sv_numBuckets sv"
    using s(3) by (simp_all add: problem_of_def)
  then obtain sv' where "ptr_solve_loop m bs rng' sv1 = Inr (False, sv')"
    using Cons.IH [OF s(2,4), of rng'] Cons.prems(3,4) by auto
  then show ?case
    using s(1) by simp
qed simp

lemma solver_solve_single:
  assumes fr: "fresh_for buckets nk seed sv" and nk: "nk = sum_list (map length buckets)" "0 < nk" "nk < 65536" and one: "single_key buckets"
  shows "\<exists>remap sv'. solver_solve a sv = Inr (Some remap, sv')"
proof -
  note st = solve_start [OF fr nk(2)]
  have b: "sv_buckets (solve_init sv) = buckets"
    using fr by (simp add: solve_init_def fresh_for_def)
  obtain sv2 where loop: "ptr_solve_loop (maxEvictionMultiplier * unat (sv_numSlots sv)) (sv_bucketOrder sv) (solve_rng a sv) (solve_init sv) = Inr (False, sv2)"
    using single_loop_live [OF st(1,5) one [folded b] st(4), of "maxEvictionMultiplier * unat (sv_numSlots sv)" "solve_rng a sv"] by blast
  from solve_finish [OF fr nk loop] show ?thesis
    using st(6) [of a] loop by auto
qed

lemma solve_attempts_single:
  assumes "length (pb_buckets b) = ptr_bucketsPerBlock" and "pb_keysInBlock b = sum_list (map length (pb_buckets b))"
    and "0 < pb_keysInBlock b" and "pb_keysInBlock b \<le> 32955" and "ptr_bucketsPerBlock \<le> length mdst" and "solver_ok (pb_solver b)"
    and one: "single_key (pb_buckets b)"
  shows "\<exists>r. solve_attempts (a # as) mdst b = Inr r"
proof -
  note ns = ptr_block_slots [OF assms(4)]
  have lt: "sum_list (map length (pb_buckets b)) < 65536" "0 < unat (computeNumSlots (pb_keysInBlock b))" "pb_keysInBlock b < 65536"
    using assms(2-4) ns(1) by linarith+
  obtain sv where r: "solver_reset (pb_buckets b) (pb_keysInBlock b) (pb_globalSeed b) (Some mdst) (pb_solver b) = Inr sv"
    and fr: "fresh_for (pb_buckets b) (pb_keysInBlock b) (pb_globalSeed b) sv"
    using solver_reset_ok [OF assms(6,1) lt(1,2) ns(3) assms(5)] by blast
  obtain remap sv' where "solver_solve a sv = Inr (Some remap, sv')"
    using solver_solve_single [OF fr assms(2,3) lt(3) one] by blast
  then show ?thesis
    using r by simp
qed

lemma ptr_build_single:
  assumes rep: "ptr_repr b [k]" and mk: "1 \<le> pb_maxKeysPerBlock b" "pb_maxKeysPerBlock b \<le> 32955" and fp: "fps_fit (pb_fingerprintSize b) [k]"
    and mdst: "length mdst = ptr_MaxMetadataSizeForCurrentBlock b" and pdst: "length pdst = pb_payloadSize b + pb_fingerprintSize b"
  shows "\<exists>r. ptr_BuildSeparatedInto b mdst pdst = Inr r"
proof -
  let ?N = "ptr_bucketsPerBlock" and ?j = "ptr_bucket k"
  have bk: "pb_buckets b = map (\<lambda>i. map ptr_entry (ptr_group [k] i)) [0..<?N]" and n: "pb_keysInBlock b = 1" and so: "solver_ok (pb_solver b)"
    using rep by (simp_all add: ptr_repr_def)
  have one: "single_key (pb_buckets b)"
    unfolding single_key_def using ptr_bucket_lt [of k] by (intro exI [of _ ?j]) (auto simp: bk ptr_group_def)
  have total: "pb_keysInBlock b = sum_list (map length (pb_buckets b))" and lb: "length (pb_buckets b) = ?N"
    using ptr_groups_sum [of "[k]"] n by (simp_all add: bk)
  have lm: "?N \<le> length mdst"
    using mdst n by (simp add: ptr_MaxMetadataSizeForCurrentBlock_def ptr_estimateMetadataSize_def Let_def)
  have "[0..<maxGlobalRetries] = 0 # [Suc 0..<maxGlobalRetries]"
    by (simp add: maxGlobalRetries_def upt_conv_Cons)
  moreover have "\<exists>r. solve_attempts (0 # [Suc 0..<maxGlobalRetries]) mdst b = Inr r"
    using n by (intro solve_attempts_single [OF lb total _ _ lm so one]) simp_all
  ultimately obtain r where "solve_attempts [0..<maxGlobalRetries] mdst b = Inr r"
    by metis
  then show ?thesis
    using ptr_build_total [OF rep _ mk(2) fp mdst, of pdst] mk(1) pdst by (auto simp: ptr_solve_def)
qed

end
