(* ===== verification/Ptr_Algo.thy ===== *)
theory Ptr_Algo
  imports Ptr_Live Bij_Algo
begin

text \<open>
  The PTRHash algorithm, called through the algorithm table, keeps the contract \<open>block_algo\<close> that the
  sorted builder relies on.
\<close>

definition ptr_holds :: "u64 \<Rightarrow> u64 \<Rightarrow> nat \<Rightarrow> nat \<Rightarrow> algoBuilder \<Rightarrow> blockKey list \<Rightarrow> bool" where
  "ptr_holds tk s ps fs b ks \<longleftrightarrow> (\<exists>p. b = Inr p \<and> ptr_repr p ks \<and> ptr_cfg p = ptr_cfg (ptr_NewBuilder tk s ps fs))"

definition ptr_maxMeta :: "u64 \<Rightarrow> nat" where
  "ptr_maxMeta tk = ptr_MaxIndexMetadataSize (ptr_NewBuilder tk 0 0 0)"

lemma ptr_maxMeta_le: "10870 \<le> ptr_maxMeta tk" "ptr_maxMeta tk \<le> 10872"
  by (simp_all add: ptr_maxMeta_def ptr_maxMeta_bounds)

lemma ptr_maxMeta_any: "ptr_MaxIndexMetadataSize p = ptr_maxMeta tk"
  by (simp add: ptr_maxMeta_def ptr_MaxIndexMetadataSize_def)

lemma ptr_cfg_fields:
  assumes "ptr_cfg p = ptr_cfg (ptr_NewBuilder tk s ps fs)"
  shows "pb_numBlocks p = ptr_numBlocks tk" "pb_globalSeed p = s" "pb_payloadSize p = ps"
    "pb_fingerprintSize p = fs" "pb_maxKeysPerBlock p = ptr_maxKeysPerBlock tk"
  using assms by (simp_all add: ptr_cfg_def ptr_NewBuilder_def)

lemma ptr_build_empty:
  assumes "ptr_repr p []" and "length mdst = ptr_MaxMetadataSizeForCurrentBlock p"
  shows "\<exists>mdst'. ptr_BuildSeparatedInto p mdst pdst = Inr (10002, 0, 0, mdst', pdst, p) \<and> length mdst' = 10002"
proof -
  have k: "pb_keysInBlock p = 0"
    using assms(1) by (simp add: ptr_repr_def)
  have len: "length mdst = 10002"
    using assms(2) k by (simp add: ptr_MaxMetadataSizeForCurrentBlock_def ptr_estimateMetadataSize_def ptr_bucketsPerBlock_def remapTableHeaderSize_def)
  then show ?thesis
    using k by (simp add: ptr_BuildSeparatedInto_def ptr_buildEmptyMetadataInto_def put_bytes_def ptr_bucketsPerBlock_def remapTableHeaderSize_def)
qed

interpretation ptr_algo: block_algo algo_ops "\<lambda>tk s ps fs. Inr (ptr_NewBuilder tk s ps fs)"
  "\<lambda>s. ptr_QuerySlot \<lparr>pd_pilotHPs = initPilotHPs s\<rparr>" ptr_holds ptr_numBlocks ptr_maxMeta
proof
  fix tk s :: u64 and ps fs :: nat and b :: "algoBuilder" and ks :: "blockKey list" and mdst pdst :: bytes
  let ?new = "ptr_NewBuilder tk s ps fs"
  show "unat tk < 2 ^ 40 \<Longrightarrow> ptr_holds tk s ps fs (Inr ?new :: algoBuilder) []"
    by (simp add: ptr_holds_def ptr_NewBuilder_repr)
  show "unat tk < 2 ^ 40 \<Longrightarrow> 2 \<le> unat (ptr_numBlocks tk)"
    by (rule ptr_numBlocks_cover)
  show "unat tk < 2 ^ 40 \<Longrightarrow> ptr_maxMeta tk \<le> 2 ^ 14"
    using ptr_maxMeta_le(2) [of tk] by simp
  {
    assume h: "ptr_holds tk s ps fs b ks"
    show "op_NumBlocks algo_ops b = ptr_numBlocks tk"
      using h ptr_cfg_fields by (auto simp: ptr_holds_def algo_ops_def ptr_NumBlocks_def)
    show "op_GlobalConfigSize algo_ops b = 0"
      using h by (auto simp: ptr_holds_def algo_ops_def ptr_GlobalConfigSize_def)
    show "op_KeysAdded algo_ops b = length ks"
      using h by (auto simp: ptr_holds_def algo_ops_def ptr_KeysAdded_def ptr_repr_def)
    show "\<exists>b'. op_AddKey algo_ops b (bk_k0 k) (bk_k1 k) (bk_payload k) (bk_fp k) = Inr b' \<and>
        ptr_holds tk s ps fs b' (ks @ [k])" for k
      using h ptr_AddKey_repr [of _ ks k] by (fastforce simp: ptr_holds_def algo_ops_def)
    show "ptr_holds tk s ps fs (op_Reset algo_ops b) []"
      using h ptr_Reset_repr by (auto simp: ptr_holds_def algo_ops_def)
    show "op_MaxIndexMetadataSize algo_ops b = ptr_maxMeta tk"
      using h ptr_maxMeta_any by (auto simp: ptr_holds_def algo_ops_def)
  }
  {
    assume h: "ptr_holds tk s ps fs b []" and len: "length mdst = op_MaxMetadataSizeForCurrentBlock algo_ops b"
    then obtain p where p: "b = Inr p" "ptr_repr p []"
      by (auto simp: ptr_holds_def)
    then obtain mdst' where "ptr_BuildSeparatedInto p mdst pdst = Inr (10002, 0, 0, mdst', pdst, p)" "length mdst' = 10002"
      using ptr_build_empty [OF p(2), of mdst pdst] len by (auto simp: algo_ops_def)
    then show "\<exists>ml mdst' pdst' b'. op_BuildSeparatedInto algo_ops b mdst pdst = Inr (ml, 0, 0, mdst', pdst', b') \<and>
        ptr_holds tk s ps fs b' [] \<and> 100 \<le> ml \<and> ml \<le> ptr_maxMeta tk \<and> ml \<le> length mdst'"
      using h p ptr_maxMeta_le(1) [of tk] by (auto simp: algo_ops_def)
  }
  fix ml pl nk mdst' pdst' and b' :: "algoBuilder"
  assume tk: "unat tk < 2 ^ 40" and h: "ptr_holds tk s ps fs b ks" and ne: "ks \<noteq> []" and fit: "fps_fit fs ks"
    and len: "length mdst = op_MaxMetadataSizeForCurrentBlock algo_ops b" "length pdst = length ks * (ps + fs)"
    and run: "op_BuildSeparatedInto algo_ops b mdst pdst = Inr (ml, pl, nk, mdst', pdst', b')"
  obtain p where p: "b = Inr p" "ptr_repr p ks" "ptr_cfg p = ptr_cfg ?new"
    using h by (auto simp: ptr_holds_def)
  note cfg = ptr_cfg_fields [OF p(3)]
  obtain p' where run': "ptr_BuildSeparatedInto p mdst pdst = Inr (ml, pl, nk, mdst', pdst', p')" and b': "b' = Inr p'"
    using run p(1) by (auto simp: algo_ops_def res_simps)
  have a: "pb_maxKeysPerBlock p \<le> 32955" "fps_fit (pb_fingerprintSize p) ks" "length mdst = ptr_MaxMetadataSizeForCurrentBlock p"
    "length pdst = length ks * (pb_payloadSize p + pb_fingerprintSize p)"
    using ptr_maxKeysPerBlock_le(1) [OF tk] cfg fit len p(1) by (simp_all add: algo_ops_def)
  show "(\<exists>slot. block_slots (ptr_QuerySlot \<lparr>pd_pilotHPs = initPilotHPs s\<rparr>) ks (take ml mdst') slot \<and> block_entries fs ps ks pdst' slot) \<and>
      nk = length ks \<and> length pdst' = length pdst \<and> ptr_holds tk s ps fs b' ks \<and>
      100 \<le> ml \<and> ml \<le> ptr_maxMeta tk \<and> ml \<le> length mdst'"
    using ptr_build_total [OF p(2) ne a] run' cfg p(3) b' ptr_maxMeta_le(1) [of tk] by (auto simp: ptr_holds_def)
qed

section \<open>Limits and liveness\<close>

lemma ptr_limits:
  assumes "unat tk < 2 ^ 40"
  shows "unat (ptr_numBlocks tk) < 2 ^ 31" and "unat (ptr_numBlocks tk) * ptr_maxMeta tk < 2 ^ 40"
proof -
  have "unat tk div 30000 < 36650388"
    using assms by (simp add: div_less_iff_less_mult)
  then have nb: "unat (ptr_numBlocks tk) \<le> 36650390"
    using ptr_numBlocks_cover(3) [OF assms] by linarith
  then show "unat (ptr_numBlocks tk) < 2 ^ 31"
    by simp
  have "unat (ptr_numBlocks tk) * ptr_maxMeta tk \<le> 36650390 * 10872"
    using nb ptr_maxMeta_le(2) by (rule mult_le_mono)
  also have "(36650390 * 10872 :: nat) < 2 ^ 40"
    by simp
  finally show "unat (ptr_numBlocks tk) * ptr_maxMeta tk < 2 ^ 40" .
qed

lemma newBlock_ptr:
  "newBlockBuilder AlgoPTRHash tk s ps fs = Inr (Inr (ptr_NewBuilder tk s ps fs))"
  "newBlockDecoder AlgoPTRHash [] s = Inr (ptr_QuerySlot \<lparr>pd_pilotHPs = initPilotHPs s\<rparr>)"
  by (simp_all add: newBlockBuilder_def newBlockDecoder_def ptr_NewDecoder_def AlgoPTRHash_def AlgoBijection_def)

lemma ptr_buildable:
  assumes "unat tk < 2 ^ 40" and "fps_fit fs ks" and "length ks \<le> 1" and "1 \<le> ptr_maxKeysPerBlock tk"
  shows "ptr_algo.buildable tk s ps fs ks"
  unfolding ptr_algo.buildable_def
proof (intro allI impI)
  fix b and mdst pdst :: bytes
  assume h: "ptr_holds tk s ps fs b ks" and len: "length mdst = op_MaxMetadataSizeForCurrentBlock algo_ops b" "length pdst = length ks * (ps + fs)"
  obtain p where p: "b = Inr p" "ptr_repr p ks" and cfg: "ptr_cfg p = ptr_cfg (ptr_NewBuilder tk s ps fs)"
    using h by (auto simp: ptr_holds_def)
  note f = ptr_cfg_fields [OF cfg]
  have "\<exists>r. ptr_BuildSeparatedInto p mdst pdst = Inr r"
  proof (cases ks)
    case Nil
    then show ?thesis
      using ptr_build_empty [of p mdst pdst] p len by (auto simp: algo_ops_def)
  next
    case (Cons k ks')
    then have "ks = [k]"
      using assms(3) by simp
    then show ?thesis
      using ptr_build_single [of p k mdst pdst] assms f p len ptr_maxKeysPerBlock_le(1) [OF assms(1)] by (simp add: algo_ops_def)
  qed
  then show "\<exists>r. op_BuildSeparatedInto algo_ops b mdst pdst = Inr r"
    by (auto simp: algo_ops_def p(1))
qed

end
