(* ===== verification/Ptr_Props.thy ===== *)
theory Ptr_Props
  imports Ptr_Algo Sorted_Props
begin

text \<open>
  Properties of the PTRHash algorithm: the sorted build with it, the outcomes of a block build, the
  invariant of the solver and its parts against their references.
\<close>

section \<open>The whole build\<close>

definition ptr_sample_opts :: "buildOption list" where
  "ptr_sample_opts = [WithPayload 4, WithFingerprint 1, WithAlgorithm AlgoPTRHash]"

lemma ptr_sample_numBlocks: "ptr_numBlocks 2 = 2"
proof -
  have "unat (ptr_numBlocks 2) = unat (2 :: u32)"
    using ptr_numBlocks_cover(1,3) [of 2] by simp
  then show ?thesis
    by (simp only: word_unat_eq_iff)
qed

lemma ptr_sample_config:
  "sorted_config 2 ptr_sample_opts = \<lparr>cfg_workers = 0, cfg_payloadSize = 4, cfg_fingerprintSize = 1, cfg_globalSeed = 0x1234567890abcdef,
     cfg_userMetadata = [], cfg_unsortedTempDir = '''', cfg_algorithm = 1, cfg_totalKeys = 2\<rparr>"
  by (simp add: sorted_config_def ptr_sample_opts_def defaultBuildConfig_def WithPayload_def WithFingerprint_def WithAlgorithm_def AlgoPTRHash_def)

lemma ptr_sample_live:
  "\<exists>b0 b1 b2. NewSortedBuilder sample_env sample_par newBlockBuilder algo_ops 2 ptr_sample_opts = Inr b0 \<and>
    add_keys sample_env sample_par algo_ops (map (Pair None) sample_kvs) b0 = (None, b1) \<and> Finish sample_env sample_par algo_ops b1 = (None, b2)"
proof (rule ptr_algo.sorted_build_live [where ps = 4 and fs = 1, OF sample_valid(1) refl])
  have r: "key_route 2 (key_of 1 (replicate 16 0) 7) = 0" "key_route 2 (key_of 1 (replicate 16 255) 9) = 1"
    using sample_routes by (simp_all add: sample_kvs_def block_keys_def)
  have one: "1 \<le> ptr_maxKeysPerBlock 2"
    using ptr_maxKeysPerBlock_le(2) [of 2] by (simp add: ptr_sample_numBlocks)
  show "newBlockBuilder (cfg_algorithm (sorted_config 2 ptr_sample_opts)) 2 (cfg_globalSeed (sorted_config 2 ptr_sample_opts)) ps fs =
      Inr (Inr (ptr_NewBuilder 2 (cfg_globalSeed (sorted_config 2 ptr_sample_opts)) ps fs))" for ps fs
    using newBlock_ptr(1) by (simp add: ptr_sample_config AlgoPTRHash_def)
  show "ptr_algo.buildable 2 (cfg_globalSeed (sorted_config 2 ptr_sample_opts)) 4 1
      (filter (\<lambda>k. key_route (ptr_numBlocks 2) k = i) (map (\<lambda>(key, payload). key_of 1 key payload) sample_kvs))" for i
  proof (rule ptr_buildable)
    show "fps_fit 1 (filter (\<lambda>k. key_route (ptr_numBlocks 2) k = i) (map (\<lambda>(key, payload). key_of 1 key payload) sample_kvs))"
      using fps_fit_keys [of 1] by (simp add: block_keys_def)
    show "length (filter (\<lambda>k. key_route (ptr_numBlocks 2) k = i) (map (\<lambda>(key, payload). key_of 1 key payload) sample_kvs)) \<le> 1"
      using r by (simp add: sample_kvs_def ptr_sample_numBlocks)
  qed (use one in simp_all)
qed (use sample_valid(2,3) in \<open>simp_all add: ptr_sample_config ptr_sample_numBlocks sample_kvs_def block_keys_def\<close>)

text \<open>C6: the same round trip with the PTRHash algorithm: a build that ends without an error gives a
  file in which every key added has its own rank below the number of keys and its own payload.\<close>

theorem ptr_build_roundtrip:
  assumes "NewSortedBuilder env par newBlockBuilder algo_ops tk opts = Inr b0"
    and "cfg_workers (sorted_config tk opts) \<le> 1" and "cfg_algorithm (sorted_config tk opts) = AlgoPTRHash"
    and "unat tk < 2 ^ 40" and "length kvs \<le> unat tk"
    and "add_keys env par algo_ops kvs b0 = (None, b1)" and "Finish env par algo_ops b1 = (None, b2)"
  shows "\<exists>file idx. iw_disk (bl_iw b2) = Some file \<and> OpenBytes newBlockDecoder file = Inr idx \<and>
    index_serves (sys_xxh env) idx (sorted_config tk opts) (ptr_numBlocks tk) (map snd kvs)"
  by (rule ptr_algo.sorted_build_serves [OF assms(1) refl assms(2) refl _ _ ptr_limits(1) ptr_limits(2) [OF assms(4)] assms(6,5,7)])
    (simp_all add: assms(3) newBlock_ptr)

theorem ptr_build_roundtrip_witness:
  "\<exists>b0 b1 b2 file idx. NewSortedBuilder sample_env sample_par newBlockBuilder algo_ops 2 ptr_sample_opts = Inr b0 \<and>
    add_keys sample_env sample_par algo_ops (map (Pair None) sample_kvs) b0 = (None, b1) \<and> Finish sample_env sample_par algo_ops b1 = (None, b2) \<and>
    iw_disk (bl_iw b2) = Some file \<and> OpenBytes newBlockDecoder file = Inr idx \<and>
    index_serves (sys_xxh sample_env) idx (sorted_config 2 ptr_sample_opts) (ptr_numBlocks 2) sample_kvs"
proof -
  obtain b0 b1 b2 where run: "NewSortedBuilder sample_env sample_par newBlockBuilder algo_ops 2 ptr_sample_opts = Inr b0"
    "add_keys sample_env sample_par algo_ops (map (Pair None) sample_kvs) b0 = (None, b1)" "Finish sample_env sample_par algo_ops b1 = (None, b2)"
    using ptr_sample_live by blast
  have "map snd (map (Pair None) sample_kvs) = sample_kvs"
    by (simp add: sample_kvs_def)
  then show ?thesis
    using ptr_build_roundtrip [OF run(1) _ _ _ _ run(2,3)] run by (simp add: ptr_sample_config AlgoPTRHash_def sample_kvs_def)
qed

section \<open>Building a block\<close>

abbreviation ptr_add_all :: "blockKey list \<Rightarrow> ptrBuilder \<Rightarrow> ptrBuilder res" where
  "ptr_add_all ks b \<equiv> rfold (\<lambda>k b. ptr_AddKey b (bk_k0 k) (bk_k1 k) (bk_payload k) (bk_fp k)) ks b"

lemma ptr_add_all_repr:
  assumes "ptr_repr b done_ks" shows "\<exists>b'. ptr_add_all ks b = Inr b' \<and> ptr_repr b' (done_ks @ ks) \<and> ptr_cfg b' = ptr_cfg b"
  using assms
proof (induction ks arbitrary: b done_ks)
  case (Cons k ks)
  obtain b1 where b1: "ptr_AddKey b (bk_k0 k) (bk_k1 k) (bk_payload k) (bk_fp k) = Inr b1" "ptr_repr b1 (done_ks @ [k])" "ptr_cfg b1 = ptr_cfg b"
    using ptr_AddKey_repr [OF Cons.prems] by blast
  from Cons.IH [OF b1(2)] show ?case
    using b1 by simp
qed simp

text \<open>C7: a PTRHash block builder that was given any keys never panics. It reports an overflow when the
  block is over its limit, one of the solver's errors, or it returns a block: the metadata alone maps
  the keys one to one onto the slots, and every slot holds the entry of its key.\<close>

theorem ptr_block_outcome:
  assumes "unat tk < 2 ^ 40" and "ks \<noteq> []" and "fps_fit fs ks" and "ptr_add_all ks (ptr_NewBuilder tk s ps fs) = Inr b"
    and "length mdst = ptr_MaxMetadataSizeForCurrentBlock b" and "length pdst = length ks * (ps + fs)"
  shows "ptr_BuildSeparatedInto b mdst pdst = Inl ErrBlockOverflow \<and> ptr_maxKeysPerBlock tk < length ks \<or>
    (\<exists>e. ptr_BuildSeparatedInto b mdst pdst = Inl e \<and>
      e \<in> {ErrDuplicateKey, ErrIndistinguishableHashes, ErrOther ''ptrhash solver: eviction limit exceeded''}) \<or>
    (\<exists>ml pl mdst' pdst' b' slot. ptr_BuildSeparatedInto b mdst pdst = Inr (ml, pl, length ks, mdst', pdst', b') \<and>
      block_slots (ptr_QuerySlot \<lparr>pd_pilotHPs = initPilotHPs s\<rparr>) ks (take ml mdst') slot \<and> block_entries fs ps ks pdst' slot)"
proof -
  have rep: "ptr_repr b ks" and "ptr_cfg b = ptr_cfg (ptr_NewBuilder tk s ps fs)"
    using ptr_add_all_repr [OF ptr_NewBuilder_repr, of ks tk s ps fs] assms(4) by auto
  note f = ptr_cfg_fields [OF this(2)]
  have a: "pb_maxKeysPerBlock b \<le> 32955" "fps_fit (pb_fingerprintSize b) ks" "length pdst = length ks * (pb_payloadSize b + pb_fingerprintSize b)"
    using f assms(3,6) ptr_maxKeysPerBlock_le(1) [OF assms(1)] by simp_all
  show ?thesis
    using ptr_build_total [OF rep assms(2) a(1,2) assms(5) a(3), unfolded solve_errors_def f] by blast
qed

definition ptr_key :: blockKey where
  "ptr_key = \<lparr>bk_k0 = 5, bk_k1 = 9, bk_payload = 7, bk_fp = 3\<rparr>"

theorem ptr_block_outcome_witness:
  "\<exists>b mdst. ptr_add_all [ptr_key] (ptr_NewBuilder 2 1 4 1) = Inr b \<and>
    (\<exists>ml pl mdst' pdst' b' slot. ptr_BuildSeparatedInto b mdst (replicate 5 0) = Inr (ml, pl, 1, mdst', pdst', b') \<and>
      block_slots (ptr_QuerySlot \<lparr>pd_pilotHPs = initPilotHPs 1\<rparr>) [ptr_key] (take ml mdst') slot \<and> block_entries 1 4 [ptr_key] pdst' slot)"
proof -
  obtain b where b: "ptr_add_all [ptr_key] (ptr_NewBuilder 2 1 4 1) = Inr b" "ptr_repr b [ptr_key]" "ptr_cfg b = ptr_cfg (ptr_NewBuilder 2 1 4 1)"
    using ptr_add_all_repr [OF ptr_NewBuilder_repr, of "[ptr_key]" 2 1 4 1] by auto
  note f = ptr_cfg_fields [OF b(3)]
  let ?m = "replicate (ptr_MaxMetadataSizeForCurrentBlock b) (0 :: u8)"
  have fit: "fps_fit 1 [ptr_key]"
    by (simp add: fps_fit_def ptr_key_def)
  have "1 \<le> ptr_maxKeysPerBlock 2" "ptr_maxKeysPerBlock 2 \<le> 32955"
    using ptr_maxKeysPerBlock_le [of 2] by (simp_all add: ptr_sample_numBlocks)
  then obtain r where "ptr_BuildSeparatedInto b ?m (replicate 5 0) = Inr r"
    using ptr_build_single [OF b(2), of ?m "replicate 5 0"] fit f by auto
  then have "\<exists>ml pl mdst' pdst' b' slot. ptr_BuildSeparatedInto b ?m (replicate 5 0) = Inr (ml, pl, length [ptr_key], mdst', pdst', b') \<and>
      block_slots (ptr_QuerySlot \<lparr>pd_pilotHPs = initPilotHPs 1\<rparr>) [ptr_key] (take ml mdst') slot \<and> block_entries 1 4 [ptr_key] pdst' slot"
    using ptr_block_outcome [OF _ _ fit b(1), of ?m "replicate 5 0"] by simp
  then show ?thesis
    using b(1) by (intro exI [of _ b] exI [of _ ?m]) simp
qed

section \<open>The solver\<close>

definition sample_entry :: ptrEntry where
  "sample_entry = \<lparr>pe_suffix = 9, pe_k0 = 5, pe_payload = 7, pe_fingerprint = 3\<rparr>"

definition sample_buckets :: "ptrEntry list list" where
  "sample_buckets = [sample_entry] # replicate 9999 []"

text \<open>C35: resetting the solver for a block of at most 32955 keys never panics, and whatever the last block left
  in the arrays and marks, the new state is well formed, has no taken slot and no processed bucket, and
  its bucket order is a permutation.\<close>

theorem reset_well_formed:
  assumes "solver_ok sv" and "length buckets = ptr_bucketsPerBlock" and "nk = sum_list (map length buckets)" and "0 < nk" and "nk \<le> 32955"
    and "ptr_bucketsPerBlock \<le> length dst"
  shows "\<exists>sv'. solver_reset buckets nk seed (Some dst) sv = Inr sv' \<and> solver_ok sv' \<and> search_wf sv' \<and> geometry sv' \<and>
    (\<forall>i<ptr_bucketsPerBlock. \<not> processed sv' i) \<and> (\<forall>s<unat (computeNumSlots nk). \<not> taken sv' s) \<and>
    unat ` set (sv_bucketOrder sv') = {0..<ptr_bucketsPerBlock}"
proof -
  note ns = ptr_block_slots [OF assms(5)]
  have "0 < unat (computeNumSlots nk)" "sum_list (map length buckets) < 65536"
    using ns(1) assms(3-5) by linarith+
  from solver_reset_ok [OF assms(1,2) this(2,1) ns(3) assms(6), of seed] obtain sv' where
    r: "solver_reset buckets nk seed (Some dst) sv = Inr sv'" "fresh_for buckets nk seed sv'"
    by blast
  then have "sv_numBuckets sv' = ptr_bucketsPerBlock"
    using assms(2) by (simp add: fresh_for_def geometry_def)
  then show ?thesis
    using r by (auto simp: fresh_for_def)
qed

lemma sample_buckets_ok: "length sample_buckets = ptr_bucketsPerBlock" "sum_list (map length sample_buckets) = 1"
  by (simp_all add: sample_buckets_def ptr_bucketsPerBlock_def sum_list_replicate)

theorem reset_well_formed_witness:
  "\<exists>sv'. solver_reset sample_buckets 1 0 (Some (replicate 10000 0)) (newSolver ptr_bucketsPerBlock solverMaxKeys) = Inr sv' \<and> solver_ok sv' \<and>
    (\<forall>i<ptr_bucketsPerBlock. \<not> processed sv' i) \<and> unat ` set (sv_bucketOrder sv') = {0..<ptr_bucketsPerBlock}"
  using reset_well_formed [OF newSolver_ok [of solverMaxKeys] sample_buckets_ok(1), of 1 "replicate 10000 0" 0] sample_buckets_ok(2)
  by (auto simp: ptr_bucketsPerBlock_def)

lemma sample_fresh: "\<exists>sv. fresh_for sample_buckets 1 0 sv"
  using solver_reset_ok [OF newSolver_ok [of solverMaxKeys] sample_buckets_ok(1), of 1 "replicate 10000 0" 0] sample_buckets_ok(2) ptr_block_slots [of 1]
  by (auto simp: ptr_bucketsPerBlock_def)

text \<open>C8: processing a bucket keeps the invariant of the solver: the processed buckets own exactly the taken
  slots, without overlap. The bucket is placed, and a bucket that loses its slots to it waits in the
  heap; the only other outcomes are the two errors of a bucket without a pilot, never a panic.\<close>

theorem process_keeps_invariant:
  assumes "solving sv" and "i < sv_numBuckets sv" and "\<not> processed sv i"
  shows "(\<exists>rng' sv'. processBucketWithHeap i rng sv = Inr (rng', sv') \<and> solving sv' \<and> processed sv' i \<and> waiting sv \<subseteq> waiting sv' \<and>
      (\<forall>j < sv_numBuckets sv. processed sv j \<longrightarrow> processed sv' j \<or> j \<in> waiting sv')) \<or>
    (\<exists>e. processBucketWithHeap i rng sv = Inl e \<and> e \<in> {ErrDuplicateKey, ErrIndistinguishableHashes})"
  using process_ok [OF assms, of rng] unfolding advanced_def solve_error_def by (metis insertCI)

theorem process_keeps_invariant_witness:
  "\<exists>sv. solving sv \<and> 0 < sv_numBuckets sv \<and> \<not> processed sv 0 \<and> (\<exists>rng' sv'. processBucketWithHeap 0 (1, 2) sv = Inr (rng', sv') \<and> solving sv' \<and> processed sv' 0)"
proof -
  obtain sv where fr: "fresh_for sample_buckets 1 0 sv"
    using sample_fresh by blast
  let ?sv = "solve_init sv"
  note st = solve_start [OF fr zero_less_one]
  have b: "sv_buckets ?sv = sample_buckets" "sv_numBuckets ?sv = ptr_bucketsPerBlock" "\<not> processed ?sv 0"
    using fr sample_buckets_ok(1) by (simp_all add: solve_init_def fresh_for_def geometry_def processed_def ptr_bucketsPerBlock_def)
  have "single_key (sv_buckets ?sv)" "sv_buckets ?sv ! 0 \<noteq> []"
    unfolding b(1) single_key_def by (auto simp: sample_buckets_def intro!: exI [of _ 0])
  then obtain sv' where "processBucketWithHeap 0 (1, 2) ?sv = Inr ((1, 2), sv')"
    using process_fits [OF st(1) _ b(3) single_free [OF st(1) _ _ b(3)]] b(2) by (auto simp: ptr_bucketsPerBlock_def)
  then show ?thesis
    using process_keeps_invariant [OF st(1) _ b(3), of "(1, 2)"] st(1) b by (intro exI [of _ ?sv]) (auto simp: ptr_bucketsPerBlock_def)
qed

text \<open>C9: the loop that empties the heap of evicted buckets ends, from any state of the solver that keeps
  its invariant. It returns with an empty heap and then every bucket of \<open>V\<close> is placed, where \<open>V\<close> is any
  set of buckets that were placed or waiting in the heap when the loop began; or it returns because the
  eviction limit is exceeded; or with one of the two errors of a bucket without a pilot. Buckets that were
  neither placed nor waiting are left to the main loop of the solver.\<close>

theorem drain_heap_ends:
  assumes "solving sv" and "\<forall>i\<in>V. i < sv_numBuckets sv \<and> (processed sv i \<or> i \<in> waiting sv)"
  shows "(\<exists>hit rng' sv'. drain_heap m rng sv = Inr (hit, rng', sv') \<and> solving sv' \<and>
      (if hit then m < sv_evictions sv' else heap_len (sv_pendingHeap sv') = 0 \<and> (\<forall>i\<in>V. processed sv' i))) \<or>
    (\<exists>e. drain_heap m rng sv = Inl e \<and> e \<in> {ErrDuplicateKey, ErrIndistinguishableHashes})"
proof -
  have len: "heap_len (sv_pendingHeap sv') = 0" if "solving sv'" "waiting sv' = {}" for sv'
    using that size_heap_contents [of "sv_pendingHeap sv'"] by (auto simp: solving_def heap_of_buckets_def waiting_def)
  consider hit rng' sv' where "drain_heap m rng sv = Inr (hit, rng', sv')" "drained m sv V hit sv'" | e where "drain_heap m rng sv = Inl e" "solve_error sv e"
    using drain_heap_ok [OF assms(1), of V m rng] assms(2) unfolding covers_def by blast
  then show ?thesis
  proof cases
    case (1 hit rng' sv')
    then show ?thesis
      using len [of sv'] by (cases hit) (auto simp: drained_def covers_def)
  qed (auto simp: solve_error_def split: if_splits)
qed

text \<open>A state in which the one bucket with a key waits in the heap: one round places it.\<close>

definition one_waiting :: "solver \<Rightarrow> solver" where
  "one_waiting sv = (solve_init sv)\<lparr>sv_pendingHeap := \<lparr>hp_indices = [0], hp_sizes = [1]\<rparr>\<rparr>"

lemma one_waiting_ok:
  assumes fr: "fresh_for sample_buckets 1 0 sv"
  shows "solving (one_waiting sv)" "waiting (one_waiting sv) = {0}" "heap_len (sv_pendingHeap (one_waiting sv)) = 1"
    "0 < sv_numBuckets (one_waiting sv)" "\<not> processed (one_waiting sv) 0"
    "\<exists>sv'. drain_heap 20 (1, 2) (one_waiting sv) = Inr (False, (1, 2), sv')"
proof -
  let ?sv = "solve_init sv"
  note st = solve_start [OF fr zero_less_one]
  have b: "sv_buckets ?sv = sample_buckets" "sv_numBuckets ?sv = ptr_bucketsPerBlock" "\<not> processed ?sv 0"
    using fr sample_buckets_ok(1) by (simp_all add: solve_init_def fresh_for_def geometry_def processed_def ptr_bucketsPerBlock_def)
  have len: "heap_len (sv_pendingHeap ?sv) = 0"
    using st(5) by (simp add: work_of_def)
  then have ini: "sv_pendingHeap ?sv = \<lparr>hp_indices = [], hp_sizes = []\<rparr>"
    using st(1) by (cases "sv_pendingHeap ?sv") (simp add: solving_def heap_of_buckets_def heap_ok_def heap_wf_def heap_len_def)
  let ?w = "one_waiting sv"
  have same: "?w\<lparr>sv_pendingHeap := \<lparr>hp_indices = [], hp_sizes = []\<rparr>\<rparr> = ?sv"
    using ini by (simp add: one_waiting_def)
  show "heap_len (sv_pendingHeap ?w) = 1" "waiting ?w = {0}"
    by (simp_all add: one_waiting_def heap_len_def waiting_def heap_contents_def heap_items_def)
  show nb: "0 < sv_numBuckets ?w" and np: "\<not> processed ?w 0"
    using b by (simp_all add: one_waiting_def ptr_bucketsPerBlock_def processed_def)
  show "solving ?w"
    unfolding one_waiting_def
    by (rule solving_heap [OF st(1)]) (use b in \<open>simp_all add: ptr_bucketsPerBlock_def heap_ok_def heap_wf_def heap_len_def is_heap_def heap_contents_def heap_items_def\<close>)
  have pop: "heap_pop (sv_pendingHeap ?w) = Inr ((0, 1), \<lparr>hp_indices = [], hp_sizes = []\<rparr>)"
    by (simp add: one_waiting_def heap_pop_def heap_swap_def swap_at_def heap_down.simps)
  have isp: "isProcessed ?sv 0 = Inr False"
    using b(3) st(1) b(2) by (auto simp: isProcessed_def processed_def solving_def geometry_def ptr_bucketsPerBlock_def get_at_def)
  have "single_key (sv_buckets ?sv)" "sv_buckets ?sv ! 0 \<noteq> []"
    unfolding b(1) single_key_def by (auto simp: sample_buckets_def intro!: exI [of _ 0])
  then obtain sv' where pr: "processBucketWithHeap 0 (1, 2) ?sv = Inr ((1, 2), sv')" "work_of sv' = work_of ?sv"
    using process_fits [OF st(1) _ b(3) single_free [OF st(1) _ _ b(3)]] b(2) by (auto simp: ptr_bucketsPerBlock_def)
  then have "sv_evictions sv' = 0" "heap_len (sv_pendingHeap sv') = 0"
    using st(5) by (simp_all add: work_of_def)
  then show "\<exists>sv'. drain_heap 20 (1, 2) ?w = Inr (False, (1, 2), sv')"
    using pr(1) pop isp same \<open>heap_len (sv_pendingHeap ?w) = 1\<close>
    by (simp add: drain_heap.simps [of 20 "(1, 2)" ?w] drain_heap.simps [of 20 "(1, 2)" sv'])
qed

theorem drain_heap_ends_witness:
  "\<exists>sv sv'. solving sv \<and> waiting sv = {0} \<and> \<not> processed sv 0 \<and> drain_heap 20 (1, 2) sv = Inr (False, (1, 2), sv') \<and>
    solving sv' \<and> heap_len (sv_pendingHeap sv') = 0 \<and> processed sv' 0"
proof -
  obtain sv where fr: "fresh_for sample_buckets 1 0 sv"
    using sample_fresh by blast
  note w = one_waiting_ok [OF fr]
  obtain sv' where d: "drain_heap 20 (1, 2) (one_waiting sv) = Inr (False, (1, 2), sv')"
    using w(6) by blast
  have "\<forall>i\<in>{0}. i < sv_numBuckets (one_waiting sv) \<and> (processed (one_waiting sv) i \<or> i \<in> waiting (one_waiting sv))"
    using w(2,4) by simp
  from drain_heap_ends [OF w(1) this, of 20 "(1, 2)"]
  have "solving sv' \<and> heap_len (sv_pendingHeap sv') = 0 \<and> processed sv' 0"
    unfolding d by auto
  then show ?thesis
    using w(1,2,5) d by blast
qed

lemma all_less_four: "(\<forall>i<4. P i) \<longleftrightarrow> P 0 \<and> P 1 \<and> P 2 \<and> P (3 :: nat)"
  by (auto simp: numeral_eq_Suc less_Suc_eq)

section \<open>Parts of the solver against their references\<close>

text \<open>C34: the pilot search, specialised and unrolled for every bucket size from one to eight and generic above,
  returns the least pilot whose slots are distinct and free, and reports that there is none otherwise.
  It never panics and leaves which slots are taken as it was.\<close>

theorem pilot_search_reference:
  assumes "search_wf sv" and "length bucket \<le> length (sv_slotsBuffer sv)" and "length bucket \<le> length (sv_foldedBuffer sv)"
  shows "\<exists>sv'. search_rel sv sv' \<and> findFreePilot bucket (length bucket) sv =
    (case least_free_pilot sv bucket of None \<Rightarrow> Inr (0, False, sv') | Some p \<Rightarrow> Inr (of_nat p, True, sv'))"
  using findFreePilot_ok [OF assms] unfolding search_result_def by (cases "least_free_pilot sv bucket") auto

theorem pilot_search_reference_witness:
  "\<exists>sv sv'. search_wf sv \<and> findFreePilot [sample_entry] 1 sv = Inr (0, True, sv')"
proof -
  obtain sv where fr: "fresh_for sample_buckets 1 0 sv"
    using sample_fresh by blast
  let ?sv = "solve_init sv"
  note st = solve_start [OF fr zero_less_one]
  have b: "sv_buckets ?sv = sample_buckets" "sv_numBuckets ?sv = ptr_bucketsPerBlock" "\<not> processed ?sv 0"
    using fr sample_buckets_ok(1) by (simp_all add: solve_init_def fresh_for_def geometry_def processed_def ptr_bucketsPerBlock_def)
  have "single_key (sv_buckets ?sv)" "sv_buckets ?sv ! 0 = [sample_entry]"
    unfolding b(1) single_key_def by (auto simp: sample_buckets_def intro!: exI [of _ 0])
  then have "free_pilot ?sv [sample_entry] 0"
    using single_free [OF st(1) _ _ b(3)] b(2) by (simp add: ptr_bucketsPerBlock_def)
  then have p: "least_free_pilot ?sv [sample_entry] = Some 0"
    by (simp add: least_free_pilot_def numPilotValues_def first_upto.simps [of _ 0])
  have geo: "geometry ?sv" and wf: "search_wf ?sv"
    using st(1) unfolding solving_def by blast+
  have "length [sample_entry] \<le> length (sv_slotsBuffer ?sv)" "length [sample_entry] \<le> length (sv_foldedBuffer ?sv)"
    using geo b by (auto simp: geometry_def sample_buckets_def ptr_bucketsPerBlock_def)
  from pilot_search_reference [OF wf this] show ?thesis
    using wf unfolding p by auto
qed

text \<open>C36: the counting sort of the buckets returns the stable sort by falling size: larger buckets first,
  buckets of one size by index.\<close>

theorem counting_sort_reference:
  assumes "length bstarts = Suc n" and "\<forall>i<n. unat (bstarts ! Suc i - bstarts ! i) = sz i"
    and "length result = n" and "\<forall>i<n. sz i < length counts \<and> sz i < length positions"
  shows "\<exists>c p. countingSortBucketsInto bstarts result counts positions = Inr (map of_nat (sort_key (\<lambda>i. - int (sz i)) [0..<n]), c, p)"
  using countingSort_ok [OF assms(1) _ assms(3), of sz counts positions] assms(2,4) by blast

theorem counting_sort_reference_witness:
  "\<exists>c p. countingSortBucketsInto [0, 1, 1, 4, 5] [0, 0, 0, 0] [0, 0, 0, 0] [0, 0, 0, 0] = Inr ([2, 0, 3, 1], c, p)"
proof -
  let ?sz = "\<lambda>i. [1, 0, 3, 1] ! i :: nat"
  have u: "[0..<4] = [0, 1, 2, 3]"
    by (simp add: upt_rec)
  have "\<forall>i<4. unat (([0, 1, 1, 4, 5] :: u16 list) ! Suc i - [0, 1, 1, 4, 5] ! i) = ?sz i"
    "\<forall>i<4. ?sz i < length [0, 0, 0, 0 :: nat] \<and> ?sz i < length [0, 0, 0, 0 :: nat]"
    by (simp_all add: all_less_four)
  from counting_sort_reference [OF _ this(1) _ this(2), of "[0, 0, 0, 0]"] show ?thesis
    by (simp add: u sort_key_def)
qed

text \<open>C10: the heap of evicted buckets implements a queue kept in order: any sequence of pushes and pops
  that the ordered list allows returns the same buckets from the heap, the largest first and the
  lowest index among equals, and leaves as many buckets in it.\<close>

theorem heap_refines_queue:
  assumes "\<forall>i z. Push i z \<in> set ops \<longrightarrow> i < 65536 \<and> z < 65536" and "queue_spec ops [] = Some (out, qs)"
  shows "\<exists>h. queue_run heap_push heap_pop ops newBucketHeap = Inr (out, h) \<and> heap_contents h = mset qs \<and> heap_len h = length qs"
proof -
  obtain h where "queue_run heap_push heap_pop ops newBucketHeap = Inr (out, h)" "heap_ok h" "heap_contents h = mset qs"
    using bucket_queue.run_refines [OF newBucketHeap_ok(1), of "[]" ops out qs] newBucketHeap_ok(2) assms by auto
  then show ?thesis
    using bucket_queue.len [of h] by auto
qed

theorem heap_refines_queue_witness:
  "\<exists>h. queue_run heap_push heap_pop [Push 3 2, Push 1 5, Push 0 2, Pop, Pop] newBucketHeap = Inr ([(1, 5), (0, 2)], h) \<and> heap_len h = 1"
  using heap_refines_queue [of "[Push 3 2, Push 1 5, Push 0 2, Pop, Pop]" "[(1, 5), (0, 2)]" "[(3, 2)]"]
  by (auto simp: enqueue_def before_def)

end
